(* ===== verification/Go_Prelude.thy ===== *)
theory Go_Prelude
  imports "HOL-Library.Finite_Map" "HOL-Library.Word" "HOL-Library.List_Lexorder"
    "HOL-Library.Char_ord" "HOL-Library.Multiset"
begin

text \<open>
  Shared vocabulary of the go-bitswap development: the Go types every component uses, the
  iteration order of Go maps, generic facts on finite maps, finite sets and folds, and the
  scheme by which a per-operation invariant becomes an invariant of every run.

  \<^item> A content identifier (\<open>cid.Cid\<close> of go-cid) is its binary key string, as \<open>KeyString()\<close>
    documents it; \<open>Undef\<close> is the empty one. A peer identifier (\<open>peer.ID\<close> of go-libp2p) is
    a Go string; the empty string is the "no peer" value the sources test against.
  \<^item> A Go map is a finite map (\<open>fmap\<close>), a \<open>cid.Set\<close> or a \<open>map[K]struct{}\<close> a finite set.
  \<^item> Go leaves the iteration order of \<open>range\<close> over a map unspecified. Every operation that
    ranges over a map takes the order as an argument \<open>ord\<close>, a function that lists the keys
    of a finite set; the locale \<open>go_range\<close> says what any such order satisfies, and theorems
    quantify over all of them.
\<close>

section \<open>Types\<close>

type_synonym cid = string
type_synonym peer = string
type_synonym int32 = "32 word"
type_synonym uint64 = "64 word"
type_synonym 'k order = "'k fset \<Rightarrow> 'k list"

abbreviation (input) Undef :: cid where
  "Undef \<equiv> []"

abbreviation (input) NoPeer :: peer where
  "NoPeer \<equiv> []"

section \<open>Theorem collections\<close>

named_theorems range_simps \<open>facts on the keys and values a range statement visits\<close>
named_theorems wantlist_simps \<open>lookups after the operations of a want list\<close>
named_theorems inv_intros \<open>preservation of a component's invariant by its operations\<close>

section \<open>Iterating over Go maps\<close>

locale go_range =
  fixes ord :: "'k fset \<Rightarrow> 'k list"
  assumes ord_distinct: "distinct (ord S)"
    and ord_set: "set (ord S) = fset S"
begin

lemma length_ord: "length (ord S) = fcard S"
  using distinct_card [OF ord_distinct, of S] by (simp add: ord_set fcard.rep_eq)

lemma fset_of_list_ord: "fset_of_list (ord S) = S"
  by (auto simp: fset_of_list_elem ord_set)

lemma ord_empty_iff: "ord S = [] \<longleftrightarrow> S = {||}"
  using length_ord [of S] by (metis fcard_0_eq length_0_conv)

end

text \<open>The order that visits the keys from the least to the greatest.\<close>

definition key_order :: "'k::linorder order" where
  "key_order S = sorted_list_of_fset S"

lemma sorted_list_of_fset_distinct: "distinct (sorted_list_of_fset S)"
  by (simp add: sorted_list_of_fset.rep_eq)

interpretation key_range: go_range key_order
  by unfold_locales (auto simp: key_order_def sorted_list_of_fset_distinct)

lemma go_range_key_order [simp]: "go_range key_order"
  by (rule key_range.go_range_axioms)

text \<open>The values a \<open>for _, v := range m\<close> visits, in order.\<close>

definition range_values :: "'k order \<Rightarrow> ('k, 'v) fmap \<Rightarrow> 'v list" where
  "range_values ord m = List.map_filter (fmlookup m) (ord (fmdom m))"

lemma map_filter_total:
  "(\<And>x. x \<in> set xs \<Longrightarrow> f x = Some (g x)) \<Longrightarrow> List.map_filter f xs = map g xs"
  by (induction xs) (auto simp: List.map_filter_def)

lemma range_values_eq:
  assumes "go_range ord"
  shows "range_values ord m = map (\<lambda>k. the (fmlookup m k)) (ord (fmdom m))"
  unfolding range_values_def
  by (rule map_filter_total) (auto simp: go_range.ord_set [OF assms] fmlookup_dom_iff)

lemma set_range_values [range_simps]:
  assumes "go_range ord"
  shows "set (range_values ord m) = {v. \<exists>k. fmlookup m k = Some v}"
  by (force simp: range_values_eq [OF assms] go_range.ord_set [OF assms] fmlookup_dom_iff)

lemma sum_list_ord [range_simps]:
  "go_range ord \<Longrightarrow> sum_list (map f (ord S)) = (\<Sum>x\<in>fset S. f x)"
  by (simp add: sum_list_distinct_conv_sum_set go_range.ord_distinct go_range.ord_set)

lemma sum_list_range_values [range_simps]:
  "go_range ord \<Longrightarrow>
     sum_list (map f (range_values ord m)) = (\<Sum>k\<in>fset (fmdom m). f (the (fmlookup m k)))"
  using sum_list_ord [of ord "\<lambda>k. f (the (fmlookup m k))" "fmdom m"]
  by (simp add: range_values_eq comp_def)

section \<open>Finite maps and sets\<close>

lemma fmap_eqI: "(\<And>k. fmlookup m k = fmlookup n k) \<Longrightarrow> m = n"
  by (rule fmap_ext)

lemma fmlookup_None_iff: "fmlookup m k = None \<longleftrightarrow> k |\<notin>| fmdom m"
  by (simp add: fmdom_notD fmdom_notI iffI)

lemma fset_eqI: "(\<And>x. x |\<in>| A \<longleftrightarrow> x |\<in>| B) \<Longrightarrow> A = B"
  by auto

text \<open>Two indices \<open>map[K]map[P]struct{}\<close> compare by membership when neither keeps an empty set.\<close>

definition members :: "('k, 'p fset) fmap \<Rightarrow> 'k \<Rightarrow> 'p fset" where
  "members m k = (case fmlookup m k of None \<Rightarrow> {||} | Some ps \<Rightarrow> ps)"

definition no_empty :: "('k, 'p fset) fmap \<Rightarrow> bool" where
  "no_empty m = fmpred (\<lambda>_ ps. ps \<noteq> {||}) m"

lemma no_emptyI: "(\<And>k. fmlookup m k \<noteq> Some {||}) \<Longrightarrow> no_empty m"
  unfolding no_empty_def by (rule fmpredI) auto

lemma no_emptyD: "no_empty m \<Longrightarrow> fmlookup m k \<noteq> Some {||}"
  by (auto simp: no_empty_def)

lemma no_empty_lookup:
  "no_empty m \<Longrightarrow> fmlookup m k = (if members m k = {||} then None else Some (members m k))"
  by (auto simp: members_def dest: no_emptyD split: option.splits)

section \<open>Folds\<close>

lemma fold_invariant:
  "P s \<Longrightarrow> (\<And>x s. x \<in> set xs \<Longrightarrow> P s \<Longrightarrow> P (f x s)) \<Longrightarrow> P (fold f xs s)"
  by (induction xs arbitrary: s) auto

lemma fold_preserves:
  "(\<And>x s. x \<in> set xs \<Longrightarrow> g (f x s) = g s) \<Longrightarrow> g (fold f xs s) = g s"
  by (induction xs arbitrary: s) auto

lemma fmlookup_fold_fmupd:
  "fmlookup (fold (\<lambda>k. fmupd k (f k)) ks m) x = (if x \<in> set ks then Some (f x) else fmlookup m x)"
  by (induction ks arbitrary: m) auto

lemma fmap_rebuild [range_simps]:
  "go_range ord \<Longrightarrow> fold (\<lambda>k. fmupd k (the (fmlookup m k))) (ord (fmdom m)) fmempty = m"
  by (rule fmap_eqI) (auto simp: fmlookup_fold_fmupd go_range.ord_set fmlookup_dom_iff)

lemma fmlookup_fold_fmdrop:
  "fmlookup (fold fmdrop ks m) x = (if x \<in> set ks then None else fmlookup m x)"
  by (induction ks arbitrary: m) auto

section \<open>Invariants of runs\<close>

text \<open>
  A component is a state with a step function, one step per call of an operation. An
  invariant that every admissible step keeps holds after any sequence of admissible steps.
\<close>

locale step_invariant =
  fixes step :: "'o \<Rightarrow> 's \<Rightarrow> 's"
    and ok :: "'o \<Rightarrow> bool"
    and Inv :: "'s \<Rightarrow> bool"
  assumes step_inv: "ok x \<Longrightarrow> Inv s \<Longrightarrow> Inv (step x s)"
begin

lemma run_inv: "Inv s \<Longrightarrow> list_all ok xs \<Longrightarrow> Inv (fold step xs s)"
  by (induction xs arbitrary: s) (auto intro: step_inv)

end

end
