(* ===== verification/Wantlist.thy ===== *)
theory Wantlist
  imports Go_Prelude
begin

text \<open>
  The want list of \<open>client/wantlist/wantlist.go\<close>: the keys a peer wants, with a priority and
  a type (want-block or want-have), and a memoised list of the entries sorted by priority.
  The message queue, the message and the ledger of the decision engine all build on it.
\<close>

section \<open>Data\<close>

datatype want_type = Wantlist_Block | Wantlist_Have

lemma want_type_not_block [simp]: "t \<noteq> Wantlist_Block \<longleftrightarrow> t = Wantlist_Have"
  by (cases t) auto

lemma want_type_not_have [simp]: "t \<noteq> Wantlist_Have \<longleftrightarrow> t = Wantlist_Block"
  by (cases t) auto

record wl_entry =
  Cid :: cid
  Priority :: int32
  WantType :: want_type

definition NewRefEntry :: "cid \<Rightarrow> int32 \<Rightarrow> wl_entry" where
  "NewRefEntry c p = \<lparr>Cid = c, Priority = p, WantType = Wantlist_Block\<rparr>"

definition entrySlice_Less :: "wl_entry \<Rightarrow> wl_entry \<Rightarrow> bool" where
  "entrySlice_Less e f \<longleftrightarrow> sint (Priority e) > sint (Priority f)"

record wantlist =
  wl_set :: "(cid, wl_entry) fmap"
  wl_cached :: "wl_entry list option"

section \<open>Operations\<close>

definition wl_New :: wantlist where
  "wl_New = \<lparr>wl_set = fmempty, wl_cached = None\<rparr>"

definition wl_Len :: "wantlist \<Rightarrow> nat" where
  "wl_Len w = fcard (fmdom (wl_set w))"

definition wl_delete :: "cid \<Rightarrow> wantlist \<Rightarrow> wantlist" where
  "wl_delete c w = w\<lparr>wl_set := fmdrop c (wl_set w), wl_cached := None\<rparr>"

definition wl_put :: "cid \<Rightarrow> wl_entry \<Rightarrow> wantlist \<Rightarrow> wantlist" where
  "wl_put c e w = w\<lparr>wl_cached := None, wl_set := fmupd c e (wl_set w)\<rparr>"

definition wl_Add :: "cid \<Rightarrow> int32 \<Rightarrow> want_type \<Rightarrow> wantlist \<Rightarrow> bool \<times> wantlist" where
  "wl_Add c priority wantType w =
     (if (case fmlookup (wl_set w) c of
            Some e \<Rightarrow> WantType e = Wantlist_Block \<or> wantType = Wantlist_Have
          | None \<Rightarrow> False)
      then (False, w)
      else (True, wl_put c \<lparr>Cid = c, Priority = priority, WantType = wantType\<rparr> w))"

definition wl_Remove :: "cid \<Rightarrow> wantlist \<Rightarrow> bool \<times> wantlist" where
  "wl_Remove c w =
     (case fmlookup (wl_set w) c of
        None \<Rightarrow> (False, w)
      | Some _ \<Rightarrow> (True, wl_delete c w))"

definition wl_RemoveType :: "cid \<Rightarrow> want_type \<Rightarrow> wantlist \<Rightarrow> bool \<times> wantlist" where
  "wl_RemoveType c wantType w =
     (case fmlookup (wl_set w) c of
        None \<Rightarrow> (False, w)
      | Some e \<Rightarrow>
          if WantType e = Wantlist_Block \<and> wantType = Wantlist_Have then (False, w)
          else (True, wl_delete c w))"

definition wl_Contains :: "cid \<Rightarrow> wantlist \<Rightarrow> wl_entry option" where
  "wl_Contains c w = fmlookup (wl_set w) c"

text \<open>
  \<open>sort.Sort\<close> promises a sorted permutation and no stability. The entries arrive in the
  arbitrary order of the map, so the stable sort used here reaches every such permutation as
  \<open>ord\<close> varies.
\<close>

definition wl_sort :: "wl_entry list \<Rightarrow> wl_entry list" where
  "wl_sort es = sort_key (\<lambda>e. - sint (Priority e)) es"

definition wl_Entries :: "cid order \<Rightarrow> wantlist \<Rightarrow> wl_entry list \<times> wantlist" where
  "wl_Entries ord w =
     (case wl_cached w of
        Some es \<Rightarrow> (es, w)
      | None \<Rightarrow>
          let es = wl_sort (range_values ord (wl_set w))
          in (es, w\<lparr>wl_cached := Some es\<rparr>))"

definition wl_add_all :: "wl_entry list \<Rightarrow> wantlist \<Rightarrow> wantlist" where
  "wl_add_all es w = fold (\<lambda>e w. snd (wl_Add (Cid e) (Priority e) (WantType e) w)) es w"

definition wl_Absorb :: "cid order \<Rightarrow> wantlist \<Rightarrow> wantlist \<Rightarrow> wantlist \<times> wantlist" where
  "wl_Absorb ord w other =
     (let (es, other') = wl_Entries ord other
      in (wl_add_all es (w\<lparr>wl_cached := None\<rparr>), other'))"

section \<open>Well-formed want lists\<close>

text \<open>
  Every entry is stored under its own key, and a cached list holds exactly the entries, once
  each, from the highest priority to the lowest.
\<close>

definition wl_sorted :: "wl_entry list \<Rightarrow> bool" where
  "wl_sorted es \<longleftrightarrow> sorted_wrt (\<lambda>e f. \<not> entrySlice_Less f e) es"

definition wl_keyed :: "wantlist \<Rightarrow> bool" where
  "wl_keyed w = fmpred (\<lambda>c e. Cid e = c) (wl_set w)"

definition wl_lists :: "wl_entry list \<Rightarrow> wantlist \<Rightarrow> bool" where
  "wl_lists es w \<longleftrightarrow> wl_sorted es \<and> distinct (map Cid es) \<and>
     (\<forall>e. e \<in> set es \<longleftrightarrow> fmlookup (wl_set w) (Cid e) = Some e)"

definition wl_inv :: "wantlist \<Rightarrow> bool" where
  "wl_inv w \<longleftrightarrow> wl_keyed w \<and> (\<forall>es. wl_cached w = Some es \<longrightarrow> wl_lists es w)"

section \<open>Lookups after each operation\<close>

lemma wl_Contains_New [simp, wantlist_simps]: "wl_Contains c wl_New = None"
  by (simp add: wl_Contains_def wl_New_def)

lemma wl_Contains_Add [wantlist_simps]:
  "wl_Contains d (snd (wl_Add c p t w)) =
     (if d = c then
        (case wl_Contains c w of
           None \<Rightarrow> Some \<lparr>Cid = c, Priority = p, WantType = t\<rparr>
         | Some e \<Rightarrow>
             if WantType e = Wantlist_Block \<or> t = Wantlist_Have then Some e
             else Some \<lparr>Cid = c, Priority = p, WantType = t\<rparr>)
      else wl_Contains d w)"
  by (auto simp: wl_Contains_def wl_Add_def wl_put_def split: option.splits)

lemma wl_Contains_Remove [wantlist_simps]:
  "wl_Contains d (snd (wl_Remove c w)) = (if d = c then None else wl_Contains d w)"
  by (auto simp: wl_Contains_def wl_Remove_def wl_delete_def split: option.splits)

lemma wl_Contains_RemoveType [wantlist_simps]:
  "wl_Contains d (snd (wl_RemoveType c t w)) =
     (if d = c \<and> \<not> (t = Wantlist_Have \<and>
          (\<exists>e. wl_Contains c w = Some e \<and> WantType e = Wantlist_Block))
      then None else wl_Contains d w)"
  by (auto simp: wl_Contains_def wl_RemoveType_def wl_delete_def split: option.splits)

lemma wl_Contains_uncached [simp, wantlist_simps]:
  "wl_Contains c (w\<lparr>wl_cached := x\<rparr>) = wl_Contains c w"
  by (simp add: wl_Contains_def)

lemma wl_set_Entries [simp]: "wl_set (snd (wl_Entries ord w)) = wl_set w"
  by (auto simp: wl_Entries_def Let_def split: option.splits)

lemma wl_Contains_Entries [simp, wantlist_simps]:
  "wl_Contains c (snd (wl_Entries ord w)) = wl_Contains c w"
  by (simp add: wl_Contains_def)

section \<open>The invariant is kept\<close>

lemma wl_keyedD: "wl_keyed w \<Longrightarrow> fmlookup (wl_set w) c = Some e \<Longrightarrow> Cid e = c"
  unfolding wl_keyed_def by (rule fmpredD)

lemma wl_inv_keyed: "wl_inv w \<Longrightarrow> wl_Contains c w = Some e \<Longrightarrow> Cid e = c"
  by (auto simp: wl_inv_def wl_Contains_def dest: wl_keyedD)

lemma wl_inv_New [inv_intros]: "wl_inv wl_New"
  by (simp add: wl_inv_def wl_New_def wl_keyed_def)

lemma wl_inv_delete: "wl_inv w \<Longrightarrow> wl_inv (wl_delete c w)"
  by (auto simp: wl_inv_def wl_delete_def wl_keyed_def intro!: fmpredI split: if_splits)

lemma wl_inv_put: "wl_inv w \<Longrightarrow> Cid e = c \<Longrightarrow> wl_inv (wl_put c e w)"
  by (auto simp: wl_inv_def wl_put_def wl_keyed_def intro!: fmpredI split: if_splits)

lemma wl_inv_Add [inv_intros]: "wl_inv w \<Longrightarrow> wl_inv (snd (wl_Add c p t w))"
  by (auto simp: wl_Add_def intro: wl_inv_put)

lemma wl_inv_Remove [inv_intros]: "wl_inv w \<Longrightarrow> wl_inv (snd (wl_Remove c w))"
  by (auto simp: wl_Remove_def intro: wl_inv_delete split: option.splits)

lemma wl_inv_RemoveType [inv_intros]: "wl_inv w \<Longrightarrow> wl_inv (snd (wl_RemoveType c t w))"
  by (auto simp: wl_RemoveType_def intro: wl_inv_delete split: option.splits)

lemma wl_sorted_sort: "wl_sorted (wl_sort es)"
proof -
  have "sorted (map (\<lambda>e. - sint (Priority e)) (wl_sort es))"
    unfolding wl_sort_def by (rule sorted_sort_key)
  then show ?thesis
    by (simp add: wl_sorted_def entrySlice_Less_def sorted_wrt_map not_less)
qed

lemma wl_lists_fresh:
  assumes ord: "go_range ord" and keyed: "wl_keyed w"
  shows "wl_lists (wl_sort (range_values ord (wl_set w))) w"
proof -
  have keys: "map Cid (range_values ord (wl_set w)) = ord (fmdom (wl_set w))"
    by (auto simp: range_values_eq [OF ord] go_range.ord_set [OF ord] fmlookup_dom_iff
          intro!: map_idI wl_keyedD [OF keyed])
  have "mset (wl_sort (range_values ord (wl_set w))) = mset (range_values ord (wl_set w))"
    by (simp add: wl_sort_def)
  then have "mset (map Cid (wl_sort (range_values ord (wl_set w)))) = mset (ord (fmdom (wl_set w)))"
    by (simp flip: keys)
  then have "distinct (map Cid (wl_sort (range_values ord (wl_set w))))"
    using go_range.ord_distinct [OF ord] mset_eq_imp_distinct_iff by blast
  moreover have "\<forall>e. e \<in> set (wl_sort (range_values ord (wl_set w))) \<longleftrightarrow>
      fmlookup (wl_set w) (Cid e) = Some e"
    using keyed
    by (auto simp: wl_sort_def set_range_values [OF ord] dest: wl_keyedD)
  ultimately show ?thesis
    by (simp add: wl_lists_def wl_sorted_sort)
qed

lemma wl_lists_cong: "wl_set w = wl_set v \<Longrightarrow> wl_lists es w = wl_lists es v"
  by (simp add: wl_lists_def)

lemma wl_Entries_lists:
  "go_range ord \<Longrightarrow> wl_inv w \<Longrightarrow> wl_lists (fst (wl_Entries ord w)) w"
  by (auto simp: wl_Entries_def Let_def wl_inv_def intro: wl_lists_fresh split: option.splits)

lemma wl_inv_Entries [inv_intros]:
  "go_range ord \<Longrightarrow> wl_inv w \<Longrightarrow> wl_inv (snd (wl_Entries ord w))"
  by (auto simp: wl_Entries_def Let_def wl_inv_def wl_keyed_def
      wl_lists_cong [of "w\<lparr>wl_cached := Some es\<rparr>" w for es]
      intro: wl_lists_fresh [unfolded wl_keyed_def] split: option.splits)

lemma wl_inv_uncached [inv_intros]: "wl_inv w \<Longrightarrow> wl_inv (w\<lparr>wl_cached := None\<rparr>)"
  by (simp add: wl_inv_def wl_keyed_def)

lemma wl_inv_add_all [inv_intros]: "wl_inv w \<Longrightarrow> wl_inv (wl_add_all es w)"
  unfolding wl_add_all_def by (rule fold_invariant) (auto intro: wl_inv_Add)

lemma wl_inv_Absorb [inv_intros]: "wl_inv w \<Longrightarrow> wl_inv (fst (wl_Absorb ord w other))"
  by (auto simp: wl_Absorb_def split_beta intro: wl_inv_add_all wl_inv_uncached)

section \<open>Stores of wants: a want-block wins\<close>

text \<open>
  The want list, the want list of a message and the pending list of the message queue share
  one rule for repeated wants: a want-block replaces a want-have and is never replaced by
  one. The contract of such a store, and what it gives for a sequence of requests.
\<close>

locale want_store =
  fixes add :: "cid \<Rightarrow> int32 \<Rightarrow> want_type \<Rightarrow> 's \<Rightarrow> 's"
    and wtype :: "'s \<Rightarrow> cid \<Rightarrow> want_type option"
  assumes wtype_add:
    "wtype (add c p t s) d =
       (if d = c then Some (if wtype s c = Some Wantlist_Block then Wantlist_Block else t)
        else wtype s d)"
begin

definition adds :: "(cid \<times> int32 \<times> want_type) list \<Rightarrow> 's \<Rightarrow> 's" where
  "adds ws s = fold (\<lambda>(c, p, t). add c p t) ws s"

lemma wtype_adds:
  "wtype (adds ws s) c =
     (if wtype s c = Some Wantlist_Block \<or> (\<exists>p. (c, p, Wantlist_Block) \<in> set ws) then Some Wantlist_Block
      else if (\<exists>p. (c, p, Wantlist_Have) \<in> set ws) then Some Wantlist_Have
      else wtype s c)"
proof (induction ws arbitrary: s)
  case Nil
  then show ?case by (simp add: adds_def)
next
  case (Cons w ws)
  obtain d p t where w: "w = (d, p, t)" by (cases w)
  have "wtype (adds (w # ws) s) c = wtype (adds ws (add d p t s)) c"
    by (simp add: adds_def w)
  then show ?case
    by (cases t) (auto simp: Cons.IH wtype_add w)
qed

end

interpretation wl_store: want_store
  "\<lambda>c p t w. snd (wl_Add c p t w)" "\<lambda>w c. map_option WantType (wl_Contains c w)"
  by unfold_locales (auto simp: wantlist_simps split: option.splits)

section \<open>Absorbing another want list\<close>

definition stronger_entry :: "wl_entry option \<Rightarrow> wl_entry option \<Rightarrow> wl_entry option" where
  "stronger_entry a b =
     (case (a, b) of
        (None, _) \<Rightarrow> b
      | (_, None) \<Rightarrow> a
      | (Some e, Some f) \<Rightarrow>
          if WantType e = Wantlist_Block \<or> WantType f = Wantlist_Have then a else b)"

lemma wl_Contains_add_all_notin:
  "c \<notin> Cid ` set es \<Longrightarrow> wl_Contains c (wl_add_all es w) = wl_Contains c w"
  unfolding wl_add_all_def by (rule fold_preserves) (auto simp: wantlist_simps)

lemma wl_add_all_Cons:
  "wl_add_all (e # es) w = wl_add_all es (snd (wl_Add (Cid e) (Priority e) (WantType e) w))"
  by (simp add: wl_add_all_def)

lemma wl_Contains_add_all_in:
  "distinct (map Cid es) \<Longrightarrow> e \<in> set es \<Longrightarrow>
     wl_Contains (Cid e) (wl_add_all es w) = stronger_entry (wl_Contains (Cid e) w) (Some e)"
proof (induction es arbitrary: w)
  case Nil
  then show ?case by simp
next
  case (Cons f es)
  then show ?case
    by (auto simp: wl_add_all_Cons wl_Contains_add_all_notin wl_Contains_Add stronger_entry_def
        image_iff split: option.splits)
qed

lemma wl_Contains_Absorb:
  assumes "go_range ord" "wl_inv other"
  shows "wl_Contains c (fst (wl_Absorb ord w other)) =
           stronger_entry (wl_Contains c w) (wl_Contains c other)"
proof -
  let ?es = "fst (wl_Entries ord other)"
  have ls: "wl_lists ?es other"
    using assms by (rule wl_Entries_lists)
  have abs: "fst (wl_Absorb ord w other) = wl_add_all ?es (w\<lparr>wl_cached := None\<rparr>)"
    by (simp add: wl_Absorb_def split_beta)
  show ?thesis
  proof (cases "wl_Contains c other")
    case None
    then have "c \<notin> Cid ` set ?es"
      using ls by (auto simp: wl_lists_def wl_Contains_def)
    then show ?thesis
      using None by (simp add: abs wl_Contains_add_all_notin stronger_entry_def split: option.splits)
  next
    case (Some e)
    then have "Cid e = c" "e \<in> set ?es"
      using ls wl_inv_keyed [OF assms(2) Some] by (auto simp: wl_lists_def wl_Contains_def)
    then show ?thesis
      using ls Some wl_Contains_add_all_in [of ?es e] by (auto simp: abs wl_lists_def)
  qed
qed

section \<open>Runs of a want list\<close>

datatype wl_op =
    WL_Add cid int32 want_type
  | WL_Remove cid
  | WL_RemoveType cid want_type
  | WL_Entries
  | WL_Absorb wantlist

fun wl_step :: "cid order \<Rightarrow> wl_op \<Rightarrow> wantlist \<Rightarrow> wantlist" where
  "wl_step ord (WL_Add c p t) w = snd (wl_Add c p t w)"
| "wl_step ord (WL_Remove c) w = snd (wl_Remove c w)"
| "wl_step ord (WL_RemoveType c t) w = snd (wl_RemoveType c t w)"
| "wl_step ord WL_Entries w = snd (wl_Entries ord w)"
| "wl_step ord (WL_Absorb other) w = fst (wl_Absorb ord w other)"

lemma wl_inv_step: "go_range ord \<Longrightarrow> wl_inv w \<Longrightarrow> wl_inv (wl_step ord x w)"
  by (cases x) (auto intro: inv_intros)

interpretation wl_runs: step_invariant "wl_step key_order" "\<lambda>_. True" wl_inv
  by unfold_locales (simp add: wl_inv_step)

lemma wl_inv_run: "go_range ord \<Longrightarrow> wl_inv (fold (wl_step ord) xs wl_New)"
  by (rule fold_invariant) (auto intro: wl_inv_step wl_inv_New)

section \<open>Properties\<close>

text \<open>
  After any sequence of operations on a fresh want list, \<open>Entries\<close> returns exactly the
  entries of the list, each once, in order of decreasing (signed) priority: the memoised
  slice is never stale.
\<close>

theorem wl_Entries_after_run:
  assumes "go_range ord"
  shows "wl_lists (fst (wl_Entries ord (fold (wl_step ord) xs wl_New))) (fold (wl_step ord) xs wl_New)"
  using assms by (rule wl_Entries_lists) (rule wl_inv_run [OF assms])

theorem wl_Entries_after_run_witness:
  "wl_lists
     (fst (wl_Entries key_order (fold (wl_step key_order)
        [WL_Add ''a'' 1 Wantlist_Have, WL_Entries, WL_Add ''b'' 2 Wantlist_Block, WL_Remove ''a''] wl_New)))
     (fold (wl_step key_order)
        [WL_Add ''a'' 1 Wantlist_Have, WL_Entries, WL_Add ''b'' 2 Wantlist_Block, WL_Remove ''a''] wl_New)"
  using wl_Entries_after_run [OF go_range_key_order] by blast

text \<open>
  \<open>Absorb\<close> merges two want lists key by key: a key of one list only is kept as it is, and
  for a key of both the entry of the receiver stays unless it is a want-have and the other
  list has a want-block.
\<close>

theorem wl_Absorb_merges:
  assumes "go_range ord" "wl_inv other"
  shows "wl_Contains c (fst (wl_Absorb ord w other)) =
           stronger_entry (wl_Contains c w) (wl_Contains c other)"
  using assms by (rule wl_Contains_Absorb)

theorem wl_Absorb_merges_witness:
  "wl_Contains ''a'' (fst (wl_Absorb key_order
       (snd (wl_Add ''a'' 1 Wantlist_Have wl_New)) (snd (wl_Add ''a'' 7 Wantlist_Block wl_New)))) =
     Some \<lparr>Cid = ''a'', Priority = 7, WantType = Wantlist_Block\<rparr>"
  using wl_Absorb_merges [OF go_range_key_order wl_inv_Add [OF wl_inv_New]]
  by (simp add: stronger_entry_def wl_Contains_Add)

text \<open>
  A want-block wins: after any sequence of \<open>Add\<close> calls the type of a key is want-block if
  it was so before or any of the calls asked for the block, and otherwise want-have if any
  call asked for it.
\<close>

theorem wl_Add_block_wins:
  "map_option WantType (wl_Contains c (fold (\<lambda>(c, p, t) w. snd (wl_Add c p t w)) ws w)) =
     (if map_option WantType (wl_Contains c w) = Some Wantlist_Block \<or>
         (\<exists>p. (c, p, Wantlist_Block) \<in> set ws) then Some Wantlist_Block
      else if (\<exists>p. (c, p, Wantlist_Have) \<in> set ws) then Some Wantlist_Have
      else map_option WantType (wl_Contains c w))"
  using wl_store.wtype_adds [where ws = ws and s = w and c = c] by (simp only: wl_store.adds_def)

end
