(* ===== verification/Message.thy ===== *)
theory Message
  imports Wantlist
begin

unbundle bit_operations_syntax

text \<open>
  The Bitswap message of \<open>message/message.go\<close> with the sizes of \<open>message/pb/message.pb.go\<close> it
  uses: want-list entries (embedding the entries of a want list), blocks, HAVE / DONT_HAVE
  presences, the pending-bytes count, and the conversion to and from the protobuf structures.

  The map of a message holds pointers to entries; every pointer is created by \<open>addEntry\<close> and
  held by one map only, so the model stores the entries themselves. \<open>Clone\<close>, which copies the
  pointers, is not modelled.
\<close>

section \<open>Data\<close>

type_synonym bytes = "8 word list"

datatype presence_type = Presence_Have | Presence_DontHave

record block =
  block_cid :: cid
  RawData :: bytes

record msg_entry = wl_entry +
  Cancel :: bool
  SendDontHave :: bool

record message =
  m_full :: bool
  m_wantlist :: "(cid, msg_entry) fmap"
  m_blocks :: "(cid, block) fmap"
  m_presences :: "(cid, presence_type) fmap"
  m_pendingBytes :: int32

text \<open>The protobuf structures.\<close>

record pb_entry =
  pb_Block :: cid
  pb_Priority :: int32
  pb_Cancel :: bool
  pb_WantType :: want_type
  pb_SendDontHave :: bool

record pb_block =
  pb_Prefix :: bytes
  pb_Data :: bytes

record pb_presence =
  pb_Cid :: cid
  pb_Type :: presence_type

record pb_message =
  pb_Entries :: "pb_entry list"
  pb_Full :: bool
  pb_Blocks :: "bytes list"
  pb_Payload :: "pb_block list"
  pb_BlockPresences :: "pb_presence list"
  pb_PendingBytes :: int32

section \<open>Sizes on the wire\<close>

text \<open>\<open>bits.Len64\<close>: the number of bits needed to write the value.\<close>

function bit_len :: "int \<Rightarrow> nat" where
  "bit_len n = (if n \<le> 0 then 0 else Suc (bit_len (n div 2)))"
  by auto
termination
  by (relation "measure nat") auto

declare bit_len.simps [simp del]

definition sovMessage :: "uint64 \<Rightarrow> nat" where
  "sovMessage x = (bit_len (uint (x OR 1)) + 6) div 7"

text \<open>The numbers of the enum constants in \<open>message.proto\<close>.\<close>

fun wantTypeNum :: "want_type \<Rightarrow> uint64" where
  "wantTypeNum Wantlist_Block = 0"
| "wantTypeNum Wantlist_Have = 1"

fun presenceNum :: "presence_type \<Rightarrow> uint64" where
  "presenceNum Presence_Have = 0"
| "presenceNum Presence_DontHave = 1"

definition pb_Cid_Size :: "cid \<Rightarrow> nat" where
  "pb_Cid_Size c = length c"

definition pb_entry_Size :: "pb_entry \<Rightarrow> nat" where
  "pb_entry_Size e =
     (let l = pb_Cid_Size (pb_Block e) in
      1 + l + sovMessage (of_nat l) +
      (if pb_Priority e \<noteq> 0 then 1 + sovMessage (scast (pb_Priority e)) else 0) +
      (if pb_Cancel e then 2 else 0) +
      (if wantTypeNum (pb_WantType e) \<noteq> 0 then 1 + sovMessage (wantTypeNum (pb_WantType e)) else 0) +
      (if pb_SendDontHave e then 2 else 0))"

definition pb_presence_Size :: "pb_presence \<Rightarrow> nat" where
  "pb_presence_Size p =
     (let l = pb_Cid_Size (pb_Cid p) in
      1 + l + sovMessage (of_nat l) +
      (if presenceNum (pb_Type p) \<noteq> 0 then 1 + sovMessage (presenceNum (pb_Type p)) else 0))"

definition ToPB :: "msg_entry \<Rightarrow> pb_entry" where
  "ToPB e = \<lparr>pb_Block = Cid e, pb_Priority = Priority e, pb_Cancel = Cancel e,
             pb_WantType = WantType e, pb_SendDontHave = SendDontHave e\<rparr>"

definition Entry_Size :: "msg_entry \<Rightarrow> nat" where
  "Entry_Size e = pb_entry_Size (ToPB e)"

definition maxEntrySize :: "cid \<Rightarrow> nat" where
  "maxEntrySize c = Entry_Size
     \<lparr>Cid = c, Priority = 2 ^ 31 - 1, WantType = Wantlist_Have, Cancel = True, SendDontHave = True\<rparr>"

definition BlockPresenceSize :: "cid \<Rightarrow> nat" where
  "BlockPresenceSize c = pb_presence_Size \<lparr>pb_Cid = c, pb_Type = Presence_Have\<rparr>"

section \<open>Operations\<close>

definition newMsg :: "bool \<Rightarrow> message" where
  "newMsg full = \<lparr>m_full = full, m_wantlist = fmempty, m_blocks = fmempty,
                  m_presences = fmempty, m_pendingBytes = 0\<rparr>"

text \<open>\<open>Reset\<close> deletes the keys of each map one by one.\<close>

definition delete_keys :: "'k order \<Rightarrow> ('k, 'v) fmap \<Rightarrow> ('k, 'v) fmap" where
  "delete_keys ord m = fold fmdrop (ord (fmdom m)) m"

definition msg_Reset :: "cid order \<Rightarrow> bool \<Rightarrow> message \<Rightarrow> message" where
  "msg_Reset ord full m =
     m\<lparr>m_full := full,
       m_wantlist := delete_keys ord (m_wantlist m),
       m_blocks := delete_keys ord (m_blocks m),
       m_presences := delete_keys ord (m_presences m),
       m_pendingBytes := 0\<rparr>"

definition addEntry ::
  "cid \<Rightarrow> int32 \<Rightarrow> bool \<Rightarrow> want_type \<Rightarrow> bool \<Rightarrow> message \<Rightarrow> nat \<times> message" where
  "addEntry c priority cancel wantType sendDontHave m =
     (case fmlookup (m_wantlist m) c of
        Some e \<Rightarrow>
          let e1 = (if WantType e = wantType then e\<lparr>Priority := priority\<rparr> else e);
              e2 = (if cancel then e1\<lparr>Cancel := cancel\<rparr> else e1);
              e3 = (if sendDontHave then e2\<lparr>SendDontHave := sendDontHave\<rparr> else e2);
              e4 = (if wantType = Wantlist_Block \<and> WantType e3 = Wantlist_Have
                    then e3\<lparr>WantType := wantType\<rparr> else e3)
          in (0, m\<lparr>m_wantlist := fmupd c e4 (m_wantlist m)\<rparr>)
      | None \<Rightarrow>
          let e = \<lparr>Cid = c, Priority = priority, WantType = wantType,
                   Cancel = cancel, SendDontHave = sendDontHave\<rparr>
          in (Entry_Size e, m\<lparr>m_wantlist := fmupd c e (m_wantlist m)\<rparr>))"

definition msg_Cancel :: "cid \<Rightarrow> message \<Rightarrow> nat \<times> message" where
  "msg_Cancel k m = addEntry k 0 True Wantlist_Block False m"

definition AddEntry :: "cid \<Rightarrow> int32 \<Rightarrow> want_type \<Rightarrow> bool \<Rightarrow> message \<Rightarrow> nat \<times> message" where
  "AddEntry k priority wantType sendDontHave m = addEntry k priority False wantType sendDontHave m"

definition msg_Remove :: "cid \<Rightarrow> message \<Rightarrow> message" where
  "msg_Remove k m = m\<lparr>m_wantlist := fmdrop k (m_wantlist m)\<rparr>"

definition AddBlock :: "block \<Rightarrow> message \<Rightarrow> message" where
  "AddBlock b m = m\<lparr>m_presences := fmdrop (block_cid b) (m_presences m),
                    m_blocks := fmupd (block_cid b) b (m_blocks m)\<rparr>"

definition AddBlockPresence :: "cid \<Rightarrow> presence_type \<Rightarrow> message \<Rightarrow> message" where
  "AddBlockPresence c t m =
     (case fmlookup (m_blocks m) c of
        Some _ \<Rightarrow> m
      | None \<Rightarrow> m\<lparr>m_presences := fmupd c t (m_presences m)\<rparr>)"

definition AddHave :: "cid \<Rightarrow> message \<Rightarrow> message" where
  "AddHave c m = AddBlockPresence c Presence_Have m"

definition AddDontHave :: "cid \<Rightarrow> message \<Rightarrow> message" where
  "AddDontHave c m = AddBlockPresence c Presence_DontHave m"

definition SetPendingBytes :: "int32 \<Rightarrow> message \<Rightarrow> message" where
  "SetPendingBytes n m = m\<lparr>m_pendingBytes := n\<rparr>"

definition msg_Empty :: "message \<Rightarrow> bool" where
  "msg_Empty m \<longleftrightarrow> fcard (fmdom (m_blocks m)) = 0 \<and> fcard (fmdom (m_wantlist m)) = 0 \<and>
     fcard (fmdom (m_presences m)) = 0"

definition msg_Wantlist :: "cid order \<Rightarrow> message \<Rightarrow> msg_entry list" where
  "msg_Wantlist ord m = range_values ord (m_wantlist m)"

definition Blocks :: "cid order \<Rightarrow> message \<Rightarrow> block list" where
  "Blocks ord m = range_values ord (m_blocks m)"

definition BlockPresences :: "cid order \<Rightarrow> message \<Rightarrow> (cid \<times> presence_type) list" where
  "BlockPresences ord m =
     List.map_filter (\<lambda>c. map_option (Pair c) (fmlookup (m_presences m) c)) (ord (fmdom (m_presences m)))"

definition getBlockPresenceByType :: "cid order \<Rightarrow> presence_type \<Rightarrow> message \<Rightarrow> cid list" where
  "getBlockPresenceByType ord t m =
     filter (\<lambda>c. fmlookup (m_presences m) c = Some t) (ord (fmdom (m_presences m)))"

definition Haves :: "cid order \<Rightarrow> message \<Rightarrow> cid list" where
  "Haves ord m = getBlockPresenceByType ord Presence_Have m"

definition DontHaves :: "cid order \<Rightarrow> message \<Rightarrow> cid list" where
  "DontHaves ord m = getBlockPresenceByType ord Presence_DontHave m"

definition msg_Size :: "cid order \<Rightarrow> message \<Rightarrow> nat" where
  "msg_Size ord m =
     sum_list (map (\<lambda>b. length (RawData b)) (Blocks ord m)) +
     sum_list (map BlockPresenceSize (ord (fmdom (m_presences m)))) +
     sum_list (map Entry_Size (msg_Wantlist ord m))"

section \<open>Conversion to and from the protobuf structures\<close>

text \<open>
  The parts of go-cid and go-block-format the conversion calls: \<open>c.Prefix().Bytes()\<close>,
  \<open>PrefixFromBytes\<close> followed by \<open>Sum\<close> (\<open>None\<close> when either returns an error),
  \<open>NewBlockWithCid\<close> and \<open>NewBlock\<close>.
\<close>

record cidlib =
  lib_Prefix :: "cid \<Rightarrow> bytes"
  lib_PrefixSum :: "bytes \<Rightarrow> bytes \<Rightarrow> cid option"
  lib_NewBlockWithCid :: "bytes \<Rightarrow> cid \<Rightarrow> block option"
  lib_NewBlock :: "bytes \<Rightarrow> block"

datatype msg_error = ErrCidMissing | ErrCidLibrary | ErrBlockLibrary

definition ToProtoV0 :: "cid order \<Rightarrow> message \<Rightarrow> pb_message" where
  "ToProtoV0 ord m =
     \<lparr>pb_Entries = map ToPB (msg_Wantlist ord m), pb_Full = m_full m,
      pb_Blocks = map RawData (Blocks ord m), pb_Payload = [], pb_BlockPresences = [],
      pb_PendingBytes = 0\<rparr>"

definition ToProtoV1 :: "cidlib \<Rightarrow> cid order \<Rightarrow> message \<Rightarrow> pb_message" where
  "ToProtoV1 lib ord m =
     \<lparr>pb_Entries = map ToPB (msg_Wantlist ord m), pb_Full = m_full m,
      pb_Blocks = [],
      pb_Payload = map (\<lambda>b. \<lparr>pb_Prefix = lib_Prefix lib (block_cid b), pb_Data = RawData b\<rparr>) (Blocks ord m),
      pb_BlockPresences = map (\<lambda>(c, t). \<lparr>pb_Cid = c, pb_Type = t\<rparr>) (BlockPresences ord m),
      pb_PendingBytes = m_pendingBytes m\<rparr>"

fun proto_entries :: "pb_entry list \<Rightarrow> message \<Rightarrow> msg_error + message" where
  "proto_entries [] m = Inr m"
| "proto_entries (e # es) m =
     (if pb_Block e = Undef then Inl ErrCidMissing
      else proto_entries es (snd (addEntry (pb_Block e) (pb_Priority e) (pb_Cancel e)
             (pb_WantType e) (pb_SendDontHave e) m)))"

fun proto_payload :: "cidlib \<Rightarrow> pb_block list \<Rightarrow> message \<Rightarrow> msg_error + message" where
  "proto_payload lib [] m = Inr m"
| "proto_payload lib (b # bs) m =
     (case lib_PrefixSum lib (pb_Prefix b) (pb_Data b) of
        None \<Rightarrow> Inl ErrCidLibrary
      | Some c \<Rightarrow>
          (case lib_NewBlockWithCid lib (pb_Data b) c of
             None \<Rightarrow> Inl ErrBlockLibrary
           | Some blk \<Rightarrow> proto_payload lib bs (AddBlock blk m)))"

fun proto_presences :: "pb_presence list \<Rightarrow> message \<Rightarrow> msg_error + message" where
  "proto_presences [] m = Inr m"
| "proto_presences (p # ps) m =
     (if pb_Cid p = Undef then Inl ErrCidMissing
      else proto_presences ps (AddBlockPresence (pb_Cid p) (pb_Type p) m))"

definition newMessageFromProto :: "cidlib \<Rightarrow> pb_message \<Rightarrow> msg_error + message" where
  "newMessageFromProto lib pbm =
     (case proto_entries (pb_Entries pbm) (newMsg (pb_Full pbm)) of
        Inl e \<Rightarrow> Inl e
      | Inr m1 \<Rightarrow>
          let m2 = fold (\<lambda>d. AddBlock (lib_NewBlock lib d)) (pb_Blocks pbm) m1 in
          (case proto_payload lib (pb_Payload pbm) m2 of
             Inl e \<Rightarrow> Inl e
           | Inr m3 \<Rightarrow>
               (case proto_presences (pb_BlockPresences pbm) m3 of
                  Inl e \<Rightarrow> Inl e
                | Inr m4 \<Rightarrow> Inr (m4\<lparr>m_pendingBytes := pb_PendingBytes pbm\<rparr>))))"

section \<open>Well-formed messages\<close>

text \<open>
  Entries and blocks are stored under their own keys, and no key has both a block and a
  presence.
\<close>

definition msg_inv :: "message \<Rightarrow> bool" where
  "msg_inv m \<longleftrightarrow> fmpred (\<lambda>c e. Cid e = c) (m_wantlist m) \<and>
     fmpred (\<lambda>c b. block_cid b = c) (m_blocks m) \<and>
     fmdom (m_blocks m) |\<inter>| fmdom (m_presences m) = {||}"

lemma msg_inv_entryD: "msg_inv m \<Longrightarrow> fmlookup (m_wantlist m) c = Some e \<Longrightarrow> Cid e = c"
  by (auto simp: msg_inv_def fmpred_iff)

lemma msg_inv_blockD: "msg_inv m \<Longrightarrow> fmlookup (m_blocks m) c = Some b \<Longrightarrow> block_cid b = c"
  by (auto simp: msg_inv_def fmpred_iff)

lemma msg_inv_disjoint: "msg_inv m \<Longrightarrow> c |\<in>| fmdom (m_presences m) \<Longrightarrow> c |\<notin>| fmdom (m_blocks m)"
  by (auto simp: msg_inv_def)

lemma msg_invI:
  assumes "\<And>c e. fmlookup (m_wantlist m) c = Some e \<Longrightarrow> Cid e = c"
    and "\<And>c b. fmlookup (m_blocks m) c = Some b \<Longrightarrow> block_cid b = c"
    and "\<And>c. c |\<in>| fmdom (m_presences m) \<Longrightarrow> c |\<notin>| fmdom (m_blocks m)"
  shows "msg_inv m"
  using assms unfolding msg_inv_def by (intro conjI fmpredI) auto

lemma msg_inv_newMsg [inv_intros]: "msg_inv (newMsg full)"
  by (rule msg_invI) (auto simp: newMsg_def)

lemma fmlookup_addEntry:
  "fmlookup (m_wantlist (snd (addEntry c p cancel t sdh m))) d =
     (if d = c then
        Some (case fmlookup (m_wantlist m) c of
          None \<Rightarrow> \<lparr>Cid = c, Priority = p, WantType = t, Cancel = cancel, SendDontHave = sdh\<rparr>
        | Some e \<Rightarrow> e\<lparr>Priority := (if WantType e = t then p else Priority e),
                      WantType := (if t = Wantlist_Block then t else WantType e),
                      Cancel := (Cancel e \<or> cancel),
                      SendDontHave := (SendDontHave e \<or> sdh)\<rparr>)
      else fmlookup (m_wantlist m) d)"
  by (auto simp: addEntry_def Let_def split: option.splits)

lemma addEntry_frame [simp]:
  "m_blocks (snd (addEntry c p cancel t sdh m)) = m_blocks m"
  "m_presences (snd (addEntry c p cancel t sdh m)) = m_presences m"
  "m_full (snd (addEntry c p cancel t sdh m)) = m_full m"
  "m_pendingBytes (snd (addEntry c p cancel t sdh m)) = m_pendingBytes m"
  by (auto simp: addEntry_def Let_def split: option.splits)

lemma msg_inv_addEntry [inv_intros]: "msg_inv m \<Longrightarrow> msg_inv (snd (addEntry c p cancel t sdh m))"
  by (rule msg_invI)
    (auto simp: fmlookup_addEntry dest: msg_inv_entryD msg_inv_blockD msg_inv_disjoint
       split: if_splits option.splits)

lemma msg_inv_Remove [inv_intros]: "msg_inv m \<Longrightarrow> msg_inv (msg_Remove c m)"
  by (rule msg_invI)
    (auto simp: msg_Remove_def dest: msg_inv_entryD msg_inv_blockD msg_inv_disjoint split: if_splits)

lemma msg_inv_AddBlock [inv_intros]: "msg_inv m \<Longrightarrow> msg_inv (AddBlock b m)"
  by (rule msg_invI)
    (auto simp: AddBlock_def dest: msg_inv_entryD msg_inv_blockD msg_inv_disjoint split: if_splits)

lemma msg_inv_AddBlockPresence [inv_intros]: "msg_inv m \<Longrightarrow> msg_inv (AddBlockPresence c t m)"
  by (rule msg_invI)
    (auto simp: AddBlockPresence_def fmlookup_None_iff
       dest: msg_inv_entryD msg_inv_blockD msg_inv_disjoint split: if_splits option.splits)

lemma delete_keys_empty: "go_range ord \<Longrightarrow> delete_keys ord m = fmempty"
  by (rule fmap_eqI) (auto simp: delete_keys_def fmlookup_fold_fmdrop go_range.ord_set intro: fmdom_notD)

lemma msg_Reset_newMsg: "go_range ord \<Longrightarrow> msg_Reset ord full m = newMsg full"
  by (simp add: msg_Reset_def newMsg_def delete_keys_empty)

interpretation msg_store: want_store
  "\<lambda>c p t m. snd (AddEntry c p t sdh m)" "\<lambda>m c. map_option WantType (fmlookup (m_wantlist m) c)" for sdh
  by unfold_locales (auto simp: AddEntry_def fmlookup_addEntry split: option.splits)

section \<open>Round trip through the protobuf structures\<close>

text \<open>
  A block is valid when its identifier is what the library computes from the prefix of the
  identifier and the data, which is how content addressing is documented.
\<close>

definition block_valid :: "cidlib \<Rightarrow> block \<Rightarrow> bool" where
  "block_valid lib b \<longleftrightarrow>
     lib_PrefixSum lib (lib_Prefix lib (block_cid b)) (RawData b) = Some (block_cid b) \<and>
     lib_NewBlockWithCid lib (RawData b) (block_cid b) = Some b"

lemma proto_entries_ToPB:
  assumes "distinct (map Cid es)" "Undef \<notin> Cid ` set es"
    and "\<And>e. e \<in> set es \<Longrightarrow> fmlookup (m_wantlist m) (Cid e) = None"
  shows "proto_entries (map ToPB es) m =
           Inr (m\<lparr>m_wantlist := fold (\<lambda>e. fmupd (Cid e) e) es (m_wantlist m)\<rparr>)"
  using assms
proof (induction es arbitrary: m)
  case Nil
  then show ?case by simp
next
  case (Cons e es)
  have step: "snd (addEntry (Cid e) (Priority e) (Cancel e) (WantType e) (SendDontHave e) m) =
      m\<lparr>m_wantlist := fmupd (Cid e) e (m_wantlist m)\<rparr>"
    using Cons.prems(3) [of e] by (cases e) (simp add: addEntry_def Let_def)
  show ?case
    using Cons.prems by (simp add: ToPB_def step) (subst Cons.IH [unfolded ToPB_def], auto)
qed

lemma proto_payload_blocks:
  assumes "\<And>b. b \<in> set bs \<Longrightarrow> block_valid lib b"
  shows "proto_payload lib (map (\<lambda>b. \<lparr>pb_Prefix = lib_Prefix lib (block_cid b), pb_Data = RawData b\<rparr>) bs) m =
           Inr (fold AddBlock bs m)"
  using assms by (induction bs arbitrary: m) (auto simp: block_valid_def)

lemma fold_AddBlock:
  "fmdom (m_presences m) = {||} \<Longrightarrow>
     fold AddBlock bs m = m\<lparr>m_blocks := fold (\<lambda>b. fmupd (block_cid b) b) bs (m_blocks m)\<rparr>"
proof (induction bs arbitrary: m)
  case (Cons b bs)
  have "fmdrop (block_cid b) (m_presences m) = m_presences m"
    using Cons.prems by (intro fmap_eqI) (auto intro!: fmdom_notD [symmetric])
  then show ?case
    using Cons by (simp add: AddBlock_def)
qed simp

lemma proto_presences_pairs:
  assumes "Undef \<notin> fst ` set ps" "\<And>c t. (c, t) \<in> set ps \<Longrightarrow> fmlookup (m_blocks m) c = None"
  shows "proto_presences (map (\<lambda>(c, t). \<lparr>pb_Cid = c, pb_Type = t\<rparr>) ps) m =
           Inr (m\<lparr>m_presences := fold (\<lambda>(c, t). fmupd c t) ps (m_presences m)\<rparr>)"
  using assms
proof (induction ps arbitrary: m)
  case (Cons p ps)
  obtain c t where p: "p = (c, t)" by (cases p)
  have "AddBlockPresence c t m = m\<lparr>m_presences := fmupd c t (m_presences m)\<rparr>"
    using Cons.prems(2) [of c t] by (simp add: AddBlockPresence_def p)
  then show ?case
    using Cons.prems by (simp add: p) (subst Cons.IH, auto)
qed simp

lemma BlockPresences_eq:
  assumes "go_range ord"
  shows "BlockPresences ord m =
           map (\<lambda>c. (c, the (fmlookup (m_presences m) c))) (ord (fmdom (m_presences m)))"
  unfolding BlockPresences_def
  by (rule map_filter_total) (auto simp: go_range.ord_set [OF assms] fmlookup_dom_iff)

lemma rebuild_keyed:
  assumes "go_range ord" and "\<And>k v. fmlookup m k = Some v \<Longrightarrow> key v = k"
  shows "fold (\<lambda>v. fmupd (key v) v) (range_values ord m) fmempty = m"
proof -
  have "fold (\<lambda>v. fmupd (key v) v) (range_values ord m) fmempty =
      fold (\<lambda>k. fmupd k (the (fmlookup m k))) (ord (fmdom m)) fmempty"
    using assms(2)
    by (auto simp: range_values_eq [OF assms(1)] fold_map comp_def go_range.ord_set [OF assms(1)]
        fmlookup_dom_iff intro!: fold_cong)
  then show ?thesis
    by (simp add: fmap_rebuild [OF assms(1)])
qed

lemma map_key_range_values:
  assumes "go_range ord" and "\<And>k v. fmlookup m k = Some v \<Longrightarrow> key v = k"
  shows "map key (range_values ord m) = ord (fmdom m)"
  using assms(2)
  by (auto simp: range_values_eq [OF assms(1)] go_range.ord_set [OF assms(1)] fmlookup_dom_iff
      intro!: map_idI)

lemma proto_entries_wantlist:
  assumes "msg_inv m" "go_range ord" "Undef |\<notin>| fmdom (m_wantlist m)"
  shows "proto_entries (map ToPB (msg_Wantlist ord m)) (newMsg full) =
           Inr ((newMsg full)\<lparr>m_wantlist := m_wantlist m\<rparr>)"
proof -
  have keys: "map Cid (msg_Wantlist ord m) = ord (fmdom (m_wantlist m))"
    unfolding msg_Wantlist_def
    by (rule map_key_range_values) (auto intro: assms msg_inv_entryD [OF assms(1)])
  have "distinct (map Cid (msg_Wantlist ord m))" "Undef \<notin> Cid ` set (msg_Wantlist ord m)"
    using assms(3) go_range.ord_distinct [OF assms(2)] go_range.ord_set [OF assms(2)]
    by (simp_all add: keys flip: set_map)
  then show ?thesis
    using rebuild_keyed [OF assms(2) msg_inv_entryD [OF assms(1)]]
    by (subst proto_entries_ToPB) (auto simp: newMsg_def msg_Wantlist_def)
qed

section \<open>Decoded messages\<close>

lemma proto_entries_inv: "proto_entries es m = Inr m' \<Longrightarrow> msg_inv m \<Longrightarrow> msg_inv m'"
  by (induction es arbitrary: m) (auto intro: msg_inv_addEntry split: if_splits)

lemma proto_payload_inv: "proto_payload lib bs m = Inr m' \<Longrightarrow> msg_inv m \<Longrightarrow> msg_inv m'"
  by (induction bs arbitrary: m) (auto intro: msg_inv_AddBlock split: option.splits)

lemma proto_presences_inv: "proto_presences ps m = Inr m' \<Longrightarrow> msg_inv m \<Longrightarrow> msg_inv m'"
  by (induction ps arbitrary: m) (auto intro: msg_inv_AddBlockPresence split: if_splits)

lemma fold_AddBlock_inv: "msg_inv m \<Longrightarrow> msg_inv (fold (\<lambda>d. AddBlock (f d)) ds m)"
  by (rule fold_invariant) (auto intro: msg_inv_AddBlock)

lemma msg_inv_pendingBytes: "msg_inv (m\<lparr>m_pendingBytes := n\<rparr>) = msg_inv m"
  by (simp add: msg_inv_def)

lemma proto_entries_error:
  "(\<exists>e. proto_entries es m = Inl e) \<longleftrightarrow> (\<exists>e\<in>set es. pb_Block e = Undef)"
  by (induction es arbitrary: m) auto

lemma proto_entries_error_kind: "proto_entries es m = Inl err \<Longrightarrow> err = ErrCidMissing"
  by (induction es arbitrary: m) (auto split: if_splits)

lemma proto_presences_error:
  "(\<exists>e. proto_presences ps m = Inl e) \<longleftrightarrow> (\<exists>p\<in>set ps. pb_Cid p = Undef)"
  by (induction ps arbitrary: m) auto

lemma proto_entries_dom:
  "proto_entries es m = Inr m' \<Longrightarrow>
     fmdom (m_wantlist m') = fmdom (m_wantlist m) |\<union>| fset_of_list (map pb_Block es) \<and>
     m_blocks m' = m_blocks m \<and> m_presences m' = m_presences m \<and> m_full m' = m_full m"
proof (induction es arbitrary: m)
  case (Cons e es)
  have "fmdom (m_wantlist (snd (addEntry c p x t s m))) = finsert c (fmdom (m_wantlist m))" for c p x t s
    by (auto simp: addEntry_def Let_def split: option.splits)
  then show ?case
    using Cons by (fastforce split: if_splits)
qed simp

lemma proto_payload_wantlist: "proto_payload lib bs m = Inr m' \<Longrightarrow> m_wantlist m' = m_wantlist m"
  by (induction bs arbitrary: m) (auto simp: AddBlock_def split: option.splits)

lemma proto_presences_wantlist: "proto_presences ps m = Inr m' \<Longrightarrow> m_wantlist m' = m_wantlist m"
  by (induction ps arbitrary: m) (auto simp: AddBlockPresence_def split: if_splits option.splits)

lemma proto_payload_error:
  "(\<exists>e. proto_payload lib bs m = Inl e) \<longleftrightarrow>
     (\<exists>b\<in>set bs. lib_PrefixSum lib (pb_Prefix b) (pb_Data b) = None \<or>
        (\<exists>c. lib_PrefixSum lib (pb_Prefix b) (pb_Data b) = Some c \<and>
             lib_NewBlockWithCid lib (pb_Data b) c = None))"
  by (induction bs arbitrary: m) (auto split: option.splits)

section \<open>Properties\<close>

text \<open>
  A message whose keys are defined and whose blocks are valid survives the protobuf structures:
  encoding it with \<open>ToProtoV1\<close> and decoding the result with \<open>newMessageFromProto\<close> gives the
  message back, whatever order the maps are visited in. The theory \<open>Wire\<close> carries this to the
  bytes.
\<close>

lemma message_proto_roundtrip:
  assumes "msg_inv m" "go_range ord"
    and "Undef |\<notin>| fmdom (m_wantlist m)" "Undef |\<notin>| fmdom (m_presences m)"
    and "\<And>c b. fmlookup (m_blocks m) c = Some b \<Longrightarrow> block_valid lib b"
  shows "newMessageFromProto lib (ToProtoV1 lib ord m) = Inr m"
proof -
  let ?m1 = "(newMsg (m_full m))\<lparr>m_wantlist := m_wantlist m\<rparr>"
  let ?m3 = "?m1\<lparr>m_blocks := m_blocks m\<rparr>"
  have blocks: "fold AddBlock (Blocks ord m) ?m1 = ?m3"
    using rebuild_keyed [OF assms(2) msg_inv_blockD [OF assms(1)]]
    by (subst fold_AddBlock) (simp_all add: newMsg_def Blocks_def)
  have valid: "block_valid lib b" if "b \<in> set (Blocks ord m)" for b
    using that assms(5) by (auto simp: Blocks_def set_range_values [OF assms(2)])
  have pairs: "c |\<in>| fmdom (m_presences m)" if "(c, t) \<in> set (BlockPresences ord m)" for c t
    using that by (auto simp: BlockPresences_eq [OF assms(2)] go_range.ord_set [OF assms(2)] fmlookup_dom_iff)
  have "fold (\<lambda>(c, t). fmupd c t) (BlockPresences ord m) fmempty = m_presences m"
    by (simp add: BlockPresences_eq [OF assms(2)] fold_map comp_def fmap_rebuild [OF assms(2)])
  then have "proto_presences (map (\<lambda>(c, t). \<lparr>pb_Cid = c, pb_Type = t\<rparr>) (BlockPresences ord m)) ?m3 =
      Inr (?m3\<lparr>m_presences := m_presences m\<rparr>)"
    using pairs assms(4) msg_inv_disjoint [OF assms(1)]
    by (subst proto_presences_pairs) (fastforce simp: newMsg_def intro!: fmdom_notD)+
  then show ?thesis
    using proto_payload_blocks [OF valid] proto_entries_wantlist [OF assms(1-3), of "m_full m"] blocks
    by (simp add: newMessageFromProto_def ToProtoV1_def newMsg_def)
qed


definition example_lib :: cidlib where
  "example_lib = \<lparr>lib_Prefix = (\<lambda>_. []),
     lib_PrefixSum = (\<lambda>p d. Some (map (\<lambda>b. char_of (unat b)) d)),
     lib_NewBlockWithCid = (\<lambda>d c. Some \<lparr>block_cid = c, RawData = d\<rparr>),
     lib_NewBlock = (\<lambda>d. \<lparr>block_cid = map (\<lambda>b. char_of (unat b)) d, RawData = d\<rparr>)\<rparr>"

definition example_msg :: message where
  "example_msg = AddHave ''h'' (AddBlock \<lparr>block_cid = ''A'', RawData = [65]\<rparr>
     (snd (msg_Cancel ''x'' (snd (AddEntry ''w'' 5 Wantlist_Have True (newMsg True))))))"

text \<open>
  Whatever bytes arrive, a message that decodes is well formed: entries and blocks are
  stored under their own identifiers, no identifier has both a block and a presence, and
  exactly the identifiers of the wire entries appear in its want list.
\<close>

theorem decoded_message_wellformed:
  assumes "newMessageFromProto lib pbm = Inr m"
  shows "msg_inv m \<and> fmdom (m_wantlist m) = fset_of_list (map pb_Block (pb_Entries pbm))"
proof -
  obtain m1 where m1: "proto_entries (pb_Entries pbm) (newMsg (pb_Full pbm)) = Inr m1"
    using assms by (auto simp: newMessageFromProto_def split: sum.splits)
  define m2 where "m2 = fold (\<lambda>d. AddBlock (lib_NewBlock lib d)) (pb_Blocks pbm) m1"
  obtain m3 m4 where m3: "proto_payload lib (pb_Payload pbm) m2 = Inr m3"
    and m4: "proto_presences (pb_BlockPresences pbm) m3 = Inr m4"
    and m: "m = m4\<lparr>m_pendingBytes := pb_PendingBytes pbm\<rparr>"
    using assms m1 by (auto simp: newMessageFromProto_def Let_def m2_def split: sum.splits)
  have "msg_inv m"
    unfolding m msg_inv_pendingBytes
    by (intro proto_presences_inv [OF m4] proto_payload_inv [OF m3])
      (auto simp: m2_def intro: fold_AddBlock_inv proto_entries_inv [OF m1] msg_inv_newMsg)
  moreover have "m_wantlist m2 = m_wantlist m1"
    unfolding m2_def by (rule fold_preserves) (simp add: AddBlock_def)
  moreover have "m_wantlist m3 = m_wantlist m2"
    using m3 by (rule proto_payload_wantlist)
  moreover have "m_wantlist m4 = m_wantlist m3"
    using m4 by (rule proto_presences_wantlist)
  ultimately show ?thesis
    using proto_entries_dom [OF m1] by (simp add: m newMsg_def)
qed

theorem decoded_message_wellformed_witness:
  "msg_inv example_msg \<and>
   fmdom (m_wantlist example_msg) =
     fset_of_list (map pb_Block (pb_Entries (ToProtoV1 example_lib key_order example_msg)))"
proof (rule decoded_message_wellformed)
  show "newMessageFromProto example_lib (ToProtoV1 example_lib key_order example_msg) = Inr example_msg"
    by code_simp
qed

text \<open>
  C28. Decoding fails exactly when a want-list entry has no identifier, a payload block does not
  give an identifier or a block, or a presence has no identifier; a missing identifier in the
  want list is reported as such.
\<close>

theorem decode_error_iff:
  "((\<exists>e. newMessageFromProto lib pbm = Inl e) \<longleftrightarrow>
      (\<exists>e\<in>set (pb_Entries pbm). pb_Block e = Undef) \<or>
      (\<exists>b\<in>set (pb_Payload pbm). lib_PrefixSum lib (pb_Prefix b) (pb_Data b) = None \<or>
         (\<exists>c. lib_PrefixSum lib (pb_Prefix b) (pb_Data b) = Some c \<and>
              lib_NewBlockWithCid lib (pb_Data b) c = None)) \<or>
      (\<exists>p\<in>set (pb_BlockPresences pbm). pb_Cid p = Undef)) \<and>
   ((\<exists>e\<in>set (pb_Entries pbm). pb_Block e = Undef) \<longrightarrow>
      newMessageFromProto lib pbm = Inl ErrCidMissing)"
proof (cases "proto_entries (pb_Entries pbm) (newMsg (pb_Full pbm))")
  case (Inl e)
  then show ?thesis
    using proto_entries_error [of "pb_Entries pbm" "newMsg (pb_Full pbm)"] proto_entries_error_kind [OF Inl]
    by (auto simp: newMessageFromProto_def)
next
  case (Inr m1)
  define m2 where "m2 = fold (\<lambda>d. AddBlock (lib_NewBlock lib d)) (pb_Blocks pbm) m1"
  have no_entry: "\<not> (\<exists>e\<in>set (pb_Entries pbm). pb_Block e = Undef)"
    using proto_entries_error [of "pb_Entries pbm" "newMsg (pb_Full pbm)"] Inr by auto
  show ?thesis
  proof (cases "proto_payload lib (pb_Payload pbm) m2")
    case (Inl e)
    then show ?thesis
      using no_entry Inr proto_payload_error [of lib "pb_Payload pbm" m2]
      by (auto simp: newMessageFromProto_def m2_def)
  next
    case (Inr m3)
    then show ?thesis
      using no_entry \<open>proto_entries _ _ = Inr m1\<close> proto_payload_error [of lib "pb_Payload pbm" m2]
        proto_presences_error [of "pb_BlockPresences pbm" m3]
      by (auto simp: newMessageFromProto_def m2_def split: sum.splits)
  qed
qed

theorem decode_error_iff_witness:
  "newMessageFromProto example_lib
     \<lparr>pb_Entries = [\<lparr>pb_Block = Undef, pb_Priority = 1, pb_Cancel = False, pb_WantType = Wantlist_Block,
                     pb_SendDontHave = False\<rparr>],
      pb_Full = False, pb_Blocks = [], pb_Payload = [], pb_BlockPresences = [], pb_PendingBytes = 0\<rparr>
   = Inl ErrCidMissing"
  using decode_error_iff [of example_lib
     "\<lparr>pb_Entries = [\<lparr>pb_Block = Undef, pb_Priority = 1, pb_Cancel = False, pb_WantType = Wantlist_Block,
                      pb_SendDontHave = False\<rparr>],
       pb_Full = False, pb_Blocks = [], pb_Payload = [], pb_BlockPresences = [], pb_PendingBytes = 0\<rparr>"]
  by simp

end
