(* ===== verification/Ledgers.thy ===== *)
theory Ledgers
  imports Message
begin

text \<open>
  The bookkeeping of the decision engine: the ledger of one partner
  (\<open>server/internal/decision/ledger.go\<close>), the index from keys to the peers that wait for them
  (\<open>peer_ledger.go\<close>), the task data and the task merger (\<open>taskmerger.go\<close>), and the block
  store manager's queries (\<open>blockstoremanager.go\<close>).
\<close>

section \<open>Indices from keys to peers\<close>

text \<open>
  Both the decision engine and the peer want manager keep a \<open>map[cid.Cid]map[peer.ID]struct{}\<close>
  and drop a key when its last peer goes. The contract of such an index.
\<close>

locale peer_index =
  fixes ins :: "'k \<Rightarrow> 'p \<Rightarrow> 's \<Rightarrow> 's"
    and del :: "'k \<Rightarrow> 'p \<Rightarrow> 's \<Rightarrow> 's"
    and peers :: "'s \<Rightarrow> 'k \<Rightarrow> 'p fset"
    and clean :: "'s \<Rightarrow> bool"
  assumes peers_ins: "peers (ins k p s) k' = (if k' = k then finsert p (peers s k) else peers s k')"
    and peers_del: "peers (del k p s) k' = (if k' = k then peers s k |-| {|p|} else peers s k')"
    and clean_ins: "clean s \<Longrightarrow> clean (ins k p s)"
    and clean_del: "clean s \<Longrightarrow> clean (del k p s)"
begin

lemma peers_ins_all:
  "q |\<in>| peers (fold (\<lambda>x. ins (f x) p) xs s) k \<longleftrightarrow> q |\<in>| peers s k \<or> (q = p \<and> k \<in> f ` set xs)"
  by (induction xs arbitrary: s) (auto simp: peers_ins)

lemma peers_del_all:
  "q |\<in>| peers (fold (\<lambda>x. del (f x) p) xs s) k \<longleftrightarrow> q |\<in>| peers s k \<and> \<not> (q = p \<and> k \<in> f ` set xs)"
  by (induction xs arbitrary: s) (auto simp: peers_del)

lemma clean_ins_all: "clean s \<Longrightarrow> clean (fold (\<lambda>x. ins (f x) p) xs s)"
  by (rule fold_invariant) (auto intro: clean_ins)

lemma clean_del_all: "clean s \<Longrightarrow> clean (fold (\<lambda>x. del (f x) p) xs s)"
  by (rule fold_invariant) (auto intro: clean_del)

end

section \<open>The peer ledger\<close>

type_synonym peer_ledger = "(cid, peer fset) fmap"

definition newPeerLedger :: peer_ledger where
  "newPeerLedger = fmempty"

definition pl_Wants :: "peer \<Rightarrow> cid \<Rightarrow> peer_ledger \<Rightarrow> peer_ledger" where
  "pl_Wants p k l =
     (let m = (case fmlookup l k of None \<Rightarrow> {||} | Some m \<Rightarrow> m)
      in fmupd k (finsert p m) l)"

definition pl_CancelWant :: "peer \<Rightarrow> cid \<Rightarrow> peer_ledger \<Rightarrow> peer_ledger" where
  "pl_CancelWant p k l =
     (case fmlookup l k of
        None \<Rightarrow> l
      | Some m \<Rightarrow>
          let m' = m |-| {|p|}
          in if fcard m' = 0 then fmdrop k l else fmupd k m' l)"

definition pl_Peers :: "peer order \<Rightarrow> cid \<Rightarrow> peer_ledger \<Rightarrow> peer list" where
  "pl_Peers ord k l = (case fmlookup l k of None \<Rightarrow> [] | Some m \<Rightarrow> ord m)"

interpretation pl_index: peer_index
  "\<lambda>k p. pl_Wants p k" "\<lambda>k p. pl_CancelWant p k" members no_empty
proof unfold_locales
  fix k k' :: cid and p :: peer and s :: peer_ledger
  show "members (pl_Wants p k s) k' = (if k' = k then finsert p (members s k) else members s k')"
    by (auto simp: pl_Wants_def members_def Let_def split: option.splits)
  show "members (pl_CancelWant p k s) k' = (if k' = k then members s k |-| {|p|} else members s k')"
    by (auto simp: pl_CancelWant_def members_def Let_def split: option.splits if_splits)
  show "no_empty (pl_Wants p k s)" if "no_empty s"
    using that by (intro no_emptyI) (auto simp: pl_Wants_def Let_def dest: no_emptyD split: if_splits option.splits)
  show "no_empty (pl_CancelWant p k s)" if "no_empty s"
    using that by (intro no_emptyI) (auto simp: pl_CancelWant_def Let_def dest: no_emptyD split: if_splits option.splits)
qed

lemma set_pl_Peers: "go_range ord \<Longrightarrow> set (pl_Peers ord k l) = fset (members l k)"
  by (auto simp: pl_Peers_def members_def go_range.ord_set split: option.splits)

section \<open>The ledger of a partner\<close>

record ledger =
  Partner :: peer
  wantList :: wantlist

definition newLedger :: "peer \<Rightarrow> ledger" where
  "newLedger p = \<lparr>Partner = p, wantList = wl_New\<rparr>"

definition ledger_Wants :: "cid \<Rightarrow> int32 \<Rightarrow> want_type \<Rightarrow> ledger \<Rightarrow> ledger" where
  "ledger_Wants k priority wantType l = l\<lparr>wantList := snd (wl_Add k priority wantType (wantList l))\<rparr>"

definition ledger_CancelWant :: "cid \<Rightarrow> ledger \<Rightarrow> bool \<times> ledger" where
  "ledger_CancelWant k l = (let (b, w) = wl_Remove k (wantList l) in (b, l\<lparr>wantList := w\<rparr>))"

definition WantListContains :: "cid \<Rightarrow> ledger \<Rightarrow> wl_entry option" where
  "WantListContains k l = wl_Contains k (wantList l)"

definition ledger_Entries :: "cid order \<Rightarrow> ledger \<Rightarrow> wl_entry list \<times> ledger" where
  "ledger_Entries ord l = (let (es, w) = wl_Entries ord (wantList l) in (es, l\<lparr>wantList := w\<rparr>))"

section \<open>Tasks and the task merger\<close>

record taskData =
  IsWantBlock :: bool
  td_SendDontHave :: bool
  BlockSize :: nat
  HaveBlock :: bool

text \<open>The fields of \<open>peertask.Task\<close> (go-peertaskqueue) the engine fills in.\<close>

record task =
  Topic :: cid
  task_Priority :: int
  Work :: nat
  Data :: taskData

definition HasNewInfo :: "task \<Rightarrow> task list \<Rightarrow> bool" where
  "HasNewInfo t existing =
     (let haveSize = (\<exists>et\<in>set existing. HaveBlock (Data et));
          isWantBlock = (\<exists>et\<in>set existing. IsWantBlock (Data et))
      in if \<not> isWantBlock \<and> IsWantBlock (Data t) then True
         else if \<not> haveSize \<and> HaveBlock (Data t) then True
         else False)"

definition Merge :: "task \<Rightarrow> task \<Rightarrow> task" where
  "Merge t existing =
     (let new = Data t;
          d1 = (if \<not> HaveBlock (Data existing) \<and> HaveBlock new
                then (Data existing)\<lparr>HaveBlock := HaveBlock new, BlockSize := BlockSize new\<rparr>
                else Data existing);
          upgrade = (\<not> IsWantBlock d1 \<and> IsWantBlock new);
          resize = (upgrade \<and> (\<not> HaveBlock d1 \<or> HaveBlock new));
          d2 = (if upgrade then d1\<lparr>IsWantBlock := True\<rparr> else d1);
          d3 = (if resize then d2\<lparr>HaveBlock := HaveBlock new\<rparr> else d2);
          w3 = (if resize then Work t else Work existing);
          w4 = (if IsWantBlock d3 \<and> HaveBlock d3 then BlockSize d3 else w3)
      in existing\<lparr>Data := d3, Work := w4\<rparr>)"

text \<open>A task that sends a block is accounted with the size of the block.\<close>

definition task_sized :: "task \<Rightarrow> bool" where
  "task_sized t \<longleftrightarrow> (IsWantBlock (Data t) \<and> HaveBlock (Data t) \<longrightarrow> Work t = BlockSize (Data t))"

section \<open>Block store queries\<close>

text \<open>
  \<open>jobPerKey\<close> hands one job per key to the worker pool and stops at the first job the pool
  refuses (the context is done, or the manager is stopping): \<open>accept\<close> says which jobs are
  taken. The jobs taken all run; each stores its result under its own key, so their order
  does not matter. The block store is a parameter; \<open>None\<close> is an error of its \<open>GetSize\<close> / \<open>Get\<close>,
  which the jobs log and skip.
\<close>

fun jobPerKey :: "('k \<Rightarrow> bool) \<Rightarrow> 'k list \<Rightarrow> 'k list \<times> bool" where
  "jobPerKey accept [] = ([], True)"
| "jobPerKey accept (k # ks) =
     (if accept k then (let (js, ok) = jobPerKey accept ks in (k # js, ok)) else ([], False))"

definition store_results :: "(cid \<Rightarrow> 'v option) \<Rightarrow> cid list \<Rightarrow> (cid, 'v) fmap" where
  "store_results get js =
     fold (\<lambda>c res. case get c of None \<Rightarrow> res | Some v \<Rightarrow> fmupd c v res) js fmempty"

definition getBlockSizes ::
  "(cid \<Rightarrow> bool) \<Rightarrow> (cid \<Rightarrow> nat option) \<Rightarrow> cid list \<Rightarrow> (cid, nat) fmap \<times> bool" where
  "getBlockSizes accept getSize ks =
     (if length ks = 0 then (fmempty, True)
      else (let (js, ok) = jobPerKey accept ks in (store_results getSize js, ok)))"

definition getBlocks ::
  "(cid \<Rightarrow> bool) \<Rightarrow> (cid \<Rightarrow> block option) \<Rightarrow> cid list \<Rightarrow> (cid, block) fmap \<times> bool" where
  "getBlocks accept get ks =
     (if length ks = 0 then (fmempty, True)
      else (let (js, ok) = jobPerKey accept ks in (store_results get js, ok)))"

lemma jobPerKey_all: "jobPerKey accept ks = (js, True) \<Longrightarrow> js = ks"
  by (induction ks arbitrary: js) (auto split: if_splits prod.splits)

lemma jobPerKey_refused: "snd (jobPerKey accept ks) \<longleftrightarrow> (\<forall>k\<in>set ks. accept k)"
  by (induction ks) (auto split: prod.splits)

lemma fmlookup_store_fold:
  "fmlookup (fold (\<lambda>c res. case get c of None \<Rightarrow> res | Some v \<Rightarrow> fmupd c v res) js m) k =
     (if k \<in> set js \<and> get k \<noteq> None then get k else fmlookup m k)"
  by (induction js arbitrary: m) (auto split: option.splits)

lemma fmlookup_store_results: "fmlookup (store_results get js) k = (if k \<in> set js then get k else None)"
  by (auto simp: store_results_def fmlookup_store_fold)

lemma getBlockSizes_ok:
  "getBlockSizes accept getSize ks = (res, True) \<Longrightarrow>
     fmlookup res k = (if k \<in> set ks then getSize k else None)"
  by (auto simp: getBlockSizes_def fmlookup_store_results dest: jobPerKey_all split: if_splits prod.splits)

lemma getBlocks_ok:
  "getBlocks accept get ks = (res, True) \<Longrightarrow>
     fmlookup res k = (if k \<in> set ks then get k else None)"
  by (auto simp: getBlocks_def fmlookup_store_results dest: jobPerKey_all split: if_splits prod.splits)

section \<open>Properties\<close>

text \<open>
  Merging a pushed task into an existing one loses nothing: the result asks for the block
  if either did, knows the size if either did, keeps the topic and priority, and is again
  accounted with the block's size when it sends a block.
\<close>

theorem Merge_joins:
  assumes "task_sized existing"
  shows "IsWantBlock (Data (Merge t existing)) = (IsWantBlock (Data existing) \<or> IsWantBlock (Data t)) \<and>
     HaveBlock (Data (Merge t existing)) = (HaveBlock (Data existing) \<or> HaveBlock (Data t)) \<and>
     (HaveBlock (Data existing) \<longrightarrow> BlockSize (Data (Merge t existing)) = BlockSize (Data existing)) \<and>
     (\<not> HaveBlock (Data existing) \<and> HaveBlock (Data t) \<longrightarrow>
        BlockSize (Data (Merge t existing)) = BlockSize (Data t)) \<and>
     Topic (Merge t existing) = Topic existing \<and>
     task_Priority (Merge t existing) = task_Priority existing \<and>
     task_sized (Merge t existing)"
  using assms by (auto simp: Merge_def Let_def task_sized_def)

definition example_task :: "bool \<Rightarrow> bool \<Rightarrow> nat \<Rightarrow> task" where
  "example_task wantBlock have n =
     \<lparr>Topic = ''k'', task_Priority = 1, Work = n,
      Data = \<lparr>IsWantBlock = wantBlock, td_SendDontHave = True, BlockSize = n, HaveBlock = have\<rparr>\<rparr>"

theorem Merge_joins_witness:
  "task_sized (example_task False True 10) \<and>
   IsWantBlock (Data (Merge (example_task True True 10) (example_task False True 10)))"
  using Merge_joins [of "example_task False True 10" "example_task True True 10"]
  by (auto simp: task_sized_def example_task_def)

text \<open>
  The two methods of the merger agree: a task the queue would drop, because the merger
  sees no new information in it, would not change the existing task, and once merged a task
  holds no new information.
\<close>

theorem HasNewInfo_Merge:
  assumes "task_sized existing"
  shows "(\<not> HasNewInfo t [existing] \<longrightarrow> Merge t existing = existing) \<and>
         \<not> HasNewInfo t [Merge t existing]"
  using assms by (auto simp: HasNewInfo_def Merge_def Let_def task_sized_def)

theorem HasNewInfo_Merge_witness:
  "\<not> HasNewInfo (example_task True True 10) [example_task True True 10] \<and>
   Merge (example_task True True 10) (example_task True True 10) = example_task True True 10 \<and>
   \<not> HasNewInfo (example_task True True 10)
       [Merge (example_task True True 10) (example_task True True 10)]"
  using HasNewInfo_Merge [of "example_task True True 10" "example_task True True 10"]
  by (auto simp: task_sized_def example_task_def HasNewInfo_def)

end
