(* ===== verification/Peer_Want_Manager.thy ===== *)
theory Peer_Want_Manager
  imports Ledgers
begin

text \<open>
  The peer want manager of \<open>client/internal/peermanager/peerwantmanager.go\<close>: which want-haves and
  want-blocks were sent to which peer, the reverse index from keys to peers, the broadcast
  wants and the two gauges. Queues are handles; the calls an operation makes on them are
  returned in order, each with its handle. The slices \<open>toCancel\<close> and \<open>peerUnsent\<close> that the
  code re-uses from peer to peer are read by the queue before the next peer overwrites
  them, so they are lists here.
\<close>

section \<open>State\<close>

datatype pq_call =
    PQ_AddBroadcastWantHaves "cid list"
  | PQ_AddWants "cid list" "cid list"
  | PQ_AddCancels "cid list"
  | PQ_ResponseReceived "cid list"
  | PQ_Startup
  | PQ_Shutdown

record 'q peerWant =
  wantBlocks :: "cid fset"
  wantHaves :: "cid fset"
  peerQueue :: 'q

record 'q pwm =
  peerWants :: "(peer, 'q peerWant) fmap"
  wantPeers :: "(cid, peer fset) fmap"
  broadcastWants :: "cid fset"
  wantGauge :: int
  wantBlockGauge :: int

definition newPeerWantManager :: "'q pwm" where
  "newPeerWantManager =
     \<lparr>peerWants = fmempty, wantPeers = fmempty, broadcastWants = {||}, wantGauge = 0, wantBlockGauge = 0\<rparr>"

section \<open>The reverse index and the counts\<close>

definition reverseIndexAdd :: "cid \<Rightarrow> peer \<Rightarrow> (cid, peer fset) fmap \<Rightarrow> (cid, peer fset) fmap" where
  "reverseIndexAdd c p idx =
     (let peers = (case fmlookup idx c of None \<Rightarrow> {||} | Some ps \<Rightarrow> ps)
      in fmupd c (finsert p peers) idx)"

definition reverseIndexRemove :: "cid \<Rightarrow> peer \<Rightarrow> (cid, peer fset) fmap \<Rightarrow> (cid, peer fset) fmap" where
  "reverseIndexRemove c p idx =
     (case fmlookup idx c of
        None \<Rightarrow> idx
      | Some peers \<Rightarrow>
          let peers' = peers |-| {|p|}
          in if fcard peers' = 0 then fmdrop c idx else fmupd c peers' idx)"

record wantPeerCnts =
  cnt_wantBlock :: nat
  cnt_wantHave :: nat
  isBroadcast :: bool

definition wanted :: "wantPeerCnts \<Rightarrow> bool" where
  "wanted cnts \<longleftrightarrow> cnt_wantBlock cnts > 0 \<or> cnt_wantHave cnts > 0 \<or> isBroadcast cnts"

definition wantPeerCounts :: "cid \<Rightarrow> 'q pwm \<Rightarrow> wantPeerCnts" where
  "wantPeerCounts c s =
     (let ps = (case fmlookup (wantPeers s) c of None \<Rightarrow> {||} | Some ps \<Rightarrow> ps);
          isBlock = (\<lambda>p. case fmlookup (peerWants s) p of None \<Rightarrow> False | Some pws \<Rightarrow> c |\<in>| wantBlocks pws);
          isHave = (\<lambda>p. case fmlookup (peerWants s) p of None \<Rightarrow> False | Some pws \<Rightarrow> c |\<in>| wantHaves pws)
      in \<lparr>cnt_wantBlock = fcard (ffilter isBlock ps),
          cnt_wantHave = fcard (ffilter (\<lambda>p. \<not> isBlock p \<and> isHave p) ps),
          isBroadcast = (c |\<in>| broadcastWants s)\<rparr>)"

section \<open>Peers\<close>

definition addPeer :: "cid order \<Rightarrow> 'q \<Rightarrow> peer \<Rightarrow> 'q pwm \<Rightarrow> ('q \<times> pq_call) list \<times> 'q pwm" where
  "addPeer ord q p s =
     (case fmlookup (peerWants s) p of
        Some _ \<Rightarrow> ([], s)
      | None \<Rightarrow>
          (if fcard (broadcastWants s) > 0 then [(q, PQ_AddBroadcastWantHaves (ord (broadcastWants s)))] else [],
           s\<lparr>peerWants := fmupd p \<lparr>wantBlocks = {||}, wantHaves = {||}, peerQueue = q\<rparr> (peerWants s)\<rparr>))"

definition removeWantBlock :: "peer \<Rightarrow> cid \<Rightarrow> 'q pwm \<Rightarrow> 'q pwm" where
  "removeWantBlock p c s =
     (let s1 = s\<lparr>wantPeers := reverseIndexRemove c p (wantPeers s)\<rparr>;
          peerCounts = wantPeerCounts c s1;
          s2 = (if cnt_wantBlock peerCounts = 0 then s1\<lparr>wantBlockGauge := wantBlockGauge s1 - 1\<rparr> else s1)
      in if \<not> wanted peerCounts then s2\<lparr>wantGauge := wantGauge s2 - 1\<rparr> else s2)"

definition removeWantHave :: "peer \<Rightarrow> cid \<Rightarrow> 'q pwm \<Rightarrow> 'q pwm" where
  "removeWantHave p c s =
     (let s1 = s\<lparr>wantPeers := reverseIndexRemove c p (wantPeers s)\<rparr>;
          peerCounts = wantPeerCounts c s1
      in if \<not> wanted peerCounts then s1\<lparr>wantGauge := wantGauge s1 - 1\<rparr> else s1)"

definition removePeer :: "cid order \<Rightarrow> peer \<Rightarrow> 'q pwm \<Rightarrow> 'q pwm" where
  "removePeer ord p s =
     (case fmlookup (peerWants s) p of
        None \<Rightarrow> s
      | Some pws \<Rightarrow>
          let s1 = fold (removeWantBlock p) (ord (wantBlocks pws)) s;
              s2 = fold (removeWantHave p) (ord (wantHaves pws)) s1
          in s2\<lparr>peerWants := fmdrop p (peerWants s2)\<rparr>)"

section \<open>Wants\<close>

definition broadcastOne :: "cid \<Rightarrow> cid list \<times> 'q pwm \<Rightarrow> cid list \<times> 'q pwm" where
  "broadcastOne c = (\<lambda>(unsent, s).
     if c |\<in>| broadcastWants s then (unsent, s)
     else
       let s1 = s\<lparr>broadcastWants := finsert c (broadcastWants s)\<rparr>
       in (unsent @ [c],
           case fmlookup (wantPeers s1) c of
             None \<Rightarrow> s1\<lparr>wantGauge := wantGauge s1 + 1\<rparr>
           | Some _ \<Rightarrow> s1))"

definition broadcastTo :: "cid list \<Rightarrow> 'q peerWant \<Rightarrow> ('q \<times> pq_call) list" where
  "broadcastTo unsent pws =
     (let peerUnsent = filter (\<lambda>c. c |\<notin>| wantBlocks pws \<and> c |\<notin>| wantHaves pws) unsent
      in if length peerUnsent > 0 then [(peerQueue pws, PQ_AddBroadcastWantHaves peerUnsent)] else [])"

definition broadcastWantHaves ::
  "peer order \<Rightarrow> cid list \<Rightarrow> 'q pwm \<Rightarrow> ('q \<times> pq_call) list \<times> 'q pwm" where
  "broadcastWantHaves ord whs s =
     (let (unsent, s1) = fold broadcastOne whs ([], s)
      in if length unsent = 0 then ([], s1)
         else (concat (map (broadcastTo unsent) (range_values ord (peerWants s1))), s1))"

definition sendWantBlock :: "peer \<Rightarrow> cid \<Rightarrow> cid list \<times> 'q pwm \<Rightarrow> cid list \<times> 'q pwm" where
  "sendWantBlock p c = (\<lambda>(flt, s).
     case fmlookup (peerWants s) p of
       None \<Rightarrow> (flt, s)
     | Some pws \<Rightarrow>
         if c |\<in>| wantBlocks pws then (flt, s)
         else
           let peerCounts = wantPeerCounts c s;
               s1 = (if cnt_wantBlock peerCounts = 0 then s\<lparr>wantBlockGauge := wantBlockGauge s + 1\<rparr> else s);
               s2 = (if \<not> wanted peerCounts then s1\<lparr>wantGauge := wantGauge s1 + 1\<rparr> else s1);
               pws' = pws\<lparr>wantHaves := wantHaves pws |-| {|c|}, wantBlocks := finsert c (wantBlocks pws)\<rparr>
           in (flt @ [c],
               s2\<lparr>peerWants := fmupd p pws' (peerWants s2), wantPeers := reverseIndexAdd c p (wantPeers s2)\<rparr>))"

definition sendWantHave :: "peer \<Rightarrow> cid \<Rightarrow> cid list \<times> 'q pwm \<Rightarrow> cid list \<times> 'q pwm" where
  "sendWantHave p c = (\<lambda>(flt, s).
     if c |\<in>| broadcastWants s then (flt, s)
     else
       (case fmlookup (peerWants s) p of
          None \<Rightarrow> (flt, s)
        | Some pws \<Rightarrow>
            if c |\<notin>| wantBlocks pws \<and> c |\<notin>| wantHaves pws then
              let peerCounts = wantPeerCounts c s;
                  s1 = (if \<not> wanted peerCounts then s\<lparr>wantGauge := wantGauge s + 1\<rparr> else s);
                  pws' = pws\<lparr>wantHaves := finsert c (wantHaves pws)\<rparr>
              in (flt @ [c],
                  s1\<lparr>peerWants := fmupd p pws' (peerWants s1), wantPeers := reverseIndexAdd c p (wantPeers s1)\<rparr>)
            else (flt, s)))"

definition sendWants :: "peer \<Rightarrow> cid list \<Rightarrow> cid list \<Rightarrow> 'q pwm \<Rightarrow> ('q \<times> pq_call) list \<times> 'q pwm" where
  "sendWants p wbs whs s =
     (case fmlookup (peerWants s) p of
        None \<Rightarrow> ([], s)
      | Some pws \<Rightarrow>
          let (fltWantBlks, s1) = fold (sendWantBlock p) wbs ([], s);
              (fltWantHvs, s2) = fold (sendWantHave p) whs ([], s1)
          in ([(peerQueue pws, PQ_AddWants fltWantBlks fltWantHvs)], s2))"

section \<open>Cancels\<close>

definition cancelKey :: "cid fset \<Rightarrow> cid \<Rightarrow> cid list \<times> 'q peerWant \<Rightarrow> cid list \<times> 'q peerWant" where
  "cancelKey bcast c = (\<lambda>(toCancel, pws).
     if c |\<notin>| wantBlocks pws \<and> c |\<notin>| wantHaves pws then (toCancel, pws)
     else
       (if c |\<notin>| bcast then toCancel @ [c] else toCancel,
        pws\<lparr>wantBlocks := wantBlocks pws |-| {|c|}, wantHaves := wantHaves pws |-| {|c|}\<rparr>))"

text \<open>The closure \<open>send\<close>: one peer's share of the cancels.\<close>

definition sendCancelsTo ::
  "cid list \<Rightarrow> cid list \<Rightarrow> peer \<Rightarrow> ('q \<times> pq_call) list \<times> 'q pwm \<Rightarrow> ('q \<times> pq_call) list \<times> 'q pwm" where
  "sendCancelsTo cancelKs broadcastCancels p = (\<lambda>(calls, s).
     case fmlookup (peerWants s) p of
       None \<Rightarrow> (calls, s)
     | Some pws \<Rightarrow>
         let (toCancel, pws') = fold (cancelKey (broadcastWants s)) cancelKs (broadcastCancels, pws)
         in (calls @ (if length toCancel > 0 then [(peerQueue pws, PQ_AddCancels toCancel)] else []),
             s\<lparr>peerWants := fmupd p pws' (peerWants s)\<rparr>))"

definition decGauges :: "(cid \<Rightarrow> wantPeerCnts) \<Rightarrow> cid \<Rightarrow> 'q pwm \<Rightarrow> 'q pwm" where
  "decGauges peerCounts c s =
     (let s1 = (if cnt_wantBlock (peerCounts c) > 0 then s\<lparr>wantBlockGauge := wantBlockGauge s - 1\<rparr> else s)
      in if wanted (peerCounts c) then s1\<lparr>wantGauge := wantGauge s1 - 1\<rparr> else s1)"

definition sendCancels :: "peer order \<Rightarrow> cid list \<Rightarrow> 'q pwm \<Rightarrow> ('q \<times> pq_call) list \<times> 'q pwm" where
  "sendCancels ord cancelKs s =
     (if length cancelKs = 0 then ([], s)
      else
        let peerCounts = (\<lambda>c. wantPeerCounts c s);
            broadcastCancels = filter (\<lambda>c. c |\<in>| broadcastWants s) cancelKs;
            targets = (if length broadcastCancels > 0 then ord (fmdom (peerWants s))
                       else ord (ffUnion (fset_of_list (map (members (wantPeers s)) cancelKs))));
            (calls, s1) = fold (sendCancelsTo cancelKs broadcastCancels) targets ([], s);
            s2 = fold (decGauges peerCounts) cancelKs s1
        in (calls,
            s2\<lparr>broadcastWants := broadcastWants s2 |-| fset_of_list broadcastCancels,
               wantPeers := fold fmdrop cancelKs (wantPeers s2)\<rparr>))"

section \<open>Queries\<close>

definition getWantBlocks :: "cid order \<Rightarrow> peer order \<Rightarrow> 'q pwm \<Rightarrow> cid list" where
  "getWantBlocks ordc ordp s =
     ordc (fold (\<lambda>pws res. res |\<union>| wantBlocks pws) (range_values ordp (peerWants s)) {||})"

definition getWantHaves :: "cid order \<Rightarrow> peer order \<Rightarrow> 'q pwm \<Rightarrow> cid list" where
  "getWantHaves ordc ordp s =
     ordc (fold (\<lambda>pws res. res |\<union>| wantHaves pws) (range_values ordp (peerWants s)) {||} |\<union>| broadcastWants s)"

definition getWants :: "cid order \<Rightarrow> 'q pwm \<Rightarrow> cid list" where
  "getWants ord s =
     ord (broadcastWants s) @ filter (\<lambda>c. c |\<notin>| broadcastWants s) (ord (fmdom (wantPeers s)))"

end
