(* ===== verification/Peer_Want_Props.thy ===== *)
theory Peer_Want_Props
  imports Peer_Want_Manager
begin

text \<open>
  Properties of the peer want manager: the reverse index is an index of peers and lists exactly
  the wants sent, the gauges count keys, \<open>sendWants\<close> sends nothing twice and \<open>sendCancels\<close>
  reaches everyone. \<open>blocks_of\<close>, \<open>haves_of\<close> and \<open>queue_of\<close> read the record of one peer.
\<close>

section \<open>The reverse index is an index of peers\<close>

interpretation rev_index: peer_index reverseIndexAdd reverseIndexRemove members no_empty
proof unfold_locales
  fix k k' :: cid and p :: peer and s :: "(cid, peer fset) fmap"
  show "members (reverseIndexAdd k p s) k' = (if k' = k then finsert p (members s k) else members s k')"
    by (auto simp: reverseIndexAdd_def members_def Let_def split: option.splits)
  show "members (reverseIndexRemove k p s) k' = (if k' = k then members s k |-| {|p|} else members s k')"
    by (auto simp: reverseIndexRemove_def members_def Let_def split: option.splits if_splits)
  show "no_empty (reverseIndexAdd k p s)" if "no_empty s"
    using that by (intro no_emptyI) (auto simp: reverseIndexAdd_def Let_def dest: no_emptyD split: if_splits option.splits)
  show "no_empty (reverseIndexRemove k p s)" if "no_empty s"
    using that by (intro no_emptyI) (auto simp: reverseIndexRemove_def Let_def dest: no_emptyD split: if_splits option.splits)
qed

section \<open>What was sent\<close>

definition sentBlock :: "'q pwm \<Rightarrow> peer \<Rightarrow> cid \<Rightarrow> bool" where
  "sentBlock s p c = (case fmlookup (peerWants s) p of None \<Rightarrow> False | Some pws \<Rightarrow> c |\<in>| wantBlocks pws)"

definition sentHave :: "'q pwm \<Rightarrow> peer \<Rightarrow> cid \<Rightarrow> bool" where
  "sentHave s p c = (case fmlookup (peerWants s) p of None \<Rightarrow> False | Some pws \<Rightarrow> c |\<in>| wantHaves pws)"

definition sent :: "'q pwm \<Rightarrow> peer \<Rightarrow> cid \<Rightarrow> bool" where
  "sent s p c \<longleftrightarrow> sentBlock s p c \<or> sentHave s p c"

text \<open>The wanted keys, and the keys wanted as blocks, as the index records them.\<close>

definition wanted_keys :: "'q pwm \<Rightarrow> cid fset" where
  "wanted_keys s = broadcastWants s |\<union>| fmdom (wantPeers s)"

definition block_keys :: "'q pwm \<Rightarrow> cid fset" where
  "block_keys s = ffilter (\<lambda>c. \<exists>p. p |\<in>| members (wantPeers s) c \<and> sentBlock s p c) (fmdom (wantPeers s))"

text \<open>
  The part of the invariant that also holds inside the loops: the index lists only sent
  wants, no key is both a want-block and a want-have of one peer, the gauges count.
\<close>

definition pwm_sound :: "'q pwm \<Rightarrow> bool" where
  "pwm_sound s \<longleftrightarrow> no_empty (wantPeers s) \<and>
     (\<forall>p c. p |\<in>| members (wantPeers s) c \<longrightarrow> sent s p c) \<and>
     (\<forall>p c. \<not> (sentBlock s p c \<and> sentHave s p c)) \<and>
     wantGauge s = int (fcard (wanted_keys s)) \<and>
     wantBlockGauge s = int (fcard (block_keys s))"

definition pwm_inv :: "'q pwm \<Rightarrow> bool" where
  "pwm_inv s \<longleftrightarrow> pwm_sound s \<and> (\<forall>p c. sent s p c \<longrightarrow> p |\<in>| members (wantPeers s) c)"

lemma pwm_soundI:
  assumes "no_empty (wantPeers s)" "\<And>p c. p |\<in>| members (wantPeers s) c \<Longrightarrow> sent s p c"
    and "\<And>p c. sentBlock s p c \<Longrightarrow> sentHave s p c \<Longrightarrow> False"
    and "wantGauge s = int (fcard (wanted_keys s))" "wantBlockGauge s = int (fcard (block_keys s))"
  shows "pwm_sound s"
  using assms unfolding pwm_sound_def by blast

lemma fmdom_members: "no_empty m \<Longrightarrow> c |\<in>| fmdom m \<longleftrightarrow> members m c \<noteq> {||}"
  using no_empty_lookup [of m c] by (auto simp: fmlookup_dom_iff)

lemma in_wanted_keys: "no_empty (wantPeers s) \<Longrightarrow>
    c |\<in>| wanted_keys s \<longleftrightarrow> c |\<in>| broadcastWants s \<or> members (wantPeers s) c \<noteq> {||}"
  by (simp add: wanted_keys_def fmdom_members)

lemma in_block_keys: "no_empty (wantPeers s) \<Longrightarrow>
    c |\<in>| block_keys s \<longleftrightarrow> (\<exists>p. p |\<in>| members (wantPeers s) c \<and> sentBlock s p c)"
  by (auto simp: block_keys_def fmdom_members)

lemma fcard_pos_iff: "0 < fcard A \<longleftrightarrow> (\<exists>x. x |\<in>| A)"
  by (metis ex_fin_conv fcard_0_eq neq0_conv)

lemma counts_block:
  "0 < cnt_wantBlock (wantPeerCounts c s) \<longleftrightarrow> (\<exists>p. p |\<in>| members (wantPeers s) c \<and> sentBlock s p c)"
  by (auto simp: wantPeerCounts_def Let_def fcard_pos_iff sentBlock_def members_def)

lemma counts_wanted:
  assumes "\<And>p. p |\<in>| members (wantPeers s) c \<Longrightarrow> sent s p c"
  shows "wanted (wantPeerCounts c s) \<longleftrightarrow> c |\<in>| broadcastWants s \<or> members (wantPeers s) c \<noteq> {||}"
proof -
  have "0 < cnt_wantHave (wantPeerCounts c s) \<longleftrightarrow>
      (\<exists>p. p |\<in>| members (wantPeers s) c \<and> \<not> sentBlock s p c \<and> sentHave s p c)"
    by (auto simp: wantPeerCounts_def Let_def fcard_pos_iff sentBlock_def sentHave_def members_def)
  moreover have "isBroadcast (wantPeerCounts c s) \<longleftrightarrow> c |\<in>| broadcastWants s"
    by (simp add: wantPeerCounts_def Let_def)
  moreover have "members (wantPeers s) c \<noteq> {||} \<longleftrightarrow> (\<exists>p. p |\<in>| members (wantPeers s) c)"
    by auto
  ultimately show ?thesis
    using assms by (auto simp: wanted_def counts_block sent_def)
qed

lemma pwm_soundD:
  assumes "pwm_sound s"
  shows "no_empty (wantPeers s)" "p |\<in>| members (wantPeers s) c \<Longrightarrow> sent s p c"
    "\<not> (sentBlock s p c \<and> sentHave s p c)"
    "wantGauge s = int (fcard (wanted_keys s))" "wantBlockGauge s = int (fcard (block_keys s))"
  using assms by (auto simp: pwm_sound_def)

lemma sound_wanted: "pwm_sound s \<Longrightarrow> wanted (wantPeerCounts c s) \<longleftrightarrow> c |\<in>| wanted_keys s"
  using pwm_soundD(1,2) [of s] by (simp add: counts_wanted in_wanted_keys)

lemma sound_block: "pwm_sound s \<Longrightarrow> cnt_wantBlock (wantPeerCounts c s) = 0 \<longleftrightarrow> c |\<notin>| block_keys s"
  using pwm_soundD(1) [of s] counts_block [of c s] in_block_keys [of s c] by auto

text \<open>A gauge counts a set; one key joins or leaves.\<close>

lemma gauge_inc:
  "g = int (fcard A) \<Longrightarrow> (if c |\<in>| A then g else g + 1) = int (fcard (finsert c A))"
  by (auto simp: fcard_finsert_disjoint finsert_absorb)

lemma gauge_dec:
  assumes "g = int (fcard A)" "c |\<in>| A"
  shows "(if keep then g else g - 1) = int (fcard (if keep then A else A |-| {|c|}))"
proof -
  have "fcard A = Suc (fcard (A |-| {|c|}))"
    using assms(2) by (metis fcard_Suc_fminus1)
  then show ?thesis
    using assms(1) by auto
qed

section \<open>Removing a peer\<close>

lemma removeWantBlock_frame [simp]:
  "peerWants (removeWantBlock p c s) = peerWants s"
  "broadcastWants (removeWantBlock p c s) = broadcastWants s"
  "wantPeers (removeWantBlock p c s) = reverseIndexRemove c p (wantPeers s)"
  by (auto simp: removeWantBlock_def Let_def)

lemma removeWantHave_frame [simp]:
  "peerWants (removeWantHave p c s) = peerWants s"
  "broadcastWants (removeWantHave p c s) = broadcastWants s"
  "wantPeers (removeWantHave p c s) = reverseIndexRemove c p (wantPeers s)"
  by (auto simp: removeWantHave_def Let_def)

lemma remove_gauges:
  fixes s :: "'q pwm"
  defines "t \<equiv> \<lambda>c p. s\<lparr>wantPeers := reverseIndexRemove c p (wantPeers s)\<rparr>"
  shows "wantGauge (removeWantBlock p c s) = (if wanted (wantPeerCounts c (t c p)) then wantGauge s else wantGauge s - 1)"
    "wantBlockGauge (removeWantBlock p c s) =
       (if cnt_wantBlock (wantPeerCounts c (t c p)) \<noteq> 0 then wantBlockGauge s else wantBlockGauge s - 1)"
    "wantGauge (removeWantHave p c s) = (if wanted (wantPeerCounts c (t c p)) then wantGauge s else wantGauge s - 1)"
    "wantBlockGauge (removeWantHave p c s) = wantBlockGauge s"
  by (simp_all add: removeWantBlock_def removeWantHave_def t_def Let_def)

lemma sent_cong:
  assumes "peerWants s = peerWants t"
  shows "sentBlock s = sentBlock t" "sentHave s = sentHave t" "sent s = sent t"
  using assms by (auto simp: fun_eq_iff sentBlock_def sentHave_def sent_def)

lemma remove_keys:
  fixes s :: "'q pwm"
  assumes "pwm_sound s" "p |\<in>| members (wantPeers s) c"
  defines "t \<equiv> s\<lparr>wantPeers := reverseIndexRemove c p (wantPeers s)\<rparr>"
  shows "no_empty (wantPeers t)" "c |\<in>| wanted_keys s"
    "wanted_keys t = (if wanted (wantPeerCounts c t) then wanted_keys s else wanted_keys s |-| {|c|})"
    "block_keys t = (if cnt_wantBlock (wantPeerCounts c t) = 0 then block_keys s |-| {|c|} else block_keys s)"
proof -
  note clean = pwm_soundD(1) [OF assms(1)]
  have mem: "members (wantPeers t) d = (if d = c then members (wantPeers s) c |-| {|p|} else members (wantPeers s) d)" for d
    by (simp add: t_def rev_index.peers_del)
  have bc: "broadcastWants t = broadcastWants s"
    by (simp add: t_def)
  show t: "no_empty (wantPeers t)"
    using clean by (simp add: t_def rev_index.clean_del)
  show "c |\<in>| wanted_keys s"
    using assms(2) clean by (auto simp: in_wanted_keys)
  have same: "sent t = sent s" "sentBlock t = sentBlock s"
    by (intro sent_cong, simp add: t_def)+
  have "wanted (wantPeerCounts c t) \<longleftrightarrow> c |\<in>| wanted_keys t"
    using pwm_soundD(2) [OF assms(1)] by (subst counts_wanted) (auto simp: mem same in_wanted_keys [OF t])
  then show "wanted_keys t = (if wanted (wantPeerCounts c t) then wanted_keys s else wanted_keys s |-| {|c|})"
    using assms(2) by (intro fset_eqI) (auto simp: in_wanted_keys [OF t] in_wanted_keys [OF clean] mem bc)
  have "cnt_wantBlock (wantPeerCounts c t) = 0 \<longleftrightarrow> c |\<notin>| block_keys t"
    using counts_block [of c t] by (auto simp: in_block_keys [OF t])
  then show "block_keys t = (if cnt_wantBlock (wantPeerCounts c t) = 0 then block_keys s |-| {|c|} else block_keys s)"
    by (intro fset_eqI) (auto simp: in_block_keys [OF t] in_block_keys [OF clean] mem same split: if_splits)
qed


lemma removeWantBlock_sound:
  assumes "pwm_sound s" "p |\<in>| members (wantPeers s) c" "sentBlock s p c"
  shows "pwm_sound (removeWantBlock p c s)"
proof -
  let ?t = "s\<lparr>wantPeers := reverseIndexRemove c p (wantPeers s)\<rparr>"
  let ?r = "removeWantBlock p c s"
  note keys = remove_keys [OF assms(1,2)]
  have eq: "wanted_keys ?r = wanted_keys ?t" "block_keys ?r = block_keys ?t"
    by (simp_all add: wanted_keys_def block_keys_def sentBlock_def)
  have same: "sent ?r = sent s" "sentBlock ?r = sentBlock s" "sentHave ?r = sentHave s"
    by (intro sent_cong, simp)+
  have "c |\<in>| block_keys s"
    using assms(2,3) by (auto simp: in_block_keys pwm_soundD(1) [OF assms(1)])
  then have "wantBlockGauge ?r = int (fcard (block_keys ?r))"
    using gauge_dec [of "wantBlockGauge s" "block_keys s" c "cnt_wantBlock (wantPeerCounts c ?t) \<noteq> 0"]
      pwm_soundD(5) [OF assms(1)] unfolding eq keys(4) remove_gauges by (simp split: if_splits)
  moreover have "wantGauge ?r = int (fcard (wanted_keys ?r))"
    using gauge_dec [OF _ keys(2), of "wantGauge s" "wanted (wantPeerCounts c ?t)"]
      pwm_soundD(4) [OF assms(1)] unfolding eq keys(3) remove_gauges by simp
  ultimately show ?thesis
    using keys(1) pwm_soundD(2,3) [OF assms(1)]
    by (intro pwm_soundI) (auto simp: same rev_index.peers_del split: if_splits)
qed

lemma removeWantHave_sound:
  assumes "pwm_sound s" "p |\<in>| members (wantPeers s) c" "sentHave s p c"
  shows "pwm_sound (removeWantHave p c s)"
proof -
  let ?t = "s\<lparr>wantPeers := reverseIndexRemove c p (wantPeers s)\<rparr>"
  let ?r = "removeWantHave p c s"
  note keys = remove_keys [OF assms(1,2)]
  have eq: "wanted_keys ?r = wanted_keys ?t"
    by (simp add: wanted_keys_def)
  have same: "sent ?r = sent s" "sentBlock ?r = sentBlock s" "sentHave ?r = sentHave s"
    by (intro sent_cong, simp)+
  have "block_keys ?r = block_keys s"
    using keys(1) pwm_soundD(1,3) [OF assms(1)] assms(3)
    by (intro fset_eqI) (auto simp: in_block_keys same rev_index.peers_del split: if_splits)
  then have "wantBlockGauge ?r = int (fcard (block_keys ?r))"
    using pwm_soundD(5) [OF assms(1)] by (simp add: remove_gauges)
  moreover have "wantGauge ?r = int (fcard (wanted_keys ?r))"
    using gauge_dec [OF _ keys(2), of "wantGauge s" "wanted (wantPeerCounts c ?t)"]
      pwm_soundD(4) [OF assms(1)] unfolding eq keys(3) remove_gauges by simp
  ultimately show ?thesis
    using keys(1) pwm_soundD(2,3) [OF assms(1)]
    by (intro pwm_soundI) (auto simp: same rev_index.peers_del split: if_splits)
qed

lemma fold_removeWantBlock:
  assumes "distinct cs" "pwm_sound s" "\<And>c. c \<in> set cs \<Longrightarrow> p |\<in>| members (wantPeers s) c \<and> sentBlock s p c"
  shows "pwm_sound (fold (removeWantBlock p) cs s) \<and>
     peerWants (fold (removeWantBlock p) cs s) = peerWants s \<and>
     broadcastWants (fold (removeWantBlock p) cs s) = broadcastWants s \<and>
     wantPeers (fold (removeWantBlock p) cs s) = fold (\<lambda>c. reverseIndexRemove c p) cs (wantPeers s)"
  using assms
proof (induction cs arbitrary: s)
  case (Cons c cs)
  have "p |\<in>| members (wantPeers (removeWantBlock p c s)) d \<and> sentBlock (removeWantBlock p c s) p d"
    if "d \<in> set cs" for d
    using that Cons.prems(1,3) by (auto simp: rev_index.peers_del sent_cong(1) [of "removeWantBlock p c s" s])
  from Cons.IH [OF _ removeWantBlock_sound this] show ?case
    using Cons.prems by simp
qed simp

lemma fold_removeWantHave:
  assumes "distinct cs" "pwm_sound s" "\<And>c. c \<in> set cs \<Longrightarrow> p |\<in>| members (wantPeers s) c \<and> sentHave s p c"
  shows "pwm_sound (fold (removeWantHave p) cs s) \<and>
     peerWants (fold (removeWantHave p) cs s) = peerWants s \<and>
     broadcastWants (fold (removeWantHave p) cs s) = broadcastWants s \<and>
     wantPeers (fold (removeWantHave p) cs s) = fold (\<lambda>c. reverseIndexRemove c p) cs (wantPeers s)"
  using assms
proof (induction cs arbitrary: s)
  case (Cons c cs)
  have "p |\<in>| members (wantPeers (removeWantHave p c s)) d \<and> sentHave (removeWantHave p c s) p d"
    if "d \<in> set cs" for d
    using that Cons.prems(1,3) by (auto simp: rev_index.peers_del sent_cong(2) [of "removeWantHave p c s" s])
  from Cons.IH [OF _ removeWantHave_sound this] show ?case
    using Cons.prems by simp
qed simp

lemma pwm_invD:
  assumes "pwm_inv s"
  shows "pwm_sound s" "p |\<in>| members (wantPeers s) c \<longleftrightarrow> sent s p c"
  using assms by (auto simp: pwm_inv_def pwm_sound_def)

lemma removePeer_state:
  assumes "go_range ord" "pwm_inv s"
  shows "pwm_inv (removePeer ord p s)"
    "sent (removePeer ord p s) q c \<longleftrightarrow> q \<noteq> p \<and> sent s q c"
    "broadcastWants (removePeer ord p s) = broadcastWants s"
    "peerWants (removePeer ord p s) = fmdrop p (peerWants s)"
proof -
  have "pwm_inv (removePeer ord p s) \<and> broadcastWants (removePeer ord p s) = broadcastWants s \<and>
      peerWants (removePeer ord p s) = fmdrop p (peerWants s)"
  proof (cases "fmlookup (peerWants s) p")
    case None
    then have "fmdrop p (peerWants s) = peerWants s"
      by (intro fmap_eqI) auto
    with None show ?thesis
      using assms by (simp add: removePeer_def)
  next
    case (Some pws)
    define s1 where "s1 = fold (removeWantBlock p) (ord (wantBlocks pws)) s"
    define s2 where "s2 = fold (removeWantHave p) (ord (wantHaves pws)) s1"
    have set: "set (ord A) = fset A" for A
      by (rule go_range.ord_set [OF assms(1)])
    have blk: "sentBlock s p d \<longleftrightarrow> d |\<in>| wantBlocks pws" and hav: "sentHave s p d \<longleftrightarrow> d |\<in>| wantHaves pws" for d
      using Some by (simp_all add: sentBlock_def sentHave_def)
    have disj: "d |\<notin>| wantHaves pws" if "d |\<in>| wantBlocks pws" for d
      using that pwm_soundD(3) [OF pwm_invD(1) [OF assms(2)], of p d] by (simp add: blk hav)
    have s1: "pwm_sound s1" "peerWants s1 = peerWants s" "broadcastWants s1 = broadcastWants s"
      "wantPeers s1 = fold (\<lambda>c. reverseIndexRemove c p) (ord (wantBlocks pws)) (wantPeers s)"
      using fold_removeWantBlock [OF go_range.ord_distinct [OF assms(1)] pwm_invD(1) [OF assms(2)], of "wantBlocks pws" p]
      by (auto simp: s1_def set blk pwm_invD(2) [OF assms(2)] sent_def)
    have "p |\<in>| members (wantPeers s1) d \<and> sentHave s1 p d" if "d \<in> set (ord (wantHaves pws))" for d
      using that disj
      by (auto simp: set s1(4) rev_index.peers_del_all [where f = "\<lambda>x. x"] pwm_invD(2) [OF assms(2)] sent_def hav
          sent_cong(2) [OF s1(2)])
    from fold_removeWantHave [OF go_range.ord_distinct [OF assms(1)] s1(1) this]
    have s2: "pwm_sound s2" "peerWants s2 = peerWants s" "broadcastWants s2 = broadcastWants s"
      "wantPeers s2 = fold (\<lambda>c. reverseIndexRemove c p) (ord (wantHaves pws)) (wantPeers s1)"
      by (simp_all add: s2_def s1)
    let ?r = "s2\<lparr>peerWants := fmdrop p (peerWants s2)\<rparr>"
    have mem: "q |\<in>| members (wantPeers s2) d \<longleftrightarrow> q \<noteq> p \<and> sent s q d" for q d
      by (auto simp: s2(4) s1(4) rev_index.peers_del_all [where f = "\<lambda>x. x"] set pwm_invD(2) [OF assms(2)]
          sent_def blk hav)
    have drop: "sentBlock ?r q d \<longleftrightarrow> q \<noteq> p \<and> sentBlock s q d" "sentHave ?r q d \<longleftrightarrow> q \<noteq> p \<and> sentHave s q d" for q d
      by (auto simp: sentBlock_def sentHave_def s2(2))
    have "block_keys ?r = block_keys s2"
      by (auto simp: block_keys_def drop mem sent_cong(1) [OF s2(2)])
    moreover have "wanted_keys ?r = wanted_keys s2"
      by (simp add: wanted_keys_def)
    ultimately have "pwm_inv ?r"
      using pwm_soundD [OF s2(1)] pwm_soundD(3) [OF pwm_invD(1) [OF assms(2)]]
      by (auto simp: pwm_inv_def sent_def drop mem intro!: pwm_soundI)
    moreover have "removePeer ord p s = ?r"
      using Some by (simp add: removePeer_def s1_def s2_def Let_def)
    ultimately show ?thesis
      by (simp add: s2)
  qed
  then show "pwm_inv (removePeer ord p s)" "broadcastWants (removePeer ord p s) = broadcastWants s"
    "peerWants (removePeer ord p s) = fmdrop p (peerWants s)"
    by simp_all
  then show "sent (removePeer ord p s) q c \<longleftrightarrow> q \<noteq> p \<and> sent s q c"
    by (auto simp: sent_def sentBlock_def sentHave_def)
qed


section \<open>Adding a peer, broadcasting\<close>

lemma pwm_inv_new: "pwm_inv newPeerWantManager"
  by (auto simp: pwm_inv_def newPeerWantManager_def sent_def sentBlock_def sentHave_def members_def
      wanted_keys_def block_keys_def intro!: pwm_soundI no_emptyI)

lemma addPeer_state:
  assumes "pwm_inv s"
  shows "pwm_inv (snd (addPeer ord q p s))"
    "sent (snd (addPeer ord q p s)) = sent s"
    "broadcastWants (snd (addPeer ord q p s)) = broadcastWants s"
proof -
  let ?r = "snd (addPeer ord q p s)"
  have same: "sentBlock ?r = sentBlock s" "sentHave ?r = sentHave s"
    by (auto simp: fun_eq_iff addPeer_def sentBlock_def sentHave_def split: option.splits)
  then show eq: "sent ?r = sent s"
    by (simp add: fun_eq_iff sent_def)
  show bc: "broadcastWants ?r = broadcastWants s"
    by (auto simp: addPeer_def split: option.splits)
  have "wantPeers ?r = wantPeers s" "wantGauge ?r = wantGauge s" "wantBlockGauge ?r = wantBlockGauge s"
    by (auto simp: addPeer_def split: option.splits)
  then show "pwm_inv ?r"
    using assms same eq bc by (simp add: pwm_inv_def pwm_sound_def wanted_keys_def block_keys_def)
qed

lemma broadcastOne_sound:
  assumes "pwm_inv s"
  shows "pwm_inv (snd (broadcastOne c (un, s)))"
proof (cases "c |\<in>| broadcastWants s")
  case False
  let ?r = "snd (broadcastOne c (un, s))"
  have frame: "peerWants ?r = peerWants s" "wantPeers ?r = wantPeers s" "wantBlockGauge ?r = wantBlockGauge s"
    "broadcastWants ?r = finsert c (broadcastWants s)"
    using False by (auto simp: broadcastOne_def Let_def split: option.splits)
  have "wantGauge ?r = (if c |\<in>| wanted_keys s then wantGauge s else wantGauge s + 1)"
    using False by (auto simp: broadcastOne_def Let_def wanted_keys_def fmlookup_dom_iff split: option.splits)
  moreover have "wanted_keys ?r = finsert c (wanted_keys s)" "block_keys ?r = block_keys s"
    by (auto simp: wanted_keys_def block_keys_def frame sent_cong(1) [OF frame(1)])
  ultimately show ?thesis
    using assms gauge_inc [OF pwm_soundD(4) [OF pwm_invD(1) [OF assms]], of c]
    by (simp add: pwm_inv_def pwm_sound_def frame sent_cong [OF frame(1)])
qed (use assms in \<open>simp add: broadcastOne_def\<close>)

lemma fold_broadcastOne:
  assumes "pwm_inv s"
  shows "pwm_inv (snd (fold broadcastOne cs (un, s))) \<and>
     peerWants (snd (fold broadcastOne cs (un, s))) = peerWants s \<and>
     broadcastWants (snd (fold broadcastOne cs (un, s))) = broadcastWants s |\<union>| fset_of_list cs \<and>
     set (fst (fold broadcastOne cs (un, s))) = set un \<union> (set cs - fset (broadcastWants s))"
  using assms
proof (induction cs arbitrary: un s)
  case (Cons c cs)
  obtain un' s' where step: "broadcastOne c (un, s) = (un', s')"
    by (cases "broadcastOne c (un, s)")
  have "peerWants s' = peerWants s" "broadcastWants s' = finsert c (broadcastWants s)"
      "set un' = set un \<union> ({c} - fset (broadcastWants s))"
    using step by (auto simp: broadcastOne_def Let_def split: option.splits if_splits)
  moreover have "pwm_inv s'"
    using broadcastOne_sound [OF Cons.prems, of c un] step by simp
  ultimately show ?case
    using Cons.IH [of s' un'] step by auto
qed simp

lemma broadcastWantHaves_state:
  assumes "pwm_inv s"
  shows "pwm_inv (snd (broadcastWantHaves ord cs s))"
    "peerWants (snd (broadcastWantHaves ord cs s)) = peerWants s"
    "broadcastWants (snd (broadcastWantHaves ord cs s)) = broadcastWants s |\<union>| fset_of_list cs"
  using fold_broadcastOne [OF assms, of cs "[]"] by (auto simp: broadcastWantHaves_def split_beta Let_def)

section \<open>Sending wants\<close>

text \<open>Recording one more want of \<open>p\<close>, as a block or not.\<close>

lemma record_want:
  assumes inv: "pwm_inv s"
    and pws: "fmlookup (peerWants s) p = Some pws"
    and t: "peerWants t = fmupd p pws' (peerWants s)" "wantPeers t = reverseIndexAdd c p (wantPeers s)"
      "broadcastWants t = broadcastWants s"
      "wantGauge t = (if c |\<in>| wanted_keys s then wantGauge s else wantGauge s + 1)"
    and kind: "wantBlocks pws' = finsert c (wantBlocks pws) \<and> wantHaves pws' = wantHaves pws |-| {|c|} \<and>
        wantBlockGauge t = (if c |\<in>| block_keys s then wantBlockGauge s else wantBlockGauge s + 1) \<or>
      c |\<notin>| wantBlocks pws \<and> wantBlocks pws' = wantBlocks pws \<and> wantHaves pws' = finsert c (wantHaves pws) \<and>
        wantBlockGauge t = wantBlockGauge s"
  shows "pwm_inv t"
proof -
  note sound = pwm_invD(1) [OF inv] and exact = pwm_invD(2) [OF inv]
  have clean: "no_empty (wantPeers t)"
    using pwm_soundD(1) [OF sound] by (simp add: t rev_index.clean_ins)
  have blk: "sentBlock t q d \<longleftrightarrow> (if q = p then d |\<in>| wantBlocks pws' else sentBlock s q d)"
    and hav: "sentHave t q d \<longleftrightarrow> (if q = p then d |\<in>| wantHaves pws' else sentHave s q d)" for q d
    by (auto simp: sentBlock_def sentHave_def t)
  have at_p: "sentBlock s p d \<longleftrightarrow> d |\<in>| wantBlocks pws" "sentHave s p d \<longleftrightarrow> d |\<in>| wantHaves pws" for d
    using pws by (simp_all add: sentBlock_def sentHave_def)
  have snt: "sent t q d \<longleftrightarrow> sent s q d \<or> (q = p \<and> d = c)" for q d
    using kind by (auto simp: sent_def blk hav at_p)
  have mem: "q |\<in>| members (wantPeers t) d \<longleftrightarrow> sent t q d" for q d
    by (auto simp: t rev_index.peers_ins exact snt)
  have "wanted_keys t = finsert c (wanted_keys s)"
    using pwm_soundD(1) [OF sound] clean
    by (intro fset_eqI) (auto simp: in_wanted_keys t rev_index.peers_ins)
  then have gauge: "wantGauge t = int (fcard (wanted_keys t))"
    using gauge_inc [OF pwm_soundD(4) [OF sound], of c] by (simp add: t)
  have bk: "d |\<in>| block_keys t \<longleftrightarrow> (\<exists>q. sentBlock t q d)" for d
    by (auto simp: in_block_keys [OF clean] mem sent_def)
  have bks: "d |\<in>| block_keys s \<longleftrightarrow> (\<exists>q. sentBlock s q d)" for d
    by (auto simp: in_block_keys [OF pwm_soundD(1) [OF sound]] exact sent_def)
  have bgauge: "wantBlockGauge t = int (fcard (block_keys t))"
    using kind
  proof
    assume k: "wantBlocks pws' = finsert c (wantBlocks pws) \<and> wantHaves pws' = wantHaves pws |-| {|c|} \<and>
        wantBlockGauge t = (if c |\<in>| block_keys s then wantBlockGauge s else wantBlockGauge s + 1)"
    then have "block_keys t = finsert c (block_keys s)"
    proof (intro fset_eqI)
      fix d
      have "(\<exists>q. sentBlock t q d) \<longleftrightarrow> d = c \<or> (\<exists>q. sentBlock s q d)"
        using k blk [of _ d] at_p(1) [of d] by (metis finsert_iff)
      then show "d |\<in>| block_keys t \<longleftrightarrow> d |\<in>| finsert c (block_keys s)"
        by (simp add: bk bks)
    qed
    then show ?thesis
      using k gauge_inc [OF pwm_soundD(5) [OF sound], of c] by simp
  next
    assume k: "c |\<notin>| wantBlocks pws \<and> wantBlocks pws' = wantBlocks pws \<and> wantHaves pws' = finsert c (wantHaves pws) \<and>
        wantBlockGauge t = wantBlockGauge s"
    then have "sentBlock t = sentBlock s"
      by (auto simp: fun_eq_iff blk at_p)
    then have "block_keys t = block_keys s"
      by (intro fset_eqI) (simp add: bk bks)
    then show ?thesis
      using k pwm_soundD(5) [OF sound] by simp
  qed
  have "\<not> (d |\<in>| wantBlocks pws' \<and> d |\<in>| wantHaves pws')" for d
    using kind pwm_soundD(3) [OF sound, of p d] by (elim disjE conjE; simp add: at_p; blast)
  then have "\<not> (sentBlock t q d \<and> sentHave t q d)" for q d
    using pwm_soundD(3) [OF sound, of q d] by (simp add: blk hav)
  then show ?thesis
    using clean gauge bgauge mem by (auto simp: pwm_inv_def intro: pwm_soundI)
qed


text \<open>The wants recorded for a peer after one step of either loop.\<close>

definition blocks_of :: "'q pwm \<Rightarrow> peer \<Rightarrow> cid fset" where
  "blocks_of s p = (case fmlookup (peerWants s) p of None \<Rightarrow> {||} | Some pws \<Rightarrow> wantBlocks pws)"

definition haves_of :: "'q pwm \<Rightarrow> peer \<Rightarrow> cid fset" where
  "haves_of s p = (case fmlookup (peerWants s) p of None \<Rightarrow> {||} | Some pws \<Rightarrow> wantHaves pws)"

definition queue_of :: "'q pwm \<Rightarrow> peer \<Rightarrow> 'q option" where
  "queue_of s p = map_option peerQueue (fmlookup (peerWants s) p)"

lemma sent_sets: "sent s p c \<longleftrightarrow> c |\<in>| blocks_of s p \<or> c |\<in>| haves_of s p"
  by (auto simp: sent_def sentBlock_def sentHave_def blocks_of_def haves_of_def split: option.splits)

lemma sendWantBlock_step:
  fixes c :: cid and flt :: "cid list"
  assumes "pwm_inv s" "fmlookup (peerWants s) p = Some pws"
  defines "r \<equiv> sendWantBlock p c (flt, s)"
  shows "pwm_inv (snd r)" "queue_of (snd r) = queue_of s" "broadcastWants (snd r) = broadcastWants s"
    "blocks_of (snd r) = (blocks_of s)(p := finsert c (blocks_of s p))"
    "haves_of (snd r) = (haves_of s)(p := haves_of s p |-| ({|c|} |-| blocks_of s p))"
    "fst r = (if c |\<in>| blocks_of s p then flt else flt @ [c])"
proof -
  have at_p: "blocks_of s p = wantBlocks pws" "haves_of s p = wantHaves pws"
    using assms(2) by (simp_all add: blocks_of_def haves_of_def)
  show "pwm_inv (snd r)"
  proof (cases "c |\<in>| wantBlocks pws")
    case False
    show ?thesis
      by (rule record_want [OF assms(1,2), where c = c and
            pws' = "pws\<lparr>wantHaves := wantHaves pws |-| {|c|}, wantBlocks := finsert c (wantBlocks pws)\<rparr>"])
        (use False assms(2) in \<open>auto simp: r_def sendWantBlock_def Let_def
            sound_wanted [OF pwm_invD(1) [OF assms(1)]] sound_block [OF pwm_invD(1) [OF assms(1)]]\<close>)
  qed (use assms in \<open>simp add: r_def sendWantBlock_def\<close>)
  show "queue_of (snd r) = queue_of s" "broadcastWants (snd r) = broadcastWants s"
    "blocks_of (snd r) = (blocks_of s)(p := finsert c (blocks_of s p))"
    "haves_of (snd r) = (haves_of s)(p := haves_of s p |-| ({|c|} |-| blocks_of s p))"
    "fst r = (if c |\<in>| blocks_of s p then flt else flt @ [c])"
    using assms(2)
    by (auto simp: r_def sendWantBlock_def Let_def fun_eq_iff queue_of_def blocks_of_def haves_of_def finsert_absorb)
qed

lemma sendWantHave_step:
  fixes c :: cid and flt :: "cid list"
  assumes "pwm_inv s" "fmlookup (peerWants s) p = Some pws"
  defines "r \<equiv> sendWantHave p c (flt, s)"
    and "new \<equiv> c |\<notin>| broadcastWants s \<and> \<not> sent s p c"
  shows "pwm_inv (snd r)" "queue_of (snd r) = queue_of s" "broadcastWants (snd r) = broadcastWants s"
    "blocks_of (snd r) = blocks_of s"
    "haves_of (snd r) = (haves_of s)(p := (if new then finsert c (haves_of s p) else haves_of s p))"
    "fst r = (if new then flt @ [c] else flt)"
proof -
  have new: "new \<longleftrightarrow> c |\<notin>| broadcastWants s \<and> c |\<notin>| wantBlocks pws \<and> c |\<notin>| wantHaves pws"
    using assms(2) by (auto simp: new_def sent_def sentBlock_def sentHave_def)
  show "pwm_inv (snd r)"
  proof (cases new)
    case True
    then show ?thesis
      by (intro record_want [OF assms(1,2), where c = c and pws' = "pws\<lparr>wantHaves := finsert c (wantHaves pws)\<rparr>"])
        (use assms(2) in \<open>auto simp: new r_def sendWantHave_def Let_def sound_wanted [OF pwm_invD(1) [OF assms(1)]]\<close>)
  qed (use assms(1,2) in \<open>auto simp: new r_def sendWantHave_def\<close>)
  show "queue_of (snd r) = queue_of s" "broadcastWants (snd r) = broadcastWants s"
    "blocks_of (snd r) = blocks_of s"
    "haves_of (snd r) = (haves_of s)(p := (if new then finsert c (haves_of s p) else haves_of s p))"
    "fst r = (if new then flt @ [c] else flt)"
    using assms(2) unfolding new
    by (auto simp: r_def sendWantHave_def Let_def fun_eq_iff queue_of_def blocks_of_def haves_of_def)
qed

lemma fold_sendWantBlock:
  assumes "pwm_inv s" "queue_of s p \<noteq> None"
  shows "\<exists>new s'. fold (sendWantBlock p) cs (flt, s) = (flt @ new, s') \<and> pwm_inv s' \<and>
     queue_of s' = queue_of s \<and> broadcastWants s' = broadcastWants s \<and>
     blocks_of s' = (blocks_of s)(p := blocks_of s p |\<union>| fset_of_list cs) \<and>
     haves_of s' = (haves_of s)(p := haves_of s p |-| (fset_of_list cs |-| blocks_of s p)) \<and>
     distinct new \<and> set new = set cs - fset (blocks_of s p)"
  using assms
proof (induction cs arbitrary: flt s)
  case (Cons c cs)
  obtain pws where "fmlookup (peerWants s) p = Some pws"
    using Cons.prems(2) by (auto simp: queue_of_def)
  note step = sendWantBlock_step [OF Cons.prems(1) this, of c flt]
  obtain flt1 s1 where r: "sendWantBlock p c (flt, s) = (flt1, s1)"
    by (cases "sendWantBlock p c (flt, s)")
  note step = step [unfolded r fst_conv snd_conv]
  have "queue_of s1 p \<noteq> None"
    using step(2) Cons.prems(2) by simp
  from Cons.IH [OF step(1) this, of flt1]
  obtain new s' where IH: "fold (sendWantBlock p) cs (flt1, s1) = (flt1 @ new, s')" "pwm_inv s'"
     "queue_of s' = queue_of s1" "broadcastWants s' = broadcastWants s1"
     "blocks_of s' = (blocks_of s1)(p := blocks_of s1 p |\<union>| fset_of_list cs)"
     "haves_of s' = (haves_of s1)(p := haves_of s1 p |-| (fset_of_list cs |-| blocks_of s1 p))"
     "distinct new" "set new = set cs - fset (blocks_of s1 p)"
    by blast
  let ?new = "if c |\<in>| blocks_of s p then new else c # new"
  have "fold (sendWantBlock p) (c # cs) (flt, s) = (flt @ ?new, s')"
    using IH(1) step(6) by (simp add: r)
  moreover have "blocks_of s' = (blocks_of s)(p := blocks_of s p |\<union>| fset_of_list (c # cs))"
    by (auto simp: IH(5) step(4))
  moreover have "haves_of s' = (haves_of s)(p := haves_of s p |-| (fset_of_list (c # cs) |-| blocks_of s p))"
    by (auto simp: IH(6) step(4,5) fun_eq_iff)
  moreover have "distinct ?new \<and> set ?new = set (c # cs) - fset (blocks_of s p)"
    using IH(7,8) by (auto simp: step(4))
  ultimately show ?case
    using IH(2,3,4) step(2,3) by (intro exI [of _ ?new] exI [of _ s']) simp
qed auto

lemma fold_sendWantHave:
  assumes "pwm_inv s" "queue_of s p \<noteq> None"
  shows "\<exists>new s'. fold (sendWantHave p) cs (flt, s) = (flt @ new, s') \<and> pwm_inv s' \<and>
     queue_of s' = queue_of s \<and> broadcastWants s' = broadcastWants s \<and> blocks_of s' = blocks_of s \<and>
     haves_of s' = (haves_of s)(p := haves_of s p |\<union>| (fset_of_list cs |-| broadcastWants s |-| blocks_of s p)) \<and>
     distinct new \<and> set new = {c \<in> set cs. c |\<notin>| broadcastWants s \<and> \<not> sent s p c}"
  using assms
proof (induction cs arbitrary: flt s)
  case (Cons c cs)
  obtain pws where "fmlookup (peerWants s) p = Some pws"
    using Cons.prems(2) by (auto simp: queue_of_def)
  note step = sendWantHave_step [OF Cons.prems(1) this, of c flt]
  obtain flt1 s1 where r: "sendWantHave p c (flt, s) = (flt1, s1)"
    by (cases "sendWantHave p c (flt, s)")
  note step = step [unfolded r fst_conv snd_conv]
  have "queue_of s1 p \<noteq> None"
    using step(2) Cons.prems(2) by simp
  from Cons.IH [OF step(1) this, of flt1]
  obtain new s' where IH: "fold (sendWantHave p) cs (flt1, s1) = (flt1 @ new, s')" "pwm_inv s'"
     "queue_of s' = queue_of s1" "broadcastWants s' = broadcastWants s1" "blocks_of s' = blocks_of s1"
     "haves_of s' = (haves_of s1)(p := haves_of s1 p |\<union>| (fset_of_list cs |-| broadcastWants s1 |-| blocks_of s1 p))"
     "distinct new" "set new = {c \<in> set cs. c |\<notin>| broadcastWants s1 \<and> \<not> sent s1 p c}"
    by blast
  let ?fresh = "c |\<notin>| broadcastWants s \<and> \<not> sent s p c"
  let ?new = "if ?fresh then c # new else new"
  have "fold (sendWantHave p) (c # cs) (flt, s) = (flt @ ?new, s')"
    using IH(1) step(6) by (simp add: r)
  moreover have "haves_of s' = (haves_of s)(p := haves_of s p |\<union>| (fset_of_list (c # cs) |-| broadcastWants s |-| blocks_of s p))"
    by (auto simp: IH(6) step(3,4,5) fun_eq_iff sent_sets)
  moreover have "distinct ?new \<and> set ?new = {d \<in> set (c # cs). d |\<notin>| broadcastWants s \<and> \<not> sent s p d}"
    using IH(7,8) by (auto simp: step(3,4,5) sent_sets)
  ultimately show ?case
    using IH(2,3,4,5) step(2,3,4) by (intro exI [of _ ?new] exI [of _ s']) simp
qed auto

lemma sendWants_state:
  assumes "pwm_inv s" "queue_of s p = Some q"
  shows "\<exists>bs hs s'. sendWants p wbs whs s = ([(q, PQ_AddWants bs hs)], s') \<and> pwm_inv s' \<and>
     queue_of s' = queue_of s \<and> broadcastWants s' = broadcastWants s \<and>
     distinct bs \<and> set bs = set wbs - fset (blocks_of s p) \<and>
     distinct hs \<and> set hs = {c \<in> set whs. c |\<notin>| broadcastWants s \<and> c \<notin> set wbs \<and> \<not> sent s p c} \<and>
     blocks_of s' = (blocks_of s)(p := blocks_of s p |\<union>| fset_of_list wbs) \<and>
     haves_of s' = (haves_of s)(p := (haves_of s p |-| (fset_of_list wbs |-| blocks_of s p)) |\<union>|
        (fset_of_list whs |-| broadcastWants s |-| blocks_of s p |-| fset_of_list wbs))"
proof -
  obtain bs s1 where b: "fold (sendWantBlock p) wbs ([], s) = (bs, s1)" "pwm_inv s1"
     "queue_of s1 = queue_of s" "broadcastWants s1 = broadcastWants s"
     "blocks_of s1 = (blocks_of s)(p := blocks_of s p |\<union>| fset_of_list wbs)"
     "haves_of s1 = (haves_of s)(p := haves_of s p |-| (fset_of_list wbs |-| blocks_of s p))"
     "distinct bs" "set bs = set wbs - fset (blocks_of s p)"
    using fold_sendWantBlock [OF assms(1), of p wbs "[]"] assms(2) by auto
  obtain hs s' where h: "fold (sendWantHave p) whs ([], s1) = (hs, s')" "pwm_inv s'"
     "queue_of s' = queue_of s1" "broadcastWants s' = broadcastWants s1" "blocks_of s' = blocks_of s1"
     "haves_of s' = (haves_of s1)(p := haves_of s1 p |\<union>| (fset_of_list whs |-| broadcastWants s1 |-| blocks_of s1 p))"
     "distinct hs" "set hs = {c \<in> set whs. c |\<notin>| broadcastWants s1 \<and> \<not> sent s1 p c}"
    using fold_sendWantHave [OF b(2), of p whs "[]"] assms(2) b(3) by auto
  have "sendWants p wbs whs s = ([(q, PQ_AddWants bs hs)], s')"
    using assms(2) b(1) h(1) by (auto simp: sendWants_def queue_of_def)
  moreover have "set hs = {c \<in> set whs. c |\<notin>| broadcastWants s \<and> c \<notin> set wbs \<and> \<not> sent s p c}"
    using pwm_soundD(3) [OF pwm_invD(1) [OF assms(1)], of p]
    by (auto simp: h(8) b(4,5,6) sent_sets fset_of_list_elem)
  ultimately show ?thesis
    using b h by (intro exI [of _ bs] exI [of _ hs] exI [of _ s']) (auto simp: fun_eq_iff)
qed


section \<open>Sending cancels\<close>

lemma fold_cancelKey:
  "fold (cancelKey bc) ks (tc, pws) = (tc', pws') \<Longrightarrow>
     wantBlocks pws' = wantBlocks pws |-| fset_of_list ks \<and>
     wantHaves pws' = wantHaves pws |-| fset_of_list ks \<and> peerQueue pws' = peerQueue pws \<and>
     set tc' = set tc \<union> {c \<in> set ks. c |\<notin>| bc \<and> (c |\<in>| wantBlocks pws \<or> c |\<in>| wantHaves pws)}"
proof (induction ks arbitrary: tc pws)
  case (Cons k ks)
  obtain tc1 pws1 where r: "cancelKey bc k (tc, pws) = (tc1, pws1)"
    by (cases "cancelKey bc k (tc, pws)")
  have "wantBlocks pws1 = wantBlocks pws |-| {|k|}" "wantHaves pws1 = wantHaves pws |-| {|k|}"
    "peerQueue pws1 = peerQueue pws"
    "set tc1 = set tc \<union> (if k |\<notin>| bc \<and> (k |\<in>| wantBlocks pws \<or> k |\<in>| wantHaves pws) then {k} else {})"
    using r by (auto simp: cancelKey_def split: if_splits)
  then show ?case
    using Cons.IH [of tc1 pws1] Cons.prems r by (auto split: if_splits)
qed auto

definition cancelsFor :: "cid list \<Rightarrow> cid list \<Rightarrow> 'q pwm \<Rightarrow> peer \<Rightarrow> ('q \<times> pq_call) list" where
  "cancelsFor ks bcs s p =
     (case fmlookup (peerWants s) p of
        None \<Rightarrow> []
      | Some pws \<Rightarrow>
          let toCancel = fst (fold (cancelKey (broadcastWants s)) ks (bcs, pws))
          in if toCancel = [] then [] else [(peerQueue pws, PQ_AddCancels toCancel)])"

lemma sendCancelsTo_eq:
  "sendCancelsTo ks bcs p (calls, s) =
     (calls @ cancelsFor ks bcs s p, snd (sendCancelsTo ks bcs p (calls, s)))"
  by (auto simp: sendCancelsTo_def cancelsFor_def split_beta Let_def split: option.splits)

lemma sendCancelsTo_state:
  fixes s :: "'q pwm" and ks bcs :: "cid list"
  defines "r \<equiv> \<lambda>calls p. snd (sendCancelsTo ks bcs p (calls, s))"
  shows "wantPeers (r calls p) = wantPeers s" "broadcastWants (r calls p) = broadcastWants s"
    "wantGauge (r calls p) = wantGauge s" "wantBlockGauge (r calls p) = wantBlockGauge s"
    "queue_of (r calls p) = queue_of s"
    "q \<noteq> p \<Longrightarrow> fmlookup (peerWants (r calls p)) q = fmlookup (peerWants s) q"
    "blocks_of (r calls p) = (blocks_of s)(p := blocks_of s p |-| fset_of_list ks)"
    "haves_of (r calls p) = (haves_of s)(p := haves_of s p |-| fset_of_list ks)"
proof -
  have "wantBlocks pws' = wantBlocks pws |-| fset_of_list ks"
      "wantHaves pws' = wantHaves pws |-| fset_of_list ks" "peerQueue pws' = peerQueue pws"
    if "fold (cancelKey (broadcastWants s)) ks (bcs, pws) = (tc, pws')" for pws pws' tc
    using fold_cancelKey [OF that] by simp_all
  note facts = this
  show "wantPeers (r calls p) = wantPeers s" "broadcastWants (r calls p) = broadcastWants s"
    "wantGauge (r calls p) = wantGauge s" "wantBlockGauge (r calls p) = wantBlockGauge s"
    "queue_of (r calls p) = queue_of s"
    "q \<noteq> p \<Longrightarrow> fmlookup (peerWants (r calls p)) q = fmlookup (peerWants s) q"
    "blocks_of (r calls p) = (blocks_of s)(p := blocks_of s p |-| fset_of_list ks)"
    "haves_of (r calls p) = (haves_of s)(p := haves_of s p |-| fset_of_list ks)"
    by (auto simp: r_def sendCancelsTo_def queue_of_def blocks_of_def haves_of_def fun_eq_iff facts
        split: option.splits prod.splits)
qed

lemma fold_sendCancelsTo:
  assumes "distinct ps"
  shows "\<exists>s'. fold (sendCancelsTo ks bcs) ps (calls, s) = (calls @ concat (map (cancelsFor ks bcs s) ps), s') \<and>
     wantPeers s' = wantPeers s \<and> broadcastWants s' = broadcastWants s \<and>
     wantGauge s' = wantGauge s \<and> wantBlockGauge s' = wantBlockGauge s \<and> queue_of s' = queue_of s \<and>
     (\<forall>p. blocks_of s' p = (if p \<in> set ps then blocks_of s p |-| fset_of_list ks else blocks_of s p)) \<and>
     (\<forall>p. haves_of s' p = (if p \<in> set ps then haves_of s p |-| fset_of_list ks else haves_of s p))"
  using assms
proof (induction ps arbitrary: calls s)
  case (Cons p ps)
  define s1 where "s1 = snd (sendCancelsTo ks bcs p (calls, s))"
  note step = sendCancelsTo_state [where ks = ks and bcs = bcs and s = s and calls = calls and p = p, folded s1_def]
  have "distinct ps" "p \<notin> set ps"
    using Cons.prems by auto
  from Cons.IH [OF this(1), of "calls @ cancelsFor ks bcs s p" s1]
  obtain s' where IH: "fold (sendCancelsTo ks bcs) ps (calls @ cancelsFor ks bcs s p, s1) =
      ((calls @ cancelsFor ks bcs s p) @ concat (map (cancelsFor ks bcs s1) ps), s')"
     "wantPeers s' = wantPeers s1" "broadcastWants s' = broadcastWants s1"
     "wantGauge s' = wantGauge s1" "wantBlockGauge s' = wantBlockGauge s1" "queue_of s' = queue_of s1"
     "\<forall>p. blocks_of s' p = (if p \<in> set ps then blocks_of s1 p |-| fset_of_list ks else blocks_of s1 p)"
     "\<forall>p. haves_of s' p = (if p \<in> set ps then haves_of s1 p |-| fset_of_list ks else haves_of s1 p)"
    by blast
  have "cancelsFor ks bcs s1 q = cancelsFor ks bcs s q" if "q \<in> set ps" for q
  proof -
    have "q \<noteq> p"
      using that \<open>p \<notin> set ps\<close> by blast
    then show ?thesis
      using step(2) step(6) [of q] by (cases "fmlookup (peerWants s) q") (simp_all add: cancelsFor_def)
  qed
  then have same: "map (cancelsFor ks bcs s1) ps = map (cancelsFor ks bcs s) ps"
    by simp
  have "sendCancelsTo ks bcs p (calls, s) = (calls @ cancelsFor ks bcs s p, s1)"
    using sendCancelsTo_eq [of ks bcs p calls s] by (simp add: s1_def)
  then have "fold (sendCancelsTo ks bcs) (p # ps) (calls, s) =
      (calls @ concat (map (cancelsFor ks bcs s) (p # ps)), s')"
    using IH(1) [unfolded same] by simp
  with IH step \<open>p \<notin> set ps\<close> show ?case
    by (intro exI [of _ s']) auto
qed auto

lemma fold_decGauges:
  "distinct ks \<Longrightarrow>
   fold (decGauges pc) ks s =
     s\<lparr>wantGauge := wantGauge s - int (card {c \<in> set ks. wanted (pc c)}),
       wantBlockGauge := wantBlockGauge s - int (card {c \<in> set ks. 0 < cnt_wantBlock (pc c)})\<rparr>"
proof (induction ks arbitrary: s)
  case (Cons k ks)
  have cons: "{c \<in> set (k # ks). P c} = (if P k then insert k {c \<in> set ks. P c} else {c \<in> set ks. P c})" for P
    by auto
  have "k \<notin> set ks"
    using Cons.prems by simp
  then show ?case
    using Cons by (simp add: decGauges_def Let_def cons del: set_simps)
qed simp

lemma gauge_minus:
  assumes "distinct ks"
  shows "int (fcard A) - int (card {c \<in> set ks. c |\<in>| A}) = int (fcard (A |-| fset_of_list ks))"
proof -
  have "fset (A |-| fset_of_list ks) = fset A - {c \<in> set ks. c |\<in>| A}"
    by (auto simp: fset_of_list_elem)
  moreover have "card (fset A - {c \<in> set ks. c |\<in>| A}) = card (fset A) - card {c \<in> set ks. c |\<in>| A}"
    by (rule card_Diff_subset) auto
  moreover have "card {c \<in> set ks. c |\<in>| A} \<le> card (fset A)"
    by (rule card_mono) auto
  ultimately show ?thesis
    by (simp add: fcard.rep_eq)
qed


lemma members_fold_fmdrop: "members (fold fmdrop ks m) c = (if c \<in> set ks then {||} else members m c)"
  by (simp add: members_def fmlookup_fold_fmdrop)

definition cancelTargets :: "peer order \<Rightarrow> cid list \<Rightarrow> 'q pwm \<Rightarrow> peer list" where
  "cancelTargets ord ks s =
     (if length (filter (\<lambda>c. c |\<in>| broadcastWants s) ks) > 0 then ord (fmdom (peerWants s))
      else ord (ffUnion (fset_of_list (map (members (wantPeers s)) ks))))"

lemma sent_known: "sent s p c \<Longrightarrow> p |\<in>| fmdom (peerWants s)"
  by (auto simp: sent_def sentBlock_def sentHave_def fmlookup_dom_iff split: option.splits)

lemma cancelTargets_cover:
  assumes "go_range ord" "pwm_inv s" "c \<in> set ks" "sent s p c"
  shows "p \<in> set (cancelTargets ord ks s)"
  using assms sent_known [OF assms(4)] pwm_invD(2) [OF assms(2), of p c]
  by (auto simp: cancelTargets_def go_range.ord_set [OF assms(1)] fset_of_list_elem ffUnion.rep_eq
      fset_of_list.rep_eq)

lemma sent_inv_bounds:
  assumes "pwm_inv s"
  shows "c |\<in>| wanted_keys s \<longleftrightarrow> c |\<in>| broadcastWants s \<or> (\<exists>p. sent s p c)"
    and "c |\<in>| block_keys s \<longleftrightarrow> (\<exists>p. c |\<in>| blocks_of s p)"
proof -
  have "sentBlock s p c \<longleftrightarrow> c |\<in>| blocks_of s p" for p
    by (simp add: sentBlock_def blocks_of_def split: option.splits)
  then show "c |\<in>| block_keys s \<longleftrightarrow> (\<exists>p. c |\<in>| blocks_of s p)"
    using in_block_keys [OF pwm_soundD(1) [OF pwm_invD(1) [OF assms]], of c] pwm_invD(2) [OF assms]
    by (auto simp: sent_def)
  show "c |\<in>| wanted_keys s \<longleftrightarrow> c |\<in>| broadcastWants s \<or> (\<exists>p. sent s p c)"
    using in_wanted_keys [OF pwm_soundD(1) [OF pwm_invD(1) [OF assms]], of c] pwm_invD(2) [OF assms]
    by auto
qed

lemma sendCancels_state:
  assumes ord: "go_range ord" and inv: "pwm_inv s" and ks: "distinct ks" "ks \<noteq> []"
  shows "\<exists>s'. sendCancels ord ks s =
       (concat (map (cancelsFor ks (filter (\<lambda>c. c |\<in>| broadcastWants s) ks) s) (cancelTargets ord ks s)), s') \<and>
     pwm_inv s' \<and> queue_of s' = queue_of s \<and> broadcastWants s' = broadcastWants s |-| fset_of_list ks \<and>
     (\<forall>p. blocks_of s' p = blocks_of s p |-| fset_of_list ks) \<and>
     (\<forall>p. haves_of s' p = haves_of s p |-| fset_of_list ks)"
proof -
  let ?bcs = "filter (\<lambda>c. c |\<in>| broadcastWants s) ks"
  have dist: "distinct (cancelTargets ord ks s)"
    by (simp add: cancelTargets_def go_range.ord_distinct [OF ord])
  from fold_sendCancelsTo [OF dist, of ks ?bcs "[]" s]
  obtain s1 where s1: "fold (sendCancelsTo ks ?bcs) (cancelTargets ord ks s) ([], s) =
      (concat (map (cancelsFor ks ?bcs s) (cancelTargets ord ks s)), s1)"
    "wantPeers s1 = wantPeers s" "broadcastWants s1 = broadcastWants s"
    "wantGauge s1 = wantGauge s" "wantBlockGauge s1 = wantBlockGauge s" "queue_of s1 = queue_of s"
    "\<forall>p. blocks_of s1 p = (if p \<in> set (cancelTargets ord ks s) then blocks_of s p |-| fset_of_list ks else blocks_of s p)"
    "\<forall>p. haves_of s1 p = (if p \<in> set (cancelTargets ord ks s) then haves_of s p |-| fset_of_list ks else haves_of s p)"
    by auto
  define s' where "s' = (fold (decGauges (\<lambda>c. wantPeerCounts c s)) ks s1)
      \<lparr>broadcastWants := broadcastWants s |-| fset_of_list ?bcs, wantPeers := fold fmdrop ks (wantPeers s)\<rparr>"
  note dec = fold_decGauges [OF ks(1), of "\<lambda>c. wantPeerCounts c s" s1]
  have "broadcastWants s' = broadcastWants s |-| fset_of_list ks"
    by (auto simp: s'_def fset_of_list_elem)
  note bc = this
  have wp: "wantPeers s' = fold fmdrop ks (wantPeers s)"
    by (simp add: s'_def)
  have res: "sendCancels ord ks s = (concat (map (cancelsFor ks ?bcs s) (cancelTargets ord ks s)), s')"
  proof -
    have "sendCancels ord ks s =
        (let (calls, t) = fold (sendCancelsTo ks ?bcs) (cancelTargets ord ks s) ([], s);
             u = fold (decGauges (\<lambda>c. wantPeerCounts c s)) ks t
         in (calls, u\<lparr>broadcastWants := broadcastWants u |-| fset_of_list ?bcs, wantPeers := fold fmdrop ks (wantPeers u)\<rparr>))"
      using ks(2) by (simp add: sendCancels_def cancelTargets_def Let_def)
    then show ?thesis
      unfolding s1(1) by (simp add: s'_def dec s1(2,3))
  qed
  have out: "c |\<notin>| blocks_of s p \<and> c |\<notin>| haves_of s p" if "p \<notin> set (cancelTargets ord ks s)" "c \<in> set ks" for p c
    using that cancelTargets_cover [OF ord inv, of c ks p] by (auto simp: sent_sets)
  have blocks: "blocks_of s' p = blocks_of s p |-| fset_of_list ks" and haves: "haves_of s' p = haves_of s p |-| fset_of_list ks" for p
  proof -
    have "blocks_of s' = blocks_of s1" "haves_of s' = haves_of s1"
      by (simp_all add: fun_eq_iff s'_def dec blocks_of_def haves_of_def)
    then show "blocks_of s' p = blocks_of s p |-| fset_of_list ks" "haves_of s' p = haves_of s p |-| fset_of_list ks"
      using s1(7,8) out [of p] by (auto simp: fset_of_list_elem)
  qed
  have sent: "sent s' p c \<longleftrightarrow> sent s p c \<and> c \<notin> set ks" for p c
    by (auto simp: sent_sets blocks haves fset_of_list_elem)
  have mem: "p |\<in>| members (wantPeers s') c \<longleftrightarrow> sent s' p c" for p c
    by (simp add: wp members_fold_fmdrop sent pwm_invD(2) [OF inv])
  have clean: "no_empty (wantPeers s')"
    using pwm_soundD(1) [OF pwm_invD(1) [OF inv]]
    by (auto simp: wp fmlookup_fold_fmdrop dest: no_emptyD intro!: no_emptyI split: if_splits)
  have sb: "sentBlock t p c \<longleftrightarrow> c |\<in>| blocks_of t p" "sentHave t p c \<longleftrightarrow> c |\<in>| haves_of t p" for t :: "'a pwm" and p c
    by (simp_all add: sentBlock_def sentHave_def blocks_of_def haves_of_def split: option.splits)
  have "wanted_keys s' = wanted_keys s |-| fset_of_list ks"
    by (intro fset_eqI) (auto simp: in_wanted_keys [OF clean] sent_inv_bounds(1) [OF inv] bc mem sent fset_of_list_elem
        simp flip: ex_fin_conv)
  moreover have "block_keys s' = block_keys s |-| fset_of_list ks"
    by (intro fset_eqI) (auto simp: in_block_keys [OF clean] sent_inv_bounds(2) [OF inv] mem sent sb blocks
        sent_def fset_of_list_elem)
  moreover have "wantGauge s' = wantGauge s - int (card {c \<in> set ks. c |\<in>| wanted_keys s})"
    by (simp add: s'_def dec s1(4) sound_wanted [OF pwm_invD(1) [OF inv]])
  moreover have "wantBlockGauge s' = wantBlockGauge s - int (card {c \<in> set ks. c |\<in>| block_keys s})"
  proof -
    have "0 < cnt_wantBlock (wantPeerCounts c s) \<longleftrightarrow> c |\<in>| block_keys s" for c
      using sound_block [OF pwm_invD(1) [OF inv], of c] by auto
    then show ?thesis
      by (simp add: s'_def dec s1(5))
  qed
  ultimately have "pwm_inv s'"
    using clean mem pwm_soundD(3) [OF pwm_invD(1) [OF inv]]
      gauge_minus [OF ks(1), of "wanted_keys s"] gauge_minus [OF ks(1), of "block_keys s"]
      pwm_soundD(4,5) [OF pwm_invD(1) [OF inv]]
    by (auto simp: pwm_inv_def sb blocks haves intro!: pwm_soundI)
  moreover have "queue_of s' = queue_of s"
    using s1(6) by (simp add: s'_def dec queue_of_def fun_eq_iff)
  ultimately show ?thesis
    using res bc blocks haves by blast
qed


lemma set_cancelsFor:
  assumes "set bcs = {c \<in> set ks. c |\<in>| broadcastWants s}"
  shows "(q, call) \<in> set (cancelsFor ks bcs s p) \<longleftrightarrow>
     queue_of s p = Some q \<and> (\<exists>l. call = PQ_AddCancels l \<and> l \<noteq> [] \<and>
       cancelsFor ks bcs s p = [(q, PQ_AddCancels l)] \<and>
       set l = {c \<in> set ks. c |\<in>| broadcastWants s \<or> sent s p c})"
proof (cases "fmlookup (peerWants s) p")
  case (Some pws)
  obtain tc pws' where f: "fold (cancelKey (broadcastWants s)) ks (bcs, pws) = (tc, pws')"
    by (cases "fold (cancelKey (broadcastWants s)) ks (bcs, pws)")
  have "set tc = {c \<in> set ks. c |\<in>| broadcastWants s \<or> sent s p c}"
    using fold_cancelKey [OF f] Some assms by (auto simp: sent_def sentBlock_def sentHave_def)
  with Some f show ?thesis
    by (auto simp: cancelsFor_def queue_of_def Let_def)
qed (simp add: cancelsFor_def queue_of_def)

lemma sendCancels_calls:
  assumes "go_range ord" "pwm_inv s" "distinct ks"
  shows "(\<forall>q call. (q, call) \<in> set (fst (sendCancels ord ks s)) \<longrightarrow>
       (\<exists>p l. queue_of s p = Some q \<and> call = PQ_AddCancels l \<and>
          set l = {c \<in> set ks. c |\<in>| broadcastWants s \<or> sent s p c} \<and> l \<noteq> [])) \<and>
     (\<forall>p q. queue_of s p = Some q \<and> (\<exists>c\<in>set ks. c |\<in>| broadcastWants s \<or> sent s p c) \<longrightarrow>
       (\<exists>l. (q, PQ_AddCancels l) \<in> set (fst (sendCancels ord ks s)) \<and>
          set l = {c \<in> set ks. c |\<in>| broadcastWants s \<or> sent s p c})) \<and>
     (\<forall>c\<in>set ks. c |\<notin>| broadcastWants (snd (sendCancels ord ks s)) \<and>
       (\<forall>p. \<not> sent (snd (sendCancels ord ks s)) p c))"
proof (cases "ks = []")
  case False
  let ?bcs = "filter (\<lambda>c. c |\<in>| broadcastWants s) ks"
  obtain s' where r: "sendCancels ord ks s = (concat (map (cancelsFor ks ?bcs s) (cancelTargets ord ks s)), s')"
    "broadcastWants s' = broadcastWants s |-| fset_of_list ks"
    "\<forall>p. blocks_of s' p = blocks_of s p |-| fset_of_list ks"
    "\<forall>p. haves_of s' p = haves_of s p |-| fset_of_list ks"
    using sendCancels_state [OF assms False] by blast
  have bcs: "set ?bcs = {c \<in> set ks. c |\<in>| broadcastWants s}"
    by auto
  have one: "\<exists>l. (q, PQ_AddCancels l) \<in> set (fst (sendCancels ord ks s)) \<and>
      set l = {c \<in> set ks. c |\<in>| broadcastWants s \<or> sent s p c}"
    if q: "queue_of s p = Some q" and c: "c \<in> set ks" "c |\<in>| broadcastWants s \<or> sent s p c" for p q c
  proof -
    have "p |\<in>| fmdom (peerWants s)"
      using q by (auto simp: queue_of_def fmlookup_dom_iff)
    then have target: "p \<in> set (cancelTargets ord ks s)"
      using c cancelTargets_cover [OF assms(1,2), of c ks p]
      by (auto simp: cancelTargets_def go_range.ord_set [OF assms(1)] filter_empty_conv)
    obtain pws tc pws' where f: "fmlookup (peerWants s) p = Some pws" "peerQueue pws = q"
        "fold (cancelKey (broadcastWants s)) ks (?bcs, pws) = (tc, pws')"
      using q by (cases "fold (cancelKey (broadcastWants s)) ks (?bcs, the (fmlookup (peerWants s) p))")
        (auto simp: queue_of_def)
    have "c \<in> set tc"
      using fold_cancelKey [OF f(3)] f(1) c by (auto simp: sent_def sentBlock_def sentHave_def)
    then have "(q, PQ_AddCancels tc) \<in> set (cancelsFor ks ?bcs s p)"
      using f by (auto simp: cancelsFor_def)
    with target show ?thesis
      using set_cancelsFor [OF bcs, of q "PQ_AddCancels tc" p]
      by (auto simp: r(1) intro!: exI [of _ tc] bexI [of _ p])
  qed
  have only: "\<exists>p l. queue_of s p = Some q \<and> call = PQ_AddCancels l \<and>
      set l = {c \<in> set ks. c |\<in>| broadcastWants s \<or> sent s p c} \<and> l \<noteq> []"
    if "(q, call) \<in> set (fst (sendCancels ord ks s))" for q call
    using that set_cancelsFor [OF bcs, of q call] by (auto simp: r(1))
  have gone: "c |\<notin>| broadcastWants (snd (sendCancels ord ks s)) \<and> (\<forall>p. \<not> sent (snd (sendCancels ord ks s)) p c)"
    if "c \<in> set ks" for c
    using that by (simp add: r(1) sent_sets r(2,3,4) fset_of_list_elem)
  show ?thesis
    by (intro conjI allI impI ballI only gone [THEN conjunct1] gone [THEN conjunct2, THEN spec])
      (use one in blast)+
qed (simp add: sendCancels_def)

section \<open>Runs of the manager\<close>

datatype 'q pwm_op =
    PWM_addPeer 'q peer
  | PWM_removePeer peer
  | PWM_broadcastWantHaves "cid list"
  | PWM_sendWants peer "cid list" "cid list"
  | PWM_sendCancels "cid list"

fun pwm_step :: "string order \<Rightarrow> 'q pwm_op \<Rightarrow> 'q pwm \<Rightarrow> ('q \<times> pq_call) list \<times> 'q pwm" where
  "pwm_step ord (PWM_addPeer q p) s = addPeer ord q p s"
| "pwm_step ord (PWM_removePeer p) s = ([], removePeer ord p s)"
| "pwm_step ord (PWM_broadcastWantHaves ks) s = broadcastWantHaves ord ks s"
| "pwm_step ord (PWM_sendWants p bs hs) s = sendWants p bs hs s"
| "pwm_step ord (PWM_sendCancels ks) s = sendCancels ord ks s"

fun pwm_op_ok :: "'q pwm_op \<Rightarrow> bool" where
  "pwm_op_ok (PWM_sendCancels ks) = distinct ks"
| "pwm_op_ok _ = True"

lemma pwm_inv_sendWants: "pwm_inv s \<Longrightarrow> pwm_inv (snd (sendWants p bs hs s))"
  using sendWants_state [of s p _ bs hs]
  by (cases "fmlookup (peerWants s) p") (fastforce simp: sendWants_def queue_of_def)+

lemma pwm_inv_sendCancels: "go_range ord \<Longrightarrow> distinct ks \<Longrightarrow> pwm_inv s \<Longrightarrow> pwm_inv (snd (sendCancels ord ks s))"
  using sendCancels_state [of ord s ks] by (cases "ks = []") (auto simp: sendCancels_def)

lemma pwm_inv_step: "go_range ord \<Longrightarrow> pwm_op_ok x \<Longrightarrow> pwm_inv s \<Longrightarrow> pwm_inv (snd (pwm_step ord x s))"
  by (cases x) (simp_all add: addPeer_state removePeer_state broadcastWantHaves_state
      pwm_inv_sendWants pwm_inv_sendCancels)

interpretation pwm_runs: step_invariant "\<lambda>x s. snd (pwm_step key_order x s)" pwm_op_ok pwm_inv
  by unfold_locales (simp add: pwm_inv_step)

section \<open>Properties\<close>



text \<open>
  Cancelling a key named twice in one call decrements the gauges twice: with one peer and
  one want-block both gauges end at minus one.
\<close>

theorem sendCancels_double_decrement:
  "let s = snd (sendWants ''p'' [''a''] [] (snd (addPeer key_order (0::nat) ''p'' newPeerWantManager)));
       s' = snd (sendCancels key_order [''a'', ''a''] s)
   in wantGauge s = 1 \<and> wantBlockGauge s = 1 \<and> wantGauge s' = - 1 \<and> wantBlockGauge s' = - 1"
  by code_simp

text \<open>
  \<open>sendWants\<close> sends no duplicates: the one call on the peer's queue carries exactly the
  want-blocks not yet sent to it as want-blocks, and exactly the want-haves that are neither
  broadcast nor sent nor among the want-blocks, each once.
\<close>

theorem sendWants_sends_new:
  assumes "pwm_inv s" "queue_of s p = Some q"
  shows "\<exists>bs hs s'. sendWants p wbs whs s = ([(q, PQ_AddWants bs hs)], s') \<and>
     distinct bs \<and> set bs = {c \<in> set wbs. \<not> sentBlock s p c} \<and>
     distinct hs \<and> set hs = {c \<in> set whs. c |\<notin>| broadcastWants s \<and> c \<notin> set wbs \<and> \<not> sent s p c} \<and>
     (\<forall>p' c. sent s' p' c \<longleftrightarrow> sent s p' c \<or> (p' = p \<and> c \<in> set bs \<union> set hs))"
proof -
  obtain bs hs s' where r: "sendWants p wbs whs s = ([(q, PQ_AddWants bs hs)], s')"
    "distinct bs" "set bs = set wbs - fset (blocks_of s p)" "distinct hs"
    "set hs = {c \<in> set whs. c |\<notin>| broadcastWants s \<and> c \<notin> set wbs \<and> \<not> sent s p c}"
    "blocks_of s' = (blocks_of s)(p := blocks_of s p |\<union>| fset_of_list wbs)"
    "haves_of s' = (haves_of s)(p := (haves_of s p |-| (fset_of_list wbs |-| blocks_of s p)) |\<union>|
        (fset_of_list whs |-| broadcastWants s |-| blocks_of s p |-| fset_of_list wbs))"
    using sendWants_state [OF assms, of wbs whs] by blast
  have "sentBlock s p c \<longleftrightarrow> c |\<in>| blocks_of s p" for c
    by (simp add: sentBlock_def blocks_of_def split: option.splits)
  with r(3) have "set bs = {c \<in> set wbs. \<not> sentBlock s p c}"
    by auto
  moreover have "sent s' p' c \<longleftrightarrow> sent s p' c \<or> (p' = p \<and> c \<in> set bs \<union> set hs)" for p' c
    by (auto simp: sent_sets r(3,5,6,7) fset_of_list_elem)
  ultimately show ?thesis
    using r by blast
qed

definition example_pwm :: "nat pwm" where
  "example_pwm = snd (addPeer key_order 0 ''p'' newPeerWantManager)"

lemma pwm_inv_example: "pwm_inv example_pwm"
  unfolding example_pwm_def by (rule addPeer_state [OF pwm_inv_new])

lemma queue_of_example: "queue_of example_pwm ''p'' = Some 0"
  by code_simp

theorem sendWants_sends_new_witness:
  "\<exists>bs hs s'. sendWants ''p'' [''a'', ''a''] [''a'', ''b''] example_pwm = ([(0, PQ_AddWants bs hs)], s') \<and>
     distinct bs \<and> sent s' ''p'' ''b''"
proof -
  have "\<not> sent example_pwm ''p'' ''b''" "''b'' |\<notin>| broadcastWants example_pwm"
    by code_simp+
  then show ?thesis
    using sendWants_sends_new [OF pwm_inv_example queue_of_example, of "[''a'', ''a'']" "[''a'', ''b'']"]
    by fastforce
qed

text \<open>
  Cancels reach everyone: each connected peer that was sent one of the keys, or any peer
  when the key was broadcast, gets one cancel call with exactly those keys, nobody else
  gets a call, and afterwards no want for any of the keys is left.
\<close>

theorem sendCancels_reach:
  assumes "go_range ord" "pwm_inv s" "distinct ks"
  shows "(\<forall>q call. (q, call) \<in> set (fst (sendCancels ord ks s)) \<longrightarrow>
       (\<exists>p l. queue_of s p = Some q \<and> call = PQ_AddCancels l \<and>
          set l = {c \<in> set ks. c |\<in>| broadcastWants s \<or> sent s p c} \<and> l \<noteq> [])) \<and>
     (\<forall>p q. queue_of s p = Some q \<and> (\<exists>c\<in>set ks. c |\<in>| broadcastWants s \<or> sent s p c) \<longrightarrow>
       (\<exists>l. (q, PQ_AddCancels l) \<in> set (fst (sendCancels ord ks s)) \<and>
          set l = {c \<in> set ks. c |\<in>| broadcastWants s \<or> sent s p c})) \<and>
     (\<forall>c\<in>set ks. c |\<notin>| broadcastWants (snd (sendCancels ord ks s)) \<and>
       (\<forall>p. \<not> sent (snd (sendCancels ord ks s)) p c))"
  using assms by (rule sendCancels_calls)

theorem sendCancels_reach_witness:
  "\<exists>l. (0, PQ_AddCancels l) \<in>
     set (fst (sendCancels key_order [''a''] (snd (sendWants ''p'' [''a''] [] example_pwm)))) \<and> set l = {''a''}"
proof -
  let ?s = "snd (sendWants ''p'' [''a''] [] example_pwm)"
  have "queue_of ?s ''p'' = Some 0" "sent ?s ''p'' ''a''"
    by code_simp+
  moreover have "pwm_inv ?s"
    by (rule pwm_inv_sendWants [OF pwm_inv_example])
  ultimately show ?thesis
    using sendCancels_reach [OF go_range_key_order, of ?s "[''a'']"] by fastforce
qed

end
