(* ===== verification/Peer_Queue_Contract.thy ===== *)
theory Peer_Queue_Contract
  imports Peer_Want_Props
begin

text \<open>
  The interface \<open>PeerQueue\<close> between the peer want manager and the queues: every queue stands for a
  set of keys, the calls of the manager change it in a fixed way, and each operation of the
  manager keeps the keys of every queue equal to the wants of its peer.
\<close>

section \<open>The contract of a peer queue\<close>

text \<open>What the calls on a queue do to the set of keys it stands for.\<close>

fun call_keys :: "pq_call \<Rightarrow> cid set \<Rightarrow> cid set" where
  "call_keys (PQ_AddBroadcastWantHaves ks) K = K \<union> set ks"
| "call_keys (PQ_AddWants bs hs) K = K \<union> set bs \<union> set hs"
| "call_keys (PQ_AddCancels ks) K = K - set ks"
| "call_keys _ K = K"

definition calls_keys :: "'q \<Rightarrow> ('q \<times> pq_call) list \<Rightarrow> cid set \<Rightarrow> cid set" where
  "calls_keys q calls K = fold (\<lambda>(q', call) K. if q' = q then call_keys call K else K) calls K"

definition peer_keys :: "'q pwm \<Rightarrow> peer \<Rightarrow> cid set" where
  "peer_keys s p = fset (broadcastWants s) \<union> {c. sent s p c}"

definition handles_ok :: "'q pwm \<Rightarrow> bool" where
  "handles_ok s \<longleftrightarrow> (\<forall>p p' q. queue_of s p = Some q \<longrightarrow> queue_of s p' = Some q \<longrightarrow> p = p')"

lemma handlesD: "handles_ok s \<Longrightarrow> queue_of s p = Some q \<Longrightarrow> queue_of s p' = Some q \<Longrightarrow> p' = p"
  by (auto simp: handles_ok_def)

lemma calls_keys_Cons: "calls_keys q ((q', call) # calls) K = calls_keys q calls (if q' = q then call_keys call K else K)"
  by (simp add: calls_keys_def)

lemma calls_keys_add:
  "list_all (\<lambda>(q', call). \<exists>ks. call = PQ_AddBroadcastWantHaves ks) calls \<Longrightarrow>
     c \<in> calls_keys q calls K \<longleftrightarrow> c \<in> K \<or> (\<exists>ks. (q, PQ_AddBroadcastWantHaves ks) \<in> set calls \<and> c \<in> set ks)"
proof (induction calls arbitrary: K)
  case (Cons x calls)
  then obtain q' ks where x: "x = (q', PQ_AddBroadcastWantHaves ks)"
    by auto
  have "list_all (\<lambda>(q', call). \<exists>ks. call = PQ_AddBroadcastWantHaves ks) calls"
    using Cons.prems by simp
  from Cons.IH [OF this] show ?case
    by (auto simp: x calls_keys_Cons)
qed (simp add: calls_keys_def)

lemma calls_keys_cancel:
  "list_all (\<lambda>(q', call). \<exists>ks. call = PQ_AddCancels ks) calls \<Longrightarrow>
     c \<in> calls_keys q calls K \<longleftrightarrow> c \<in> K \<and> (\<forall>ks. (q, PQ_AddCancels ks) \<in> set calls \<longrightarrow> c \<notin> set ks)"
proof (induction calls arbitrary: K)
  case (Cons x calls)
  then obtain q' ks where x: "x = (q', PQ_AddCancels ks)"
    by auto
  have "list_all (\<lambda>(q', call). \<exists>ks. call = PQ_AddCancels ks) calls"
    using Cons.prems by simp
  from Cons.IH [OF this] show ?case
    by (auto simp: x calls_keys_Cons)
qed (simp add: calls_keys_def)

lemma calls_keys_Nil [simp]: "calls_keys q [] K = K"
  by (simp add: calls_keys_def)

text \<open>Each operation, seen through the keys of one queue: they stay those of its peer.\<close>

lemma keys_addPeer:
  assumes "go_range ord" "pwm_inv s" "queue_of s p = None"
  shows "queue_of (snd (addPeer ord q p s)) = (queue_of s)(p := Some q)"
    and "calls_keys q (fst (addPeer ord q p s)) {} = peer_keys (snd (addPeer ord q p s)) p"
    and "q' \<noteq> q \<Longrightarrow> calls_keys q' (fst (addPeer ord q p s)) K = K"
    and "p' \<noteq> p \<Longrightarrow> peer_keys (snd (addPeer ord q p s)) p' = peer_keys s p'"
proof -
  have none: "fmlookup (peerWants s) p = None"
    using assms(3) by (simp add: queue_of_def)
  then have "\<not> sent s p c" for c
    by (simp add: sent_def sentBlock_def sentHave_def)
  then have "peer_keys (snd (addPeer ord q p s)) p = fset (broadcastWants s)"
    by (simp add: peer_keys_def addPeer_state [OF assms(2)])
  moreover have "calls_keys q (fst (addPeer ord q p s)) {} = fset (broadcastWants s)"
    using none by (auto simp: addPeer_def calls_keys_def go_range.ord_set [OF assms(1)])
  ultimately show "calls_keys q (fst (addPeer ord q p s)) {} = peer_keys (snd (addPeer ord q p s)) p"
    by simp
  show "queue_of (snd (addPeer ord q p s)) = (queue_of s)(p := Some q)"
    using none by (simp add: addPeer_def queue_of_def fun_eq_iff)
  show "q' \<noteq> q \<Longrightarrow> calls_keys q' (fst (addPeer ord q p s)) K = K"
    by (auto simp: addPeer_def calls_keys_def split: option.splits)
  show "p' \<noteq> p \<Longrightarrow> peer_keys (snd (addPeer ord q p s)) p' = peer_keys s p'"
    by (simp add: peer_keys_def addPeer_state [OF assms(2)])
qed

lemma keys_removePeer:
  assumes "go_range ord" "pwm_inv s"
  shows "queue_of (removePeer ord p s) = (queue_of s)(p := None)"
    and "p' \<noteq> p \<Longrightarrow> peer_keys (removePeer ord p s) p' = peer_keys s p'"
  by (simp_all add: queue_of_def fun_eq_iff peer_keys_def removePeer_state [OF assms])

lemma keys_broadcast:
  assumes "go_range ord" "pwm_inv s" "handles_ok s" "queue_of s p = Some q"
  shows "calls_keys q (fst (broadcastWantHaves ord ks s)) (peer_keys s p) =
           peer_keys (snd (broadcastWantHaves ord ks s)) p"
    and "queue_of (snd (broadcastWantHaves ord ks s)) = queue_of s"
proof -
  note st = broadcastWantHaves_state [OF assms(2), of ord ks]
  show "queue_of (snd (broadcastWantHaves ord ks s)) = queue_of s"
    by (simp add: queue_of_def st(2) fun_eq_iff)
  obtain unsent s1 where f: "fold broadcastOne ks ([], s) = (unsent, s1)"
    by (metis prod.collapse)
  have s1: "peerWants s1 = peerWants s" "set unsent = set ks - fset (broadcastWants s)"
    using fold_broadcastOne [OF assms(2), of ks "[]"] f by simp_all
  obtain pws where pws: "fmlookup (peerWants s) p = Some pws" "peerQueue pws = q"
    using assms(4) by (auto simp: queue_of_def)
  let ?calls = "concat (map (broadcastTo unsent) (range_values ord (peerWants s)))"
  have calls: "fst (broadcastWantHaves ord ks s) = (if unsent = [] then [] else ?calls)"
    by (simp add: broadcastWantHaves_def f s1(1))
  have own: "pws' = pws" if "fmlookup (peerWants s) p' = Some pws'" "peerQueue pws' = q" for p' pws'
    using that handlesD [OF assms(3,4), of p'] pws by (simp add: queue_of_def)
  have "(q, PQ_AddBroadcastWantHaves l) \<in> set ?calls \<longleftrightarrow> (q, PQ_AddBroadcastWantHaves l) \<in> set (broadcastTo unsent pws)" for l
    using own pws(1) by (auto simp: set_range_values [OF assms(1)] broadcastTo_def Let_def split: if_splits)
  then have "(\<exists>l. (q, PQ_AddBroadcastWantHaves l) \<in> set ?calls \<and> c \<in> set l) \<longleftrightarrow> c \<in> set unsent \<and> \<not> sent s p c" for c
    using pws by (auto simp: broadcastTo_def Let_def sent_def sentBlock_def sentHave_def filter_empty_conv)
  moreover have "list_all (\<lambda>(q', call). \<exists>ks. call = PQ_AddBroadcastWantHaves ks) ?calls"
    by (auto simp: list_all_iff broadcastTo_def Let_def split: if_splits)
  ultimately have "calls_keys q ?calls (peer_keys s p) = peer_keys s p \<union> {c \<in> set unsent. \<not> sent s p c}"
    by (intro set_eqI) (simp add: calls_keys_add)
  moreover have "peer_keys (snd (broadcastWantHaves ord ks s)) p = peer_keys s p \<union> set ks"
    by (auto simp: peer_keys_def st sent_cong(3) [OF st(2)] fset_of_list.rep_eq)
  moreover have "peer_keys s p \<union> {c \<in> set unsent. \<not> sent s p c} = peer_keys s p \<union> set ks"
    by (auto simp: peer_keys_def s1(2))
  ultimately show "calls_keys q (fst (broadcastWantHaves ord ks s)) (peer_keys s p) =
      peer_keys (snd (broadcastWantHaves ord ks s)) p"
    using s1(2) by (auto simp: calls)
qed

lemma keys_sendWants:
  assumes "pwm_inv s" "handles_ok s" "queue_of s p' = Some q"
  shows "calls_keys q (fst (sendWants p wbs whs s)) (peer_keys s p') = peer_keys (snd (sendWants p wbs whs s)) p'"
    and "queue_of (snd (sendWants p wbs whs s)) = queue_of s"
proof -
  have "calls_keys q (fst (sendWants p wbs whs s)) (peer_keys s p') = peer_keys (snd (sendWants p wbs whs s)) p' \<and>
      queue_of (snd (sendWants p wbs whs s)) = queue_of s"
  proof (cases "queue_of s p")
    case None
    then show ?thesis
      by (simp add: sendWants_def queue_of_def)
  next
    case (Some q1)
    obtain bs hs s' where r: "sendWants p wbs whs s = ([(q1, PQ_AddWants bs hs)], s')" "queue_of s' = queue_of s"
      "broadcastWants s' = broadcastWants s" "set bs = set wbs - fset (blocks_of s p)"
      "set hs = {c \<in> set whs. c |\<notin>| broadcastWants s \<and> c \<notin> set wbs \<and> \<not> sent s p c}"
      "blocks_of s' = (blocks_of s)(p := blocks_of s p |\<union>| fset_of_list wbs)"
      "haves_of s' = (haves_of s)(p := (haves_of s p |-| (fset_of_list wbs |-| blocks_of s p)) |\<union>|
        (fset_of_list whs |-| broadcastWants s |-| blocks_of s p |-| fset_of_list wbs))"
      using sendWants_state [OF assms(1) Some, of wbs whs] by blast
    have "q1 = q \<longleftrightarrow> p' = p"
      using assms(2,3) Some by (auto simp: handles_ok_def)
    moreover have "peer_keys s' p' = (if p' = p then peer_keys s p \<union> set bs \<union> set hs else peer_keys s p')"
      by (auto simp: peer_keys_def sent_sets r(3,4,5,6,7) fset_of_list_elem)
    ultimately show ?thesis
      using r(1,2) by (auto simp: calls_keys_def)
  qed
  then show "calls_keys q (fst (sendWants p wbs whs s)) (peer_keys s p') = peer_keys (snd (sendWants p wbs whs s)) p'"
    "queue_of (snd (sendWants p wbs whs s)) = queue_of s"
    by simp_all
qed

lemma keys_sendCancels:
  assumes "go_range ord" "pwm_inv s" "distinct ks" "handles_ok s" "queue_of s p = Some q"
  shows "calls_keys q (fst (sendCancels ord ks s)) (peer_keys s p) = peer_keys (snd (sendCancels ord ks s)) p"
    and "queue_of (snd (sendCancels ord ks s)) = queue_of s"
proof -
  have "calls_keys q (fst (sendCancels ord ks s)) (peer_keys s p) = peer_keys (snd (sendCancels ord ks s)) p \<and>
      queue_of (snd (sendCancels ord ks s)) = queue_of s"
  proof (cases "ks = []")
    case False
    let ?calls = "fst (sendCancels ord ks s)"
    let ?X = "{c \<in> set ks. c |\<in>| broadcastWants s \<or> sent s p c}"
    obtain calls s' where r: "sendCancels ord ks s = (calls, s')" "queue_of s' = queue_of s"
      "broadcastWants s' = broadcastWants s |-| fset_of_list ks"
      "\<forall>p. blocks_of s' p = blocks_of s p |-| fset_of_list ks" "\<forall>p. haves_of s' p = haves_of s p |-| fset_of_list ks"
      using sendCancels_state [OF assms(1,2,3) False] by blast
    note calls = sendCancels_calls [OF assms(1,2,3), THEN conjunct1]
      sendCancels_calls [OF assms(1,2,3), THEN conjunct2, THEN conjunct1]
    have own: "set l = ?X" if mem: "(q, PQ_AddCancels l) \<in> set ?calls" for l
    proof -
      obtain p' l' where "queue_of s p' = Some q" "PQ_AddCancels l = PQ_AddCancels l'"
          "set l' = {c \<in> set ks. c |\<in>| broadcastWants s \<or> sent s p' c}"
        using calls(1) mem by blast
      then show ?thesis
        using handlesD [OF assms(4,5), of p'] by simp
    qed
    have "\<exists>l. (q, PQ_AddCancels l) \<in> set ?calls \<and> set l = ?X" if "c \<in> ?X" for c
      using calls(2) assms(5) that by blast
    note reach = this
    have "(\<forall>l. (q, PQ_AddCancels l) \<in> set ?calls \<longrightarrow> c \<notin> set l) \<longleftrightarrow> c \<notin> ?X" for c
    proof
      assume all: "\<forall>l. (q, PQ_AddCancels l) \<in> set ?calls \<longrightarrow> c \<notin> set l"
      show "c \<notin> ?X"
      proof
        assume "c \<in> ?X"
        then obtain l where "(q, PQ_AddCancels l) \<in> set ?calls" "set l = ?X"
          using reach by blast
        with all \<open>c \<in> ?X\<close> show False
          by blast
      qed
    qed (use own in simp)
    moreover have "list_all (\<lambda>(q', call). \<exists>ks. call = PQ_AddCancels ks) ?calls"
      by (auto simp: list_all_iff dest!: calls(1) [rule_format])
    ultimately have "calls_keys q ?calls (peer_keys s p) = peer_keys s p - ?X"
      by (intro set_eqI) (simp add: calls_keys_cancel)
    moreover have "peer_keys s' p = peer_keys s p - ?X"
      by (auto simp: peer_keys_def sent_sets r(3,4,5) fset_of_list_elem)
    ultimately show ?thesis
      using r(1,2) by simp
  qed (simp add: sendCancels_def)
  then show "calls_keys q (fst (sendCancels ord ks s)) (peer_keys s p) = peer_keys (snd (sendCancels ord ks s)) p"
    "queue_of (snd (sendCancels ord ks s)) = queue_of s"
    by simp_all
qed

text \<open>
  The interface \<open>PeerQueue\<close>: the keys a queue stands for after each of the calls. Whatever the
  queue behind the handle, delivering the calls to it changes its keys as \<open>call_keys\<close> says.
\<close>

fun pq_deliver ::
  "(cid list \<Rightarrow> 'm \<Rightarrow> 'm) \<Rightarrow> (cid list \<Rightarrow> cid list \<Rightarrow> 'm \<Rightarrow> 'm) \<Rightarrow> (cid list \<Rightarrow> 'm \<Rightarrow> 'm) \<Rightarrow> pq_call \<Rightarrow> 'm \<Rightarrow> 'm" where
  "pq_deliver bcast wants cancels (PQ_AddBroadcastWantHaves ks) m = bcast ks m"
| "pq_deliver bcast wants cancels (PQ_AddWants bs hs) m = wants bs hs m"
| "pq_deliver bcast wants cancels (PQ_AddCancels ks) m = cancels ks m"
| "pq_deliver bcast wants cancels _ m = m"

locale peer_queue =
  fixes bcast :: "cid list \<Rightarrow> 'm \<Rightarrow> 'm"
    and wants :: "cid list \<Rightarrow> cid list \<Rightarrow> 'm \<Rightarrow> 'm"
    and cancels :: "cid list \<Rightarrow> 'm \<Rightarrow> 'm"
    and keys :: "'m \<Rightarrow> cid set"
  assumes keys_bcast: "keys (bcast ks m) = keys m \<union> set ks"
    and keys_wants: "keys (wants bs hs m) = keys m \<union> set bs \<union> set hs"
    and keys_cancels: "keys (cancels ks m) = keys m - set ks"
begin

lemma keys_deliver: "keys (pq_deliver bcast wants cancels call m) = call_keys call (keys m)"
  by (cases call) (simp_all add: keys_bcast keys_wants keys_cancels)

lemma keys_deliver_all:
  "keys (fold (\<lambda>(q', call) qs. qs(q' := pq_deliver bcast wants cancels call (qs q'))) calls qs q) =
     calls_keys q calls (keys (qs q))"
  by (induction calls arbitrary: qs) (auto simp: calls_keys_def keys_deliver)

end

end
