(* ===== verification/Message_Queue.thy ===== *)
theory Message_Queue
  imports Peer_Queue_Contract
begin

text \<open>
  The message queue of one peer, \<open>client/internal/messagequeue/messagequeue.go\<close>: the wants and
  cancels to send, the record of what was sent, and the making of messages.

  Times are nanoseconds; Go's zero \<open>time.Time\<close> is \<open>None\<close>. The calls an operation makes on the
  DONT_HAVE timeout manager, on the network sender and on the work channel are returned in
  order. \<open>extractOutgoingMessage\<close> gives up the lock between taking its snapshot and marking the
  wants as sent: it is three steps here, and \<open>sendMessage\<close> takes the operations other
  goroutines run in between as an argument. The slices \<open>peerEntries\<close> and \<open>bcstEntries\<close> alias the
  memoised slice of a want list, but an entry is overwritten only after that want list has
  changed, which drops the memo; they are values here.
\<close>

section \<open>Recall want lists\<close>

record recall =
  pending :: wantlist
  r_sent :: wantlist
  sentAt :: "(cid, int) fmap"

definition newRecallWantList :: recall where
  "newRecallWantList = \<lparr>pending = wl_New, r_sent = wl_New, sentAt = fmempty\<rparr>"

definition recall_Add :: "cid \<Rightarrow> int32 \<Rightarrow> want_type \<Rightarrow> recall \<Rightarrow> recall" where
  "recall_Add c priority wtype r = r\<lparr>pending := snd (wl_Add c priority wtype (pending r))\<rparr>"

definition recall_Remove :: "cid \<Rightarrow> recall \<Rightarrow> recall" where
  "recall_Remove c r =
     r\<lparr>pending := snd (wl_Remove c (pending r)), r_sent := snd (wl_Remove c (r_sent r)),
       sentAt := fmdrop c (sentAt r)\<rparr>"

definition recall_RemoveType :: "cid \<Rightarrow> want_type \<Rightarrow> recall \<Rightarrow> recall" where
  "recall_RemoveType c wtype r =
     (let r1 = r\<lparr>pending := snd (wl_RemoveType c wtype (pending r)),
                 r_sent := snd (wl_RemoveType c wtype (r_sent r))\<rparr>
      in case wl_Contains c (r_sent r1) of
           None \<Rightarrow> r1\<lparr>sentAt := fmdrop c (sentAt r1)\<rparr>
         | Some _ \<Rightarrow> r1)"

definition MarkSent :: "wl_entry \<Rightarrow> recall \<Rightarrow> bool \<times> recall" where
  "MarkSent e r =
     (let (removed, w) = wl_RemoveType (Cid e) (WantType e) (pending r)
      in if \<not> removed then (False, r\<lparr>pending := w\<rparr>)
         else (True, r\<lparr>pending := w, r_sent := snd (wl_Add (Cid e) (Priority e) (WantType e) (r_sent r))\<rparr>))"

definition SentAt :: "cid \<Rightarrow> int \<Rightarrow> recall \<Rightarrow> recall" where
  "SentAt c at r =
     (case wl_Contains c (r_sent r) of
        None \<Rightarrow> r
      | Some _ \<Rightarrow> (case fmlookup (sentAt r) c of None \<Rightarrow> r\<lparr>sentAt := fmupd c at (sentAt r)\<rparr> | Some _ \<Rightarrow> r))"

definition ClearSentAt :: "cid \<Rightarrow> recall \<Rightarrow> recall" where
  "ClearSentAt c r = r\<lparr>sentAt := fmdrop c (sentAt r)\<rparr>"

section \<open>State\<close>

record mq =
  bcstWants :: recall
  mq_peerWants :: recall
  mq_cancels :: "cid fset"
  mq_priority :: int32
  mq_msg :: message
  maxMessageSize :: nat
  maxValidLatency :: int
  mq_shutdown :: bool

datatype mq_call =
    SignalWorkReady
  | DH_Start
  | DH_AddPending "cid list"
  | DH_CancelPending "cid list"
  | DH_UpdateMessageLatency int
  | Sender_SendMsg message
  | Responses_Put "cid list"

definition newMessageQueue :: "nat \<Rightarrow> int \<Rightarrow> mq" where
  "newMessageQueue maxMsgSize maxLatency =
     \<lparr>bcstWants = newRecallWantList, mq_peerWants = newRecallWantList, mq_cancels = {||},
      mq_priority = 2 ^ 31 - 1, mq_msg = newMsg False, maxMessageSize = maxMsgSize,
      maxValidLatency = maxLatency, mq_shutdown = False\<rparr>"

section \<open>Adding wants and cancels\<close>

definition addBcst :: "cid \<Rightarrow> mq \<Rightarrow> mq" where
  "addBcst c q = q\<lparr>bcstWants := recall_Add c (mq_priority q) Wantlist_Have (bcstWants q),
                    mq_priority := mq_priority q - 1, mq_cancels := mq_cancels q |-| {|c|}\<rparr>"

definition addPeerWant :: "want_type \<Rightarrow> cid \<Rightarrow> mq \<Rightarrow> mq" where
  "addPeerWant t c q = q\<lparr>mq_peerWants := recall_Add c (mq_priority q) t (mq_peerWants q),
                          mq_priority := mq_priority q - 1, mq_cancels := mq_cancels q |-| {|c|}\<rparr>"

definition AddBroadcastWantHaves :: "cid list \<Rightarrow> mq \<Rightarrow> mq_call list \<times> mq" where
  "AddBroadcastWantHaves whs q =
     (if length whs = 0 then ([], q) else ([SignalWorkReady], fold addBcst whs q))"

definition AddWants :: "cid list \<Rightarrow> cid list \<Rightarrow> mq \<Rightarrow> mq_call list \<times> mq" where
  "AddWants wbs whs q =
     (if length wbs = 0 \<and> length whs = 0 then ([], q)
      else ([SignalWorkReady],
            fold (addPeerWant Wantlist_Block) wbs (fold (addPeerWant Wantlist_Have) whs q)))"

definition addCancel :: "cid \<Rightarrow> bool \<times> mq \<Rightarrow> bool \<times> mq" where
  "addCancel c = (\<lambda>(workReady, q).
     let wasSentBcst = (wl_Contains c (r_sent (bcstWants q)) \<noteq> None);
         wasSentPeer = (wl_Contains c (r_sent (mq_peerWants q)) \<noteq> None);
         q1 = q\<lparr>bcstWants := recall_Remove c (bcstWants q), mq_peerWants := recall_Remove c (mq_peerWants q)\<rparr>
     in if wasSentBcst \<or> wasSentPeer then (True, q1\<lparr>mq_cancels := finsert c (mq_cancels q1)\<rparr>)
        else (workReady, q1))"

definition AddCancels :: "cid list \<Rightarrow> mq \<Rightarrow> mq_call list \<times> mq" where
  "AddCancels cancelKs q =
     (if length cancelKs = 0 then ([], q)
      else let (workReady, q') = fold addCancel cancelKs (False, q)
           in (DH_CancelPending cancelKs # (if workReady then [SignalWorkReady] else []), q'))"

definition ResponseReceived :: "bool \<Rightarrow> cid list \<Rightarrow> mq_call list" where
  "ResponseReceived room ks = (if length ks = 0 then [] else if room then [Responses_Put ks] else [])"

section \<open>Rebroadcast\<close>

definition transferRebroadcastWants :: "cid order \<Rightarrow> mq \<Rightarrow> bool \<times> mq" where
  "transferRebroadcastWants ord q =
     (if wl_Len (r_sent (bcstWants q)) = 0 \<and> wl_Len (r_sent (mq_peerWants q)) = 0 then (False, q)
      else
        let (bp, bs) = wl_Absorb ord (pending (bcstWants q)) (r_sent (bcstWants q));
            (pp, ps) = wl_Absorb ord (pending (mq_peerWants q)) (r_sent (mq_peerWants q))
        in (True, q\<lparr>bcstWants := (bcstWants q)\<lparr>pending := bp, r_sent := bs\<rparr>,
                    mq_peerWants := (mq_peerWants q)\<lparr>pending := pp, r_sent := ps\<rparr>\<rparr>))"

section \<open>Making a message\<close>

definition pendingWorkCount :: "mq \<Rightarrow> nat" where
  "pendingWorkCount q =
     wl_Len (pending (bcstWants q)) + wl_Len (pending (mq_peerWants q)) + fcard (mq_cancels q)"

definition hasPendingWork :: "mq \<Rightarrow> bool" where
  "hasPendingWork q \<longleftrightarrow> pendingWorkCount q > 0"

record snapshot =
  peerEntries :: "wl_entry list"
  bcstEntries :: "wl_entry list"
  snap_cancels :: "cid list"

definition extract_snapshot :: "cid order \<Rightarrow> bool \<Rightarrow> mq \<Rightarrow> snapshot \<times> mq" where
  "extract_snapshot ord supportsHave q =
     (let (pes, pw) = wl_Entries ord (pending (mq_peerWants q));
          (bes, bw) = wl_Entries ord (pending (bcstWants q));
          q1 = q\<lparr>mq_peerWants := (mq_peerWants q)\<lparr>pending := pw\<rparr>, bcstWants := (bcstWants q)\<lparr>pending := bw\<rparr>\<rparr>;
          cs = ord (mq_cancels q)
      in if supportsHave then (\<lparr>peerEntries = pes, bcstEntries = bes, snap_cancels = cs\<rparr>, q1)
         else
           (\<lparr>peerEntries = filter (\<lambda>e. WantType e \<noteq> Wantlist_Have) pes, bcstEntries = bes, snap_cancels = cs\<rparr>,
            q1\<lparr>mq_peerWants := fold (\<lambda>e. recall_RemoveType (Cid e) Wantlist_Have)
                 (filter (\<lambda>e. WantType e = Wantlist_Have) pes) (mq_peerWants q1)\<rparr>))"

text \<open>
  One of the three loops that fill the message: add an element, count it, stop the whole
  filling when the size is reached.
\<close>

fun fill :: "('e \<Rightarrow> message \<Rightarrow> nat \<times> message) \<Rightarrow> nat \<Rightarrow> 'e list \<Rightarrow> nat \<Rightarrow> message \<Rightarrow>
    nat \<times> nat \<times> message \<times> bool" where
  "fill add maxSize [] msgSize m = (msgSize, 0, m, False)"
| "fill add maxSize (x # xs) msgSize m =
     (let (n, m') = add x m; msgSize' = msgSize + n
      in if msgSize' \<ge> maxSize then (msgSize', 1, m', True)
         else (let (sz, cnt, m2, full) = fill add maxSize xs msgSize' m' in (sz, Suc cnt, m2, full)))"

record filled =
  f_msg :: message
  sentCancels :: nat
  sentPeerEntries :: nat
  sentBcstEntries :: nat

definition extract_build :: "bool \<Rightarrow> snapshot \<Rightarrow> mq \<Rightarrow> filled" where
  "extract_build supportsHave snap q =
     (let mx = maxMessageSize q;
          (sz1, n1, m1, full1) = fill msg_Cancel mx (snap_cancels snap) 0 (mq_msg q)
      in if full1 then \<lparr>f_msg = m1, sentCancels = n1, sentPeerEntries = 0, sentBcstEntries = 0\<rparr>
         else
           let (sz2, n2, m2, full2) =
                 fill (\<lambda>e. AddEntry (Cid e) (Priority e) (WantType e) True) mx (peerEntries snap) sz1 m1
           in if full2 then \<lparr>f_msg = m2, sentCancels = n1, sentPeerEntries = n2, sentBcstEntries = 0\<rparr>
              else
                let wantType = (if \<not> supportsHave then Wantlist_Block else Wantlist_Have);
                    (sz3, n3, m3, full3) =
                      fill (\<lambda>e. AddEntry (Cid e) (Priority e) wantType False) mx (bcstEntries snap) sz2 m2
                in \<lparr>f_msg = m3, sentCancels = n1, sentPeerEntries = n2, sentBcstEntries = n3\<rparr>)"

text \<open>
  Marking the entries of one list as sent: an entry that changed in the meantime leaves the
  message and is recorded with the undefined identifier.
\<close>

definition markEntry :: "wl_entry \<Rightarrow> cid list \<times> message \<times> recall \<Rightarrow> cid list \<times> message \<times> recall" where
  "markEntry e = (\<lambda>(cs, m, r).
     let (ok, r') = MarkSent e r
     in if ok then (cs @ [Cid e], m, r') else (cs @ [Undef], msg_Remove (Cid e) m, r'))"

definition finishCancel :: "cid \<Rightarrow> message \<times> cid fset \<Rightarrow> message \<times> cid fset" where
  "finishCancel c = (\<lambda>(m, cancels). if c |\<notin>| cancels then (msg_Remove c m, cancels) else (m, cancels |-| {|c|}))"

definition extract_finish :: "snapshot \<Rightarrow> filled \<Rightarrow> mq \<Rightarrow> cid list \<times> cid list \<times> mq" where
  "extract_finish snap f q =
     (let (pcs, m1, pr) = fold markEntry (take (sentPeerEntries f) (peerEntries snap)) ([], f_msg f, mq_peerWants q);
          (bcs, m2, br) = fold markEntry (take (sentBcstEntries f) (bcstEntries snap)) ([], m1, bcstWants q);
          (m3, cs) = fold finishCancel (take (sentCancels f) (snap_cancels snap)) (m2, mq_cancels q)
      in (pcs, bcs, q\<lparr>mq_peerWants := pr, bcstWants := br, mq_cancels := cs, mq_msg := m3\<rparr>))"

definition onSent :: "int \<Rightarrow> cid list \<Rightarrow> cid list \<Rightarrow> mq \<Rightarrow> mq" where
  "onSent now pcs bcs q =
     q\<lparr>mq_peerWants := fold (\<lambda>c. SentAt c now) (filter (\<lambda>c. c \<noteq> Undef) pcs) (mq_peerWants q),
       bcstWants := fold (\<lambda>c. SentAt c now) (filter (\<lambda>c. c \<noteq> Undef) bcs) (bcstWants q)\<rparr>"

definition simulateDontHaveWithTimeout :: "msg_entry list \<Rightarrow> mq \<Rightarrow> mq_call list" where
  "simulateDontHaveWithTimeout es q =
     [DH_AddPending (map Cid (filter (\<lambda>e. WantType e = Wantlist_Block \<and> SendDontHave e \<and>
        wl_Contains (Cid e) (r_sent (mq_peerWants q)) \<noteq> None) es))]"

section \<open>Sending\<close>

text \<open>The operations of other goroutines, as they interleave with a send.\<close>

datatype mq_op =
    MQ_AddBroadcastWantHaves "cid list"
  | MQ_AddWants "cid list" "cid list"
  | MQ_AddCancels "cid list"

fun mq_step :: "mq_op \<Rightarrow> mq \<Rightarrow> mq_call list \<times> mq" where
  "mq_step (MQ_AddBroadcastWantHaves ks) q = AddBroadcastWantHaves ks q"
| "mq_step (MQ_AddWants bs hs) q = AddWants bs hs q"
| "mq_step (MQ_AddCancels ks) q = AddCancels ks q"

definition mq_steps :: "mq_op list \<Rightarrow> mq \<Rightarrow> mq_call list \<times> mq" where
  "mq_steps xs q = fold (\<lambda>x (calls, q). let (cs, q') = mq_step x q in (calls @ cs, q')) xs ([], q)"

definition extractOutgoingMessage ::
  "cid order \<Rightarrow> bool \<Rightarrow> mq_op list \<Rightarrow> mq \<Rightarrow> cid list \<times> cid list \<times> mq_call list \<times> mq" where
  "extractOutgoingMessage ord supportsHave interim q =
     (let (snap, q1) = extract_snapshot ord supportsHave q;
          f = extract_build supportsHave snap q1;
          (calls, q2) = mq_steps interim q1;
          (pcs, bcs, q3) = extract_finish snap f q2
      in (pcs, bcs, calls, q3))"

definition Shutdown :: "mq \<Rightarrow> mq" where
  "Shutdown q = q\<lparr>mq_shutdown := True\<rparr>"

text \<open>
  \<open>opened\<close> says whether the sender could be opened, \<open>delivered\<close> whether \<open>SendMsg\<close> returned without
  an error, \<open>now\<close> is the time of the \<open>onSent\<close> callback. \<open>interim\<close> runs while the message is filled
  without the lock, \<open>during\<close> while the message is on its way.
\<close>

definition sendMessage ::
  "cid order \<Rightarrow> bool \<Rightarrow> bool \<Rightarrow> mq_op list \<Rightarrow> mq_op list \<Rightarrow> bool \<Rightarrow> int \<Rightarrow> mq \<Rightarrow> mq_call list \<times> mq" where
  "sendMessage ord opened supportsHave interim during delivered now q =
     (if \<not> opened then ([], Shutdown q)
      else
        let (pcs, bcs, calls, q1) = extractOutgoingMessage ord supportsHave interim q;
            msg = mq_msg q1;
            reset = (\<lambda>q. q\<lparr>mq_msg := msg_Reset ord False (mq_msg q)\<rparr>)
        in if msg_Empty msg then (DH_Start # calls, reset q1)
           else
             let (calls', q2) = mq_steps during q1
             in if \<not> delivered then (DH_Start # calls @ [Sender_SendMsg msg] @ calls', reset (Shutdown q2))
                else
                  let q3 = onSent now pcs bcs q2;
                      sim = simulateDontHaveWithTimeout (msg_Wantlist ord msg) q3
                  in (DH_Start # calls @ [Sender_SendMsg msg] @ calls' @ sim @
                        (if hasPendingWork q3 then [SignalWorkReady] else []),
                      reset q3))"

definition sendIfReady ::
  "cid order \<Rightarrow> bool \<Rightarrow> bool \<Rightarrow> mq_op list \<Rightarrow> mq_op list \<Rightarrow> bool \<Rightarrow> int \<Rightarrow> mq \<Rightarrow> mq_call list \<times> mq" where
  "sendIfReady ord opened supportsHave interim during delivered now q =
     (if hasPendingWork q then sendMessage ord opened supportsHave interim during delivered now q else ([], q))"

definition rebroadcastWantlist ::
  "cid order \<Rightarrow> bool \<Rightarrow> bool \<Rightarrow> mq_op list \<Rightarrow> mq_op list \<Rightarrow> bool \<Rightarrow> int \<Rightarrow> mq \<Rightarrow> mq_call list \<times> mq" where
  "rebroadcastWantlist ord opened supportsHave interim during delivered now q =
     (let (transferred, q1) = transferRebroadcastWants ord q
      in if transferred then sendMessage ord opened supportsHave interim during delivered now q1 else ([], q1))"

section \<open>Responses\<close>

definition recordLatency :: "int \<Rightarrow> int \<Rightarrow> cid \<Rightarrow> int option \<times> recall \<Rightarrow> int option \<times> recall" where
  "recordLatency maxLatency now c = (\<lambda>(earliest, r).
     case fmlookup (sentAt r) c of
       None \<Rightarrow> (earliest, r)
     | Some at \<Rightarrow>
         (if (case earliest of None \<Rightarrow> True | Some t \<Rightarrow> at < t) \<and> now - at < maxLatency then Some at else earliest,
          ClearSentAt c r))"

definition responseKey :: "int \<Rightarrow> cid \<Rightarrow> int option \<times> mq \<Rightarrow> int option \<times> mq" where
  "responseKey now c = (\<lambda>(earliest, q).
     let (e1, br) = recordLatency (maxValidLatency q) now c (earliest, bcstWants q);
         (e2, pr) = recordLatency (maxValidLatency q) now c (e1, mq_peerWants q)
     in (e2, q\<lparr>bcstWants := br, mq_peerWants := pr\<rparr>))"

definition handleResponse :: "int \<Rightarrow> cid list \<Rightarrow> mq \<Rightarrow> mq_call list \<times> mq" where
  "handleResponse now ks q =
     (let (earliest, q') = fold (responseKey now) ks (None, q)
      in (case earliest of None \<Rightarrow> [] | Some at \<Rightarrow> [DH_UpdateMessageLatency (now - at)], q'))"

end
