(* ===== verification/Message_Queue_Props.thy ===== *)
theory Message_Queue_Props
  imports Message_Queue
begin

text \<open>
  Properties of the message queue: which keys it knows, the invariant of its lists under every
  interleaving, what a send moves and that it makes progress, and two ways in which wants or
  cancels get lost.
\<close>

section \<open>Keys\<close>

definition wl_keys :: "wantlist \<Rightarrow> cid set" where
  "wl_keys w = {c. wl_Contains c w \<noteq> None}"

definition recall_keys :: "recall \<Rightarrow> cid set" where
  "recall_keys r = wl_keys (pending r) \<union> wl_keys (r_sent r)"

definition mq_keys :: "mq \<Rightarrow> cid set" where
  "mq_keys q = recall_keys (bcstWants q) \<union> recall_keys (mq_peerWants q)"

lemma wl_keys_simps [simp]:
  "wl_keys wl_New = {}"
  "wl_keys (snd (wl_Add c p t w)) = insert c (wl_keys w)"
  "wl_keys (snd (wl_Remove c w)) = wl_keys w - {c}"
  "wl_keys (snd (wl_Entries ord w)) = wl_keys w"
  by (auto simp: wl_keys_def wantlist_simps split: option.splits if_splits)

lemma recall_keys_simps [simp]:
  "recall_keys newRecallWantList = {}"
  "recall_keys (recall_Add c p t r) = insert c (recall_keys r)"
  "recall_keys (recall_Remove c r) = recall_keys r - {c}"
  "recall_keys (SentAt c at r) = recall_keys r"
  "recall_keys (ClearSentAt c r) = recall_keys r"
  by (auto simp: recall_keys_def newRecallWantList_def recall_Add_def recall_Remove_def SentAt_def
      ClearSentAt_def split: option.splits)

lemma wl_RemoveType_result: "fst (wl_RemoveType c t w) \<longleftrightarrow>
    (case wl_Contains c w of None \<Rightarrow> False | Some e \<Rightarrow> \<not> (WantType e = Wantlist_Block \<and> t = Wantlist_Have))"
  by (auto simp: wl_RemoveType_def wl_Contains_def split: option.splits)

lemma wl_keys_RemoveType:
  "wl_keys (snd (wl_RemoveType c t w)) = (if fst (wl_RemoveType c t w) then wl_keys w - {c} else wl_keys w)"
  by (auto simp: wl_keys_def wl_RemoveType_result wl_Contains_RemoveType split: option.splits if_splits)

lemma recall_keys_MarkSent [simp]: "recall_keys (snd (MarkSent e r)) = recall_keys r"
proof -
  have "Cid e \<in> wl_keys (pending r)" if "fst (wl_RemoveType (Cid e) (WantType e) (pending r))"
    using that by (auto simp: wl_RemoveType_result wl_keys_def split: option.splits)
  then show ?thesis
    by (auto simp: recall_keys_def MarkSent_def split_beta Let_def wl_keys_RemoveType)
qed

lemma recall_keys_RemoveType: "recall_keys (recall_RemoveType c t r) \<subseteq> recall_keys r"
  by (auto simp: recall_keys_def recall_RemoveType_def Let_def wl_keys_RemoveType split: option.splits if_splits)

section \<open>The queue as the peer want manager sees it\<close>

lemma mq_keys_addBcst [simp]: "mq_keys (addBcst c q) = insert c (mq_keys q)"
  by (auto simp: mq_keys_def addBcst_def)

lemma mq_keys_addPeerWant [simp]: "mq_keys (addPeerWant t c q) = insert c (mq_keys q)"
  by (auto simp: mq_keys_def addPeerWant_def)

lemma mq_keys_addCancel [simp]: "mq_keys (snd (addCancel c (b, q))) = mq_keys q - {c}"
  by (auto simp: mq_keys_def addCancel_def Let_def)

lemma mq_keys_fold_addCancel: "mq_keys (snd (fold addCancel ks (b, q))) = mq_keys q - set ks"
proof (induction ks arbitrary: b q)
  case (Cons k ks)
  then show ?case
    by (cases "addCancel k (b, q)") (use mq_keys_addCancel [of k b q] in auto)
qed simp

lemma mq_keys_AddBroadcastWantHaves: "mq_keys (snd (AddBroadcastWantHaves ks q)) = mq_keys q \<union> set ks"
proof -
  have "mq_keys (fold addBcst ks q) = mq_keys q \<union> set ks"
    by (induction ks arbitrary: q) auto
  then show ?thesis
    by (simp add: AddBroadcastWantHaves_def)
qed

lemma mq_keys_AddWants: "mq_keys (snd (AddWants bs hs q)) = mq_keys q \<union> set bs \<union> set hs"
proof -
  have "mq_keys (fold (addPeerWant t) ks q) = mq_keys q \<union> set ks" for t ks q
    by (induction ks arbitrary: q) auto
  then show ?thesis
    by (auto simp: AddWants_def)
qed

lemma mq_keys_AddCancels: "mq_keys (snd (AddCancels ks q)) = mq_keys q - set ks"
  by (simp add: AddCancels_def split_beta Let_def mq_keys_fold_addCancel)

interpretation mq_queue: peer_queue
  "\<lambda>ks q. snd (AddBroadcastWantHaves ks q)" "\<lambda>bs hs q. snd (AddWants bs hs q)" "\<lambda>ks q. snd (AddCancels ks q)" mq_keys
  by unfold_locales (simp_all add: mq_keys_AddBroadcastWantHaves mq_keys_AddWants mq_keys_AddCancels)

section \<open>Well-formed queues\<close>

definition recall_inv :: "recall \<Rightarrow> bool" where
  "recall_inv r \<longleftrightarrow> wl_inv (pending r) \<and> wl_inv (r_sent r) \<and> fset (fmdom (sentAt r)) \<subseteq> wl_keys (r_sent r)"

definition mq_inv :: "mq \<Rightarrow> bool" where
  "mq_inv q \<longleftrightarrow> recall_inv (bcstWants q) \<and> recall_inv (mq_peerWants q) \<and>
     fset (mq_cancels q) \<inter> mq_keys q = {}"

lemma recall_inv_new [inv_intros]: "recall_inv newRecallWantList"
  by (simp add: recall_inv_def newRecallWantList_def wl_inv_New)

lemma recall_inv_Add [inv_intros]: "recall_inv r \<Longrightarrow> recall_inv (recall_Add c p t r)"
  by (simp add: recall_inv_def recall_Add_def wl_inv_Add)

lemma recall_inv_Remove [inv_intros]: "recall_inv r \<Longrightarrow> recall_inv (recall_Remove c r)"
  by (auto simp: recall_inv_def recall_Remove_def wl_inv_Remove)

lemma recall_inv_RemoveType [inv_intros]: "recall_inv r \<Longrightarrow> recall_inv (recall_RemoveType c t r)"
  by (auto simp: recall_inv_def recall_RemoveType_def Let_def wl_inv_RemoveType wl_keys_RemoveType
      wl_keys_def wl_Contains_RemoveType split: option.splits if_splits)

lemma recall_inv_MarkSent [inv_intros]: "recall_inv r \<Longrightarrow> recall_inv (snd (MarkSent e r))"
  by (auto simp: recall_inv_def MarkSent_def Let_def split_beta wl_inv_RemoveType wl_inv_Add)

lemma recall_inv_SentAt [inv_intros]: "recall_inv r \<Longrightarrow> recall_inv (SentAt c at r)"
  by (auto simp: recall_inv_def SentAt_def wl_keys_def split: option.splits)

lemma recall_inv_ClearSentAt [inv_intros]: "recall_inv r \<Longrightarrow> recall_inv (ClearSentAt c r)"
  by (auto simp: recall_inv_def ClearSentAt_def)

lemma mq_inv_new [inv_intros]: "mq_inv (newMessageQueue n t)"
  by (simp add: mq_inv_def newMessageQueue_def recall_inv_new mq_keys_def)

lemma mq_inv_addBcst [inv_intros]: "mq_inv q \<Longrightarrow> mq_inv (addBcst c q)"
  using mq_keys_addBcst [of c q]
  by (auto simp: mq_inv_def addBcst_def intro: recall_inv_Add)


lemma mq_inv_addPeerWant [inv_intros]: "mq_inv q \<Longrightarrow> mq_inv (addPeerWant t c q)"
  using mq_keys_addPeerWant [of t c q]
  by (auto simp: mq_inv_def addPeerWant_def intro: recall_inv_Add)

lemma mq_inv_addCancel [inv_intros]: "mq_inv q \<Longrightarrow> mq_inv (snd (addCancel c (b, q)))"
  using mq_keys_addCancel [of c b q]
  by (auto simp: mq_inv_def addCancel_def Let_def intro: recall_inv_Remove)

lemma mq_inv_fold_addCancel [inv_intros]: "mq_inv q \<Longrightarrow> mq_inv (snd (fold addCancel ks (b, q)))"
proof (induction ks arbitrary: b q)
  case (Cons k ks)
  then show ?case
    by (cases "addCancel k (b, q)") (use mq_inv_addCancel [of q k b] in auto)
qed simp

lemma mq_inv_step [inv_intros]: "mq_inv q \<Longrightarrow> mq_inv (snd (mq_step x q))"
  by (cases x) (auto simp: AddBroadcastWantHaves_def AddWants_def AddCancels_def split_beta Let_def
      intro!: fold_invariant [where P = mq_inv] inv_intros)

lemma mq_steps_Cons: "mq_steps (x # xs) q =
    (fst (mq_step x q) @ fst (mq_steps xs (snd (mq_step x q))), snd (mq_steps xs (snd (mq_step x q))))"
proof -
  have acc: "fold (\<lambda>x (calls, q). let (cs, q') = mq_step x q in (calls @ cs, q')) xs (a @ b, q) =
      (a @ fst (fold (\<lambda>x (calls, q). let (cs, q') = mq_step x q in (calls @ cs, q')) xs (b, q)),
       snd (fold (\<lambda>x (calls, q). let (cs, q') = mq_step x q in (calls @ cs, q')) xs (b, q)))" for a b xs q
    by (induction xs arbitrary: b q) (auto simp: split_beta Let_def)
  show ?thesis
    using acc [where a = "fst (mq_step x q)" and b = "[]" and xs = xs and q = "snd (mq_step x q)"]
    by (cases "mq_step x q") (simp add: mq_steps_def Let_def)
qed

lemma mq_inv_steps [inv_intros]: "mq_inv q \<Longrightarrow> mq_inv (snd (mq_steps xs q))"
  by (induction xs arbitrary: q) (auto simp: mq_steps_Cons intro: mq_inv_step, simp add: mq_steps_def)

lemma mq_step_msg: "mq_msg (snd (mq_step x q)) = mq_msg q"
proof -
  have "mq_msg (snd (fold addCancel ks (b, q))) = mq_msg q" for ks b q
    by (induction ks arbitrary: b q) (auto simp: addCancel_def Let_def)
  moreover have "mq_msg (fold addBcst ks q) = mq_msg q" "mq_msg (fold (addPeerWant t) ks q) = mq_msg q" for ks q t
    by (rule fold_preserves, simp add: addBcst_def addPeerWant_def)+
  ultimately show ?thesis
    by (cases x) (auto simp: AddBroadcastWantHaves_def AddWants_def AddCancels_def split_beta Let_def)
qed

section \<open>Sending keeps the queue well formed\<close>

lemma recall_keys_pending: "recall_keys (r\<lparr>pending := snd (wl_Entries ord (pending r))\<rparr>) = recall_keys r"
  by (simp add: recall_keys_def)

lemma recall_inv_pending: "go_range ord \<Longrightarrow> recall_inv r \<Longrightarrow> recall_inv (r\<lparr>pending := snd (wl_Entries ord (pending r))\<rparr>)"
  by (simp add: recall_inv_def wl_inv_Entries)

lemma fold_RemoveType_recall:
  "recall_inv r \<Longrightarrow> recall_inv (fold (\<lambda>e. recall_RemoveType (Cid e) t) es r) \<and>
     recall_keys (fold (\<lambda>e. recall_RemoveType (Cid e) t) es r) \<subseteq> recall_keys r"
proof (induction es arbitrary: r)
  case (Cons e es)
  show ?case
    using Cons.IH [OF recall_inv_RemoveType [OF Cons.prems, of "Cid e" t]] recall_keys_RemoveType [of "Cid e" t r]
    by auto
qed simp

lemma extract_snapshot_inv:
  assumes "go_range ord" "mq_inv q"
  shows "mq_inv (snd (extract_snapshot ord sh q)) \<and> mq_keys (snd (extract_snapshot ord sh q)) \<subseteq> mq_keys q \<and>
     (sh \<longrightarrow> mq_keys (snd (extract_snapshot ord sh q)) = mq_keys q)"
proof -
  let ?p = "(mq_peerWants q)\<lparr>pending := snd (wl_Entries ord (pending (mq_peerWants q)))\<rparr>"
  have p: "recall_inv ?p" "recall_keys ?p = recall_keys (mq_peerWants q)"
    using assms by (simp_all add: mq_inv_def recall_inv_pending recall_keys_pending)
  show ?thesis
    using assms(2) p fold_RemoveType_recall [OF p(1)] recall_inv_pending [OF assms(1)]
    by (auto simp: extract_snapshot_def split_beta Let_def mq_inv_def mq_keys_def recall_keys_pending)
       (fastforce)+
qed

lemma fold_markEntry_recall:
  "recall_inv r \<Longrightarrow> fold markEntry es (cs, m, r) = (cs', m', r') \<Longrightarrow> recall_inv r' \<and> recall_keys r' = recall_keys r"
proof (induction es arbitrary: cs m r)
  case (Cons e es)
  then show ?case
    using recall_inv_MarkSent [of r e] recall_keys_MarkSent [of e r]
    by (auto simp: markEntry_def split_beta Let_def split: if_splits)
qed simp

lemma fold_finishCancel_subset: "snd (fold finishCancel cs (m, cancels)) |\<subseteq>| cancels"
proof (induction cs arbitrary: m cancels)
  case (Cons c cs)
  obtain m' cancels' where f: "finishCancel c (m, cancels) = (m', cancels')" "cancels' |\<subseteq>| cancels"
    by (cases "finishCancel c (m, cancels)") (auto simp: finishCancel_def split: if_splits)
  then show ?case
    using Cons.IH [of m' cancels'] by auto
qed simp

lemma extract_finish_inv:
  assumes "mq_inv q" "extract_finish snap f q = (pcs, bcs, q')"
  shows "mq_inv q' \<and> mq_keys q' = mq_keys q"
proof -
  obtain pcs' m1 pr where p: "fold markEntry (take (sentPeerEntries f) (peerEntries snap)) ([], f_msg f, mq_peerWants q) = (pcs', m1, pr)"
    by (rule prod_cases3)
  obtain bcs' m2 br where b: "fold markEntry (take (sentBcstEntries f) (bcstEntries snap)) ([], m1, bcstWants q) = (bcs', m2, br)"
    by (rule prod_cases3)
  have "recall_inv pr \<and> recall_keys pr = recall_keys (mq_peerWants q)"
    using fold_markEntry_recall [OF _ p] assms(1) by (simp add: mq_inv_def)
  moreover have "recall_inv br \<and> recall_keys br = recall_keys (bcstWants q)"
    using fold_markEntry_recall [OF _ b] assms(1) by (simp add: mq_inv_def)
  moreover obtain m3 cs where c: "fold finishCancel (take (sentCancels f) (snap_cancels snap)) (m2, mq_cancels q) = (m3, cs)"
    by (metis prod.collapse)
  moreover have "fset cs \<subseteq> fset (mq_cancels q)"
    using fold_finishCancel_subset [of "take (sentCancels f) (snap_cancels snap)" m2 "mq_cancels q"]
    by (simp add: c less_eq_fset.rep_eq)
  moreover have "q' = q\<lparr>mq_peerWants := pr, bcstWants := br, mq_cancels := cs, mq_msg := m3\<rparr>"
    using assms(2) by (simp add: extract_finish_def p b c)
  ultimately show ?thesis
    using assms(1) unfolding mq_inv_def mq_keys_def by (simp, blast)
qed

lemma extractOutgoingMessage_inv:
  assumes "go_range ord" "mq_inv q" "extractOutgoingMessage ord sh interim q = (pcs, bcs, calls, q')"
  shows "mq_inv q'" "sh \<Longrightarrow> interim = [] \<Longrightarrow> mq_keys q' = mq_keys q"
proof -
  let ?s = "extract_snapshot ord sh q"
  let ?q2 = "snd (mq_steps interim (snd ?s))"
  have s: "mq_inv (snd ?s)" "sh \<longrightarrow> mq_keys (snd ?s) = mq_keys q"
    using extract_snapshot_inv [OF assms(1,2)] by auto
  obtain pcs' bcs' q3 where f: "extract_finish (fst ?s) (extract_build sh (fst ?s) (snd ?s)) ?q2 = (pcs', bcs', q3)"
    by (rule prod_cases3)
  have "q' = q3"
    using assms(3) f by (simp add: extractOutgoingMessage_def split_beta Let_def)
  then show "mq_inv q'" "sh \<Longrightarrow> interim = [] \<Longrightarrow> mq_keys q' = mq_keys q"
    using extract_finish_inv [OF mq_inv_steps [OF s(1)] f] s(2) by (auto simp: mq_steps_def)
qed

lemma mq_inv_onSent [inv_intros]: "mq_inv q \<Longrightarrow> mq_inv (onSent now pcs bcs q)"
proof -
  have "recall_inv (fold (\<lambda>c. SentAt c now) cs r) \<and> recall_keys (fold (\<lambda>c. SentAt c now) cs r) = recall_keys r"
    if "recall_inv r" for cs r
    using that by (induction cs arbitrary: r) (simp_all add: recall_inv_SentAt)
  then show "mq_inv q \<Longrightarrow> mq_inv (onSent now pcs bcs q)"
    by (simp add: mq_inv_def onSent_def mq_keys_def)
qed

lemma mq_inv_frame [simp]:
  "mq_inv (q\<lparr>mq_msg := m\<rparr>) = mq_inv q" "mq_inv (q\<lparr>mq_shutdown := b\<rparr>) = mq_inv q"
  by (simp_all add: mq_inv_def mq_keys_def)

lemma mq_inv_sendMessage [inv_intros]:
  assumes "go_range ord" "mq_inv q"
  shows "mq_inv (snd (sendMessage ord opened sh interim during delivered now q))"
proof -
  obtain pcs bcs calls q1 where e: "extractOutgoingMessage ord sh interim q = (pcs, bcs, calls, q1)"
    by (rule prod_cases4)
  note q1 = extractOutgoingMessage_inv(1) [OF assms e]
  show ?thesis
    using assms(2) q1 mq_inv_steps [OF q1, of during] mq_inv_onSent [OF mq_inv_steps [OF q1, of during]]
    by (simp add: sendMessage_def e split_beta Let_def Shutdown_def)
qed

lemma mq_inv_transfer [inv_intros]:
  assumes "go_range ord" "mq_inv q"
  shows "mq_inv (snd (transferRebroadcastWants ord q))"
proof -
  have absorb: "recall_inv (r\<lparr>pending := fst (wl_Absorb ord (pending r) (r_sent r)), r_sent := snd (wl_Absorb ord (pending r) (r_sent r))\<rparr>) \<and>
      recall_keys (r\<lparr>pending := fst (wl_Absorb ord (pending r) (r_sent r)), r_sent := snd (wl_Absorb ord (pending r) (r_sent r))\<rparr>) = recall_keys r"
    if "recall_inv r" for r
  proof -
    have sent: "snd (wl_Absorb ord (pending r) (r_sent r)) = snd (wl_Entries ord (r_sent r))"
      by (simp add: wl_Absorb_def split_beta)
    have "wl_keys (fst (wl_Absorb ord (pending r) (r_sent r))) = wl_keys (pending r) \<union> wl_keys (r_sent r)"
      using that wl_Contains_Absorb [OF assms(1), of "r_sent r" _ "pending r"]
      by (auto simp: recall_inv_def wl_keys_def stronger_entry_def split: option.splits)
    then show ?thesis
      using that by (auto simp: recall_inv_def recall_keys_def sent wl_inv_Absorb wl_inv_Entries [OF assms(1)])
  qed
  show ?thesis
    using assms(2) absorb [of "bcstWants q"] absorb [of "mq_peerWants q"]
    by (simp add: transferRebroadcastWants_def split_beta Let_def mq_inv_def mq_keys_def)
qed

lemma mq_inv_handleResponse [inv_intros]: "mq_inv q \<Longrightarrow> mq_inv (snd (handleResponse now ks q))"
proof -
  have lat: "recall_inv (snd (recordLatency l now c (e, r))) \<and> recall_keys (snd (recordLatency l now c (e, r))) = recall_keys r"
    if "recall_inv r" for l c e r
    using that by (auto simp: recordLatency_def recall_inv_ClearSentAt split: option.splits)
  have "mq_inv (snd (responseKey now c (e, q)))" if "mq_inv q" for c e q
    using that lat [of "bcstWants q"] lat [of "mq_peerWants q"]
    by (simp add: responseKey_def split_beta Let_def mq_inv_def mq_keys_def)
  then have "mq_inv (snd (fold (responseKey now) ks (e, q)))" if "mq_inv q" for e q
    using that by (induction ks arbitrary: e q) (auto, metis prod.collapse)
  then show "mq_inv q \<Longrightarrow> mq_inv (snd (handleResponse now ks q))"
    by (simp add: handleResponse_def split_beta Let_def)
qed


section \<open>What a message carries\<close>

definition msg_cancels :: "message \<Rightarrow> cid set" where
  "msg_cancels m = {c. \<exists>e. fmlookup (m_wantlist m) c = Some e \<and> Cancel e}"

definition msg_wants :: "message \<Rightarrow> cid set" where
  "msg_wants m = {c. \<exists>e. fmlookup (m_wantlist m) c = Some e \<and> \<not> Cancel e}"

lemma msg_new [simp]: "msg_cancels (newMsg b) = {}" "msg_wants (newMsg b) = {}"
  by (simp_all add: msg_cancels_def msg_wants_def newMsg_def)

lemma msg_cancels_Cancel: "msg_cancels (snd (msg_Cancel c m)) = insert c (msg_cancels m)"
  and msg_wants_Cancel: "msg_wants (snd (msg_Cancel c m)) = msg_wants m - {c}"
  by (auto simp: msg_cancels_def msg_wants_def msg_Cancel_def fmlookup_addEntry split: option.splits if_splits)

lemma msg_AddEntry:
  assumes "c \<notin> msg_cancels m"
  shows "msg_cancels (snd (AddEntry c p t sdh m)) = msg_cancels m"
    "msg_wants (snd (AddEntry c p t sdh m)) = insert c (msg_wants m)"
  using assms by (auto simp: msg_cancels_def msg_wants_def AddEntry_def fmlookup_addEntry split: option.splits if_splits)

text \<open>The loop that fills the message takes a prefix, at least one element if there is one.\<close>

lemma fill_prefix:
  "fill add mx xs sz m = (sz', n, m', full) \<Longrightarrow>
     n \<le> length xs \<and> m' = fold (\<lambda>x m. snd (add x m)) (take n xs) m \<and>
     (\<not> full \<longrightarrow> n = length xs) \<and> (full \<longrightarrow> 0 < n) \<and> (xs \<noteq> [] \<longrightarrow> 0 < n)"
proof (induction xs arbitrary: sz m sz' n m' full)
  case (Cons x xs)
  obtain d m1 where a: "add x m = (d, m1)" by (cases "add x m")
  obtain sz2 k m2 full2 where r: "fill add mx xs (sz + d) m1 = (sz2, k, m2, full2)"
    by (rule prod_cases4)
  show ?case
    using Cons.prems Cons.IH [OF r] by (auto simp: a r Let_def split: if_splits)
qed simp

lemmas fill_count = fill_prefix [THEN conjunct1] fill_prefix [THEN conjunct2, THEN conjunct2]
lemmas fill_msg = fill_prefix [THEN conjunct2, THEN conjunct1]

lemma fold_msg_Cancel:
  "msg_cancels (fold (\<lambda>c m. snd (msg_Cancel c m)) cs m) = msg_cancels m \<union> set cs \<and>
   msg_wants (fold (\<lambda>c m. snd (msg_Cancel c m)) cs m) = msg_wants m - set cs"
  by (induction cs arbitrary: m) (auto simp: msg_cancels_Cancel msg_wants_Cancel)

lemma fold_msg_AddEntry:
  "Cid ` set es \<inter> msg_cancels m = {} \<Longrightarrow>
   msg_cancels (fold (\<lambda>e m. snd (AddEntry (Cid e) (Priority e) (t e) sdh m)) es m) = msg_cancels m \<and>
   msg_wants (fold (\<lambda>e m. snd (AddEntry (Cid e) (Priority e) (t e) sdh m)) es m) = msg_wants m \<union> Cid ` set es"
  for es :: "wl_entry list"
  by (induction es arbitrary: m) (auto simp: msg_AddEntry)

lemma extract_build_counts:
  "sentCancels (extract_build sh snap q) \<le> length (snap_cancels snap) \<and>
   sentPeerEntries (extract_build sh snap q) \<le> length (peerEntries snap) \<and>
   sentBcstEntries (extract_build sh snap q) \<le> length (bcstEntries snap) \<and>
   (snap_cancels snap \<noteq> [] \<or> peerEntries snap \<noteq> [] \<or> bcstEntries snap \<noteq> [] \<longrightarrow>
      0 < sentCancels (extract_build sh snap q) + sentPeerEntries (extract_build sh snap q) +
          sentBcstEntries (extract_build sh snap q))"
proof -
  obtain sz1 n1 m1 full1 where r1: "fill msg_Cancel (maxMessageSize q) (snap_cancels snap) 0 (mq_msg q) = (sz1, n1, m1, full1)"
    by (rule prod_cases4)
  obtain sz2 n2 m2 full2 where r2: "fill (\<lambda>e. AddEntry (Cid e) (Priority e) (WantType e) True) (maxMessageSize q)
      (peerEntries snap) sz1 m1 = (sz2, n2, m2, full2)"
    by (rule prod_cases4)
  define wt where "wt = (if \<not> sh then Wantlist_Block else Wantlist_Have)"
  obtain sz3 n3 m3 full3 where r3: "fill (\<lambda>e. AddEntry (Cid e) (Priority e) wt False) (maxMessageSize q)
      (bcstEntries snap) sz2 m2 = (sz3, n3, m3, full3)"
    by (rule prod_cases4)
  show ?thesis
    using fill_count [OF r1] fill_count [OF r2] fill_count [OF r3]
    by (cases full1; cases full2) (simp_all add: extract_build_def Let_def r1 r2 r3 flip: wt_def)
qed

lemma extract_build_content:
  fixes sh :: bool
  assumes "mq_msg q = newMsg False"
    and "Cid ` set (peerEntries snap) \<inter> set (snap_cancels snap) = {}"
    and "Cid ` set (bcstEntries snap) \<inter> set (snap_cancels snap) = {}"
  defines "f \<equiv> extract_build sh snap q"
  shows "msg_cancels (f_msg f) = set (take (sentCancels f) (snap_cancels snap))"
    "msg_wants (f_msg f) = Cid ` set (take (sentPeerEntries f) (peerEntries snap)) \<union>
       Cid ` set (take (sentBcstEntries f) (bcstEntries snap))"
proof -
  define wt where "wt = (if \<not> sh then Wantlist_Block else Wantlist_Have)"
  obtain sz1 n1 m1 full1 where r1: "fill msg_Cancel (maxMessageSize q) (snap_cancels snap) 0 (mq_msg q) = (sz1, n1, m1, full1)"
    by (rule prod_cases4)
  obtain sz2 n2 m2 full2 where r2: "fill (\<lambda>e. AddEntry (Cid e) (Priority e) (WantType e) True) (maxMessageSize q)
      (peerEntries snap) sz1 m1 = (sz2, n2, m2, full2)"
    by (rule prod_cases4)
  obtain sz3 n3 m3 full3 where r3: "fill (\<lambda>e. AddEntry (Cid e) (Priority e) wt False) (maxMessageSize q)
      (bcstEntries snap) sz2 m2 = (sz3, n3, m3, full3)"
    by (rule prod_cases4)
  have m1: "msg_cancels m1 = set (take n1 (snap_cancels snap))" "msg_wants m1 = {}"
    using fold_msg_Cancel [of "take n1 (snap_cancels snap)" "newMsg False"] fill_msg [OF r1, unfolded assms(1)] by simp_all
  have sub: "set (take n1 (snap_cancels snap)) \<subseteq> set (snap_cancels snap)"
    "Cid ` set (take n2 (peerEntries snap)) \<subseteq> Cid ` set (peerEntries snap)"
    "Cid ` set (take n3 (bcstEntries snap)) \<subseteq> Cid ` set (bcstEntries snap)"
    by (auto dest: in_set_takeD)
  then have "Cid ` set (take n2 (peerEntries snap)) \<inter> msg_cancels m1 = {}"
    using assms(2) m1(1) by blast
  then have m2: "msg_cancels m2 = msg_cancels m1" "msg_wants m2 = Cid ` set (take n2 (peerEntries snap))"
    using fill_msg [OF r2] fold_msg_AddEntry [of "take n2 (peerEntries snap)" m1 WantType True] m1(2) by simp_all
  have "Cid ` set (take n3 (bcstEntries snap)) \<inter> msg_cancels m2 = {}"
    using Int_mono [OF sub(3) sub(1)] assms(3) by (simp add: m1(1) m2(1))
  then have m3: "msg_cancels m3 = msg_cancels m2"
    "msg_wants m3 = msg_wants m2 \<union> Cid ` set (take n3 (bcstEntries snap))"
    using fill_msg [OF r3] fold_msg_AddEntry [of "take n3 (bcstEntries snap)" m2 "\<lambda>_. wt" False] by simp_all
  show "msg_cancels (f_msg f) = set (take (sentCancels f) (snap_cancels snap))"
    "msg_wants (f_msg f) = Cid ` set (take (sentPeerEntries f) (peerEntries snap)) \<union>
       Cid ` set (take (sentBcstEntries f) (bcstEntries snap))"
    using m1 m2 m3
    by (cases full1; cases full2; simp add: f_def extract_build_def Let_def r1 r2 r3 flip: wt_def)+
qed


section \<open>A send without interference\<close>

lemma MarkSent_pending:
  assumes "wl_Contains (Cid e) (pending r) = Some e"
  shows "fst (MarkSent e r)"
    "wl_Contains c (pending (snd (MarkSent e r))) = (if c = Cid e then None else wl_Contains c (pending r))"
    "wl_keys (r_sent (snd (MarkSent e r))) = insert (Cid e) (wl_keys (r_sent r))"
proof -
  have rm: "fst (wl_RemoveType (Cid e) (WantType e) (pending r))"
    using assms by (cases "WantType e") (simp_all add: wl_RemoveType_result)
  then show "fst (MarkSent e r)" "wl_keys (r_sent (snd (MarkSent e r))) = insert (Cid e) (wl_keys (r_sent r))"
    by (simp_all add: MarkSent_def split_beta Let_def)
  show "wl_Contains c (pending (snd (MarkSent e r))) = (if c = Cid e then None else wl_Contains c (pending r))"
    using rm assms by (auto simp: MarkSent_def split_beta Let_def wl_Contains_RemoveType)
qed

lemma fold_markEntry_all:
  assumes "distinct (map Cid es)" "\<And>e. e \<in> set es \<Longrightarrow> wl_Contains (Cid e) (pending r) = Some e"
    and "fold markEntry es (cs, m, r) = (cs', m', r')"
  shows "m' = m \<and> cs' = cs @ map Cid es \<and> wl_keys (pending r') = wl_keys (pending r) - Cid ` set es \<and>
     wl_keys (r_sent r') = wl_keys (r_sent r) \<union> Cid ` set es"
  using assms
proof (induction es arbitrary: cs r)
  case (Cons e es)
  note mark = MarkSent_pending [of e r, OF Cons.prems(2)]
  let ?r = "snd (MarkSent e r)"
  have pend: "wl_Contains (Cid x) (pending ?r) = Some x" if "x \<in> set es" for x
  proof -
    have "Cid x \<noteq> Cid e"
      using that Cons.prems(1) by (auto simp: image_iff)
    then show ?thesis
      using that Cons.prems(2) [of x] mark(2) [of "Cid x"] by simp
  qed
  have "markEntry e (cs, m, r) = (cs @ [Cid e], m, ?r)"
    using mark(1) by (simp add: markEntry_def split_beta Let_def)
  then have "fold markEntry es (cs @ [Cid e], m, ?r) = (cs', m', r')"
    using Cons.prems(3) by simp
  from Cons.IH [OF _ pend this] have "m' = m \<and> cs' = (cs @ [Cid e]) @ map Cid es \<and>
      wl_keys (pending r') = wl_keys (pending ?r) - Cid ` set es \<and> wl_keys (r_sent r') = wl_keys (r_sent ?r) \<union> Cid ` set es"
    using Cons.prems(1) by simp
  moreover have "wl_keys (pending ?r) = wl_keys (pending r) - {Cid e}"
    using mark(2) by (auto simp: wl_keys_def)
  ultimately show ?case
    using mark(3) by auto
qed simp

lemma fold_finishCancel_all:
  "distinct cs \<Longrightarrow> set cs \<subseteq> fset cancels \<Longrightarrow>
     fold finishCancel cs (m, cancels) = (m, cancels |-| fset_of_list cs)"
proof (induction cs arbitrary: cancels)
  case (Cons c cs)
  have "set cs \<subseteq> fset (cancels |-| {|c|})"
    using Cons.prems by auto
  then have "fold finishCancel cs (m, cancels |-| {|c|}) = (m, cancels |-| {|c|} |-| fset_of_list cs)"
    using Cons by simp
  moreover have "cancels |-| {|c|} |-| fset_of_list cs = cancels |-| fset_of_list (c # cs)"
    by auto
  moreover have "finishCancel c (m, cancels) = (m, cancels |-| {|c|})"
    using Cons.prems by (simp add: finishCancel_def)
  ultimately show ?case
    by simp
qed simp

lemma wl_Entries_facts:
  assumes "go_range ord" "wl_inv w"
  shows "distinct (map Cid (fst (wl_Entries ord w)))"
    "e \<in> set (fst (wl_Entries ord w)) \<Longrightarrow> wl_Contains (Cid e) w = Some e"
    "Cid ` set (fst (wl_Entries ord w)) = wl_keys w"
proof -
  note ls = wl_Entries_lists [OF assms]
  show "distinct (map Cid (fst (wl_Entries ord w)))"
    "e \<in> set (fst (wl_Entries ord w)) \<Longrightarrow> wl_Contains (Cid e) w = Some e"
    using ls by (auto simp: wl_lists_def wl_Contains_def)
  have "c \<in> Cid ` set (fst (wl_Entries ord w))" if c: "c \<in> wl_keys w" for c
  proof -
    obtain e where e: "wl_Contains c w = Some e"
      using c by (auto simp: wl_keys_def)
    then have "Cid e = c" "e \<in> set (fst (wl_Entries ord w))"
      using ls wl_inv_keyed [OF assms(2) e] by (auto simp: wl_lists_def wl_Contains_def)
    then show ?thesis
      by blast
  qed
  moreover have "Cid ` set (fst (wl_Entries ord w)) \<subseteq> wl_keys w"
    using ls by (auto simp: wl_keys_def wl_lists_def wl_Contains_def)
  ultimately show "Cid ` set (fst (wl_Entries ord w)) = wl_keys w"
    by blast
qed

lemma wl_Len_keys: "wl_Len w = card (wl_keys w)"
proof -
  have "wl_keys w = fset (fmdom (wl_set w))"
    by (auto simp: wl_keys_def wl_Contains_def fmlookup_dom_iff)
  then show ?thesis
    by (simp add: wl_Len_def fcard.rep_eq)
qed

lemma finite_wl_keys [simp]: "finite (wl_keys w)"
proof -
  have "wl_keys w = fset (fmdom (wl_set w))"
    by (auto simp: wl_keys_def wl_Contains_def fmlookup_dom_iff)
  then show ?thesis
    by simp
qed

text \<open>
  The sets a send moves: the cancels, peer wants and broadcast wants it took from the queue.
\<close>

lemma extract_atomic:
  assumes ord: "go_range ord" and inv: "mq_inv q" and idle: "mq_msg q = newMsg False"
  obtains cs ps bs pcs bcs q' where
    "extractOutgoingMessage ord True [] q = (pcs, bcs, [], q')"
    "cs \<subseteq> fset (mq_cancels q)" "ps \<subseteq> wl_keys (pending (mq_peerWants q))" "bs \<subseteq> wl_keys (pending (bcstWants q))"
    "msg_cancels (mq_msg q') = cs" "msg_wants (mq_msg q') = ps \<union> bs"
    "fset (mq_cancels q') = fset (mq_cancels q) - cs"
    "wl_keys (pending (mq_peerWants q')) = wl_keys (pending (mq_peerWants q)) - ps"
    "wl_keys (r_sent (mq_peerWants q')) = wl_keys (r_sent (mq_peerWants q)) \<union> ps"
    "wl_keys (pending (bcstWants q')) = wl_keys (pending (bcstWants q)) - bs"
    "wl_keys (r_sent (bcstWants q')) = wl_keys (r_sent (bcstWants q)) \<union> bs"
    "hasPendingWork q \<longrightarrow> cs \<union> ps \<union> bs \<noteq> {}"
proof -
  let ?pes = "fst (wl_Entries ord (pending (mq_peerWants q)))"
  let ?bes = "fst (wl_Entries ord (pending (bcstWants q)))"
  obtain snap q1 where s: "extract_snapshot ord True q = (snap, q1)"
    by (metis prod.collapse)
  have snap: "peerEntries snap = ?pes" "bcstEntries snap = ?bes" "snap_cancels snap = ord (mq_cancels q)"
    and q1: "mq_peerWants q1 = (mq_peerWants q)\<lparr>pending := snd (wl_Entries ord (pending (mq_peerWants q)))\<rparr>"
      "bcstWants q1 = (bcstWants q)\<lparr>pending := snd (wl_Entries ord (pending (bcstWants q)))\<rparr>"
      "mq_cancels q1 = mq_cancels q" "mq_msg q1 = mq_msg q" "maxMessageSize q1 = maxMessageSize q"
    using s by (auto simp: extract_snapshot_def split_beta Let_def)
  have wlp: "wl_inv (pending (mq_peerWants q))" and wlb: "wl_inv (pending (bcstWants q))"
    using inv by (simp_all add: mq_inv_def recall_inv_def)
  note pe = wl_Entries_facts [OF ord wlp] and be = wl_Entries_facts [OF ord wlb]
  have disj: "fset (mq_cancels q) \<inter> mq_keys q = {}"
    using inv by (simp add: mq_inv_def)
  define f where "f = extract_build True snap q1"
  let ?P = "take (sentPeerEntries f) ?pes" and ?B = "take (sentBcstEntries f) ?bes"
    and ?C = "take (sentCancels f) (ord (mq_cancels q))"
  have "Cid ` set (peerEntries snap) \<inter> set (snap_cancels snap) = {}"
    "Cid ` set (bcstEntries snap) \<inter> set (snap_cancels snap) = {}"
    using disj unfolding snap pe(3) be(3) go_range.ord_set [OF ord] mq_keys_def recall_keys_def by blast+
  note content = extract_build_content [of q1 snap True, OF _ this, folded f_def, unfolded snap]
  have subs: "set ?P \<subseteq> set ?pes" "set ?B \<subseteq> set ?bes" "set ?C \<subseteq> fset (mq_cancels q)"
    using set_take_subset [of _ ?pes] set_take_subset [of _ ?bes] set_take_subset [of _ "ord (mq_cancels q)"]
    by (auto simp: go_range.ord_set [OF ord])
  obtain pcs m1 pr where p: "fold markEntry ?P ([], f_msg f, mq_peerWants q1) = (pcs, m1, pr)"
    by (rule prod_cases3)
  have mp: "m1 = f_msg f \<and> pcs = [] @ map Cid ?P \<and> wl_keys (pending pr) = wl_keys (pending (mq_peerWants q1)) - Cid ` set ?P \<and>
     wl_keys (r_sent pr) = wl_keys (r_sent (mq_peerWants q1)) \<union> Cid ` set ?P"
    by (rule fold_markEntry_all [OF _ _ p])
      (use pe(1,2) subs(1) in \<open>auto simp: q1 take_map [symmetric] intro: distinct_take\<close>)
  obtain bcs m2 br where b: "fold markEntry ?B ([], m1, bcstWants q1) = (bcs, m2, br)"
    by (rule prod_cases3)
  have mb: "m2 = m1 \<and> bcs = [] @ map Cid ?B \<and> wl_keys (pending br) = wl_keys (pending (bcstWants q1)) - Cid ` set ?B \<and>
     wl_keys (r_sent br) = wl_keys (r_sent (bcstWants q1)) \<union> Cid ` set ?B"
    by (rule fold_markEntry_all [OF _ _ b])
      (use be(1,2) subs(2) in \<open>auto simp: q1 take_map [symmetric] intro: distinct_take\<close>)
  have c: "fold finishCancel ?C (m2, mq_cancels q) = (m2, mq_cancels q |-| fset_of_list ?C)"
    by (rule fold_finishCancel_all) (use subs(3) in \<open>auto simp: go_range.ord_distinct [OF ord]\<close>)
  define q' where "q' = q1\<lparr>mq_peerWants := pr, bcstWants := br, mq_cancels := mq_cancels q |-| fset_of_list ?C, mq_msg := m2\<rparr>"
  have ex: "extractOutgoingMessage ord True [] q = (pcs, bcs, [], q')"
  proof -
    have "extract_finish snap f q1 = (pcs, bcs, q')"
      unfolding extract_finish_def snap p Let_def prod.case b q1(3) c by (simp add: q'_def)
    then show ?thesis
      by (simp add: extractOutgoingMessage_def s mq_steps_def f_def)
  qed
  have work: "set ?C \<union> Cid ` set ?P \<union> Cid ` set ?B \<noteq> {}" if "hasPendingWork q"
  proof -
    have "ord (mq_cancels q) \<noteq> [] \<or> ?pes \<noteq> [] \<or> ?bes \<noteq> []"
      using that pe(3) be(3) go_range.ord_empty_iff [OF ord]
      by (auto simp: hasPendingWork_def pendingWorkCount_def wl_Len_keys fcard_pos_iff)
    then show ?thesis
      using extract_build_counts [of True snap q1] by (auto simp: snap simp flip: f_def)
  qed
  have pbs: "Cid ` set ?P \<subseteq> wl_keys (pending (mq_peerWants q))" "Cid ` set ?B \<subseteq> wl_keys (pending (bcstWants q))"
    using image_mono [OF subs(1), of Cid] image_mono [OF subs(2), of Cid] by (simp_all add: pe(3) be(3))
  show thesis
  proof (rule that [OF ex subs(3) pbs])
    show "msg_cancels (mq_msg q') = set ?C" "msg_wants (mq_msg q') = Cid ` set ?P \<union> Cid ` set ?B"
      using content mp mb by (simp_all add: q'_def q1 idle)
    show "fset (mq_cancels q') = fset (mq_cancels q) - set ?C"
      by (simp add: q'_def fset_of_list.rep_eq)
    show "hasPendingWork q \<longrightarrow> set ?C \<union> Cid ` set ?P \<union> Cid ` set ?B \<noteq> {}"
      using work by blast
  qed (use mp mb in \<open>simp_all add: q'_def q1\<close>)
qed


section \<open>Properties\<close>

datatype mq_event =
    Ev_Op mq_op
  | Ev_SendIfReady bool bool "mq_op list" "mq_op list" bool int
  | Ev_Rebroadcast bool bool "mq_op list" "mq_op list" bool int
  | Ev_Response int "cid list"

fun mq_event_step :: "cid order \<Rightarrow> mq_event \<Rightarrow> mq \<Rightarrow> mq" where
  "mq_event_step ord (Ev_Op x) q = snd (mq_step x q)"
| "mq_event_step ord (Ev_SendIfReady opened sh interim during delivered now) q =
     snd (sendIfReady ord opened sh interim during delivered now q)"
| "mq_event_step ord (Ev_Rebroadcast opened sh interim during delivered now) q =
     snd (rebroadcastWantlist ord opened sh interim during delivered now q)"
| "mq_event_step ord (Ev_Response now ks) q = snd (handleResponse now ks q)"

lemma mq_inv_event: "go_range ord \<Longrightarrow> mq_inv q \<Longrightarrow> mq_inv (mq_event_step ord x q)"
  by (cases x) (auto simp: sendIfReady_def rebroadcastWantlist_def split_beta Let_def
      intro: mq_inv_step mq_inv_sendMessage mq_inv_transfer mq_inv_handleResponse)

interpretation mq_runs: step_invariant "mq_event_step key_order" "\<lambda>_. True" mq_inv
  by unfold_locales (simp add: mq_inv_event)

text \<open>
  C7. Whatever the events of a message queue and however the calls of other goroutines fall
  into a send, the four want lists stay well formed, a send time is kept only for a sent
  want, and no key is at once to be cancelled and pending or sent.
\<close>

theorem mq_run_invariant:
  assumes "go_range ord"
  shows "mq_inv (fold (mq_event_step ord) xs (newMessageQueue maxSize maxLatency))"
  by (rule fold_invariant) (auto intro: mq_inv_event [OF assms] mq_inv_new)

definition example_mq_events :: "mq_event list" where
  "example_mq_events =
     [Ev_Op (MQ_AddWants [''a''] [''b'']), Ev_SendIfReady True True [MQ_AddCancels [''a'']] [] True 5,
      Ev_Op (MQ_AddBroadcastWantHaves [''c'']), Ev_Rebroadcast True True [] [] True 9, Ev_Response 12 [''b'']]"

theorem mq_run_invariant_witness:
  "mq_inv (fold (mq_event_step key_order) example_mq_events (newMessageQueue 1000 60))"
  by (rule mq_run_invariant [OF go_range_key_order])


definition example_mq :: mq where
  "example_mq = snd (AddWants [''a''] [''b''] (newMessageQueue 1000 60))"

lemma mq_inv_example: "mq_inv example_mq"
  using mq_inv_step [OF mq_inv_new, of "MQ_AddWants [''a''] [''b'']" 1000 60] by (simp add: example_mq_def)

lemma example_mq_idle: "mq_msg example_mq = newMsg False"
  using mq_step_msg [of "MQ_AddWants [''a''] [''b'']" "newMessageQueue 1000 60"]
  by (simp add: example_mq_def newMessageQueue_def)


lemma extract_progress:
  assumes "go_range ord" "mq_inv q" "mq_msg q = newMsg False"
  obtains pcs bcs q' k where "extractOutgoingMessage ord True [] q = (pcs, bcs, [], q')" "pendingWorkCount q' + k = pendingWorkCount q"
    "hasPendingWork q \<Longrightarrow> 0 < k \<and> \<not> msg_Empty (mq_msg q')"
proof -
  obtain cs ps bs pcs bcs q' where x: "extractOutgoingMessage ord True [] q = (pcs, bcs, [], q')"
    "cs \<subseteq> fset (mq_cancels q)" "ps \<subseteq> wl_keys (pending (mq_peerWants q))" "bs \<subseteq> wl_keys (pending (bcstWants q))"
    "msg_cancels (mq_msg q') = cs" "msg_wants (mq_msg q') = ps \<union> bs"
    "fset (mq_cancels q') = fset (mq_cancels q) - cs"
    "wl_keys (pending (mq_peerWants q')) = wl_keys (pending (mq_peerWants q)) - ps"
    "wl_keys (pending (bcstWants q')) = wl_keys (pending (bcstWants q)) - bs"
    "hasPendingWork q \<longrightarrow> cs \<union> ps \<union> bs \<noteq> {}"
    by (rule extract_atomic [OF assms(1,2,3)])
  have fin: "finite cs" "finite ps" "finite bs"
    using x(2,3,4) by (auto intro: finite_subset)
  have sub: "msg_cancels (mq_msg q') \<union> msg_wants (mq_msg q') \<subseteq> fset (fmdom (m_wantlist (mq_msg q')))"
    by (auto simp: msg_cancels_def msg_wants_def fmlookup_dom_iff)
  have c: "card (A - B) + card B = card A" if "B \<subseteq> A" "finite A" for A B :: "cid set"
    using that card_Diff_subset [of B A] card_mono [of A B] finite_subset [of B A] by simp
  have count: "pendingWorkCount q' + (card cs + card ps + card bs) = pendingWorkCount q"
    using c [OF x(2)] c [OF x(3)] c [OF x(4)]
    by (simp add: pendingWorkCount_def wl_Len_keys fcard.rep_eq x(7,8,9))
  have "0 < card cs + card ps + card bs \<and> \<not> msg_Empty (mq_msg q')" if "hasPendingWork q"
  proof -
    have work: "cs \<union> ps \<union> bs \<noteq> {}"
      using x(10) that by blast
    then have "fmdom (m_wantlist (mq_msg q')) \<noteq> {||}"
      using x(5,6) sub by auto
    then show ?thesis
      using fin work by (auto simp: msg_Empty_def card_gt_0_iff)
  qed
  from that [OF x(1) count this] show thesis
    by blast
qed



definition carries_a :: "mq_call \<Rightarrow> bool" where
  "carries_a c = (case c of Sender_SendMsg m \<Rightarrow> fmlookup (m_wantlist m) ''a'' \<noteq> None | _ \<Rightarrow> False)"

definition lost_sent :: "mq_call list \<times> mq" where
  "lost_sent = sendIfReady key_order True True [] [] True 5 (snd (AddWants [''a''] [] (newMessageQueue 1000 60)))"

definition lost_end :: mq where
  "lost_end = snd (AddCancels [''a''] (snd (AddWants [''a''] [] (snd (AddCancels [''a''] (snd lost_sent))))))"

text \<open>
  A cancel can be lost: after a want was sent, cancelling it, wanting it again and
  cancelling it again before the queue sends leaves nothing to send, so the peer keeps the
  want it was first sent.
\<close>

theorem cancel_lost:
  "list_ex carries_a (fst lost_sent) \<and> \<not> hasPendingWork lost_end \<and> ''a'' |\<notin>| mq_cancels lost_end"
  by code_simp

text \<open>
  A broadcast want can be lost for a rebroadcast interval: if, while the message is being
  filled without the lock, a pending peer want is cancelled and the key is then wanted by a
  broadcast that was pending too, the entry leaves the message on account of the peer want
  and the broadcast want is recorded as sent although no message carries it.
\<close>

theorem broadcast_want_lost:
  "let q1 = snd (AddBroadcastWantHaves [''a''] (snd (AddWants [] [''a''] (newMessageQueue 1000 60))));
       (pcs, bcs, calls, q2) = extractOutgoingMessage key_order True
          [MQ_AddCancels [''a''], MQ_AddBroadcastWantHaves [''a'']] q1
   in msg_Empty (mq_msg q2) \<and> wl_Contains ''a'' (r_sent (bcstWants q2)) \<noteq> None \<and> \<not> hasPendingWork q2"
  by code_simp

end
