(* ===== verification/Peer_Manager.thy ===== *)
theory Peer_Manager
  imports Message_Queue_Props
begin

text \<open>
  The peer manager of \<open>client/internal/peermanager/peermanager.go\<close>: it owns one message queue per
  connected peer, hands wants and cancels to them through the peer want manager, and tells
  the sessions which of their peers come and go.

  The queues live in a store; a handle stands for the pointer the code keeps both in
  \<open>peerQueues\<close> and in the records of the peer want manager. The calls of an operation on the
  sessions and the life cycle of the queues are returned in order; the calls on the lists of
  the queues are carried out in the store. A session is its identifier.
\<close>

section \<open>State\<close>

record pm =
  peerQueues :: "(peer, nat) fmap"
  pm_pwm :: "nat pwm"
  pm_store :: "nat \<Rightarrow> mq"
  pm_next :: nat
  pm_sessions :: "uint64 fset"
  peerSessions :: "(peer, uint64 fset) fmap"

datatype pm_call =
    PM_Startup nat
  | PM_Shutdown nat
  | PM_ResponseReceived nat "cid list"
  | SignalAvailability uint64 peer bool

definition newPeerManager :: pm where
  "newPeerManager =
     \<lparr>peerQueues = fmempty, pm_pwm = newPeerWantManager, pm_store = (\<lambda>_. newMessageQueue 0 0), pm_next = 0,
      pm_sessions = {||}, peerSessions = fmempty\<rparr>"

definition deliver_calls :: "(nat \<times> pq_call) list \<Rightarrow> (nat \<Rightarrow> mq) \<Rightarrow> nat \<Rightarrow> mq" where
  "deliver_calls calls store =
     fold (\<lambda>(h, call) st. st(h := pq_deliver (\<lambda>ks q. snd (AddBroadcastWantHaves ks q))
        (\<lambda>bs hs q. snd (AddWants bs hs q)) (\<lambda>ks q. snd (AddCancels ks q)) call (st h))) calls store"

section \<open>Connections\<close>

definition signalAvailability :: "uint64 order \<Rightarrow> peer \<Rightarrow> bool \<Rightarrow> pm \<Rightarrow> pm_call list" where
  "signalAvailability ord p isConnected s =
     (case fmlookup (peerSessions s) p of
        None \<Rightarrow> []
      | Some sesIds \<Rightarrow>
          map (\<lambda>ses. SignalAvailability ses p isConnected)
            (filter (\<lambda>ses. ses |\<in>| pm_sessions s) (ord sesIds)))"

text \<open>\<open>createPeerQueue\<close> makes a queue with the given limits under a fresh handle.\<close>

definition getOrCreate :: "nat \<Rightarrow> int \<Rightarrow> peer \<Rightarrow> pm \<Rightarrow> nat \<times> pm_call list \<times> pm" where
  "getOrCreate maxSize maxLatency p s =
     (case fmlookup (peerQueues s) p of
        Some h \<Rightarrow> (h, [], s)
      | None \<Rightarrow>
          (pm_next s, [PM_Startup (pm_next s)],
           s\<lparr>pm_store := (pm_store s)(pm_next s := newMessageQueue maxSize maxLatency),
             pm_next := Suc (pm_next s), peerQueues := fmupd p (pm_next s) (peerQueues s)\<rparr>))"

definition Connected ::
  "cid order \<Rightarrow> uint64 order \<Rightarrow> nat \<Rightarrow> int \<Rightarrow> peer \<Rightarrow> pm \<Rightarrow> pm_call list \<times> pm" where
  "Connected ordc ords maxSize maxLatency p s =
     (let (h, calls, s1) = getOrCreate maxSize maxLatency p s;
          (qcalls, w) = addPeer ordc h p (pm_pwm s1);
          s2 = s1\<lparr>pm_pwm := w, pm_store := deliver_calls qcalls (pm_store s1)\<rparr>
      in (calls @ signalAvailability ords p True s2, s2))"

definition Disconnected :: "cid order \<Rightarrow> uint64 order \<Rightarrow> peer \<Rightarrow> pm \<Rightarrow> pm_call list \<times> pm" where
  "Disconnected ordc ords p s =
     (case fmlookup (peerQueues s) p of
        None \<Rightarrow> ([], s)
      | Some h \<Rightarrow>
          (signalAvailability ords p False s @ [PM_Shutdown h],
           s\<lparr>peerQueues := fmdrop p (peerQueues s),
             pm_store := (pm_store s)(h := Shutdown (pm_store s h)),
             pm_pwm := removePeer ordc p (pm_pwm s)\<rparr>))"

definition ConnectedPeers :: "peer order \<Rightarrow> pm \<Rightarrow> peer list" where
  "ConnectedPeers ord s = ord (fmdom (peerQueues s))"

section \<open>Wants and cancels\<close>

definition pm_ResponseReceived :: "peer \<Rightarrow> cid list \<Rightarrow> pm \<Rightarrow> pm_call list" where
  "pm_ResponseReceived p ks s =
     (case fmlookup (peerQueues s) p of None \<Rightarrow> [] | Some h \<Rightarrow> [PM_ResponseReceived h ks])"

definition pm_apply :: "(nat \<times> pq_call) list \<times> nat pwm \<Rightarrow> pm \<Rightarrow> pm" where
  "pm_apply r s = s\<lparr>pm_pwm := snd r, pm_store := deliver_calls (fst r) (pm_store s)\<rparr>"

definition pm_BroadcastWantHaves :: "peer order \<Rightarrow> cid list \<Rightarrow> pm \<Rightarrow> pm" where
  "pm_BroadcastWantHaves ord ks s = pm_apply (broadcastWantHaves ord ks (pm_pwm s)) s"

definition pm_SendWants :: "peer \<Rightarrow> cid list \<Rightarrow> cid list \<Rightarrow> pm \<Rightarrow> pm" where
  "pm_SendWants p wbs whs s =
     (case fmlookup (peerQueues s) p of
        None \<Rightarrow> s
      | Some _ \<Rightarrow> pm_apply (sendWants p wbs whs (pm_pwm s)) s)"

definition pm_SendCancels :: "peer order \<Rightarrow> cid list \<Rightarrow> pm \<Rightarrow> pm" where
  "pm_SendCancels ord ks s = pm_apply (sendCancels ord ks (pm_pwm s)) s"

section \<open>Sessions\<close>

definition RegisterSession :: "peer \<Rightarrow> uint64 \<Rightarrow> pm \<Rightarrow> pm" where
  "RegisterSession p ses s =
     (let s1 = (if ses |\<in>| pm_sessions s then s else s\<lparr>pm_sessions := finsert ses (pm_sessions s)\<rparr>);
          ss = (case fmlookup (peerSessions s1) p of None \<Rightarrow> {||} | Some ss \<Rightarrow> ss)
      in s1\<lparr>peerSessions := fmupd p (finsert ses ss) (peerSessions s1)\<rparr>)"

definition unregisterPeer :: "uint64 \<Rightarrow> peer \<Rightarrow> (peer, uint64 fset) fmap \<Rightarrow> (peer, uint64 fset) fmap" where
  "unregisterPeer ses p m =
     (case fmlookup m p of
        None \<Rightarrow> m
      | Some ss \<Rightarrow>
          let ss' = ss |-| {|ses|}
          in if fcard ss' = 0 then fmdrop p m else fmupd p ss' m)"

definition UnregisterSession :: "peer order \<Rightarrow> uint64 \<Rightarrow> pm \<Rightarrow> pm" where
  "UnregisterSession ord ses s =
     s\<lparr>peerSessions := fold (unregisterPeer ses) (ord (fmdom (peerSessions s))) (peerSessions s),
       pm_sessions := pm_sessions s |-| {|ses|}\<rparr>"

section \<open>Invariant\<close>

text \<open>
  The two records of a peer's queue agree, handles are never shared or reused, and the keys of
  each live queue are the broadcast wants together with the wants recorded for its peer.
\<close>

definition pm_inv :: "pm \<Rightarrow> bool" where
  "pm_inv s \<longleftrightarrow> pwm_inv (pm_pwm s) \<and> handles_ok (pm_pwm s) \<and>
     (\<forall>p. queue_of (pm_pwm s) p = fmlookup (peerQueues s) p) \<and>
     (\<forall>p h. fmlookup (peerQueues s) p = Some h \<longrightarrow>
        h < pm_next s \<and> mq_inv (pm_store s h) \<and> mq_keys (pm_store s h) = peer_keys (pm_pwm s) p)"

lemma pm_invD:
  assumes "pm_inv s"
  shows "pwm_inv (pm_pwm s)" "handles_ok (pm_pwm s)" "queue_of (pm_pwm s) p = fmlookup (peerQueues s) p"
    "fmlookup (peerQueues s) p = Some h \<Longrightarrow> h < pm_next s"
    "fmlookup (peerQueues s) p = Some h \<Longrightarrow> mq_inv (pm_store s h)"
    "fmlookup (peerQueues s) p = Some h \<Longrightarrow> mq_keys (pm_store s h) = peer_keys (pm_pwm s) p"
  using assms by (auto simp: pm_inv_def)

lemma pm_inv_new: "pm_inv newPeerManager"
proof -
  have "queue_of (newPeerWantManager :: nat pwm) p = None" for p
    by (simp add: newPeerWantManager_def queue_of_def)
  then show ?thesis
    by (simp add: pm_inv_def newPeerManager_def pwm_inv_new handles_ok_def)
qed

lemma keys_deliver_calls: "mq_keys (deliver_calls calls st h) = calls_keys h calls (mq_keys (st h))"
  unfolding deliver_calls_def by (rule mq_queue.keys_deliver_all)

lemma deliver_calls_inv: "mq_inv (st h) \<Longrightarrow> mq_inv (deliver_calls calls st h)"
proof (induction calls arbitrary: st)
  case (Cons x calls)
  obtain g call where x: "x = (g, call)" by (cases x)
  define d where "d = pq_deliver (\<lambda>ks q. snd (AddBroadcastWantHaves ks q)) (\<lambda>bs hs q. snd (AddWants bs hs q))
      (\<lambda>ks q. snd (AddCancels ks q)) call"
  have "mq_inv (d q)" if "mq_inv q" for q
    using that mq_inv_step [OF that, of "MQ_AddBroadcastWantHaves _"] mq_inv_step [OF that, of "MQ_AddWants _ _"]
      mq_inv_step [OF that, of "MQ_AddCancels _"] by (cases call) (auto simp: d_def)
  then have "mq_inv ((st(g := d (st g))) h)"
    using Cons.prems by auto
  from Cons.IH [of "st(g := d (st g))", OF this] show ?case
    by (simp add: deliver_calls_def x d_def fun_upd_def)
qed (simp add: deliver_calls_def)

lemma pm_inv_apply:
  assumes "pm_inv s" "pwm_inv w" "queue_of w = queue_of (pm_pwm s)"
    and "\<And>p h. queue_of (pm_pwm s) p = Some h \<Longrightarrow> calls_keys h calls (peer_keys (pm_pwm s) p) = peer_keys w p"
  shows "pm_inv (pm_apply (calls, w) s)"
  using assms pm_invD [OF assms(1)]
  by (auto simp: pm_inv_def pm_apply_def handles_ok_def keys_deliver_calls deliver_calls_inv)

lemma pm_inv_broadcast:
  assumes "go_range ord" "pm_inv s"
  shows "pm_inv (pm_BroadcastWantHaves ord ks s)"
proof -
  obtain calls w where r: "broadcastWantHaves ord ks (pm_pwm s) = (calls, w)"
    by (metis prod.collapse)
  note inv = pm_invD(1) [OF assms(2)]
  have "queue_of w = queue_of (pm_pwm s)"
    using broadcastWantHaves_state(2) [OF inv, of ord ks] r by (simp add: queue_of_def fun_eq_iff)
  moreover have "pwm_inv w"
    using broadcastWantHaves_state(1) [OF inv, of ord ks] r by simp
  moreover have "calls_keys h calls (peer_keys (pm_pwm s) p) = peer_keys w p" if "queue_of (pm_pwm s) p = Some h" for p h
    using keys_broadcast(1) [OF assms(1) inv pm_invD(2) [OF assms(2)] that, of ks] r by simp
  ultimately show ?thesis
    unfolding pm_BroadcastWantHaves_def r by (intro pm_inv_apply [OF assms(2)]) auto
qed

lemma pm_inv_sendWants:
  assumes "pm_inv s"
  shows "pm_inv (pm_SendWants p wbs whs s)"
proof (cases "fmlookup (peerQueues s) p")
  case (Some h)
  obtain calls w where r: "sendWants p wbs whs (pm_pwm s) = (calls, w)"
    by (metis prod.collapse)
  note inv = pm_invD(1,2) [OF assms]
  have "queue_of (pm_pwm s) p = Some h"
    using Some pm_invD(3) [OF assms, of p] by simp
  then have "queue_of w = queue_of (pm_pwm s)"
    using keys_sendWants(2) [OF inv, of p h p wbs whs] r by simp
  moreover have "pwm_inv w"
    using pwm_inv_sendWants [OF inv(1), of p wbs whs] r by simp
  moreover have "calls_keys h calls (peer_keys (pm_pwm s) p') = peer_keys w p'" if "queue_of (pm_pwm s) p' = Some h" for p' h
    using keys_sendWants(1) [OF inv that, of p wbs whs] r by simp
  ultimately show ?thesis
    using Some by (auto simp: pm_SendWants_def r intro: pm_inv_apply [OF assms])
qed (simp add: pm_SendWants_def assms)

lemma pm_inv_sendCancels:
  assumes "go_range ord" "distinct ks" "pm_inv s"
  shows "pm_inv (pm_SendCancels ord ks s)"
proof -
  obtain calls w where r: "sendCancels ord ks (pm_pwm s) = (calls, w)"
    by (metis prod.collapse)
  note inv = pm_invD(1,2) [OF assms(3)]
  have "queue_of w = queue_of (pm_pwm s)"
    using sendCancels_state [OF assms(1) inv(1) assms(2)] r
    by (cases "ks = []") (auto simp: sendCancels_def)
  moreover have "pwm_inv w"
    using pwm_inv_sendCancels [OF assms(1,2) inv(1)] r by simp
  moreover have "calls_keys h calls (peer_keys (pm_pwm s) p) = peer_keys w p" if "queue_of (pm_pwm s) p = Some h" for p h
    using keys_sendCancels(1) [OF assms(1) inv(1) assms(2) inv(2) that] r by simp
  ultimately show ?thesis
    unfolding pm_SendCancels_def r by (intro pm_inv_apply [OF assms(3)]) auto
qed

lemma pm_inv_Disconnected:
  assumes "go_range ordc" "pm_inv s"
  shows "pm_inv (snd (Disconnected ordc ords p s))"
proof (cases "fmlookup (peerQueues s) p")
  case (Some h)
  note inv = pm_invD [OF assms(2)]
  note rem = keys_removePeer [OF assms(1) inv(1), where p = p] removePeer_state(1) [OF assms(1) inv(1), of p]
  have own: "g \<noteq> h" if "fmlookup (peerQueues s) p' = Some g" "p' \<noteq> p" for p' g
    using that Some inv(3) handlesD [OF inv(2), of p h p'] by auto
  have "handles_ok (removePeer ordc p (pm_pwm s))"
    using inv(2) by (auto simp: handles_ok_def rem(1))
  then show ?thesis
    using Some inv rem own by (auto simp: Disconnected_def pm_inv_def Shutdown_def split: if_splits)
qed (simp add: Disconnected_def assms)

lemma pm_inv_Connected:
  assumes "go_range ordc" "pm_inv s"
  shows "pm_inv (snd (Connected ordc ords maxSize maxLatency p s))"
proof (cases "fmlookup (peerQueues s) p")
  case None
  note inv = pm_invD [OF assms(2)]
  let ?h = "pm_next s"
  have none: "queue_of (pm_pwm s) p = None"
    using None inv(3) by simp
  note add = keys_addPeer [OF assms(1) inv(1) none, where q = ?h]
  have fresh: "g \<noteq> ?h" if "fmlookup (peerQueues s) p' = Some g" for p' g
    using inv(4) [OF that] by simp
  have unused: "fmlookup (peerQueues s) p' \<noteq> Some ?h" for p'
    using fresh by blast
  have "handles_ok (snd (addPeer ordc ?h p (pm_pwm s)))"
    using inv(2,3) unused by (auto simp: handles_ok_def add(1))
  moreover have "mq_inv (newMessageQueue maxSize maxLatency)"
    by (rule mq_inv_new)
  moreover have "mq_keys (newMessageQueue maxSize maxLatency) = {}"
    by (simp add: mq_keys_def newMessageQueue_def)
  ultimately show ?thesis
    using None inv fresh add addPeer_state(1) [OF inv(1)]
    by (auto simp: Connected_def getOrCreate_def split_beta Let_def pm_inv_def keys_deliver_calls
        deliver_calls_inv less_Suc_eq split: if_splits)
next
  case (Some h)
  then have "fmlookup (peerWants (pm_pwm s)) p \<noteq> None"
    using pm_invD(3) [OF assms(2), of p] by (auto simp: queue_of_def)
  then have "addPeer ordc h p (pm_pwm s) = ([], pm_pwm s)"
    by (auto simp: addPeer_def)
  then show ?thesis
    using Some assms(2) by (simp add: Connected_def getOrCreate_def deliver_calls_def)
qed


section \<open>Runs\<close>

text \<open>A queue sends on its own; here each send is one step on a peer that supports HAVE.\<close>

definition pm_QueueSend :: "cid order \<Rightarrow> int \<Rightarrow> peer \<Rightarrow> pm \<Rightarrow> pm" where
  "pm_QueueSend ord now p s =
     (case fmlookup (peerQueues s) p of
        None \<Rightarrow> s
      | Some h \<Rightarrow> s\<lparr>pm_store := (pm_store s)(h := snd (sendIfReady ord True True [] [] True now (pm_store s h)))\<rparr>)"

datatype pm_op =
    PM_Connected nat int peer
  | PM_Disconnected peer
  | PM_BroadcastWantHaves "cid list"
  | PM_SendWants peer "cid list" "cid list"
  | PM_SendCancels "cid list"
  | PM_RegisterSession peer uint64
  | PM_UnregisterSession uint64
  | PM_QueueSend int peer

fun pm_step :: "string order \<Rightarrow> uint64 order \<Rightarrow> pm_op \<Rightarrow> pm \<Rightarrow> pm" where
  "pm_step ord ords (PM_Connected n l p) s = snd (Connected ord ords n l p s)"
| "pm_step ord ords (PM_Disconnected p) s = snd (Disconnected ord ords p s)"
| "pm_step ord ords (PM_BroadcastWantHaves ks) s = pm_BroadcastWantHaves ord ks s"
| "pm_step ord ords (PM_SendWants p bs hs) s = pm_SendWants p bs hs s"
| "pm_step ord ords (PM_SendCancels ks) s = pm_SendCancels ord ks s"
| "pm_step ord ords (PM_RegisterSession p ses) s = RegisterSession p ses s"
| "pm_step ord ords (PM_UnregisterSession ses) s = UnregisterSession ord ses s"
| "pm_step ord ords (PM_QueueSend now p) s = pm_QueueSend ord now p s"

fun pm_op_ok :: "pm_op \<Rightarrow> bool" where
  "pm_op_ok (PM_SendCancels ks) = distinct ks"
| "pm_op_ok _ = True"

lemma sendIfReady_keys:
  assumes "go_range ord" "mq_inv q"
  shows "mq_keys (snd (sendIfReady ord True True [] [] True now q)) = mq_keys q"
proof -
  obtain pcs bcs calls q1 where e: "extractOutgoingMessage ord True [] q = (pcs, bcs, calls, q1)"
    by (rule prod_cases4)
  have "recall_keys (fold (\<lambda>c. SentAt c now) cs r) = recall_keys r" for cs r
    by (induction cs arbitrary: r) simp_all
  then have "mq_keys (onSent now pcs bcs q1) = mq_keys q1"
    by (simp add: mq_keys_def onSent_def)
  moreover have "mq_keys (q\<lparr>mq_msg := m\<rparr>) = mq_keys q" for q m
    by (simp add: mq_keys_def)
  ultimately show ?thesis
    using extractOutgoingMessage_inv(2) [OF assms e]
    by (simp add: sendIfReady_def sendMessage_def e Let_def mq_steps_def)
qed

lemma pm_inv_QueueSend:
  assumes "go_range ord" "pm_inv s"
  shows "pm_inv (pm_QueueSend ord now p s)"
proof (cases "fmlookup (peerQueues s) p")
  case (Some h)
  note inv = pm_invD [OF assms(2)]
  let ?q = "snd (sendIfReady ord True True [] [] True now (pm_store s h))"
  have q: "mq_inv ?q" "mq_keys ?q = peer_keys (pm_pwm s) p"
    using mq_inv_sendMessage [OF assms(1) inv(5) [OF Some]] inv(5,6) [OF Some]
      sendIfReady_keys [OF assms(1) inv(5) [OF Some], of now]
    by (simp_all add: sendIfReady_def)
  have "h' < pm_next s \<and> mq_inv (((pm_store s)(h := ?q)) h') \<and>
      mq_keys (((pm_store s)(h := ?q)) h') = peer_keys (pm_pwm s) p'"
    if "fmlookup (peerQueues s) p' = Some h'" for p' h'
  proof (cases "h' = h")
    case True
    then have "p' = p"
      using that Some inv(3) handlesD [OF inv(2), of p h p'] by simp
    then show ?thesis
      using True q inv(4) [OF Some] by simp
  qed (use that inv(4,5,6) in simp)
  then show ?thesis
    using Some inv(1,2,3) by (simp add: pm_QueueSend_def pm_inv_def)
qed (simp add: pm_QueueSend_def assms)

lemma pm_inv_sessions: "pm_inv s \<Longrightarrow> pm_inv (RegisterSession p ses s)" "pm_inv s \<Longrightarrow> pm_inv (UnregisterSession ord ses s)"
  by (simp_all add: pm_inv_def RegisterSession_def UnregisterSession_def Let_def)

lemma pm_inv_step: "go_range ord \<Longrightarrow> pm_op_ok x \<Longrightarrow> pm_inv s \<Longrightarrow> pm_inv (pm_step ord ords x s)"
  by (cases x) (simp_all add: pm_inv_Connected pm_inv_Disconnected pm_inv_broadcast pm_inv_sendWants
      pm_inv_sendCancels pm_inv_sessions pm_inv_QueueSend)

interpretation pm_runs: step_invariant "pm_step key_order ords" pm_op_ok pm_inv
  by unfold_locales (simp add: pm_inv_step)

section \<open>Properties\<close>


definition example_pm_ops :: "pm_op list" where
  "example_pm_ops =
     [PM_Connected 1000 60 ''p'', PM_BroadcastWantHaves [''a''], PM_SendWants ''p'' [''b''] [''c''],
      PM_QueueSend 5 ''p'', PM_Connected 1000 60 ''q'', PM_SendCancels [''a'', ''b''], PM_Disconnected ''p'']"


text \<open>
  A newly connected peer gets everything that is broadcast at the time, and every session
  registered for it, and no other, is told once that it is there.
\<close>

theorem Connected_greets:
  assumes "go_range ordc" "go_range ords" "pm_inv s" "fmlookup (peerQueues s) p = None"
  shows "\<exists>h. fmlookup (peerQueues (snd (Connected ordc ords n l p s))) p = Some h \<and>
     mq_keys (pm_store (snd (Connected ordc ords n l p s)) h) = fset (broadcastWants (pm_pwm s)) \<and>
     (\<forall>ses b p'. SignalAvailability ses p' b \<in> set (fst (Connected ordc ords n l p s)) \<longleftrightarrow>
        p' = p \<and> b \<and> ses |\<in>| members (peerSessions s) p \<and> ses |\<in>| pm_sessions s) \<and>
     distinct (fst (Connected ordc ords n l p s))"
proof -
  note inv = pm_inv_Connected [OF assms(1,3), of ords n l p]
  let ?r = "Connected ordc ords n l p s"
  have h: "fmlookup (peerQueues (snd ?r)) p = Some (pm_next s)"
    using assms(4) by (simp add: Connected_def getOrCreate_def split_beta Let_def)
  have none: "fmlookup (peerWants (pm_pwm s)) p = None"
    using assms(4) pm_invD(3) [OF assms(3), of p] by (simp add: queue_of_def)
  have "pm_pwm (snd ?r) = snd (addPeer ordc (pm_next s) p (pm_pwm s))"
    using assms(4) by (simp add: Connected_def getOrCreate_def split_beta Let_def)
  then have "peer_keys (pm_pwm (snd ?r)) p = fset (broadcastWants (pm_pwm s))"
    using addPeer_state [OF pm_invD(1) [OF assms(3)]] none
    by (simp add: peer_keys_def sent_def sentBlock_def sentHave_def)
  then have keys: "mq_keys (pm_store (snd ?r) (pm_next s)) = fset (broadcastWants (pm_pwm s))"
    using pm_invD(6) [OF inv h] by simp
  have calls: "fst ?r = PM_Startup (pm_next s) # (case fmlookup (peerSessions s) p of
      None \<Rightarrow> [] | Some ss \<Rightarrow> map (\<lambda>ses. SignalAvailability ses p True) (filter (\<lambda>ses. ses |\<in>| pm_sessions s) (ords ss)))"
    using assms(4)
    by (cases "fmlookup (peerSessions s) p")
      (simp_all add: Connected_def getOrCreate_def split_beta Let_def signalAvailability_def)
  have "distinct (fst ?r)"
    by (auto simp: calls distinct_map inj_on_def go_range.ord_distinct [OF assms(2)] split: option.splits)
  moreover have "SignalAvailability ses p' b \<in> set (fst ?r) \<longleftrightarrow>
      p' = p \<and> b \<and> ses |\<in>| members (peerSessions s) p \<and> ses |\<in>| pm_sessions s" for ses b p'
    by (auto simp: calls members_def go_range.ord_set [OF assms(2)] split: option.splits)
  ultimately show ?thesis
    using h keys by blast
qed

theorem Connected_greets_witness:
  "\<exists>h. fmlookup (peerQueues (snd (Connected key_order key_order 9 9 ''p'' newPeerManager))) ''p'' = Some h \<and>
     mq_keys (pm_store (snd (Connected key_order key_order 9 9 ''p'' newPeerManager)) h) = {}"
proof -
  have "fmlookup (peerQueues newPeerManager) ''p'' = None" "broadcastWants (pm_pwm newPeerManager) = {||}"
    by (simp_all add: newPeerManager_def newPeerWantManager_def)
  then show ?thesis
    using Connected_greets [OF go_range_key_order go_range_key_order pm_inv_new, of "''p''" 9 9] by auto
qed

end
