(* ===== verification/Dont_Have_Timeout.thy ===== *)
theory Dont_Have_Timeout
  imports Complex_Main Message_Queue
begin

text \<open>
  The DONT_HAVE timeout manager of \<open>client/internal/messagequeue/donthavetimeoutmgr.go\<close>: a want
  that a peer does not answer in time counts as a DONT_HAVE.

  A \<open>pendingWant\<close> is shared between the map \<open>activeWants\<close> and the slice \<open>wantQueue\<close>, and the
  code changes it through one and reads it through the other: the records are in a store and
  both hold addresses. Times and durations are nanoseconds without a bound (a 64-bit duration
  wraps at 292 years). The clock is read once per critical section. The moving average is
  exact: its weights are 1 and 1/2, so the code's floats are exact as well up to \<open>2 ^ 52\<close>
  nanoseconds. A timer is its deadline.
\<close>

section \<open>State\<close>

record pendingWant =
  pw_c :: cid
  pw_active :: bool
  pw_sent :: int

record latencyEwma =
  le_alpha :: rat
  le_samples :: nat
  le_latency :: int

datatype timer = NoTimer | Stopped | Armed int

record dhtm =
  defaultTimeout :: int
  maxTimeout :: int
  pingLatencyMultiplier :: int
  messageLatencyMultiplier :: int
  maxExpectedWantProcessTime :: int
  dh_started :: bool
  activeWants :: "(cid, nat) fmap"
  wantQueue :: "nat list"
  dh_timeout :: int
  messageLatency :: latencyEwma
  checkForTimeoutsTimer :: timer
  dh_shutdown :: bool
  dh_store :: "nat \<Rightarrow> pendingWant"
  dh_next :: nat

text \<open>The goroutines an operation starts.\<close>

datatype dh_call =
    FireTimeout "cid list"
  | MeasurePingLatency

definition newDontHaveTimeoutMgrWithParams :: "int \<Rightarrow> int \<Rightarrow> int \<Rightarrow> int \<Rightarrow> int \<Rightarrow> dhtm" where
  "newDontHaveTimeoutMgrWithParams defTimeout maxT pingMult msgMult maxProc =
     \<lparr>defaultTimeout = defTimeout, maxTimeout = maxT, pingLatencyMultiplier = pingMult,
      messageLatencyMultiplier = msgMult, maxExpectedWantProcessTime = maxProc,
      dh_started = False, activeWants = fmempty, wantQueue = [], dh_timeout = defTimeout,
      messageLatency = \<lparr>le_alpha = 1 / 2, le_samples = 0, le_latency = 0\<rparr>,
      checkForTimeoutsTimer = NoTimer, dh_shutdown = False,
      dh_store = (\<lambda>_. \<lparr>pw_c = Undef, pw_active = False, pw_sent = 0\<rparr>), dh_next = 0\<rparr>"

definition second :: int where
  "second = 1000000000"

definition newDontHaveTimeoutMgr :: dhtm where
  "newDontHaveTimeoutMgr = newDontHaveTimeoutMgrWithParams (5 * second) (5 * second + 2 * second) 3 2 (2 * second)"

section \<open>Latency\<close>

definition truncate_rat :: "rat \<Rightarrow> int" where
  "truncate_rat x = (if x < 0 then \<lceil>x\<rceil> else \<lfloor>x\<rfloor>)"

definition latencyEwma_update :: "int \<Rightarrow> latencyEwma \<Rightarrow> latencyEwma" where
  "latencyEwma_update elapsed le =
     (let n = Suc (le_samples le);
          a = 1 / rat_of_nat n;
          alpha = (if a < le_alpha le then le_alpha le else a)
      in le\<lparr>le_samples := n,
            le_latency := truncate_rat (of_int elapsed * alpha + (1 - alpha) * of_int (le_latency le))\<rparr>)"

definition calculateTimeoutFromPingLatency :: "int \<Rightarrow> dhtm \<Rightarrow> int" where
  "calculateTimeoutFromPingLatency latency s =
     (let t = maxExpectedWantProcessTime s + pingLatencyMultiplier s * latency
      in if t > maxTimeout s then maxTimeout s else t)"

definition calculateTimeoutFromMessageLatency :: "dhtm \<Rightarrow> int" where
  "calculateTimeoutFromMessageLatency s =
     (let t = le_latency (messageLatency s) * messageLatencyMultiplier s
      in if t > maxTimeout s then maxTimeout s else t)"

section \<open>Operations\<close>

text \<open>The loop that takes expired and cancelled wants off the front of the queue.\<close>

fun popExpired :: "int \<Rightarrow> nat list \<Rightarrow> dhtm \<Rightarrow> cid list \<times> dhtm" where
  "popExpired now [] s = ([], s\<lparr>wantQueue := []\<rparr>)"
| "popExpired now (h # hs) s =
     (let pw = dh_store s h
      in if pw_active pw then
           if now - pw_sent pw < dh_timeout s then ([], s\<lparr>wantQueue := h # hs\<rparr>)
           else let (expired, s') = popExpired now hs (s\<lparr>activeWants := fmdrop (pw_c pw) (activeWants s)\<rparr>)
                in (pw_c pw # expired, s')
         else popExpired now hs s)"

definition armTimer :: "int \<Rightarrow> dhtm \<Rightarrow> dhtm" where
  "armTimer now s =
     (if length (wantQueue s) = 0 then s
      else if dh_shutdown s then s
      else let oldestStart = pw_sent (dh_store s (hd (wantQueue s)));
               until = oldestStart + dh_timeout s - now
           in s\<lparr>checkForTimeoutsTimer := Armed (now + until)\<rparr>)"

definition checkForTimeouts :: "int \<Rightarrow> dhtm \<Rightarrow> dh_call list \<times> dhtm" where
  "checkForTimeouts now s =
     (if length (wantQueue s) = 0 then ([], s)
      else let (expired, s1) = popExpired now (wantQueue s) s
           in (if length expired > 0 then [FireTimeout expired] else [], armTimer now s1))"

definition dh_Shutdown :: "dhtm \<Rightarrow> dhtm" where
  "dh_Shutdown s =
     (let s1 = s\<lparr>dh_shutdown := True\<rparr>
      in if checkForTimeoutsTimer s1 \<noteq> NoTimer then s1\<lparr>checkForTimeoutsTimer := Stopped\<rparr> else s1)"

definition dh_Start :: "int \<Rightarrow> dhtm \<Rightarrow> dh_call list \<times> dhtm" where
  "dh_Start latency s =
     (if dh_started s then ([], s)
      else let s1 = s\<lparr>dh_started := True\<rparr>
           in if latency > 0 then ([], s1\<lparr>dh_timeout := calculateTimeoutFromPingLatency latency s1\<rparr>)
              else ([MeasurePingLatency], s1))"

definition UpdateMessageLatency :: "int \<Rightarrow> int \<Rightarrow> dhtm \<Rightarrow> dh_call list \<times> dhtm" where
  "UpdateMessageLatency now elapsed s =
     (let s1 = s\<lparr>messageLatency := latencyEwma_update elapsed (messageLatency s)\<rparr>;
          oldTimeout = dh_timeout s1;
          s2 = s1\<lparr>dh_timeout := calculateTimeoutFromMessageLatency s1\<rparr>
      in if dh_timeout s2 < oldTimeout then checkForTimeouts now s2 else ([], s2))"

text \<open>\<open>ping\<close> is the average latency after the ping, or \<open>None\<close> when the ping failed.\<close>

definition measurePingLatency :: "int \<Rightarrow> int option \<Rightarrow> dhtm \<Rightarrow> dh_call list \<times> dhtm" where
  "measurePingLatency now ping s =
     (case ping of
        None \<Rightarrow> ([], s)
      | Some latency \<Rightarrow>
          if le_samples (messageLatency s) > 0 then ([], s)
          else checkForTimeouts now (s\<lparr>dh_timeout := calculateTimeoutFromPingLatency latency s\<rparr>))"

text \<open>One round of the loop: the timer has fired.\<close>

definition consumeTimeouts :: "int \<Rightarrow> dhtm \<Rightarrow> dh_call list \<times> dhtm" where
  "consumeTimeouts now s = (if dh_shutdown s then ([], s) else checkForTimeouts now s)"

definition addPendingKey :: "int \<Rightarrow> cid \<Rightarrow> dhtm \<Rightarrow> dhtm" where
  "addPendingKey start c s =
     (case fmlookup (activeWants s) c of
        Some _ \<Rightarrow> s
      | None \<Rightarrow>
          s\<lparr>dh_store := (dh_store s)(dh_next s := \<lparr>pw_c = c, pw_active = True, pw_sent = start\<rparr>),
            dh_next := Suc (dh_next s),
            activeWants := fmupd c (dh_next s) (activeWants s),
            wantQueue := wantQueue s @ [dh_next s]\<rparr>)"

definition AddPending :: "int \<Rightarrow> cid list \<Rightarrow> dhtm \<Rightarrow> dh_call list \<times> dhtm" where
  "AddPending now ks s =
     (if length ks = 0 then ([], s)
      else let queueWasEmpty = (fcard (fmdom (activeWants s)) = 0);
               s1 = fold (addPendingKey now) ks s
           in if queueWasEmpty then checkForTimeouts now s1 else ([], s1))"

definition cancelPendingKey :: "cid \<Rightarrow> dhtm \<Rightarrow> dhtm" where
  "cancelPendingKey c s =
     (case fmlookup (activeWants s) c of
        None \<Rightarrow> s
      | Some h \<Rightarrow>
          s\<lparr>dh_store := (dh_store s)(h := (dh_store s h)\<lparr>pw_active := False\<rparr>),
            activeWants := fmdrop c (activeWants s)\<rparr>)"

definition CancelPending :: "cid list \<Rightarrow> dhtm \<Rightarrow> dhtm" where
  "CancelPending ks s = fold cancelPendingKey ks s"

text \<open>The goroutine that reports expired keys, when it runs in state \<open>s\<close>.\<close>

definition fireTimeout :: "cid list \<Rightarrow> dhtm \<Rightarrow> cid list option" where
  "fireTimeout ks s = (if dh_shutdown s then None else Some ks)"

section \<open>Invariant\<close>

text \<open>
  The queue is in order of time, and the map holds the addresses of exactly the active wants
  of the queue.
\<close>

definition dh_inv :: "dhtm \<Rightarrow> bool" where
  "dh_inv s \<longleftrightarrow>
     distinct (wantQueue s) \<and> (\<forall>h\<in>set (wantQueue s). h < dh_next s) \<and>
     sorted (map (\<lambda>h. pw_sent (dh_store s h)) (wantQueue s)) \<and>
     (\<forall>c h. fmlookup (activeWants s) c = Some h \<longleftrightarrow>
        h \<in> set (wantQueue s) \<and> pw_active (dh_store s h) \<and> pw_c (dh_store s h) = c)"

text \<open>What the manager promises: the time each pending key was sent.\<close>

definition pending_since :: "dhtm \<Rightarrow> cid \<Rightarrow> int option" where
  "pending_since s c = map_option (\<lambda>h. pw_sent (dh_store s h)) (fmlookup (activeWants s) c)"

text \<open>A timer is armed no later than the first moment a pending want expires.\<close>

definition timer_covers :: "dhtm \<Rightarrow> bool" where
  "timer_covers s \<longleftrightarrow>
     (\<forall>c t. pending_since s c = Some t \<and> \<not> dh_shutdown s \<longrightarrow>
        (\<exists>d. checkForTimeoutsTimer s = Armed d \<and> d \<le> t + dh_timeout s))"

lemma dh_invI:
  assumes "distinct (wantQueue s)" "\<And>h. h \<in> set (wantQueue s) \<Longrightarrow> h < dh_next s"
    "sorted (map (\<lambda>h. pw_sent (dh_store s h)) (wantQueue s))"
    "\<And>c h. fmlookup (activeWants s) c = Some h \<longleftrightarrow>
        h \<in> set (wantQueue s) \<and> pw_active (dh_store s h) \<and> pw_c (dh_store s h) = c"
  shows "dh_inv s"
  using assms by (simp add: dh_inv_def)

lemma dh_invD:
  assumes "dh_inv s"
  shows "distinct (wantQueue s)" "h \<in> set (wantQueue s) \<Longrightarrow> h < dh_next s"
    "sorted (map (\<lambda>h. pw_sent (dh_store s h)) (wantQueue s))"
    "fmlookup (activeWants s) c = Some h \<longleftrightarrow>
        h \<in> set (wantQueue s) \<and> pw_active (dh_store s h) \<and> pw_c (dh_store s h) = c"
  using assms by (auto simp: dh_inv_def)

lemma dh_inv_new: "dh_inv (newDontHaveTimeoutMgrWithParams a b c d e)"
  by (rule dh_invI) (auto simp: newDontHaveTimeoutMgrWithParams_def)

section \<open>The expiry loop\<close>

text \<open>
  On a queue in order of time, stopping at the first want that has not expired takes exactly
  the expired ones.
\<close>

lemma dh_inv_tail:
  assumes inv: "dh_inv (s\<lparr>wantQueue := h # hs\<rparr>)"
  shows "pw_active (dh_store s h) \<Longrightarrow>
      dh_inv (s\<lparr>activeWants := fmdrop (pw_c (dh_store s h)) (activeWants s), wantQueue := hs\<rparr>)"
    "pw_active (dh_store s h) \<Longrightarrow> fmlookup (activeWants s) (pw_c (dh_store s h)) = Some h"
    "\<not> pw_active (dh_store s h) \<Longrightarrow> dh_inv (s\<lparr>wantQueue := hs\<rparr>)"
    "h' \<in> set (h # hs) \<Longrightarrow> pw_sent (dh_store s h) \<le> pw_sent (dh_store s h')"
proof -
  note D = dh_invD [OF inv, simplified]
  show act: "fmlookup (activeWants s) (pw_c (dh_store s h)) = Some h" if "pw_active (dh_store s h)"
    using that D(4) by simp
  show "dh_inv (s\<lparr>activeWants := fmdrop (pw_c (dh_store s h)) (activeWants s), wantQueue := hs\<rparr>)"
    if a: "pw_active (dh_store s h)"
  proof -
    have "pw_c (dh_store s h') \<noteq> pw_c (dh_store s h)" if h': "h' \<in> set hs" "pw_active (dh_store s h')" for h'
    proof
      assume eq: "pw_c (dh_store s h') = pw_c (dh_store s h)"
      have "fmlookup (activeWants s) (pw_c (dh_store s h')) = Some h'"
        by (rule D(4) [THEN iffD2]) (simp add: h')
      then have "h' = h"
        using act [OF a] eq by (metis option.inject)
      then show False
        using D(1) h' by simp
    qed
    then show ?thesis
      by (intro dh_invI) (use D(1-3) in \<open>auto simp: D(4) split: if_splits\<close>)
  qed
  show "dh_inv (s\<lparr>wantQueue := hs\<rparr>)" if "\<not> pw_active (dh_store s h)"
    by (rule dh_invI) (use D(1-3) that in \<open>auto simp: D(4)\<close>)
  show "pw_sent (dh_store s h) \<le> pw_sent (dh_store s h')" if "h' \<in> set (h # hs)"
    using that D(3) by auto
qed

text \<open>What one call of the loop does, as a relation between its input and output.\<close>

definition expires :: "int \<Rightarrow> dhtm \<Rightarrow> cid list \<Rightarrow> dhtm \<Rightarrow> bool" where
  "expires now s expired s' \<longleftrightarrow>
     dh_inv s' \<and> s' = s\<lparr>wantQueue := wantQueue s', activeWants := activeWants s'\<rparr> \<and>
     set expired = {c. \<exists>t. pending_since s c = Some t \<and> now - t \<ge> dh_timeout s} \<and> distinct expired \<and>
     (\<forall>c. pending_since s' c = (if c \<in> set expired then None else pending_since s c)) \<and>
     (wantQueue s' \<noteq> [] \<longrightarrow> pw_active (dh_store s' (hd (wantQueue s'))))"

lemma expires_active:
  assumes inv: "dh_inv (s\<lparr>wantQueue := h # hs\<rparr>)" and a: "pw_active (dh_store s h)"
    and old: "\<not> now - pw_sent (dh_store s h) < dh_timeout s"
    and e: "expires now (s\<lparr>activeWants := fmdrop (pw_c (dh_store s h)) (activeWants s)\<rparr>) expired s'"
  shows "expires now s (pw_c (dh_store s h) # expired) s'"
proof -
  let ?c = "pw_c (dh_store s h)" and ?s = "s\<lparr>activeWants := fmdrop (pw_c (dh_store s h)) (activeWants s)\<rparr>"
  have p: "pending_since ?s c = (if c = ?c then None else pending_since s c)" for c
    by (simp add: pending_since_def)
  have pc: "pending_since s ?c = Some (pw_sent (dh_store s h))"
    using dh_inv_tail(2) [OF inv a] by (simp add: pending_since_def)
  show ?thesis
    using e old unfolding expires_def p by (auto simp: pc)
qed

lemma expires_stop:
  assumes inv: "dh_inv (s\<lparr>wantQueue := h # hs\<rparr>)" and "pw_active (dh_store s h)"
    and young: "now - pw_sent (dh_store s h) < dh_timeout s"
  shows "expires now s [] (s\<lparr>wantQueue := h # hs\<rparr>)"
proof -
  have "now - t < dh_timeout s" if p: "pending_since s c = Some t" for c t
  proof -
    obtain h' where "fmlookup (activeWants s) c = Some h'" "t = pw_sent (dh_store s h')"
      using p by (auto simp: pending_since_def)
    then have "h' \<in> set (h # hs)"
      using dh_invD(4) [OF inv, of c h'] by simp
    from dh_inv_tail(4) [OF inv this] show ?thesis
      using young \<open>t = _\<close> by simp
  qed
  then show ?thesis
    using assms by (auto simp: expires_def pending_since_def not_le)
qed

lemma popExpired_expires:
  assumes "dh_inv (s\<lparr>wantQueue := hs\<rparr>)" "popExpired now hs s = (expired, s')"
  shows "expires now s expired s'"
  using assms
proof (induction now hs s arbitrary: expired s' rule: popExpired.induct)
  case (1 now s)
  then show ?case
    by (auto simp: expires_def dh_inv_def pending_since_def)
next
  case (2 now h hs s)
  let ?pw = "dh_store s h" and ?s = "s\<lparr>activeWants := fmdrop (pw_c (dh_store s h)) (activeWants s)\<rparr>"
  consider (dead) "\<not> pw_active ?pw" | (stop) "pw_active ?pw" "now - pw_sent ?pw < dh_timeout s"
    | (old) "pw_active ?pw" "\<not> now - pw_sent ?pw < dh_timeout s" by blast
  then show ?case
  proof cases
    case dead
    then show ?thesis
      using 2 dh_inv_tail(3) [OF "2.prems"(1)] by simp
  next
    case stop
    then show ?thesis
      using "2.prems" expires_stop by auto
  next
    case old
    obtain ex s1 where r: "popExpired now hs ?s = (ex, s1)"
      by fastforce
    have "expires now ?s ex s1"
      using "2.IH"(1) [OF refl old dh_inv_tail(1) [OF "2.prems"(1) old(1)] r] .
    then have "expires now s (pw_c ?pw # ex) s1"
      by (rule expires_active [OF "2.prems"(1) old])
    then show ?thesis
      using "2.prems"(2) old r by (simp add: Let_def)
  qed
qed

section \<open>Checks\<close>

definition fired :: "dh_call list \<Rightarrow> cid list" where
  "fired calls = concat (map (\<lambda>x. case x of FireTimeout ks \<Rightarrow> ks | MeasurePingLatency \<Rightarrow> []) calls)"

lemma pending_in_queue:
  assumes "dh_inv s" "pending_since s c = Some t"
  obtains h where "h \<in> set (wantQueue s)" "t = pw_sent (dh_store s h)"
  using assms dh_invD(4) by (auto simp: pending_since_def)

lemma armTimer_covers:
  assumes inv: "dh_inv s"
  shows "timer_covers (armTimer now s)"
  unfolding timer_covers_def
proof (intro allI impI, elim conjE)
  fix c t
  assume p: "pending_since (armTimer now s) c = Some t" and up: "\<not> dh_shutdown (armTimer now s)"
  have same: "pending_since (armTimer now s) = pending_since s" "dh_shutdown (armTimer now s) = dh_shutdown s"
      "dh_timeout (armTimer now s) = dh_timeout s"
    by (simp_all add: armTimer_def Let_def pending_since_def fun_eq_iff)
  obtain h where h: "h \<in> set (wantQueue s)" "t = pw_sent (dh_store s h)"
    using pending_in_queue [OF inv] p same(1) by metis
  then obtain h0 hs where q: "wantQueue s = h0 # hs"
    by (cases "wantQueue s") auto
  have "pw_sent (dh_store s h0) \<le> t"
    using dh_invD(3) [OF inv] h q by auto
  then show "\<exists>d. checkForTimeoutsTimer (armTimer now s) = Armed d \<and> d \<le> t + dh_timeout (armTimer now s)"
    using up q by (simp add: same) (simp add: armTimer_def)
qed

lemma armTimer_frame [simp]:
  "pending_since (armTimer now s) = pending_since s" "dh_shutdown (armTimer now s) = dh_shutdown s"
  "dh_timeout (armTimer now s) = dh_timeout s" "wantQueue (armTimer now s) = wantQueue s"
  "dh_store (armTimer now s) = dh_store s" "maxTimeout (armTimer now s) = maxTimeout s"
  "dh_started (armTimer now s) = dh_started s" "dh_inv (armTimer now s) = dh_inv s"
  "le_samples (messageLatency (armTimer now s)) = le_samples (messageLatency s)"
  by (simp_all add: armTimer_def Let_def pending_since_def fun_eq_iff dh_inv_def)

lemma popExpired_queue: "popExpired now hs s = (expired, s') \<Longrightarrow> set (wantQueue s') \<subseteq> set hs"
  by (induction now hs s arbitrary: expired s' rule: popExpired.induct)
    (auto simp: Let_def split: if_splits prod.splits)

text \<open>
  A check reports exactly the pending keys over the timeout, once each, forgets them, and
  leaves a timer for the others.
\<close>

lemma checkForTimeouts_spec:
  assumes inv: "dh_inv s" and r: "checkForTimeouts now s = (calls, s')"
  shows "dh_inv s'" "timer_covers s'" "distinct (fired calls)"
    "set (fired calls) = {c. \<exists>t. pending_since s c = Some t \<and> now - t \<ge> dh_timeout s}"
    "pending_since s' c = (if c \<in> set (fired calls) then None else pending_since s c)"
    "dh_timeout s' = dh_timeout s" "dh_shutdown s' = dh_shutdown s" "maxTimeout s' = maxTimeout s"
    "dh_started s' = dh_started s" "dh_store s' = dh_store s" "set (wantQueue s') \<subseteq> set (wantQueue s)"
proof -
  have "dh_inv s' \<and> timer_covers s' \<and> distinct (fired calls) \<and>
    set (fired calls) = {c. \<exists>t. pending_since s c = Some t \<and> now - t \<ge> dh_timeout s} \<and>
    (\<forall>c. pending_since s' c = (if c \<in> set (fired calls) then None else pending_since s c)) \<and>
    dh_timeout s' = dh_timeout s \<and> dh_shutdown s' = dh_shutdown s \<and> maxTimeout s' = maxTimeout s \<and>
    dh_started s' = dh_started s \<and> dh_store s' = dh_store s \<and> set (wantQueue s') \<subseteq> set (wantQueue s)"
  proof (cases "wantQueue s")
    case Nil
    then have "pending_since s c = None" for c
      using pending_in_queue [OF inv, of c] by (cases "pending_since s c") auto
    then show ?thesis
      using Nil r inv by (auto simp: checkForTimeouts_def fired_def timer_covers_def)
  next
    case (Cons h hs)
    obtain expired s1 where p: "popExpired now (wantQueue s) s = (expired, s1)"
      by fastforce
    have e: "expires now s expired s1"
      using popExpired_expires [OF _ p] inv by simp
    have s1: "s1 = s\<lparr>wantQueue := wantQueue s1, activeWants := activeWants s1\<rparr>" and inv1: "dh_inv s1"
      using e by (auto simp: expires_def)
    have frame: "dh_timeout s1 = dh_timeout s" "dh_shutdown s1 = dh_shutdown s" "maxTimeout s1 = maxTimeout s"
        "dh_started s1 = dh_started s" "dh_store s1 = dh_store s"
      by (subst s1, simp)+
    have s': "s' = armTimer now s1" and fired: "fired calls = expired"
      using r p Cons by (auto simp: checkForTimeouts_def fired_def)
    show ?thesis
      using e popExpired_queue [OF p] armTimer_covers [OF inv1]
      by (simp add: s' fired frame expires_def)
  qed
  then show "dh_inv s'" "timer_covers s'" "distinct (fired calls)"
    "set (fired calls) = {c. \<exists>t. pending_since s c = Some t \<and> now - t \<ge> dh_timeout s}"
    "pending_since s' c = (if c \<in> set (fired calls) then None else pending_since s c)"
    "dh_timeout s' = dh_timeout s" "dh_shutdown s' = dh_shutdown s" "maxTimeout s' = maxTimeout s"
    "dh_started s' = dh_started s" "dh_store s' = dh_store s" "set (wantQueue s') \<subseteq> set (wantQueue s)"
    by blast+
qed

section \<open>Adding and cancelling\<close>

definition sent_by :: "int \<Rightarrow> dhtm \<Rightarrow> bool" where
  "sent_by now s \<longleftrightarrow> (\<forall>h\<in>set (wantQueue s). pw_sent (dh_store s h) \<le> now)"

lemma active_handle: "dh_inv s \<Longrightarrow> fmlookup (activeWants s) c = Some h \<Longrightarrow> h < dh_next s"
  using dh_invD(2,4) by metis

lemma addPendingKey_spec:
  assumes inv: "dh_inv s" and by_now: "sent_by now s"
  shows "dh_inv (addPendingKey now k s)" "sent_by now (addPendingKey now k s)"
    "pending_since (addPendingKey now k s) c =
       (if c = k \<and> pending_since s c = None then Some now else pending_since s c)"
proof -
  have "dh_inv (addPendingKey now k s) \<and> sent_by now (addPendingKey now k s) \<and>
    pending_since (addPendingKey now k s) c =
       (if c = k \<and> pending_since s c = None then Some now else pending_since s c)"
  proof (cases "fmlookup (activeWants s) k")
    case None
    let ?s = "addPendingKey now k s"
    have fresh: "dh_next s \<notin> set (wantQueue s)"
      using dh_invD(2) [OF inv] by blast
    have store: "dh_store ?s h = dh_store s h" if "h \<in> set (wantQueue s)" for h
      using None fresh that by (auto simp: addPendingKey_def)
    have new: "wantQueue ?s = wantQueue s @ [dh_next s]" "dh_next ?s = Suc (dh_next s)"
        "activeWants ?s = fmupd k (dh_next s) (activeWants s)"
        "dh_store ?s = (dh_store s)(dh_next s := \<lparr>pw_c = k, pw_active = True, pw_sent = now\<rparr>)"
      using None by (simp_all add: addPendingKey_def)
    have "map (\<lambda>h. pw_sent (dh_store ?s h)) (wantQueue ?s) = map (\<lambda>h. pw_sent (dh_store s h)) (wantQueue s) @ [now]"
      using fresh by (auto simp: new)
    then have "sorted (map (\<lambda>h. pw_sent (dh_store ?s h)) (wantQueue ?s))"
      using dh_invD(3) [OF inv] by_now by (auto simp: sorted_append sent_by_def)
    moreover have "fmlookup (activeWants ?s) c = Some h \<longleftrightarrow>
        h \<in> set (wantQueue ?s) \<and> pw_active (dh_store ?s h) \<and> pw_c (dh_store ?s h) = c" for c h
      unfolding new using None fresh dh_invD(4) [OF inv, of c h] by (cases "h = dh_next s"; cases "c = k") auto
    ultimately have "dh_inv ?s"
      using dh_invD(1,2) [OF inv] fresh by (intro dh_invI) (auto simp: new less_Suc_eq)
    moreover have "pending_since ?s c = (if c = k \<and> pending_since s c = None then Some now else pending_since s c)"
    proof (cases "fmlookup (activeWants s) c")
      case (Some h)
      then have "h \<noteq> dh_next s" "c \<noteq> k"
        using active_handle [OF inv Some] None by auto
      then show ?thesis
        using Some None by (simp add: pending_since_def addPendingKey_def)
    qed (use None in \<open>auto simp: pending_since_def addPendingKey_def\<close>)
    moreover have "sent_by now ?s"
      using by_now fresh by (auto simp: sent_by_def new)
    ultimately show ?thesis
      by blast
  qed (use assms in \<open>auto simp: addPendingKey_def pending_since_def\<close>)
  then show "dh_inv (addPendingKey now k s)" "sent_by now (addPendingKey now k s)"
    "pending_since (addPendingKey now k s) c =
       (if c = k \<and> pending_since s c = None then Some now else pending_since s c)"
    by blast+
qed

lemma addPending_frame [simp]:
  "dh_timeout (addPendingKey now k s) = dh_timeout s" "dh_shutdown (addPendingKey now k s) = dh_shutdown s"
  "maxTimeout (addPendingKey now k s) = maxTimeout s" "dh_started (addPendingKey now k s) = dh_started s"
  "checkForTimeoutsTimer (addPendingKey now k s) = checkForTimeoutsTimer s"
  by (simp_all add: addPendingKey_def split: option.splits)

lemma fold_addPendingKey:
  assumes "dh_inv s" "sent_by now s"
  shows "dh_inv (fold (addPendingKey now) ks s) \<and> sent_by now (fold (addPendingKey now) ks s) \<and>
    (\<forall>c. pending_since (fold (addPendingKey now) ks s) c =
       (if c \<in> set ks \<and> pending_since s c = None then Some now else pending_since s c)) \<and>
    dh_timeout (fold (addPendingKey now) ks s) = dh_timeout s \<and>
    dh_shutdown (fold (addPendingKey now) ks s) = dh_shutdown s \<and>
    maxTimeout (fold (addPendingKey now) ks s) = maxTimeout s \<and>
    dh_started (fold (addPendingKey now) ks s) = dh_started s \<and>
    checkForTimeoutsTimer (fold (addPendingKey now) ks s) = checkForTimeoutsTimer s"
  using assms
proof (induction ks arbitrary: s)
  case (Cons k ks)
  show ?case
    using Cons.IH [OF addPendingKey_spec(1,2) [OF Cons.prems]] addPendingKey_spec(3) [OF Cons.prems]
    by (auto split: if_splits)
qed simp

lemma cancelPendingKey_spec:
  assumes inv: "dh_inv s"
  shows "dh_inv (cancelPendingKey k s)"
    "pending_since (cancelPendingKey k s) c = (if c = k then None else pending_since s c)"
proof -
  have "dh_inv (cancelPendingKey k s) \<and>
    pending_since (cancelPendingKey k s) c = (if c = k then None else pending_since s c)"
  proof (cases "fmlookup (activeWants s) k")
    case (Some h)
    let ?s = "cancelPendingKey k s"
    have h: "h \<in> set (wantQueue s)" "pw_c (dh_store s h) = k"
      using Some dh_invD(4) [OF inv] by blast+
    have s: "wantQueue ?s = wantQueue s" "activeWants ?s = fmdrop k (activeWants s)" "dh_next ?s = dh_next s"
        "dh_store ?s = (dh_store s)(h := (dh_store s h)\<lparr>pw_active := False\<rparr>)"
      using Some by (simp_all add: cancelPendingKey_def)
    have sent: "pw_sent (dh_store ?s x) = pw_sent (dh_store s x)" for x
      by (simp add: s)
    have "fmlookup (activeWants ?s) c = Some x \<longleftrightarrow>
        x \<in> set (wantQueue ?s) \<and> pw_active (dh_store ?s x) \<and> pw_c (dh_store ?s x) = c" for c x
      using Some h dh_invD(4) [OF inv, of c x] by (auto simp: s)
    then have "dh_inv ?s"
      using dh_invD(1-3) [OF inv] by (intro dh_invI) (simp_all add: sent, simp_all add: s)
    moreover have "pending_since ?s c = (if c = k then None else pending_since s c)"
      by (cases "fmlookup (activeWants s) c") (simp_all add: pending_since_def s)
    ultimately show ?thesis
      by blast
  qed (use inv in \<open>auto simp: cancelPendingKey_def pending_since_def\<close>)
  then show "dh_inv (cancelPendingKey k s)"
    "pending_since (cancelPendingKey k s) c = (if c = k then None else pending_since s c)"
    by blast+
qed

lemma cancelPendingKey_frame [simp]:
  "dh_timeout (cancelPendingKey k s) = dh_timeout s" "dh_shutdown (cancelPendingKey k s) = dh_shutdown s"
  "maxTimeout (cancelPendingKey k s) = maxTimeout s" "dh_started (cancelPendingKey k s) = dh_started s"
  "checkForTimeoutsTimer (cancelPendingKey k s) = checkForTimeoutsTimer s"
  "wantQueue (cancelPendingKey k s) = wantQueue s" "pw_sent (dh_store (cancelPendingKey k s) h) = pw_sent (dh_store s h)"
  by (simp_all add: cancelPendingKey_def split: option.splits)

lemma CancelPending_spec:
  assumes "dh_inv s"
  shows "dh_inv (CancelPending ks s) \<and>
    (\<forall>c. pending_since (CancelPending ks s) c = (if c \<in> set ks then None else pending_since s c)) \<and>
    dh_timeout (CancelPending ks s) = dh_timeout s \<and> dh_shutdown (CancelPending ks s) = dh_shutdown s \<and>
    maxTimeout (CancelPending ks s) = maxTimeout s \<and> dh_started (CancelPending ks s) = dh_started s \<and>
    checkForTimeoutsTimer (CancelPending ks s) = checkForTimeoutsTimer s \<and>
    (\<forall>now. sent_by now (CancelPending ks s) = sent_by now s)"
  using assms unfolding CancelPending_def
proof (induction ks arbitrary: s)
  case (Cons k ks)
  show ?case
    using Cons.IH [OF cancelPendingKey_spec(1) [OF Cons.prems]] cancelPendingKey_spec(2) [OF Cons.prems]
    by (auto simp: sent_by_def)
qed simp

section \<open>Runs\<close>

datatype dh_op =
    DHO_Start int
  | DHO_AddPending "cid list"
  | DHO_CancelPending "cid list"
  | DHO_UpdateMessageLatency int
  | DHO_Ping "int option"
  | DHO_Timer
  | DHO_Shutdown

fun dh_step :: "int \<Rightarrow> dh_op \<Rightarrow> dhtm \<Rightarrow> dh_call list \<times> dhtm" where
  "dh_step now (DHO_Start latency) s = dh_Start latency s"
| "dh_step now (DHO_AddPending ks) s = AddPending now ks s"
| "dh_step now (DHO_CancelPending ks) s = ([], CancelPending ks s)"
| "dh_step now (DHO_UpdateMessageLatency elapsed) s = UpdateMessageLatency now elapsed s"
| "dh_step now (DHO_Ping p) s = measurePingLatency now p s"
| "dh_step now DHO_Timer s = consumeTimeouts now s"
| "dh_step now DHO_Shutdown s = ([], dh_Shutdown s)"

text \<open>
  The states of a manager that was started first, as \<open>sendMessage\<close> does, with the time of the
  last operation.
\<close>

inductive dh_reach :: "int \<Rightarrow> dhtm \<Rightarrow> bool" where
  reach_start: "defTimeout \<le> maxT \<Longrightarrow>
     dh_reach now (snd (dh_Start latency (newDontHaveTimeoutMgrWithParams defTimeout maxT pingMult msgMult maxProc)))"
| reach_step: "dh_reach t s \<Longrightarrow> t \<le> now \<Longrightarrow> dh_reach now (snd (dh_step now x s))"

text \<open>The keys pending after an operation if nothing expired.\<close>

fun pending_spec :: "int \<Rightarrow> dh_op \<Rightarrow> (cid \<Rightarrow> int option) \<Rightarrow> cid \<Rightarrow> int option" where
  "pending_spec now (DHO_AddPending ks) P = (\<lambda>c. if c \<in> set ks \<and> P c = None then Some now else P c)"
| "pending_spec now (DHO_CancelPending ks) P = (\<lambda>c. if c \<in> set ks then None else P c)"
| "pending_spec now _ P = P"

definition dh_ok :: "int \<Rightarrow> dhtm \<Rightarrow> bool" where
  "dh_ok now s \<longleftrightarrow> dh_inv s \<and> sent_by now s \<and> dh_started s \<and> dh_timeout s \<le> maxTimeout s \<and> timer_covers s"

text \<open>What a step does: the keys it reports had expired, and it forgets exactly these.\<close>

definition step_spec :: "int \<Rightarrow> (cid \<Rightarrow> int option) \<Rightarrow> dh_call list \<Rightarrow> dhtm \<Rightarrow> bool" where
  "step_spec now P calls s' \<longleftrightarrow>
     distinct (fired calls) \<and>
     (\<forall>c\<in>set (fired calls). \<exists>t. P c = Some t \<and> now - t \<ge> dh_timeout s') \<and>
     (\<forall>c. pending_since s' c = (if c \<in> set (fired calls) then None else P c))"

lemma step_spec_quiet: "(\<And>c. pending_since s c = P c) \<Longrightarrow> step_spec now P [] s"
  by (simp add: step_spec_def fired_def)

lemma check_step:
  assumes "dh_inv s" "sent_by now s" "dh_started s" "dh_timeout s \<le> maxTimeout s"
    and r: "checkForTimeouts now s = (calls, s')"
  shows "dh_ok now s'" "step_spec now (pending_since s) calls s'"
proof -
  note C = checkForTimeouts_spec [OF assms(1) r]
  show "dh_ok now s'"
    using C(1,2,6,8,9,10,11) assms(2-4) by (auto simp: dh_ok_def sent_by_def)
  show "step_spec now (pending_since s) calls s'"
    using C(3,4,6) C(5) by (auto simp: step_spec_def)
qed

lemma timer_covers_mono:
  assumes "timer_covers s" "checkForTimeoutsTimer s' = checkForTimeoutsTimer s" "dh_shutdown s' = dh_shutdown s"
    "dh_timeout s \<le> dh_timeout s'"
    "\<And>c t. pending_since s' c = Some t \<Longrightarrow> \<exists>c' t'. pending_since s c' = Some t' \<and> t' \<le> t"
  shows "timer_covers s'"
  unfolding timer_covers_def
proof (intro allI impI, elim conjE)
  fix c t
  assume "pending_since s' c = Some t" "\<not> dh_shutdown s'"
  moreover obtain c' t' where "pending_since s c' = Some t'" "t' \<le> t"
    using assms(5) calculation(1) by blast
  ultimately show "\<exists>d. checkForTimeoutsTimer s' = Armed d \<and> d \<le> t + dh_timeout s'"
    using assms(1-4) unfolding timer_covers_def by fastforce
qed

lemma AddPending_step:
  assumes ok: "dh_ok now s" and r: "AddPending now ks s = (calls, s')"
  shows "dh_ok now s' \<and> step_spec now (pending_spec now (DHO_AddPending ks) (pending_since s)) calls s'"
proof (cases "ks = []")
  case True
  then show ?thesis
    using assms by (auto simp: AddPending_def intro: step_spec_quiet)
next
  case False
  let ?s = "fold (addPendingKey now) ks s"
  have inv: "dh_inv s" "sent_by now s"
    using ok by (simp_all add: dh_ok_def)
  note F = fold_addPendingKey [OF inv, of ks]
  have P: "pending_since ?s = pending_spec now (DHO_AddPending ks) (pending_since s)"
    using F by (auto simp: fun_eq_iff)
  show ?thesis
  proof (cases "fmdom (activeWants s) = {||}")
    case True
    then have "checkForTimeouts now ?s = (calls, s')"
      using r False by (simp add: AddPending_def)
    then show ?thesis
      using check_step [of ?s now calls s'] F ok unfolding P [symmetric] by (simp add: dh_ok_def)
  next
    case nonempty: False
    then have s': "s' = ?s" "calls = []"
      using r False by (simp_all add: AddPending_def)
    obtain c0 h0 where c0: "fmlookup (activeWants s) c0 = Some h0"
      using nonempty by (metis fmlookup_dom_iff fempty_iff fset_eqI)
    have old: "pending_since s c0 = Some (pw_sent (dh_store s h0)) \<and> pw_sent (dh_store s h0) \<le> now"
      using c0 dh_invD(4) [OF inv(1), of c0 h0] inv(2) by (simp add: pending_since_def sent_by_def)
    have "timer_covers ?s"
      by (rule timer_covers_mono [of s])
        (use F ok old in \<open>auto simp: dh_ok_def split: if_splits\<close>)
    then have "dh_ok now ?s"
      using F ok by (simp add: dh_ok_def)
    then show ?thesis
      unfolding s' P [symmetric] by (simp add: step_spec_quiet)
  qed
qed

lemma dh_frame [simp]:
  "dh_inv (s\<lparr>dh_timeout := x\<rparr>) = dh_inv s" "dh_inv (s\<lparr>messageLatency := l\<rparr>) = dh_inv s"
  "dh_inv (s\<lparr>dh_shutdown := b\<rparr>) = dh_inv s" "dh_inv (s\<lparr>checkForTimeoutsTimer := tm\<rparr>) = dh_inv s"
  "dh_inv (s\<lparr>dh_started := b\<rparr>) = dh_inv s"
  "pending_since (s\<lparr>dh_timeout := x\<rparr>) = pending_since s" "pending_since (s\<lparr>messageLatency := l\<rparr>) = pending_since s"
  "pending_since (s\<lparr>dh_shutdown := b\<rparr>) = pending_since s" "pending_since (s\<lparr>checkForTimeoutsTimer := tm\<rparr>) = pending_since s"
  "pending_since (s\<lparr>dh_started := b\<rparr>) = pending_since s"
  "sent_by t (s\<lparr>dh_timeout := x\<rparr>) = sent_by t s" "sent_by t (s\<lparr>messageLatency := l\<rparr>) = sent_by t s"
  "sent_by t (s\<lparr>dh_shutdown := b\<rparr>) = sent_by t s" "sent_by t (s\<lparr>checkForTimeoutsTimer := tm\<rparr>) = sent_by t s"
  "sent_by t (s\<lparr>dh_started := b\<rparr>) = sent_by t s"
  by (simp_all add: dh_inv_def pending_since_def sent_by_def fun_eq_iff)

lemma timeout_bounds:
  "calculateTimeoutFromPingLatency l s \<le> maxTimeout s" "calculateTimeoutFromMessageLatency s \<le> maxTimeout s"
  by (simp_all add: calculateTimeoutFromPingLatency_def calculateTimeoutFromMessageLatency_def Let_def)

lemma UpdateMessageLatency_step:
  assumes ok: "dh_ok now s" and r: "UpdateMessageLatency now elapsed s = (calls, s')"
  shows "dh_ok now s' \<and> step_spec now (pending_since s) calls s'"
proof -
  let ?s1 = "s\<lparr>messageLatency := latencyEwma_update elapsed (messageLatency s)\<rparr>"
  let ?s = "?s1\<lparr>dh_timeout := calculateTimeoutFromMessageLatency ?s1\<rparr>"
  have ok': "dh_inv ?s" "sent_by now ?s" "dh_started ?s" "dh_timeout ?s \<le> maxTimeout ?s"
    using ok timeout_bounds(2) [of ?s1] by (simp_all add: dh_ok_def)
  have P: "pending_since ?s = pending_since s"
    by simp
  show ?thesis
  proof (cases "dh_timeout ?s < dh_timeout s")
    case True
    then have "checkForTimeouts now ?s = (calls, s')"
      using r by (simp add: UpdateMessageLatency_def Let_def)
    then show ?thesis
      using check_step [OF ok'] unfolding P by blast
  next
    case False
    then have s': "s' = ?s" "calls = []"
      using r by (simp_all add: UpdateMessageLatency_def Let_def)
    have "timer_covers ?s"
      by (rule timer_covers_mono [of s]) (use ok False in \<open>auto simp: dh_ok_def\<close>)
    then show ?thesis
      using ok' unfolding s' by (auto simp: dh_ok_def intro: step_spec_quiet)
  qed
qed

lemma measurePingLatency_step:
  assumes ok: "dh_ok now s" and r: "measurePingLatency now ping s = (calls, s')"
  shows "dh_ok now s' \<and> step_spec now (pending_since s) calls s'"
proof (cases "\<exists>latency. ping = Some latency \<and> le_samples (messageLatency s) = 0")
  case True
  then obtain latency where p: "ping = Some latency" "le_samples (messageLatency s) = 0"
    by blast
  let ?s = "s\<lparr>dh_timeout := calculateTimeoutFromPingLatency latency s\<rparr>"
  have "checkForTimeouts now ?s = (calls, s')"
    using r p by (simp add: measurePingLatency_def)
  then show ?thesis
    using check_step [of ?s now calls s'] ok timeout_bounds(1) [of latency s] by (simp add: dh_ok_def)
next
  case False
  then have "s' = s" "calls = []"
    using r by (auto simp: measurePingLatency_def split: option.splits)
  then show ?thesis
    using ok by (simp add: step_spec_quiet)
qed

lemma dh_step_ok:
  assumes ok: "dh_ok now s" and r: "dh_step now x s = (calls, s')"
  shows "dh_ok now s' \<and> step_spec now (pending_spec now x (pending_since s)) calls s'"
proof (cases x)
  case (DHO_Start latency)
  then show ?thesis
    using assms by (auto simp: dh_Start_def dh_ok_def intro: step_spec_quiet)
next
  case (DHO_AddPending ks)
  then show ?thesis
    using AddPending_step [OF ok] r by simp
next
  case (DHO_CancelPending ks)
  have inv: "dh_inv s"
    using ok by (simp add: dh_ok_def)
  note C = CancelPending_spec [OF inv, of ks]
  have "timer_covers (CancelPending ks s)"
    by (rule timer_covers_mono [of s]) (use C ok in \<open>auto simp: dh_ok_def split: if_splits\<close>)
  then show ?thesis
    using C ok r DHO_CancelPending by (auto simp: dh_ok_def intro: step_spec_quiet)
next
  case (DHO_UpdateMessageLatency elapsed)
  then show ?thesis
    using UpdateMessageLatency_step [OF ok] r by simp
next
  case (DHO_Ping p)
  then show ?thesis
    using measurePingLatency_step [OF ok] r by simp
next
  case DHO_Timer
  then show ?thesis
    using check_step(1) [of s now calls s'] check_step(2) [of s now calls s'] ok r
    by (auto simp: dh_ok_def consumeTimeouts_def step_spec_quiet split: if_splits)
next
  case DHO_Shutdown
  then show ?thesis
    using assms by (cases "checkForTimeoutsTimer s = NoTimer")
      (auto simp: dh_Shutdown_def dh_ok_def timer_covers_def intro!: step_spec_quiet)
qed

lemma dh_ok_later: "dh_ok t s \<Longrightarrow> t \<le> now \<Longrightarrow> dh_ok now s"
  by (auto simp: dh_ok_def sent_by_def)

lemma dh_reach_ok: "dh_reach t s \<Longrightarrow> dh_ok t s"
proof (induction rule: dh_reach.induct)
  case (reach_start defTimeout maxT now latency pingMult msgMult maxProc)
  let ?s = "newDontHaveTimeoutMgrWithParams defTimeout maxT pingMult msgMult maxProc"
  have none: "pending_since ?s c = None" "wantQueue ?s = []" for c
    by (simp_all add: pending_since_def newDontHaveTimeoutMgrWithParams_def)
  have idle: "\<not> dh_started ?s" "dh_timeout ?s \<le> maxTimeout ?s"
    using reach_start by (simp_all add: newDontHaveTimeoutMgrWithParams_def)
  have "calculateTimeoutFromPingLatency latency (?s\<lparr>dh_started := True\<rparr>) \<le> maxTimeout ?s"
    using timeout_bounds(1) [of latency "?s\<lparr>dh_started := True\<rparr>"] by simp
  then show ?case
    using idle dh_inv_new by (auto simp: dh_Start_def dh_ok_def timer_covers_def none sent_by_def Let_def)
next
  case (reach_step t s now x)
  obtain calls s' where r: "dh_step now x s = (calls, s')"
    by fastforce
  show ?case
    using dh_step_ok [OF dh_ok_later [OF reach_step.IH reach_step.hyps(2)] r] r by simp
qed

section \<open>Properties\<close>

text \<open>
  The manager never loses track of a want. In every state a started manager reaches with a
  clock that does not go back, the queue is in order of time and agrees with the map, the
  timeout is at most the maximum, and as long as it is not shut down a timer is armed no later
  than the moment the first pending key expires.
\<close>

theorem dhtm_invariant:
  assumes "dh_reach t s"
  shows "dh_inv s \<and> dh_timeout s \<le> maxTimeout s \<and>
     (\<not> dh_shutdown s \<longrightarrow> (\<forall>c u. pending_since s c = Some u \<longrightarrow>
        (\<exists>d. checkForTimeoutsTimer s = Armed d \<and> d \<le> u + dh_timeout s)))"
  using dh_reach_ok [OF assms] by (auto simp: dh_ok_def timer_covers_def)

text \<open>
  C13. Refinement: the shared records implement a map from keys to the time they were sent.
  Every operation adds, cancels or keeps the keys as that map does, except for the keys it
  reports as timed out; each of these is reported once and was pending for at least the
  timeout, so a key that was answered or cancelled is never reported.
\<close>

theorem dhtm_refines:
  fixes x :: dh_op
  assumes "dh_reach t s" "t \<le> now"
  defines "P \<equiv> pending_spec now x (pending_since s)"
  shows "\<exists>calls s'. dh_step now x s = (calls, s') \<and> distinct (fired calls) \<and>
     (\<forall>c\<in>set (fired calls). \<exists>u. P c = Some u \<and> now - u \<ge> dh_timeout s') \<and>
     (\<forall>c. pending_since s' c = (if c \<in> set (fired calls) then None else P c))"
proof -
  obtain calls s' where r: "dh_step now x s = (calls, s')"
    by fastforce
  show ?thesis
    using dh_step_ok [OF dh_ok_later [OF dh_reach_ok [OF assms(1)] assms(2)] r] r
    by (auto simp: step_spec_def P_def)
qed

text \<open>
  The timer reports everything that is due: when it fires, the keys reported are exactly
  the pending keys over the timeout, although the loop stops at the first want that is not.
\<close>

theorem timer_reports_due:
  assumes "dh_reach t s" "t \<le> now" "\<not> dh_shutdown s"
  shows "\<exists>calls s'. consumeTimeouts now s = (calls, s') \<and> distinct (fired calls) \<and>
     set (fired calls) = {c. \<exists>u. pending_since s c = Some u \<and> now - u \<ge> dh_timeout s} \<and>
     (\<forall>c. pending_since s' c = (if c \<in> set (fired calls) then None else pending_since s c))"
proof -
  obtain calls s' where r: "checkForTimeouts now s = (calls, s')"
    by fastforce
  have "dh_inv s"
    using dh_reach_ok [OF assms(1)] by (simp add: dh_ok_def)
  from checkForTimeouts_spec(3-5) [OF this r] show ?thesis
    using r assms(3) by (simp add: consumeTimeouts_def)
qed

definition example_dhtm :: dhtm where
  "example_dhtm =
     snd (dh_step 12 (DHO_CancelPending [''a''])
       (snd (dh_step 11 (DHO_AddPending [''b''])
          (snd (dh_step 10 (DHO_AddPending [''a'']) (snd (dh_Start 3 (newDontHaveTimeoutMgrWithParams 50 70 3 2 20))))))))"

lemma example_dhtm_reach: "dh_reach 12 example_dhtm"
  unfolding example_dhtm_def
  by (rule reach_step [of 11], rule reach_step [of 10], rule reach_step [of 10], rule reach_start) simp_all

theorem dhtm_invariant_witness:
  "pending_since example_dhtm ''b'' = Some 11 \<and> checkForTimeoutsTimer example_dhtm = Armed 39 \<and>
   dh_timeout example_dhtm = 29 \<and> dh_timeout example_dhtm \<le> maxTimeout example_dhtm"
proof -
  have "pending_since example_dhtm ''b'' = Some 11 \<and> checkForTimeoutsTimer example_dhtm = Armed 39 \<and>
      dh_timeout example_dhtm = 29"
    by code_simp
  then show ?thesis
    using dhtm_invariant [OF example_dhtm_reach] by simp
qed

theorem dhtm_refines_witness:
  "\<exists>calls s'. dh_step 15 (DHO_CancelPending [''b'']) example_dhtm = (calls, s') \<and> pending_since s' ''b'' = None"
  using dhtm_refines [OF example_dhtm_reach, of 15 "DHO_CancelPending [''b'']"] by fastforce

theorem timer_reports_due_witness:
  "\<exists>calls s'. consumeTimeouts 40 example_dhtm = (calls, s') \<and> ''b'' \<in> set (fired calls) \<and> ''a'' \<notin> set (fired calls)"
proof -
  have "\<not> dh_shutdown example_dhtm" "pending_since example_dhtm ''b'' = Some 11" "dh_timeout example_dhtm = 29"
      "pending_since example_dhtm ''a'' = None"
    by code_simp+
  then show ?thesis
    using timer_reports_due [OF example_dhtm_reach, of 40] by force
qed

end
