(* ===== verification/Connect_Events.thy ===== *)
theory Connect_Events
  imports Go_Prelude
begin

text \<open>
  The connect event manager of \<open>network/connecteventmanager.go\<close>: connections and disconnections
  come in from any goroutine, one worker tells the listeners.

  The manager's own operations hold its lock and are functions on its state. The worker gives
  up the lock while it calls the listeners, and \<open>OnMessage\<close> looks at the state under a read
  lock before it takes the write lock: the system is a step relation in which these are
  separate steps, so that any other operation may come between.
\<close>

section \<open>State and operations\<close>

datatype conn_state = stateDisconnected | stateResponsive | stateUnresponsive

record peerState =
  newState :: conn_state
  curState :: conn_state
  ps_pending :: bool

record cem =
  ce_peers :: "(peer, peerState) fmap"
  changeQueue :: "peer list"
  ce_stop :: bool

definition newConnectEventManager :: cem where
  "newConnectEventManager = \<lparr>ce_peers = fmempty, changeQueue = [], ce_stop = False\<rparr>"

definition ce_Stop :: "cem \<Rightarrow> cem" where
  "ce_Stop c = c\<lparr>ce_stop := True\<rparr>"

definition getState :: "peer \<Rightarrow> cem \<Rightarrow> conn_state" where
  "getState p c = (case fmlookup (ce_peers c) p of Some st \<Rightarrow> newState st | None \<Rightarrow> stateDisconnected)"

definition setState :: "peer \<Rightarrow> conn_state \<Rightarrow> cem \<Rightarrow> cem" where
  "setState p ns c =
     (let st = (case fmlookup (ce_peers c) p of
                  Some st \<Rightarrow> st
                | None \<Rightarrow> \<lparr>newState = stateDisconnected, curState = stateDisconnected, ps_pending = False\<rparr>);
          st1 = st\<lparr>newState := ns\<rparr>
      in if \<not> ps_pending st1 \<and> newState st1 \<noteq> curState st1
         then c\<lparr>ce_peers := fmupd p (st1\<lparr>ps_pending := True\<rparr>) (ce_peers c), changeQueue := changeQueue c @ [p]\<rparr>
         else c\<lparr>ce_peers := fmupd p st1 (ce_peers c)\<rparr>)"

definition ce_Connected :: "peer \<Rightarrow> cem \<Rightarrow> cem" where
  "ce_Connected p c = (if getState p c = stateResponsive then c else setState p stateResponsive c)"

definition ce_Disconnected :: "peer \<Rightarrow> cem \<Rightarrow> cem" where
  "ce_Disconnected p c = (if getState p c = stateDisconnected then c else setState p stateDisconnected c)"

definition MarkUnresponsive :: "peer \<Rightarrow> cem \<Rightarrow> cem" where
  "MarkUnresponsive p c = (if getState p c \<noteq> stateResponsive then c else setState p stateUnresponsive c)"

text \<open>The two critical sections of \<open>OnMessage\<close>.\<close>

definition OnMessage_check :: "peer \<Rightarrow> cem \<Rightarrow> bool" where
  "OnMessage_check p c \<longleftrightarrow> getState p c = stateUnresponsive"

definition OnMessage_act :: "peer \<Rightarrow> cem \<Rightarrow> cem" where
  "OnMessage_act p c = (if getState p c \<noteq> stateUnresponsive then c else setState p stateResponsive c)"

definition waitChange :: "cem \<Rightarrow> bool" where
  "waitChange c \<longleftrightarrow> \<not> ce_stop c \<and> length (changeQueue c) \<noteq> 0"

text \<open>
  One round of the worker up to the point where it calls the listeners: the peer to announce
  and whether it is connected, if there is anything to announce.
\<close>

definition takeChange :: "cem \<Rightarrow> (peer \<times> bool) option \<times> cem" where
  "takeChange c =
     (case changeQueue c of
        [] \<Rightarrow> (None, c)
      | pid # q \<Rightarrow>
          let c1 = c\<lparr>changeQueue := q\<rparr>
          in case fmlookup (ce_peers c1) pid of
               None \<Rightarrow> (None, c1)
             | Some st \<Rightarrow>
                 let st1 = st\<lparr>ps_pending := False\<rparr>
                 in if curState st1 = newState st1 then (None, c1\<lparr>ce_peers := fmupd pid st1 (ce_peers c1)\<rparr>)
                    else
                      let oldState = curState st1;
                          st2 = st1\<lparr>curState := newState st1\<rparr>;
                          gone = (if oldState = stateResponsive then Some (pid, False) else None)
                      in case newState st2 of
                           stateDisconnected \<Rightarrow> (gone, c1\<lparr>ce_peers := fmdrop pid (ce_peers c1)\<rparr>)
                         | stateUnresponsive \<Rightarrow> (gone, c1\<lparr>ce_peers := fmupd pid st2 (ce_peers c1)\<rparr>)
                         | stateResponsive \<Rightarrow> (Some (pid, True), c1\<lparr>ce_peers := fmupd pid st2 (ce_peers c1)\<rparr>))"

section \<open>The system\<close>

text \<open>
  \<open>calls\<close> are the listener calls the worker has still to make in this round, \<open>onmsg\<close> the peers
  of the goroutines between the two critical sections of \<open>OnMessage\<close>, \<open>ce_log\<close> the calls the
  listeners have received, each with the listener, the peer, and true for \<open>PeerConnected\<close>.
\<close>

type_synonym conn_call = "nat \<times> peer \<times> bool"

record ce_sys =
  mgr :: cem
  calls :: "conn_call list"
  onmsg :: "peer list"
  ce_log :: "conn_call list"

definition ce_init :: ce_sys where
  "ce_init = \<lparr>mgr = newConnectEventManager, calls = [], onmsg = [], ce_log = []\<rparr>"

definition listener_calls :: "nat \<Rightarrow> (peer \<times> bool) option \<Rightarrow> conn_call list" where
  "listener_calls n ev = (case ev of None \<Rightarrow> [] | Some (p, b) \<Rightarrow> map (\<lambda>l. (l, p, b)) [0..<n])"

text \<open>The steps of the worker, with \<open>n\<close> listeners.\<close>

inductive worker_step :: "nat \<Rightarrow> ce_sys \<Rightarrow> ce_sys \<Rightarrow> bool" for n where
  take: "calls s = [] \<Longrightarrow> waitChange (mgr s) \<Longrightarrow> takeChange (mgr s) = (ev, c) \<Longrightarrow>
     worker_step n s (s\<lparr>mgr := c, calls := listener_calls n ev\<rparr>)"
| call: "calls s = e # es \<Longrightarrow> worker_step n s (s\<lparr>calls := es, ce_log := ce_log s @ [e]\<rparr>)"

inductive ce_step :: "nat \<Rightarrow> ce_sys \<Rightarrow> ce_sys \<Rightarrow> bool" for n where
  connected: "ce_step n s (s\<lparr>mgr := ce_Connected p (mgr s)\<rparr>)"
| disconnected: "ce_step n s (s\<lparr>mgr := ce_Disconnected p (mgr s)\<rparr>)"
| unresponsive: "ce_step n s (s\<lparr>mgr := MarkUnresponsive p (mgr s)\<rparr>)"
| check: "OnMessage_check p (mgr s) \<Longrightarrow> ce_step n s (s\<lparr>onmsg := onmsg s @ [p]\<rparr>)"
| act: "p \<in> set (onmsg s) \<Longrightarrow> ce_step n s (s\<lparr>mgr := OnMessage_act p (mgr s), onmsg := remove1 p (onmsg s)\<rparr>)"
| stop: "ce_step n s (s\<lparr>mgr := ce_Stop (mgr s)\<rparr>)"
| worker: "worker_step n s s' \<Longrightarrow> ce_step n s s'"

inductive ce_reach :: "nat \<Rightarrow> ce_sys \<Rightarrow> bool" for n where
  init: "ce_reach n ce_init"
| step: "ce_reach n s \<Longrightarrow> ce_step n s s' \<Longrightarrow> ce_reach n s'"


section \<open>Invariant of the manager\<close>

text \<open>The queue holds exactly the tracked peers with a pending change, once each.\<close>

definition cem_inv :: "cem \<Rightarrow> bool" where
  "cem_inv c \<longleftrightarrow>
     distinct (changeQueue c) \<and>
     (\<forall>p. p \<in> set (changeQueue c) \<longleftrightarrow> (\<exists>st. fmlookup (ce_peers c) p = Some st \<and> ps_pending st)) \<and>
     (\<forall>p st. fmlookup (ce_peers c) p = Some st \<longrightarrow> \<not> ps_pending st \<longrightarrow> newState st = curState st)"

definition announced :: "peer \<Rightarrow> cem \<Rightarrow> conn_state" where
  "announced p c = (case fmlookup (ce_peers c) p of Some st \<Rightarrow> curState st | None \<Rightarrow> stateDisconnected)"

lemma setState_effect:
  assumes inv: "cem_inv c"
  shows "cem_inv (setState p ns c)" "announced q (setState p ns c) = announced q c"
    "getState q (setState p ns c) = (if q = p then ns else getState q c)" "ce_stop (setState p ns c) = ce_stop c"
proof -
  show "cem_inv (setState p ns c)"
  proof (cases "fmlookup (ce_peers c) p")
    case None
    then have "p \<notin> set (changeQueue c)"
      using inv by (auto simp: cem_inv_def)
    then show ?thesis
      using inv None unfolding cem_inv_def setState_def by (cases ns) (auto split: if_splits)
  next
    case (Some st)
    then show ?thesis
      using inv unfolding cem_inv_def setState_def
      by (cases "ps_pending st"; cases "ns = curState st") (auto simp: Let_def split: if_splits)
  qed
qed (auto simp: setState_def announced_def getState_def Let_def split: option.splits)

lemma cem_inv_dequeue:
  assumes inv: "cem_inv c" and q: "changeQueue c = pid # qs"
    and other: "\<And>p. p \<noteq> pid \<Longrightarrow> fmlookup P p = fmlookup (ce_peers c) p"
    and idle: "\<And>st. fmlookup P pid = Some st \<Longrightarrow> \<not> ps_pending st \<and> newState st = curState st"
  shows "cem_inv (c\<lparr>changeQueue := qs, ce_peers := P\<rparr>)"
proof -
  have d: "distinct qs" "pid \<notin> set qs"
    using inv q by (auto simp: cem_inv_def)
  have "p \<in> set qs \<longleftrightarrow> (\<exists>st. fmlookup P p = Some st \<and> ps_pending st)" for p
  proof (cases "p = pid")
    case True
    then show ?thesis
      using d(2) idle by auto
  next
    case False
    have "p \<in> set (changeQueue c) \<longleftrightarrow> (\<exists>st. fmlookup (ce_peers c) p = Some st \<and> ps_pending st)"
      using inv unfolding cem_inv_def by blast
    then show ?thesis
      using False q other by simp
  qed
  moreover have "newState st = curState st" if "fmlookup P p = Some st" "\<not> ps_pending st" for p st
    using inv other idle that unfolding cem_inv_def by metis
  ultimately show ?thesis
    using d(1) by (simp add: cem_inv_def)
qed

lemma takeChange_effect:
  assumes inv: "cem_inv c" and q: "changeQueue c = pid # qs" and r: "takeChange c = (ev, c')"
  shows "cem_inv c'" "changeQueue c' = qs" "getState p c' = getState p c" "ce_stop c' = ce_stop c"
    "announced p c' = (if p = pid then getState p c else announced p c)"
    "ev = (if (announced pid c = stateResponsive) = (getState pid c = stateResponsive) then None
           else Some (pid, getState pid c = stateResponsive))"
proof -
  obtain st where st: "fmlookup (ce_peers c) pid = Some st" "ps_pending st"
    using inv q unfolding cem_inv_def by (metis list.set_intros(1))
  note defs = takeChange_def q st Let_def
  show "cem_inv c'"
    using r by (cases "newState st"; cases "curState st") (auto simp: defs intro!: cem_inv_dequeue [OF inv q])
  show "changeQueue c' = qs" "ce_stop c' = ce_stop c"
    using r by (cases "newState st"; cases "curState st"; simp add: defs; auto)+
  show "getState p c' = getState p c" "announced p c' = (if p = pid then getState p c else announced p c)"
    using r st by (cases "newState st"; cases "curState st"; auto simp: defs getState_def announced_def)+
  show "ev = (if (announced pid c = stateResponsive) = (getState pid c = stateResponsive) then None
           else Some (pid, getState pid c = stateResponsive))"
    using r by (cases "newState st"; cases "curState st") (auto simp: defs getState_def announced_def)
qed

section \<open>What a listener hears\<close>

definition heard :: "nat \<Rightarrow> peer \<Rightarrow> conn_call list \<Rightarrow> bool list" where
  "heard l p cs = map (\<lambda>(_, _, b). b) (filter (\<lambda>(l', p', _). l' = l \<and> p' = p) cs)"

text \<open>
  The state a listener believes in after some announcements, or \<open>None\<close> if it was told of a
  connection twice in a row, or of a disconnection of a peer that was not connected.
\<close>

fun believes :: "bool \<Rightarrow> bool list \<Rightarrow> bool option" where
  "believes b [] = Some b"
| "believes b (e # es) = (if e = b then None else believes e es)"

lemma believes_append: "believes b (xs @ ys) = (case believes b xs of None \<Rightarrow> None | Some b' \<Rightarrow> believes b' ys)"
  by (induction xs arbitrary: b) auto

lemma heard_append: "heard l p (xs @ ys) = heard l p xs @ heard l p ys"
  by (simp add: heard_def)

lemma heard_listener_calls:
  "heard l p (listener_calls n ev) = (case ev of Some (q, b) \<Rightarrow> if l < n \<and> q = p then [b] else [] | None \<Rightarrow> [])"
proof -
  have "heard l p (map (\<lambda>l. (l, q, b)) [0..<n]) = (if l < n \<and> q = p then [b] else [])" for q b
    by (induction n) (auto simp: heard_def less_Suc_eq)
  then show ?thesis
    by (auto simp: listener_calls_def heard_def split: option.splits)
qed

definition ce_inv :: "nat \<Rightarrow> ce_sys \<Rightarrow> bool" where
  "ce_inv n s \<longleftrightarrow> cem_inv (mgr s) \<and>
     (\<forall>l<n. \<forall>p. believes False (heard l p (ce_log s @ calls s)) = Some (announced p (mgr s) = stateResponsive))"

lemma ops_effect:
  assumes "cem_inv c"
  shows "cem_inv (ce_Connected p c)" "announced q (ce_Connected p c) = announced q c"
    "cem_inv (ce_Disconnected p c)" "announced q (ce_Disconnected p c) = announced q c"
    "cem_inv (MarkUnresponsive p c)" "announced q (MarkUnresponsive p c) = announced q c"
    "cem_inv (OnMessage_act p c)" "announced q (OnMessage_act p c) = announced q c"
    "cem_inv (ce_Stop c)" "announced q (ce_Stop c) = announced q c"
  using assms setState_effect [OF assms]
  by (simp_all add: ce_Connected_def ce_Disconnected_def MarkUnresponsive_def OnMessage_act_def ce_Stop_def)
    (simp_all add: cem_inv_def announced_def)

lemma worker_inv:
  assumes "worker_step n s s'" "ce_inv n s"
  shows "ce_inv n s'"
  using assms(1)
proof cases
  case (take ev c)
  then obtain pid qs where q: "changeQueue (mgr s) = pid # qs"
    by (cases "changeQueue (mgr s)") (auto simp: waitChange_def)
  have inv: "cem_inv (mgr s)"
    using assms(2) by (simp add: ce_inv_def)
  note T = takeChange_effect [OF inv q take(4)]
  have "believes False (heard l p (ce_log s @ listener_calls n ev)) = Some (announced p c = stateResponsive)"
    if l: "l < n" for l p
  proof -
    have "believes False (heard l p (ce_log s)) = Some (announced p (mgr s) = stateResponsive)"
      using assms(2) l take(2) by (simp add: ce_inv_def)
    then show ?thesis
      using l by (auto simp: heard_append believes_append heard_listener_calls T(5,6))
  qed
  then show ?thesis
    using T(1) take(1) by (simp add: ce_inv_def)
next
  case (call e es)
  then show ?thesis
    using assms(2) by (simp add: ce_inv_def)
qed

lemma ce_step_inv:
  assumes "ce_step n s s'" "ce_inv n s"
  shows "ce_inv n s'"
  using assms(1)
proof cases
  case worker
  then show ?thesis
    using worker_inv assms(2) by blast
qed (use assms(2) ops_effect in \<open>simp_all add: ce_inv_def\<close>)

lemma ce_reach_inv: "ce_reach n s \<Longrightarrow> ce_inv n s"
proof (induction rule: ce_reach.induct)
  case init
  show ?case
    by (simp add: ce_inv_def ce_init_def newConnectEventManager_def cem_inv_def announced_def heard_def)
next
  case (step s s')
  then show ?case
    using ce_step_inv by blast
qed

section \<open>Progress of the worker\<close>

definition work_left :: "nat \<Rightarrow> ce_sys \<Rightarrow> nat" where
  "work_left n s = length (changeQueue (mgr s)) * Suc n + length (calls s)"

lemma length_listener_calls: "length (listener_calls n ev) \<le> n"
  by (auto simp: listener_calls_def split: option.splits)

lemma worker_effect:
  assumes "worker_step n s s'" "cem_inv (mgr s)"
  shows "work_left n s' < work_left n s \<and> ce_stop (mgr s') = ce_stop (mgr s) \<and> cem_inv (mgr s') \<and>
    (\<forall>p. getState p (mgr s') = getState p (mgr s))"
  using assms(1)
proof cases
  case (take ev c)
  then obtain pid qs where q: "changeQueue (mgr s) = pid # qs"
    by (cases "changeQueue (mgr s)") (auto simp: waitChange_def)
  note T = takeChange_effect [OF assms(2) q take(4)]
  have "length (listener_calls n ev) < Suc n"
    using length_listener_calls [of n ev] by simp
  then show ?thesis
    using take T q by (simp add: work_left_def)
next
  case (call e es)
  then show ?thesis
    using assms(2) by (simp add: work_left_def)
qed

lemma worker_progress:
  assumes "\<not> ce_stop (mgr s)" "work_left n s > 0"
  shows "\<exists>s'. worker_step n s s'"
proof (cases "calls s")
  case Nil
  then have "waitChange (mgr s)"
    using assms by (auto simp: waitChange_def work_left_def)
  then show ?thesis
    using worker_step.take [OF Nil] by (metis prod.collapse)
next
  case (Cons e es)
  then show ?thesis
    using worker_step.call by blast
qed

lemma worker_drains:
  assumes "cem_inv (mgr s)" "\<not> ce_stop (mgr s)"
  shows "\<exists>k s'. k \<le> work_left n s \<and> (worker_step n ^^ k) s s' \<and> work_left n s' = 0 \<and>
    (\<forall>p. getState p (mgr s') = getState p (mgr s))"
  using assms
proof (induction "work_left n s" arbitrary: s rule: less_induct)
  case less
  show ?case
  proof (cases "work_left n s = 0")
    case True
    then show ?thesis
      by (intro exI [of _ 0] exI [of _ s]) simp
  next
    case False
    then obtain s1 where s1: "worker_step n s s1"
      using worker_progress less.prems(2) by blast
    note W = worker_effect [OF s1 less.prems(1)]
    obtain k s' where "k \<le> work_left n s1" "(worker_step n ^^ k) s1 s'" "work_left n s' = 0"
        "\<forall>p. getState p (mgr s') = getState p (mgr s1)"
      using less.hyps [of s1] W less.prems(2) by auto
    moreover from this have "(worker_step n ^^ Suc k) s s'"
      using s1 relpowp_Suc_I2 by metis
    ultimately show ?thesis
      using W by (metis Suc_leI le_less_trans)
  qed
qed

lemma ce_reach_worker: "(worker_step n ^^ k) s s' \<Longrightarrow> ce_reach n s \<Longrightarrow> ce_reach n s'"
proof (induction k arbitrary: s')
  case (Suc k)
  then obtain s1 where "(worker_step n ^^ k) s s1" "worker_step n s1 s'"
    by auto
  then show ?case
    using Suc.IH Suc.prems(2) ce_reach.step ce_step.worker by blast
qed simp

section \<open>Properties\<close>

text \<open>
  C20. Listeners hear a consistent story. Whatever goroutines interleave with the worker, each
  listener is told of each peer alternately that it connected and that it disconnected,
  starting with a connection; a change is queued only for a tracked peer and once, so the
  error the worker logs for an untracked peer cannot happen; and when there is nothing left
  to do the last thing a listener heard is whether the peer is responsive.
\<close>

theorem connect_events_consistent:
  assumes "ce_reach n s"
  shows "(\<forall>l p. l < n \<longrightarrow> believes False (heard l p (ce_log s)) \<noteq> None) \<and>
    distinct (changeQueue (mgr s)) \<and> (\<forall>p\<in>set (changeQueue (mgr s)). fmlookup (ce_peers (mgr s)) p \<noteq> None) \<and>
    (changeQueue (mgr s) = [] \<longrightarrow> calls s = [] \<longrightarrow>
       (\<forall>l p. l < n \<longrightarrow> believes False (heard l p (ce_log s)) = Some (getState p (mgr s) = stateResponsive)))"
proof -
  have inv: "cem_inv (mgr s)"
      "believes False (heard l p (ce_log s @ calls s)) = Some (announced p (mgr s) = stateResponsive)" if "l < n" for l p
    using ce_reach_inv [OF assms] that by (simp_all add: ce_inv_def)
  have c: "cem_inv (mgr s)"
    using ce_reach_inv [OF assms] by (simp add: ce_inv_def)
  have "believes False (heard l p (ce_log s)) \<noteq> None" if "l < n" for l p
    using inv(2) [OF that, of p] by (auto simp: heard_append believes_append split: option.splits)
  moreover have "announced p (mgr s) = getState p (mgr s)" if "changeQueue (mgr s) = []" for p
    using c that by (auto simp: cem_inv_def announced_def getState_def split: option.splits)
  moreover have "\<forall>p\<in>set (changeQueue (mgr s)). fmlookup (ce_peers (mgr s)) p \<noteq> None"
    using c by (auto simp: cem_inv_def)
  ultimately show ?thesis
    using inv(2) c by (auto simp: cem_inv_def)
qed

text \<open>
  C14. Listeners learn of every lasting change. From any reachable state of a manager that is
  not stopped, the worker alone, in a bounded number of steps, empties its queue; then every
  listener believes of every peer exactly what the manager's state says. And whatever order
  the worker's steps come in, each of them reduces the work left, so it cannot run forever.
\<close>

theorem connect_events_delivered:
  assumes "ce_reach n s" "\<not> ce_stop (mgr s)"
  shows "(\<forall>s'. worker_step n s s' \<longrightarrow> work_left n s' < work_left n s) \<and>
    (\<exists>k s'. k \<le> work_left n s \<and> (worker_step n ^^ k) s s' \<and> changeQueue (mgr s') = [] \<and> calls s' = [] \<and>
      (\<forall>l p. l < n \<longrightarrow> believes False (heard l p (ce_log s')) = Some (getState p (mgr s) = stateResponsive)))"
proof -
  have inv: "cem_inv (mgr s)"
    using ce_reach_inv [OF assms(1)] by (simp add: ce_inv_def)
  obtain k s' where k: "k \<le> work_left n s" "(worker_step n ^^ k) s s'" "work_left n s' = 0"
      "\<forall>p. getState p (mgr s') = getState p (mgr s)"
    using worker_drains [OF inv assms(2)] by blast
  have idle: "changeQueue (mgr s') = []" "calls s' = []"
    using k(3) by (auto simp: work_left_def)
  have inv': "ce_inv n s'"
    using ce_reach_inv [OF ce_reach_worker [OF k(2) assms(1)]] .
  have "announced p (mgr s') = getState p (mgr s')" for p
    using inv' idle(1) by (auto simp: ce_inv_def cem_inv_def announced_def getState_def split: option.splits)
  then have "\<forall>l p. l < n \<longrightarrow> believes False (heard l p (ce_log s')) = Some (getState p (mgr s) = stateResponsive)"
    using inv' idle(2) k(4) by (simp add: ce_inv_def)
  then show ?thesis
    using k idle worker_effect [OF _ inv] by blast
qed

text \<open>
  A peer that connects and disconnects before the worker runs is never forgotten: the worker
  finds nothing to announce and leaves its record in the map, disconnected and idle.
\<close>

theorem peerState_leak:
  "takeChange (ce_Disconnected ''p'' (ce_Connected ''p'' newConnectEventManager)) =
     (None, \<lparr>ce_peers = fmap_of_list
        [(''p'', \<lparr>newState = stateDisconnected, curState = stateDisconnected, ps_pending = False\<rparr>)],
      changeQueue = [], ce_stop = False\<rparr>)"
proof -
  have "fmupd p st (fmupd p st' fmempty) = fmap_of_list [(p, st)]" for p :: peer and st st' :: peerState
    by (rule fmap_eqI) simp
  then show ?thesis
    by (simp add: takeChange_def ce_Disconnected_def ce_Connected_def setState_def getState_def newConnectEventManager_def
        fmap_of_list.rep_eq)
qed

definition example_ce :: ce_sys where
  "example_ce = ce_init\<lparr>mgr := ce_Connected ''p'' newConnectEventManager\<rparr>"

lemma example_ce_reach: "ce_reach n example_ce"
proof -
  have "ce_step n ce_init (ce_init\<lparr>mgr := ce_Connected ''p'' (mgr ce_init)\<rparr>)"
    by (rule ce_step.connected)
  then show ?thesis
    using ce_reach.step [OF ce_reach.init] by (simp add: example_ce_def ce_init_def)
qed

lemma example_ce_state: "getState ''p'' (mgr example_ce) = stateResponsive" "\<not> ce_stop (mgr example_ce)"
  by (simp_all add: example_ce_def ce_Connected_def setState_def getState_def newConnectEventManager_def)

theorem connect_events_consistent_witness:
  "changeQueue (mgr example_ce) = [''p''] \<and> fmlookup (ce_peers (mgr example_ce)) ''p'' \<noteq> None"
proof -
  have "changeQueue (mgr example_ce) = [''p'']"
    by (simp add: example_ce_def ce_Connected_def setState_def getState_def newConnectEventManager_def)
  then show ?thesis
    using connect_events_consistent [OF example_ce_reach, of 1] by simp
qed

theorem connect_events_delivered_witness:
  "\<exists>k s'. (worker_step 2 ^^ k) example_ce s' \<and> believes False (heard 1 ''p'' (ce_log s')) = Some True"
  using connect_events_delivered [OF example_ce_reach example_ce_state(2), of 2] example_ce_state(1)
  by (metis one_less_numeral_iff semiring_norm(76))

end
