(* ===== verification/Provider_Query.thy ===== *)
theory Provider_Query
  imports Go_Prelude
begin

text \<open>
  The provider query manager (\<open>client/internal/providerquerymanager/providerquerymanager.go\<close>): it
  runs one search for the providers of a key on behalf of all sessions that ask for it, at most
  six searches at a time.

  The state holds the statuses of the run loop, the channel of its messages, the buffer of
  searches that wait for a worker, the searches the workers run, and the listeners: one channel
  per call of \<open>FindProvidersAsync\<close> with the goroutine of \<open>receiveProviders\<close> behind it, which
  takes everything sent to it at once. A search is named by a number, which stands for its
  context. Closing a closed channel or sending on one is a panic in Go: \<open>pq_panic\<close> records it.
\<close>

section \<open>State\<close>

definition maxInProcessRequests :: nat where
  "maxInProcessRequests = 6"

record inProgressRequestStatus =
  st_ctx :: nat
  providersSoFar :: "peer list"
  st_listeners :: "nat fset"

record findProviderRequest =
  fpr_k :: cid
  fpr_ctx :: nat

datatype providerQueryMessage =
    receivedProviderMessage nat cid peer
  | finishedProviderQueryMessage nat cid
  | newProvideQueryMessage cid
  | cancelRequestMessage nat cid

text \<open>
  A listener: what \<open>receiveProviders\<close> has received, how much of it the caller took, whether the
  run loop closed the channel, whether the caller's context has ended.
\<close>

record listener =
  li_k :: cid
  receivedProviders :: "peer list"
  li_taken :: nat
  li_closed :: bool
  li_done :: bool

record pqm =
  inProgressRequestStatuses :: "(cid, inProgressRequestStatus) fmap"
  providerQueryMessages :: "providerQueryMessage list"
  requestBuffer :: "findProviderRequest list"
  pq_working :: "findProviderRequest list"
  pq_listeners :: "(nat, listener) fmap"
  pq_cancelled :: "nat fset"
  pq_nextCtx :: nat
  pq_nextListener :: nat
  pq_panic :: bool

definition pqm_New :: pqm where
  "pqm_New = \<lparr>inProgressRequestStatuses = fmempty, providerQueryMessages = [], requestBuffer = [], pq_working = [],
     pq_listeners = fmempty, pq_cancelled = {||}, pq_nextCtx = 0, pq_nextListener = 0, pq_panic = False\<rparr>"

section \<open>Channels\<close>

definition closeListener :: "nat \<Rightarrow> pqm \<Rightarrow> pqm" where
  "closeListener l s =
     (case fmlookup (pq_listeners s) l of
        None \<Rightarrow> s\<lparr>pq_panic := True\<rparr>
      | Some li \<Rightarrow>
          if li_closed li then s\<lparr>pq_panic := True\<rparr>
          else s\<lparr>pq_listeners := fmupd l (li\<lparr>li_closed := True\<rparr>) (pq_listeners s)\<rparr>)"

text \<open>After the end of its context a listener only drains what is sent to it.\<close>

definition sendListener :: "peer \<Rightarrow> nat \<Rightarrow> pqm \<Rightarrow> pqm" where
  "sendListener p l s =
     (case fmlookup (pq_listeners s) l of
        None \<Rightarrow> s\<lparr>pq_panic := True\<rparr>
      | Some li \<Rightarrow>
          if li_closed li then s\<lparr>pq_panic := True\<rparr>
          else if li_done li then s
          else s\<lparr>pq_listeners := fmupd l (li\<lparr>receivedProviders := receivedProviders li @ [p]\<rparr>) (pq_listeners s)\<rparr>)"

definition enqueueMsg :: "providerQueryMessage \<Rightarrow> pqm \<Rightarrow> pqm" where
  "enqueueMsg m s = s\<lparr>providerQueryMessages := providerQueryMessages s @ [m]\<rparr>"

section \<open>Handling of messages\<close>

definition handle_received :: "nat order \<Rightarrow> cid \<Rightarrow> peer \<Rightarrow> pqm \<Rightarrow> pqm" where
  "handle_received ord k p s =
     (case fmlookup (inProgressRequestStatuses s) k of
        None \<Rightarrow> s
      | Some st \<Rightarrow>
          let s1 = s\<lparr>inProgressRequestStatuses :=
                fmupd k (st\<lparr>providersSoFar := providersSoFar st @ [p]\<rparr>) (inProgressRequestStatuses s)\<rparr>
          in fold (sendListener p) (ord (st_listeners st)) s1)"

definition handle_finished :: "nat order \<Rightarrow> cid \<Rightarrow> pqm \<Rightarrow> pqm" where
  "handle_finished ord k s =
     (case fmlookup (inProgressRequestStatuses s) k of
        None \<Rightarrow> s
      | Some st \<Rightarrow>
          let s1 = fold closeListener (ord (st_listeners st)) s
          in s1\<lparr>inProgressRequestStatuses := fmdrop k (inProgressRequestStatuses s1),
                pq_cancelled := finsert (st_ctx st) (pq_cancelled s1)\<rparr>)"

definition handle_new :: "cid \<Rightarrow> pqm \<Rightarrow> pqm" where
  "handle_new k s =
     (let (st, s1) =
        (case fmlookup (inProgressRequestStatuses s) k of
           Some st \<Rightarrow> (st, s)
         | None \<Rightarrow>
             let ctx = pq_nextCtx s; st = \<lparr>st_ctx = ctx, providersSoFar = [], st_listeners = {||}\<rparr>
             in (st, s\<lparr>inProgressRequestStatuses := fmupd k st (inProgressRequestStatuses s), pq_nextCtx := Suc ctx,
                       requestBuffer := requestBuffer s @ [\<lparr>fpr_k = k, fpr_ctx = ctx\<rparr>]\<rparr>));
          inProgressChan = pq_nextListener s1;
          li = \<lparr>li_k = k, receivedProviders = providersSoFar st, li_taken = 0, li_closed = False, li_done = False\<rparr>
      in s1\<lparr>inProgressRequestStatuses :=
              fmupd k (st\<lparr>st_listeners := finsert inProgressChan (st_listeners st)\<rparr>) (inProgressRequestStatuses s1),
            pq_listeners := fmupd inProgressChan li (pq_listeners s1), pq_nextListener := Suc inProgressChan\<rparr>)"

definition handle_cancel :: "nat \<Rightarrow> cid \<Rightarrow> pqm \<Rightarrow> pqm" where
  "handle_cancel l k s =
     (case fmlookup (inProgressRequestStatuses s) k of
        None \<Rightarrow> s
      | Some st \<Rightarrow>
          if l |\<notin>| st_listeners st then s
          else
            let st1 = st\<lparr>st_listeners := st_listeners st |-| {|l|}\<rparr>;
                s1 = closeListener l (s\<lparr>inProgressRequestStatuses := fmupd k st1 (inProgressRequestStatuses s)\<rparr>)
            in if fcard (st_listeners st1) = 0
               then s1\<lparr>inProgressRequestStatuses := fmdrop k (inProgressRequestStatuses s1),
                       pq_cancelled := finsert (st_ctx st1) (pq_cancelled s1)\<rparr>
               else s1)"

fun pq_handle :: "nat order \<Rightarrow> providerQueryMessage \<Rightarrow> pqm \<Rightarrow> pqm" where
  "pq_handle ord (receivedProviderMessage ctx k p) s = handle_received ord k p s"
| "pq_handle ord (finishedProviderQueryMessage ctx k) s = handle_finished ord k s"
| "pq_handle ord (newProvideQueryMessage k) s = handle_new k s"
| "pq_handle ord (cancelRequestMessage l k) s = handle_cancel l k s"

definition pq_run :: "nat order \<Rightarrow> pqm \<Rightarrow> pqm" where
  "pq_run ord s =
     (case providerQueryMessages s of
        [] \<Rightarrow> s
      | m # rest \<Rightarrow> pq_handle ord m (s\<lparr>providerQueryMessages := rest\<rparr>))"

section \<open>Workers and callers\<close>

text \<open>A free worker takes the next search from the buffer.\<close>

definition startSearch :: "pqm \<Rightarrow> pqm" where
  "startSearch s =
     (case requestBuffer s of
        [] \<Rightarrow> s
      | fpr # rest \<Rightarrow>
          if length (pq_working s) < maxInProcessRequests
          then s\<lparr>requestBuffer := rest, pq_working := pq_working s @ [fpr]\<rparr>
          else s)"

text \<open>The \<open>i\<close>th running search found a provider it could connect to; it has ended.\<close>

definition foundProvider :: "nat \<Rightarrow> peer \<Rightarrow> pqm \<Rightarrow> pqm" where
  "foundProvider i p s =
     (if i < length (pq_working s)
      then let fpr = pq_working s ! i in enqueueMsg (receivedProviderMessage (fpr_ctx fpr) (fpr_k fpr) p) s
      else s)"

definition endSearch :: "nat \<Rightarrow> pqm \<Rightarrow> pqm" where
  "endSearch i s =
     (if i < length (pq_working s)
      then let fpr = pq_working s ! i
           in enqueueMsg (finishedProviderQueryMessage (fpr_ctx fpr) (fpr_k fpr))
                (s\<lparr>pq_working := take i (pq_working s) @ drop (Suc i) (pq_working s)\<rparr>)
      else s)"

definition FindProvidersAsync :: "cid \<Rightarrow> pqm \<Rightarrow> pqm" where
  "FindProvidersAsync k s = enqueueMsg (newProvideQueryMessage k) s"

text \<open>
  The caller takes a provider; the caller's context ends, before or after \<open>receiveProviders\<close> has
  seen that its channel is closed.
\<close>

definition takeProvider :: "nat \<Rightarrow> pqm \<Rightarrow> peer option \<times> pqm" where
  "takeProvider l s =
     (case fmlookup (pq_listeners s) l of
        None \<Rightarrow> (None, s)
      | Some li \<Rightarrow>
          if \<not> li_done li \<and> li_taken li < length (receivedProviders li)
          then (Some (receivedProviders li ! li_taken li),
                s\<lparr>pq_listeners := fmupd l (li\<lparr>li_taken := Suc (li_taken li)\<rparr>) (pq_listeners s)\<rparr>)
          else (None, s))"

definition cancelProviderRequest :: "bool \<Rightarrow> nat \<Rightarrow> pqm \<Rightarrow> pqm" where
  "cancelProviderRequest sawClosed l s =
     (case fmlookup (pq_listeners s) l of
        None \<Rightarrow> s
      | Some li \<Rightarrow>
          if li_done li then s
          else let s1 = s\<lparr>pq_listeners := fmupd l (li\<lparr>li_done := True\<rparr>) (pq_listeners s)\<rparr>
               in if li_closed li \<and> sawClosed then s1 else enqueueMsg (cancelRequestMessage l (li_k li)) s1)"

datatype pq_event =
    PQ_Find cid
  | PQ_Cancel bool nat
  | PQ_Take nat
  | PQ_Run "nat order"
  | PQ_Start
  | PQ_Found nat peer
  | PQ_End nat

fun pq_step :: "pq_event \<Rightarrow> pqm \<Rightarrow> pqm" where
  "pq_step (PQ_Find k) s = FindProvidersAsync k s"
| "pq_step (PQ_Cancel saw l) s = cancelProviderRequest saw l s"
| "pq_step (PQ_Take l) s = snd (takeProvider l s)"
| "pq_step (PQ_Run ord) s = pq_run ord s"
| "pq_step PQ_Start s = startSearch s"
| "pq_step (PQ_Found i p) s = foundProvider i p s"
| "pq_step (PQ_End i) s = endSearch i s"

fun pq_ok :: "pq_event \<Rightarrow> bool" where
  "pq_ok (PQ_Run ord) \<longleftrightarrow> go_range ord"
| "pq_ok _ \<longleftrightarrow> True"

section \<open>The invariant\<close>

text \<open>A search that has not been reported as finished.\<close>

definition outstanding :: "cid \<Rightarrow> nat \<Rightarrow> pqm \<Rightarrow> bool" where
  "outstanding k ctx s \<longleftrightarrow>
     \<lparr>fpr_k = k, fpr_ctx = ctx\<rparr> \<in> set (requestBuffer s) \<union> set (pq_working s) \<or>
     finishedProviderQueryMessage ctx k \<in> set (providerQueryMessages s)"

text \<open>Statuses and listeners agree, and nobody listening has missed a provider.\<close>

definition listening :: "(cid, inProgressRequestStatus) fmap \<Rightarrow> (nat, listener) fmap \<Rightarrow> bool" where
  "listening S M \<longleftrightarrow>
     (\<forall>k st. fmlookup S k = Some st \<longrightarrow> st_listeners st \<noteq> {||}) \<and>
     (\<forall>k st l. fmlookup S k = Some st \<and> l |\<in>| st_listeners st \<longrightarrow>
        (\<exists>li. fmlookup M l = Some li \<and> li_k li = k \<and> \<not> li_closed li \<and>
           (\<not> li_done li \<longrightarrow> receivedProviders li = providersSoFar st))) \<and>
     (\<forall>l li. fmlookup M l = Some li \<and> \<not> li_closed li \<longrightarrow>
        (\<exists>st. fmlookup S (li_k li) = Some st \<and> l |\<in>| st_listeners st))"

definition pq_core :: "pqm \<Rightarrow> bool" where
  "pq_core s \<longleftrightarrow> \<not> pq_panic s \<and> length (pq_working s) \<le> maxInProcessRequests \<and>
     listening (inProgressRequestStatuses s) (pq_listeners s) \<and>
     (\<forall>l. l |\<in>| fmdom (pq_listeners s) \<longrightarrow> l < pq_nextListener s)"

definition pq_inv :: "pqm \<Rightarrow> bool" where
  "pq_inv s \<longleftrightarrow> pq_core s \<and>
     (\<forall>k st. fmlookup (inProgressRequestStatuses s) k = Some st \<longrightarrow> outstanding k (st_ctx st) s)"

text \<open>What a handler may do to the searches: add one for a status it adds.\<close>

definition keeps_searches :: "pqm \<Rightarrow> pqm \<Rightarrow> bool" where
  "keeps_searches s s' \<longleftrightarrow> set (requestBuffer s) \<subseteq> set (requestBuffer s') \<and> pq_working s' = pq_working s \<and>
     providerQueryMessages s' = providerQueryMessages s \<and>
     (\<forall>k st. fmlookup (inProgressRequestStatuses s') k = Some st \<longrightarrow>
        (\<exists>st0. fmlookup (inProgressRequestStatuses s) k = Some st0 \<and> st_ctx st = st_ctx st0) \<or>
        \<lparr>fpr_k = k, fpr_ctx = st_ctx st\<rparr> \<in> set (requestBuffer s'))"

lemma listening_status:
  "listening S M \<Longrightarrow> fmlookup S k = Some st \<Longrightarrow> l |\<in>| st_listeners st \<Longrightarrow>
     \<exists>li. fmlookup M l = Some li \<and> li_k li = k \<and> \<not> li_closed li \<and> (\<not> li_done li \<longrightarrow> receivedProviders li = providersSoFar st)"
  by (simp add: listening_def)

lemma listening_open:
  "listening S M \<Longrightarrow> fmlookup M l = Some li \<Longrightarrow> \<not> li_closed li \<Longrightarrow> \<exists>st. fmlookup S (li_k li) = Some st \<and> l |\<in>| st_listeners st"
  by (simp add: listening_def)

lemma listening_nonempty: "listening S M \<Longrightarrow> fmlookup S k = Some st \<Longrightarrow> st_listeners st \<noteq> {||}"
  by (auto simp: listening_def)

lemma listening_unique:
  assumes "listening S M" "fmlookup S j = Some st'" "l |\<in>| st_listeners st'" "fmlookup S k = Some st" "l |\<in>| st_listeners st"
  shows "j = k"
  using listening_status [OF assms(1-3)] listening_status [OF assms(1,4,5)] by auto

text \<open>Closing every listener of a status with it, closing one of several, and opening one.\<close>

lemma listening_close_all:
  assumes L: "listening S M" and k: "fmlookup S k = Some st"
    and lk: "\<And>l. fmlookup M' l = (if l |\<in>| st_listeners st then map_option (\<lambda>li. li\<lparr>li_closed := True\<rparr>) (fmlookup M l) else fmlookup M l)"
  shows "listening (fmdrop k S) M'"
  unfolding listening_def
proof (intro conjI allI impI)
  fix j st' assume "fmlookup (fmdrop k S) j = Some st'"
  then show "st_listeners st' \<noteq> {||}"
    using listening_nonempty [OF L] by (auto split: if_splits)
next
  fix j st' l assume a: "fmlookup (fmdrop k S) j = Some st' \<and> l |\<in>| st_listeners st'"
  then have j: "j \<noteq> k" "fmlookup S j = Some st'" "l |\<in>| st_listeners st'"
    by (auto split: if_splits)
  then have "l |\<notin>| st_listeners st"
    using listening_unique [OF L j(2,3) k] by blast
  then show "\<exists>li. fmlookup M' l = Some li \<and> li_k li = j \<and> \<not> li_closed li \<and> (\<not> li_done li \<longrightarrow> receivedProviders li = providersSoFar st')"
    using listening_status [OF L j(2,3)] lk [of l] by simp
next
  fix l li assume a: "fmlookup M' l = Some li \<and> \<not> li_closed li"
  then have l: "l |\<notin>| st_listeners st" "fmlookup M l = Some li"
    using lk [of l] by (auto split: if_splits)
  then obtain st' where st': "fmlookup S (li_k li) = Some st'" "l |\<in>| st_listeners st'"
    using listening_open [OF L l(2)] a by auto
  then have "li_k li \<noteq> k"
    using k l(1) by auto
  then show "\<exists>st. fmlookup (fmdrop k S) (li_k li) = Some st \<and> l |\<in>| st_listeners st"
    using st' by auto
qed

lemma listening_send:
  assumes L: "listening S M" and k: "fmlookup S k = Some st"
    and lk: "\<And>l. fmlookup M' l = (if l |\<in>| st_listeners st
      then map_option (\<lambda>li. if li_done li then li else li\<lparr>receivedProviders := receivedProviders li @ [p]\<rparr>) (fmlookup M l)
      else fmlookup M l)"
  shows "listening (fmupd k (st\<lparr>providersSoFar := providersSoFar st @ [p]\<rparr>) S) M'"
  unfolding listening_def
proof (intro conjI allI impI)
  let ?S = "fmupd k (st\<lparr>providersSoFar := providersSoFar st @ [p]\<rparr>) S"
  fix j st' assume "fmlookup ?S j = Some st'"
  then show "st_listeners st' \<noteq> {||}"
    using listening_nonempty [OF L] k by (auto split: if_splits)
next
  fix j st' l assume a: "fmlookup (fmupd k (st\<lparr>providersSoFar := providersSoFar st @ [p]\<rparr>) S) j = Some st' \<and> l |\<in>| st_listeners st'"
  show "\<exists>li. fmlookup M' l = Some li \<and> li_k li = j \<and> \<not> li_closed li \<and> (\<not> li_done li \<longrightarrow> receivedProviders li = providersSoFar st')"
  proof (cases "j = k")
    case True
    then have l: "l |\<in>| st_listeners st" "st' = st\<lparr>providersSoFar := providersSoFar st @ [p]\<rparr>"
      using a by auto
    obtain li where li: "fmlookup M l = Some li" "li_k li = k" "\<not> li_closed li" "\<not> li_done li \<longrightarrow> receivedProviders li = providersSoFar st"
      using listening_status [OF L k l(1)] by blast
    show ?thesis
      using lk [of l] l li True by (cases "li_done li") simp_all
  next
    case False
    then have l: "fmlookup S j = Some st'" "l |\<in>| st_listeners st'"
      using a by auto
    then have "l |\<notin>| st_listeners st"
      using listening_unique [OF L l k] False by blast
    then show ?thesis
      using listening_status [OF L l] lk [of l] by simp
  qed
next
  fix l li assume a: "fmlookup M' l = Some li \<and> \<not> li_closed li"
  then obtain li0 where li0: "fmlookup M l = Some li0" "li_k li0 = li_k li" "\<not> li_closed li0"
    using lk [of l] by (auto split: if_splits)
  then show "\<exists>st'. fmlookup (fmupd k (st\<lparr>providersSoFar := providersSoFar st @ [p]\<rparr>) S) (li_k li) = Some st' \<and> l |\<in>| st_listeners st'"
    using listening_open [OF L li0(1,3)] k by (cases "li_k li = k") auto
qed

lemma listening_close_one:
  assumes L: "listening S M" and k: "fmlookup S k = Some st" and l: "l |\<in>| st_listeners st" "fmlookup M l = Some li"
    and more: "st_listeners st |-| {|l|} \<noteq> {||}"
  shows "listening (fmupd k (st\<lparr>st_listeners := st_listeners st |-| {|l|}\<rparr>) S) (fmupd l (li\<lparr>li_closed := True\<rparr>) M)"
  unfolding listening_def
proof (intro conjI allI impI)
  fix j st' assume "fmlookup (fmupd k (st\<lparr>st_listeners := st_listeners st |-| {|l|}\<rparr>) S) j = Some st'"
  then show "st_listeners st' \<noteq> {||}"
    using listening_nonempty [OF L] more by (auto split: if_splits)
next
  fix j st' l' assume a: "fmlookup (fmupd k (st\<lparr>st_listeners := st_listeners st |-| {|l|}\<rparr>) S) j = Some st' \<and> l' |\<in>| st_listeners st'"
  have "\<exists>st0. fmlookup S j = Some st0 \<and> l' |\<in>| st_listeners st0 \<and> providersSoFar st' = providersSoFar st0 \<and> l' \<noteq> l"
  proof (cases "j = k")
    case True
    then have "st' = st\<lparr>st_listeners := st_listeners st |-| {|l|}\<rparr>" "l' |\<in>| st_listeners st'"
      using a by auto
    then show ?thesis
      using True k by auto
  next
    case False
    then have j: "fmlookup S j = Some st'" "l' |\<in>| st_listeners st'"
      using a by auto
    then have "l' \<noteq> l"
      using listening_unique [OF L j k] l(1) False by blast
    then show ?thesis
      using j by blast
  qed
  then obtain st0 where st0: "fmlookup S j = Some st0" "l' |\<in>| st_listeners st0" "providersSoFar st' = providersSoFar st0" "l' \<noteq> l"
    by blast
  then show "\<exists>li'. fmlookup (fmupd l (li\<lparr>li_closed := True\<rparr>) M) l' = Some li' \<and> li_k li' = j \<and> \<not> li_closed li' \<and>
      (\<not> li_done li' \<longrightarrow> receivedProviders li' = providersSoFar st')"
    using listening_status [OF L st0(1,2)] by simp
next
  fix l' li' assume a: "fmlookup (fmupd l (li\<lparr>li_closed := True\<rparr>) M) l' = Some li' \<and> \<not> li_closed li'"
  then have l': "l' \<noteq> l" "fmlookup M l' = Some li'"
    by (auto split: if_splits)
  then obtain st' where "fmlookup S (li_k li') = Some st'" "l' |\<in>| st_listeners st'"
    using listening_open [OF L l'(2)] a by auto
  then show "\<exists>st'. fmlookup (fmupd k (st\<lparr>st_listeners := st_listeners st |-| {|l|}\<rparr>) S) (li_k li') = Some st' \<and> l' |\<in>| st_listeners st'"
    using k l'(1) by auto
qed

lemma listening_add:
  assumes L: "listening S M" and n: "fmlookup M n = None"
    and k: "fmlookup S k = Some st \<or> fmlookup S k = None \<and> st_listeners st = {||}"
    and li: "li_k li = k" "\<not> li_closed li" "receivedProviders li = providersSoFar st"
  shows "listening (fmupd k (st\<lparr>st_listeners := finsert n (st_listeners st)\<rparr>) S) (fmupd n li M)"
  unfolding listening_def
proof (intro conjI allI impI)
  fix j st' assume "fmlookup (fmupd k (st\<lparr>st_listeners := finsert n (st_listeners st)\<rparr>) S) j = Some st'"
  then show "st_listeners st' \<noteq> {||}"
    using listening_nonempty [OF L] by (auto split: if_splits)
next
  fix j st' l assume a: "fmlookup (fmupd k (st\<lparr>st_listeners := finsert n (st_listeners st)\<rparr>) S) j = Some st' \<and> l |\<in>| st_listeners st'"
  have new: "l \<noteq> n" if "fmlookup S i = Some st0" "l |\<in>| st_listeners st0" for i st0
    using listening_status [OF L that] n by auto
  show "\<exists>li'. fmlookup (fmupd n li M) l = Some li' \<and> li_k li' = j \<and> \<not> li_closed li' \<and>
      (\<not> li_done li' \<longrightarrow> receivedProviders li' = providersSoFar st')"
  proof (cases "j = k \<and> l = n")
    case True
    then show ?thesis
      using a li by auto
  next
    case False
    have "\<exists>st0. fmlookup S j = Some st0 \<and> l |\<in>| st_listeners st0 \<and> providersSoFar st' = providersSoFar st0"
    proof (cases "j = k")
      case True
      then have st': "st' = st\<lparr>st_listeners := finsert n (st_listeners st)\<rparr>" "l \<noteq> n"
        using a False by auto
      then have "l |\<in>| st_listeners st"
        using a by simp
      moreover from this have "fmlookup S k = Some st"
        using k by auto
      ultimately show ?thesis
        using True st' by simp
    next
      case False
      then show ?thesis
        using a by simp
    qed
    then obtain st0 where st0: "fmlookup S j = Some st0" "l |\<in>| st_listeners st0" "providersSoFar st' = providersSoFar st0"
      by blast
    then show ?thesis
      using listening_status [OF L st0(1,2)] new [OF st0(1,2)] by simp
  qed
next
  fix l li' assume a: "fmlookup (fmupd n li M) l = Some li' \<and> \<not> li_closed li'"
  show "\<exists>st'. fmlookup (fmupd k (st\<lparr>st_listeners := finsert n (st_listeners st)\<rparr>) S) (li_k li') = Some st' \<and> l |\<in>| st_listeners st'"
  proof (cases "l = n")
    case True
    then show ?thesis
      using a li by auto
  next
    case False
    then obtain st0 where st0: "fmlookup S (li_k li') = Some st0" "l |\<in>| st_listeners st0"
      using a listening_open [OF L, of l li'] by auto
    show ?thesis
    proof (cases "li_k li' = k")
      case True
      then have "st0 = st"
        using st0(1) k by auto
      then show ?thesis
        using st0 True by simp
    next
      case False
      then show ?thesis
        using st0 by simp
    qed
  qed
qed

text \<open>The loops over the listeners of a status, as long as all of them are open.\<close>

lemma fold_listeners:
  assumes f: "\<And>l s li. fmlookup (pq_listeners s) l = Some li \<Longrightarrow> \<not> li_closed li \<Longrightarrow>
      f l s = s\<lparr>pq_listeners := fmupd l (g li) (pq_listeners s)\<rparr>"
  shows "distinct ls \<Longrightarrow> (\<And>l. l \<in> set ls \<Longrightarrow> \<exists>li. fmlookup (pq_listeners s) l = Some li \<and> \<not> li_closed li) \<Longrightarrow>
    fold f ls s = s\<lparr>pq_listeners := fold (\<lambda>l. fmupd l (g (the (fmlookup (pq_listeners s) l)))) ls (pq_listeners s)\<rparr>"
proof (induction ls arbitrary: s)
  case (Cons l ls)
  obtain li where li: "fmlookup (pq_listeners s) l = Some li" "\<not> li_closed li"
    using Cons.prems(2) [of l] by auto
  let ?s = "s\<lparr>pq_listeners := fmupd l (g li) (pq_listeners s)\<rparr>"
  have other: "fmlookup (pq_listeners ?s) k = fmlookup (pq_listeners s) k" if "k \<in> set ls" for k
    using that Cons.prems(1) by auto
  have "fold f ls ?s = ?s\<lparr>pq_listeners := fold (\<lambda>k. fmupd k (g (the (fmlookup (pq_listeners ?s) k)))) ls (pq_listeners ?s)\<rparr>"
    by (rule Cons.IH) (use Cons.prems other in auto)
  moreover have "fold (\<lambda>k. fmupd k (g (the (fmlookup (pq_listeners ?s) k)))) ls (pq_listeners ?s) =
      fold (\<lambda>k. fmupd k (g (the (fmlookup (pq_listeners s) k)))) ls (pq_listeners ?s)"
    by (rule fold_cong) (simp_all only: other)
  ultimately show ?case
    using f [OF li] li(1) by simp
qed simp

lemma fmupd_same: "fmlookup m k = Some v \<Longrightarrow> fmupd k v m = m"
  by (rule fmap_eqI) auto

lemma fold_status_listeners:
  assumes f: "\<And>l s li. fmlookup (pq_listeners s) l = Some li \<Longrightarrow> \<not> li_closed li \<Longrightarrow>
      f l s = s\<lparr>pq_listeners := fmupd l (g li) (pq_listeners s)\<rparr>"
    and "listening S (pq_listeners s)" "fmlookup S k = Some st" "go_range ord"
  shows "\<exists>M. fold f (ord (st_listeners st)) s = s\<lparr>pq_listeners := M\<rparr> \<and>
    (\<forall>l. fmlookup M l = (if l |\<in>| st_listeners st then map_option g (fmlookup (pq_listeners s) l)
       else fmlookup (pq_listeners s) l))"
proof -
  have mem: "l \<in> set (ord (st_listeners st)) \<longleftrightarrow> l |\<in>| st_listeners st" for l
    by (simp add: go_range.ord_set [OF assms(4)])
  have opened: "\<exists>li. fmlookup (pq_listeners s) l = Some li \<and> \<not> li_closed li" if "l |\<in>| st_listeners st" for l
    using listening_status [OF assms(2,3) that] by auto
  have g: "map_option g (fmlookup (pq_listeners s) l) = Some (g (the (fmlookup (pq_listeners s) l)))"
    if "l |\<in>| st_listeners st" for l
    using opened [OF that] by auto
  have F: "fold f (ord (st_listeners st)) s =
      s\<lparr>pq_listeners := fold (\<lambda>l. fmupd l (g (the (fmlookup (pq_listeners s) l)))) (ord (st_listeners st)) (pq_listeners s)\<rparr>"
    by (rule fold_listeners [where g = g, OF f]) (use opened mem go_range.ord_distinct [OF assms(4)] in auto)
  show ?thesis
    unfolding F by (intro exI conjI allI, rule refl) (simp add: fmlookup_fold_fmupd mem g)
qed

lemma sendListener_open:
  "fmlookup (pq_listeners s) l = Some li \<Longrightarrow> \<not> li_closed li \<Longrightarrow> sendListener p l s =
     s\<lparr>pq_listeners := fmupd l (if li_done li then li else li\<lparr>receivedProviders := receivedProviders li @ [p]\<rparr>) (pq_listeners s)\<rparr>"
  by (simp add: sendListener_def fmupd_same)

lemma closeListener_open:
  "fmlookup (pq_listeners s) l = Some li \<Longrightarrow> \<not> li_closed li \<Longrightarrow>
     closeListener l s = s\<lparr>pq_listeners := fmupd l (li\<lparr>li_closed := True\<rparr>) (pq_listeners s)\<rparr>"
  by (simp add: closeListener_def)

lemma fold_sendListener:
  assumes "listening S (pq_listeners s)" "fmlookup S k = Some st" "go_range ord"
  shows "\<exists>M. fold (sendListener p) (ord (st_listeners st)) s = s\<lparr>pq_listeners := M\<rparr> \<and>
    (\<forall>l. fmlookup M l = (if l |\<in>| st_listeners st
       then map_option (\<lambda>li. if li_done li then li else li\<lparr>receivedProviders := receivedProviders li @ [p]\<rparr>) (fmlookup (pq_listeners s) l)
       else fmlookup (pq_listeners s) l))"
  by (rule fold_status_listeners [OF _ assms]) (rule sendListener_open)

lemma fold_closeListener:
  assumes "listening S (pq_listeners s)" "fmlookup S k = Some st" "go_range ord"
  shows "\<exists>M. fold closeListener (ord (st_listeners st)) s = s\<lparr>pq_listeners := M\<rparr> \<and>
    (\<forall>l. fmlookup M l = (if l |\<in>| st_listeners st then map_option (\<lambda>li. li\<lparr>li_closed := True\<rparr>) (fmlookup (pq_listeners s) l)
       else fmlookup (pq_listeners s) l))"
  by (rule fold_status_listeners [OF _ assms]) (rule closeListener_open)

text \<open>Preservation by the handlers; the message handled has left the channel.\<close>

lemma received_core:
  assumes inv: "pq_core s" and ord: "go_range ord"
  shows "pq_core (handle_received ord k p s) \<and> keeps_searches s (handle_received ord k p s)"
proof (cases "fmlookup (inProgressRequestStatuses s) k")
  case (Some st)
  let ?st = "st\<lparr>providersSoFar := providersSoFar st @ [p]\<rparr>"
  let ?S = "fmupd k ?st (inProgressRequestStatuses s)"
  let ?g = "\<lambda>li. if li_done li then li else li\<lparr>receivedProviders := receivedProviders li @ [p]\<rparr>"
  have L: "listening (inProgressRequestStatuses s) (pq_listeners s)"
    using inv by (simp add: pq_core_def)
  obtain M where M: "fold (sendListener p) (ord (st_listeners st)) (s\<lparr>inProgressRequestStatuses := ?S\<rparr>) =
      s\<lparr>inProgressRequestStatuses := ?S, pq_listeners := M\<rparr>"
    and lk: "\<And>l. fmlookup M l = (if l |\<in>| st_listeners st then map_option ?g (fmlookup (pq_listeners s) l)
       else fmlookup (pq_listeners s) l)"
    using fold_sendListener [of "inProgressRequestStatuses s" "s\<lparr>inProgressRequestStatuses := ?S\<rparr>" k st ord p] L Some ord by auto
  have s': "handle_received ord k p s = s\<lparr>inProgressRequestStatuses := ?S, pq_listeners := M\<rparr>"
    using Some M by (simp add: handle_received_def)
  have "listening ?S M"
    by (rule listening_send [OF L Some lk])
  moreover have "l |\<in>| fmdom M \<Longrightarrow> l |\<in>| fmdom (pq_listeners s)" for l
    using lk [of l] by (auto simp: fmlookup_dom_iff split: if_splits)
  ultimately show ?thesis
    unfolding s' using inv Some by (auto simp: pq_core_def keeps_searches_def)
qed (use inv in \<open>auto simp: handle_received_def keeps_searches_def\<close>)

lemma finished_core:
  assumes inv: "pq_core s" and ord: "go_range ord"
  shows "pq_core (handle_finished ord k s) \<and> keeps_searches s (handle_finished ord k s) \<and>
    fmlookup (inProgressRequestStatuses (handle_finished ord k s)) k = None"
proof (cases "fmlookup (inProgressRequestStatuses s) k")
  case (Some st)
  have L: "listening (inProgressRequestStatuses s) (pq_listeners s)"
    using inv by (simp add: pq_core_def)
  obtain M where M: "fold closeListener (ord (st_listeners st)) s = s\<lparr>pq_listeners := M\<rparr>"
    and lk: "\<And>l. fmlookup M l = (if l |\<in>| st_listeners st then map_option (\<lambda>li. li\<lparr>li_closed := True\<rparr>) (fmlookup (pq_listeners s) l)
       else fmlookup (pq_listeners s) l)"
    using fold_closeListener [OF L Some ord] by auto
  have s': "handle_finished ord k s = s\<lparr>pq_listeners := M, inProgressRequestStatuses := fmdrop k (inProgressRequestStatuses s),
      pq_cancelled := finsert (st_ctx st) (pq_cancelled s)\<rparr>"
    using Some M by (simp add: handle_finished_def Let_def)
  have "listening (fmdrop k (inProgressRequestStatuses s)) M"
    by (rule listening_close_all [OF L Some lk])
  moreover have "l |\<in>| fmdom M \<Longrightarrow> l |\<in>| fmdom (pq_listeners s)" for l
    using lk [of l] by (auto simp: fmlookup_dom_iff split: if_splits)
  ultimately show ?thesis
    unfolding s' using inv by (auto simp: pq_core_def keeps_searches_def split: if_splits)
qed (use inv in \<open>auto simp: handle_finished_def keeps_searches_def\<close>)

lemma cancel_core:
  assumes inv: "pq_core s"
  shows "pq_core (handle_cancel l k s) \<and> keeps_searches s (handle_cancel l k s)"
proof (cases "\<exists>st. fmlookup (inProgressRequestStatuses s) k = Some st \<and> l |\<in>| st_listeners st")
  case True
  then obtain st where st: "fmlookup (inProgressRequestStatuses s) k = Some st" "l |\<in>| st_listeners st"
    by blast
  let ?st = "st\<lparr>st_listeners := st_listeners st |-| {|l|}\<rparr>"
  let ?S = "fmupd k ?st (inProgressRequestStatuses s)"
  have L: "listening (inProgressRequestStatuses s) (pq_listeners s)"
    using inv by (simp add: pq_core_def)
  obtain li where li: "fmlookup (pq_listeners s) l = Some li" "\<not> li_closed li"
    using listening_status [OF L st] by auto
  let ?M = "fmupd l (li\<lparr>li_closed := True\<rparr>) (pq_listeners s)"
  have cl: "closeListener l (s\<lparr>inProgressRequestStatuses := ?S\<rparr>) = s\<lparr>inProgressRequestStatuses := ?S, pq_listeners := ?M\<rparr>"
    using li by (simp add: closeListener_def)
  have dom: "j |\<in>| fmdom ?M \<Longrightarrow> j |\<in>| fmdom (pq_listeners s)" for j
    using li by (auto simp: fmlookup_dom_iff split: if_splits)
  show ?thesis
  proof (cases "st_listeners st |-| {|l|} = {||}")
    case True
    then have only: "j |\<in>| st_listeners st \<longleftrightarrow> j = l" for j
      using st(2) by auto
    have "listening (fmdrop k (inProgressRequestStatuses s)) ?M"
      by (rule listening_close_all [OF L st(1)]) (use li only in auto)
    moreover have "fmdrop k ?S = fmdrop k (inProgressRequestStatuses s)"
      by (rule fmap_eqI) auto
    moreover have "handle_cancel l k s = s\<lparr>pq_listeners := ?M, inProgressRequestStatuses := fmdrop k ?S,
        pq_cancelled := finsert (st_ctx st) (pq_cancelled s)\<rparr>"
      using st True cl by (simp add: handle_cancel_def Let_def)
    ultimately show ?thesis
      using inv dom by (auto simp: pq_core_def keeps_searches_def split: if_splits)
  next
    case False
    have "listening ?S ?M"
      by (rule listening_close_one [OF L st li(1) False])
    moreover have "handle_cancel l k s = s\<lparr>inProgressRequestStatuses := ?S, pq_listeners := ?M\<rparr>"
      using st False cl by (simp add: handle_cancel_def Let_def)
    ultimately show ?thesis
      using inv dom st by (auto simp: pq_core_def keeps_searches_def split: if_splits)
  qed
next
  case False
  then have "handle_cancel l k s = s"
    by (auto simp: handle_cancel_def split: option.splits)
  then show ?thesis
    using inv by (auto simp: keeps_searches_def)
qed

lemma new_core:
  assumes inv: "pq_core s"
  shows "pq_core (handle_new k s) \<and> keeps_searches s (handle_new k s)"
proof -
  let ?n = "pq_nextListener s"
  have L: "listening (inProgressRequestStatuses s) (pq_listeners s)" and n: "fmlookup (pq_listeners s) ?n = None"
    using inv by (auto simp: pq_core_def fmlookup_None_iff)
  show ?thesis
  proof (cases "fmlookup (inProgressRequestStatuses s) k")
    case None
    let ?st = "\<lparr>st_ctx = pq_nextCtx s, providersSoFar = [], st_listeners = {||}\<rparr>"
    let ?li = "\<lparr>li_k = k, receivedProviders = [], li_taken = 0, li_closed = False, li_done = False\<rparr>"
    have "listening (fmupd k (?st\<lparr>st_listeners := finsert ?n (st_listeners ?st)\<rparr>) (inProgressRequestStatuses s)) (fmupd ?n ?li (pq_listeners s))"
      by (rule listening_add [OF L n]) (use None in auto)
    then show ?thesis
      using None inv by (auto simp: handle_new_def Let_def pq_core_def keeps_searches_def less_Suc_eq split: if_splits)
  next
    case (Some st)
    let ?li = "\<lparr>li_k = k, receivedProviders = providersSoFar st, li_taken = 0, li_closed = False, li_done = False\<rparr>"
    have "listening (fmupd k (st\<lparr>st_listeners := finsert ?n (st_listeners st)\<rparr>) (inProgressRequestStatuses s)) (fmupd ?n ?li (pq_listeners s))"
      by (rule listening_add [OF L n]) (use Some in auto)
    then show ?thesis
      using Some inv by (auto simp: handle_new_def Let_def pq_core_def keeps_searches_def less_Suc_eq split: if_splits)
  qed
qed

section \<open>Runs\<close>

lemma keeps_outstanding:
  assumes "keeps_searches s s'" "\<And>k st. fmlookup (inProgressRequestStatuses s) k = Some st \<Longrightarrow>
      fmlookup (inProgressRequestStatuses s') k \<noteq> None \<Longrightarrow> outstanding k (st_ctx st) s"
    and st: "fmlookup (inProgressRequestStatuses s') k = Some st"
  shows "outstanding k (st_ctx st) s'"
proof -
  consider (old) st0 where "fmlookup (inProgressRequestStatuses s) k = Some st0" "st_ctx st = st_ctx st0"
    | (new) "\<lparr>fpr_k = k, fpr_ctx = st_ctx st\<rparr> \<in> set (requestBuffer s')"
    using assms(1) st unfolding keeps_searches_def by blast
  then show ?thesis
  proof cases
    case old
    then have "outstanding k (st_ctx st) s"
      using assms(2) [of k st0] st by simp
    then show ?thesis
      using assms(1) by (auto simp: keeps_searches_def outstanding_def)
  qed (simp add: outstanding_def)
qed

lemma pq_run_inv:
  assumes inv: "pq_inv s" and ord: "go_range ord"
  shows "pq_inv (pq_run ord s)"
proof (cases "providerQueryMessages s")
  case (Cons m rest)
  let ?s = "s\<lparr>providerQueryMessages := rest\<rparr>"
  let ?s' = "pq_handle ord m ?s"
  have core: "pq_core ?s"
    using inv by (simp add: pq_inv_def pq_core_def)
  have H: "pq_core ?s' \<and> keeps_searches ?s ?s' \<and>
      (\<forall>ctx k. m = finishedProviderQueryMessage ctx k \<longrightarrow> fmlookup (inProgressRequestStatuses ?s') k = None)"
    using received_core [OF core ord] finished_core [OF core ord] cancel_core [OF core] new_core [OF core] by (cases m) simp_all
  have "outstanding k (st_ctx st) ?s"
    if st: "fmlookup (inProgressRequestStatuses ?s) k = Some st" "fmlookup (inProgressRequestStatuses ?s') k \<noteq> None" for k st
  proof -
    have "outstanding k (st_ctx st) s"
      using inv st(1) by (simp add: pq_inv_def)
    then show ?thesis
      using H st(2) Cons by (auto simp: outstanding_def)
  qed
  then have "pq_inv ?s'"
    using H keeps_outstanding [of ?s ?s'] by (simp add: pq_inv_def)
  then show ?thesis
    using Cons by (simp add: pq_run_def)
qed (use inv in \<open>simp add: pq_run_def\<close>)

text \<open>The other events leave the statuses alone and lose no search.\<close>

lemma pq_inv_frame:
  assumes "pq_inv s" "inProgressRequestStatuses s' = inProgressRequestStatuses s" "pq_panic s' = pq_panic s"
    "length (pq_working s') \<le> maxInProcessRequests" "pq_nextListener s' = pq_nextListener s"
    "listening (inProgressRequestStatuses s) (pq_listeners s')" "fmdom (pq_listeners s') = fmdom (pq_listeners s)"
    "\<And>k ctx. outstanding k ctx s \<Longrightarrow> outstanding k ctx s'"
  shows "pq_inv s'"
  using assms by (simp add: pq_inv_def pq_core_def)

lemma listening_update:
  assumes L: "listening S M" and l: "fmlookup M l = Some li"
    and li': "li_k li' = li_k li" "li_closed li' = li_closed li" "li_done li \<longrightarrow> li_done li'"
      "receivedProviders li' = receivedProviders li"
  shows "listening S (fmupd l li' M)"
  unfolding listening_def
proof (intro conjI allI impI)
  fix k st assume "fmlookup S k = Some st"
  then show "st_listeners st \<noteq> {||}"
    by (rule listening_nonempty [OF L])
next
  fix k st j assume "fmlookup S k = Some st \<and> j |\<in>| st_listeners st"
  then show "\<exists>lj. fmlookup (fmupd l li' M) j = Some lj \<and> li_k lj = k \<and> \<not> li_closed lj \<and>
      (\<not> li_done lj \<longrightarrow> receivedProviders lj = providersSoFar st)"
    using listening_status [OF L, of k st j] l li' by (cases "j = l") auto
next
  fix j lj assume "fmlookup (fmupd l li' M) j = Some lj \<and> \<not> li_closed lj"
  then show "\<exists>st. fmlookup S (li_k lj) = Some st \<and> j |\<in>| st_listeners st"
    using listening_open [OF L, of j] l li' by (cases "j = l") auto
qed

lemma outstanding_more:
  "outstanding k ctx s \<Longrightarrow> outstanding k ctx (enqueueMsg m s)"
  "outstanding k ctx (s\<lparr>pq_listeners := M\<rparr>) = outstanding k ctx s"
  by (auto simp: outstanding_def enqueueMsg_def)

lemma enqueueMsg_fields [simp]:
  "inProgressRequestStatuses (enqueueMsg m s) = inProgressRequestStatuses s" "pq_panic (enqueueMsg m s) = pq_panic s"
  "pq_working (enqueueMsg m s) = pq_working s" "pq_nextListener (enqueueMsg m s) = pq_nextListener s"
  "pq_listeners (enqueueMsg m s) = pq_listeners s"
  by (simp_all add: enqueueMsg_def)

lemma request_eq: "\<lparr>fpr_k = k, fpr_ctx = ctx\<rparr> = f \<longleftrightarrow> fpr_k f = k \<and> fpr_ctx f = ctx"
  by (cases f) auto

lemma enqueueMsg_inv: "pq_inv s \<Longrightarrow> pq_inv (enqueueMsg m s)"
  by (simp add: pq_inv_def pq_core_def outstanding_more)

lemma updated_inv:
  assumes inv: "pq_inv s" and l: "fmlookup (pq_listeners s) l = Some li"
    and li': "li_k li' = li_k li" "li_closed li' = li_closed li" "li_done li \<longrightarrow> li_done li'"
      "receivedProviders li' = receivedProviders li"
  shows "pq_inv (s\<lparr>pq_listeners := fmupd l li' (pq_listeners s)\<rparr>)"
proof (rule pq_inv_frame [OF inv])
  show "listening (inProgressRequestStatuses s) (pq_listeners (s\<lparr>pq_listeners := fmupd l li' (pq_listeners s)\<rparr>))"
    using inv listening_update [OF _ l li'] by (simp add: pq_inv_def pq_core_def)
  show "fmdom (pq_listeners (s\<lparr>pq_listeners := fmupd l li' (pq_listeners s)\<rparr>)) = fmdom (pq_listeners s)"
    using l by (auto simp: fmdomI finsert_absorb)
qed (use inv in \<open>simp_all add: outstanding_more pq_inv_def pq_core_def\<close>)

lemma endSearch_inv: "pq_inv s \<Longrightarrow> pq_inv (endSearch i s)"
proof (cases "i < length (pq_working s)")
  case True
  assume inv: "pq_inv s"
  let ?fpr = "pq_working s ! i"
  have s': "endSearch i s = enqueueMsg (finishedProviderQueryMessage (fpr_ctx ?fpr) (fpr_k ?fpr))
      (s\<lparr>pq_working := take i (pq_working s) @ drop (Suc i) (pq_working s)\<rparr>)"
    using True by (simp add: endSearch_def Let_def)
  have split: "set (pq_working s) = insert ?fpr (set (take i (pq_working s) @ drop (Suc i) (pq_working s)))"
    using id_take_nth_drop [OF True] by (metis Un_insert_right list.simps(15) set_append)
  have "outstanding k ctx s \<Longrightarrow> outstanding k ctx (endSearch i s)" for k ctx
    using split unfolding s' by (auto simp: outstanding_def enqueueMsg_def request_eq)
  then show ?thesis
    using inv True by (intro pq_inv_frame [OF inv]) (auto simp: s' enqueueMsg_def pq_inv_def pq_core_def)
qed (simp add: endSearch_def)

lemma startSearch_inv:
  assumes inv: "pq_inv s"
  shows "pq_inv (startSearch s)"
proof (cases "requestBuffer s")
  case (Cons fpr rest)
  then show ?thesis
    using inv by (auto simp: startSearch_def pq_inv_def pq_core_def outstanding_def)
qed (use inv in \<open>simp add: startSearch_def\<close>)

interpretation pq_runs: step_invariant pq_step pq_ok pq_inv
proof
  fix x s
  assume ok: "pq_ok x" and inv: "pq_inv s"
  show "pq_inv (pq_step x s)"
  proof (cases x)
    case (PQ_Cancel saw l)
    then show ?thesis
      using inv updated_inv [OF inv, of l] enqueueMsg_inv
      by (auto simp: cancelProviderRequest_def Let_def split: option.splits)
  next
    case (PQ_Take l)
    then show ?thesis
      using inv updated_inv [OF inv, of l] by (auto simp: takeProvider_def split: option.splits)
  qed (use ok inv in \<open>auto simp: FindProvidersAsync_def foundProvider_def Let_def enqueueMsg_inv pq_run_inv startSearch_inv endSearch_inv\<close>)
qed

lemma pq_reach: "list_all pq_ok xs \<Longrightarrow> pq_inv (fold pq_step xs pqm_New)"
  by (rule pq_runs.run_inv) (simp_all add: pq_inv_def pq_core_def listening_def pqm_New_def)

section \<open>Properties\<close>

text \<open>
  C21. Provider queries are safe and complete. In every reachable state no channel has been closed
  twice or written to after it was closed, at most six searches run, and a caller that is still
  listening has been handed every provider found for its key so far, also those found before it
  asked. When nothing is left to do, no search waiting or running and no message unhandled, every
  caller's channel is closed.
\<close>

theorem provider_queries:
  assumes "list_all pq_ok xs"
  defines "s \<equiv> fold pq_step xs pqm_New"
  shows "\<not> pq_panic s \<and> length (pq_working s) \<le> 6 \<and>
    (\<forall>l li. fmlookup (pq_listeners s) l = Some li \<and> \<not> li_closed li \<and> \<not> li_done li \<longrightarrow>
       (\<exists>st. fmlookup (inProgressRequestStatuses s) (li_k li) = Some st \<and> receivedProviders li = providersSoFar st)) \<and>
    (requestBuffer s = [] \<and> pq_working s = [] \<and> providerQueryMessages s = [] \<longrightarrow>
       (\<forall>l li. fmlookup (pq_listeners s) l = Some li \<longrightarrow> li_closed li))"
proof -
  have inv: "pq_inv s"
    unfolding s_def by (rule pq_reach [OF assms(1)])
  then have L: "listening (inProgressRequestStatuses s) (pq_listeners s)"
    by (simp add: pq_inv_def pq_core_def)
  have "\<exists>st. fmlookup (inProgressRequestStatuses s) (li_k li) = Some st \<and> receivedProviders li = providersSoFar st"
    if a: "fmlookup (pq_listeners s) l = Some li" "\<not> li_closed li" "\<not> li_done li" for l li
  proof -
    obtain st where st: "fmlookup (inProgressRequestStatuses s) (li_k li) = Some st" "l |\<in>| st_listeners st"
      using listening_open [OF L a(1,2)] by blast
    then show ?thesis
      using listening_status [OF L st] a by auto
  qed
  moreover have "li_closed li"
    if idle: "requestBuffer s = []" "pq_working s = []" "providerQueryMessages s = []" and a: "fmlookup (pq_listeners s) l = Some li" for l li
  proof (rule ccontr)
    assume "\<not> li_closed li"
    then obtain st where "fmlookup (inProgressRequestStatuses s) (li_k li) = Some st"
      using listening_open [OF L a] by blast
    then have "outstanding (li_k li) (st_ctx st) s"
      using inv by (simp add: pq_inv_def)
    then show False
      using idle by (simp add: outstanding_def)
  qed
  ultimately show ?thesis
    using inv by (auto simp: pq_inv_def pq_core_def maxInProcessRequests_def)
qed

theorem provider_queries_witness:
  "\<not> pq_panic (fold pq_step [PQ_Find ''k'', PQ_Run key_order, PQ_Start, PQ_Found 0 ''p'', PQ_Run key_order, PQ_Take 0] pqm_New)"
  using provider_queries [of "[PQ_Find ''k'', PQ_Run key_order, PQ_Start, PQ_Found 0 ''p'', PQ_Run key_order, PQ_Take 0]"]
  by simp

section \<open>Findings\<close>

definition restarted :: "pq_event list" where
  "restarted =
     [PQ_Find ''k'', PQ_Run key_order, PQ_Start, PQ_Cancel False 0, PQ_Run key_order,
      PQ_Find ''k'', PQ_Run key_order, PQ_Start]"

text \<open>Two searches for the same key run at once after a cancelled one was asked for again.\<close>

theorem same_key_searched_twice:
  "map fpr_k (pq_working (fold pq_step restarted pqm_New)) = [''k'', ''k'']"
  by code_simp

text \<open>
  The end of the cancelled search closes the channel of the new one, whose own search has found
  nothing yet and still runs; its providers will be dropped.
\<close>

theorem stale_finish_closes:
  "map_option (\<lambda>li. (li_closed li, li_done li, receivedProviders li))
     (fmlookup (pq_listeners (fold pq_step (restarted @ [PQ_End 0, PQ_Run key_order]) pqm_New)) 1) = Some (True, False, []) \<and>
   map fpr_ctx (pq_working (fold pq_step (restarted @ [PQ_End 0, PQ_Run key_order]) pqm_New)) = [1]"
  by code_simp

end
