(* ===== verification/Score_Ledger.thy ===== *)
theory Score_Ledger
  imports Complex_Main Go_Prelude
begin

text \<open>
  The default score ledger of the decision engine (\<open>server/internal/decision/scoreledger.go\<close> and
  \<open>ewma.go\<close>): the bytes exchanged with each peer, and the score sampled from them.

  Byte counts and exchange counts are 64-bit words and wrap as they do in Go. The scores are
  exact fractions where the code has \<open>float64\<close>; the conversion to an integer truncates
  towards zero. Times are integers, the zero time being 0.
\<close>

section \<open>State and operations\<close>

definition ewma :: "rat \<Rightarrow> rat \<Rightarrow> rat \<Rightarrow> rat" where
  "ewma old new alpha = new * alpha + (1 - alpha) * old"

definition shortTermAlpha :: rat where "shortTermAlpha = 1 / 2"
definition longTermAlpha :: rat where "longTermAlpha = 1 / 20"
definition longTermRatio :: nat where "longTermRatio = 10"
definition longTermScore :: rat where "longTermScore = 10"
definition shortTermScore :: rat where "shortTermScore = 10"

record scoreledger =
  sl_partner :: peer
  bytesSent :: uint64
  bytesRecv :: uint64
  lastExchange :: int
  shortScore :: rat
  longScore :: rat
  sl_score :: int
  exchangeCount :: uint64

record receipt =
  rc_Peer :: peer
  rc_Value :: rat
  rc_Sent :: uint64
  rc_Recv :: uint64
  rc_Exchanged :: uint64

definition newScoreLedger :: "peer \<Rightarrow> scoreledger" where
  "newScoreLedger p = \<lparr>sl_partner = p, bytesSent = 0, bytesRecv = 0, lastExchange = 0,
     shortScore = 0, longScore = 0, sl_score = 0, exchangeCount = 0\<rparr>"

definition sl_AddToSentBytes :: "int \<Rightarrow> nat \<Rightarrow> scoreledger \<Rightarrow> scoreledger" where
  "sl_AddToSentBytes now n l =
     l\<lparr>exchangeCount := exchangeCount l + 1, lastExchange := now, bytesSent := bytesSent l + word_of_nat n\<rparr>"

definition sl_AddToReceivedBytes :: "int \<Rightarrow> nat \<Rightarrow> scoreledger \<Rightarrow> scoreledger" where
  "sl_AddToReceivedBytes now n l =
     l\<lparr>exchangeCount := exchangeCount l + 1, lastExchange := now, bytesRecv := bytesRecv l + word_of_nat n\<rparr>"

definition sl_Receipt :: "scoreledger \<Rightarrow> receipt" where
  "sl_Receipt l =
     \<lparr>rc_Peer = sl_partner l, rc_Value = of_nat (unat (bytesSent l)) / of_nat (unat (bytesRecv l + 1)),
      rc_Sent = bytesSent l, rc_Recv = bytesRecv l, rc_Exchanged = exchangeCount l\<rparr>"

text \<open>The ledgers with the state of the sampling loop: its index and the times of the last samples.\<close>

record dsl =
  dsl_ledgerMap :: "(peer, scoreledger) fmap"
  dsl_i :: nat
  lastShortUpdate :: int
  lastLongUpdate :: int

definition NewDefaultScoreLedger :: dsl where
  "NewDefaultScoreLedger = \<lparr>dsl_ledgerMap = fmempty, dsl_i = 0, lastShortUpdate = 0, lastLongUpdate = 0\<rparr>"

definition dsl_find :: "peer \<Rightarrow> dsl \<Rightarrow> scoreledger option" where
  "dsl_find p s = fmlookup (dsl_ledgerMap s) p"

definition dsl_findOrCreate :: "peer \<Rightarrow> dsl \<Rightarrow> scoreledger \<times> dsl" where
  "dsl_findOrCreate p s =
     (case dsl_find p s of
        Some l \<Rightarrow> (l, s)
      | None \<Rightarrow> (newScoreLedger p, s\<lparr>dsl_ledgerMap := fmupd p (newScoreLedger p) (dsl_ledgerMap s)\<rparr>))"

definition GetReceipt :: "peer \<Rightarrow> dsl \<Rightarrow> receipt" where
  "GetReceipt p s =
     (case dsl_find p s of
        Some l \<Rightarrow> sl_Receipt l
      | None \<Rightarrow> \<lparr>rc_Peer = p, rc_Value = 0, rc_Sent = 0, rc_Recv = 0, rc_Exchanged = 0\<rparr>)"

definition dsl_AddToSentBytes :: "int \<Rightarrow> peer \<Rightarrow> nat \<Rightarrow> dsl \<Rightarrow> dsl" where
  "dsl_AddToSentBytes now p n s =
     (let (l, s1) = dsl_findOrCreate p s
      in s1\<lparr>dsl_ledgerMap := fmupd p (sl_AddToSentBytes now n l) (dsl_ledgerMap s1)\<rparr>)"

definition dsl_AddToReceivedBytes :: "int \<Rightarrow> peer \<Rightarrow> nat \<Rightarrow> dsl \<Rightarrow> dsl" where
  "dsl_AddToReceivedBytes now p n s =
     (let (l, s1) = dsl_findOrCreate p s
      in s1\<lparr>dsl_ledgerMap := fmupd p (sl_AddToReceivedBytes now n l) (dsl_ledgerMap s1)\<rparr>)"

definition dsl_PeerConnected :: "peer \<Rightarrow> dsl \<Rightarrow> dsl" where
  "dsl_PeerConnected p s =
     (case fmlookup (dsl_ledgerMap s) p of
        None \<Rightarrow> s\<lparr>dsl_ledgerMap := fmupd p (newScoreLedger p) (dsl_ledgerMap s)\<rparr>
      | Some _ \<Rightarrow> s)"

definition dsl_PeerDisconnected :: "peer \<Rightarrow> dsl \<Rightarrow> dsl" where
  "dsl_PeerDisconnected p s = s\<lparr>dsl_ledgerMap := fmdrop p (dsl_ledgerMap s)\<rparr>"

section \<open>Sampling\<close>

definition go_trunc :: "rat \<Rightarrow> int" where
  "go_trunc x = (if 0 \<le> x then \<lfloor>x\<rfloor> else \<lceil>x\<rceil>)"

definition sampleScores :: "dsl \<Rightarrow> bool \<Rightarrow> scoreledger \<Rightarrow> scoreledger" where
  "sampleScores s updateLong l =
     (let l1 = l\<lparr>shortScore :=
            (if lastExchange l > lastShortUpdate s then ewma (shortScore l) shortTermScore shortTermAlpha
             else ewma (shortScore l) 0 shortTermAlpha)\<rparr>
      in if updateLong
         then l1\<lparr>longScore :=
            (if lastExchange l1 > lastLongUpdate s then ewma (longScore l1) longTermScore longTermAlpha
             else ewma (longScore l1) 0 longTermAlpha)\<rparr>
         else l1)"

definition newScore :: "scoreledger \<Rightarrow> int" where
  "newScore l =
     (let lscore = (if bytesRecv l = 0 then 0
                    else of_nat (unat (bytesRecv l)) / of_nat (unat (bytesRecv l + bytesSent l)))
      in go_trunc ((shortScore l + longScore l) * (lscore * (1 / 2) + 3 / 4)))"

type_synonym sample_acc = "(peer \<times> int) list \<times> (peer, scoreledger) fmap"

definition samplePeer :: "dsl \<Rightarrow> bool \<Rightarrow> peer \<Rightarrow> sample_acc \<Rightarrow> sample_acc" where
  "samplePeer s updateLong p = (\<lambda>(updates, m).
     case fmlookup m p of
       None \<Rightarrow> (updates, m)
     | Some l \<Rightarrow>
         let l1 = sampleScores s updateLong l; score = newScore l1
         in if sl_score l1 \<noteq> score
            then (updates @ [(sl_partner l1, score)], fmupd p (l1\<lparr>sl_score := score\<rparr>) m)
            else (updates, fmupd p l1 m))"

text \<open>One tick: the scores reported to \<open>scorePeer\<close>, in order, and the new state.\<close>

definition scoreTick :: "peer order \<Rightarrow> int \<Rightarrow> dsl \<Rightarrow> (peer \<times> int) list \<times> dsl" where
  "scoreTick ord now s =
     (let updateLong = (dsl_i s = 0);
          (updates, m) = fold (samplePeer s updateLong) (ord (fmdom (dsl_ledgerMap s))) ([], dsl_ledgerMap s)
      in (updates, s\<lparr>dsl_ledgerMap := m, lastShortUpdate := now,
                     lastLongUpdate := (if updateLong then now else lastLongUpdate s),
                     dsl_i := (dsl_i s + 1) mod longTermRatio\<rparr>))"

section \<open>Samples\<close>

definition sampled :: "dsl \<Rightarrow> scoreledger \<Rightarrow> scoreledger" where
  "sampled s l = (let l1 = sampleScores s (dsl_i s = 0) l in l1\<lparr>sl_score := newScore l1\<rparr>)"

definition scoreUpdate :: "dsl \<Rightarrow> scoreledger \<Rightarrow> (peer \<times> int) list" where
  "scoreUpdate s l = (if sl_score l \<noteq> sl_score (sampled s l) then [(sl_partner l, sl_score (sampled s l))] else [])"

lemma samplePeer_step:
  assumes "fmlookup m p = Some l"
  shows "samplePeer s (dsl_i s = 0) p (us, m) = (us @ scoreUpdate s l, fmupd p (sampled s l) m)"
proof -
  have same: "sl_score (sampleScores s b l) = sl_score l" "sl_partner (sampleScores s b l) = sl_partner l" for b
    by (simp_all add: sampleScores_def Let_def)
  have keep: "l1\<lparr>sl_score := n\<rparr> = l1" if "sl_score l1 = n" for l1 :: scoreledger and n
    using that by auto
  show ?thesis
  proof (cases "sl_score l = newScore (sampleScores s (dsl_i s = 0) l)")
    case True
    have "sampled s l = sampleScores s (dsl_i s = 0) l"
      unfolding sampled_def Let_def by (rule keep) (simp only: same True)
    then show ?thesis
      using assms same True by (simp add: samplePeer_def scoreUpdate_def Let_def)
  next
    case False
    then show ?thesis
      using assms same by (simp add: samplePeer_def scoreUpdate_def sampled_def Let_def)
  qed
qed

lemma fold_samplePeer:
  assumes "distinct ps" "\<And>p. p \<in> set ps \<Longrightarrow> p |\<in>| fmdom m"
  shows "fold (samplePeer s (dsl_i s = 0)) ps (us, m) =
    (us @ concat (map (\<lambda>p. scoreUpdate s (the (fmlookup m p))) ps),
     fold (\<lambda>p. fmupd p (sampled s (the (fmlookup m p)))) ps m)"
  using assms
proof (induction ps arbitrary: us m)
  case (Cons p ps)
  have "p |\<in>| fmdom m"
    by (rule Cons.prems(2)) simp
  then obtain l where l: "fmlookup m p = Some l"
    by (auto simp: fmlookup_dom_iff)
  let ?m = "fmupd p (sampled s l) m"
  have other: "fmlookup ?m q = fmlookup m q" if "q \<in> set ps" for q
    using that Cons.prems(1) by auto
  have "fold (samplePeer s (dsl_i s = 0)) ps (us @ scoreUpdate s l, ?m) =
      ((us @ scoreUpdate s l) @ concat (map (\<lambda>q. scoreUpdate s (the (fmlookup ?m q))) ps),
       fold (\<lambda>q. fmupd q (sampled s (the (fmlookup ?m q)))) ps ?m)"
    by (rule Cons.IH) (use Cons.prems in auto)
  moreover have "map (\<lambda>q. scoreUpdate s (the (fmlookup ?m q))) ps = map (\<lambda>q. scoreUpdate s (the (fmlookup m q))) ps"
    by (rule map_cong) (simp_all only: other)
  moreover have "fold (\<lambda>q. fmupd q (sampled s (the (fmlookup ?m q)))) ps ?m =
      fold (\<lambda>q. fmupd q (sampled s (the (fmlookup m q)))) ps ?m"
    by (rule fold_cong) (simp_all only: other)
  ultimately show ?case
    by (simp only: fold_simps samplePeer_step [OF l] list.map concat.simps l option.sel append_assoc)
qed simp

lemma scoreTick_effect:
  assumes ord: "go_range ord"
  shows "fmlookup (dsl_ledgerMap (snd (scoreTick ord now s))) p = map_option (sampled s) (fmlookup (dsl_ledgerMap s) p)"
    "fst (scoreTick ord now s) =
       concat (map (\<lambda>p. scoreUpdate s (the (fmlookup (dsl_ledgerMap s) p))) (ord (fmdom (dsl_ledgerMap s))))"
proof -
  let ?ps = "ord (fmdom (dsl_ledgerMap s))"
  have ps: "distinct ?ps" "\<And>p. p \<in> set ?ps \<Longrightarrow> p |\<in>| fmdom (dsl_ledgerMap s)"
    by (simp_all add: go_range.ord_distinct [OF ord] go_range.ord_set [OF ord])
  let ?us = "concat (map (\<lambda>p. scoreUpdate s (the (fmlookup (dsl_ledgerMap s) p))) ?ps)"
  let ?m = "fold (\<lambda>p. fmupd p (sampled s (the (fmlookup (dsl_ledgerMap s) p)))) ?ps (dsl_ledgerMap s)"
  have F: "fold (samplePeer s (dsl_i s = 0)) ?ps ([], dsl_ledgerMap s) = (?us, ?m)"
    using fold_samplePeer [OF ps, where us = "[]"] by simp
  have T: "fst (scoreTick ord now s) = ?us" "dsl_ledgerMap (snd (scoreTick ord now s)) = ?m"
    unfolding scoreTick_def Let_def F by simp_all
  show "fmlookup (dsl_ledgerMap (snd (scoreTick ord now s))) p = map_option (sampled s) (fmlookup (dsl_ledgerMap s) p)"
    unfolding T by (cases "fmlookup (dsl_ledgerMap s) p")
      (simp_all add: fmlookup_fold_fmupd go_range.ord_set [OF ord] fmlookup_dom_iff)
  show "fst (scoreTick ord now s) = ?us"
    by (rule T)
qed

section \<open>Bounds\<close>

definition scores_ok :: "scoreledger \<Rightarrow> bool" where
  "scores_ok l \<longleftrightarrow> 0 \<le> shortScore l \<and> shortScore l \<le> 10 \<and> 0 \<le> longScore l \<and> longScore l \<le> 10"

definition dsl_inv :: "dsl \<Rightarrow> bool" where
  "dsl_inv s \<longleftrightarrow> (\<forall>p l. fmlookup (dsl_ledgerMap s) p = Some l \<longrightarrow> sl_partner l = p \<and> scores_ok l)"

lemma ewma_bounds:
  assumes "0 \<le> a" "a \<le> 1" "0 \<le> x" "x \<le> b" "0 \<le> y" "y \<le> b"
  shows "0 \<le> ewma x y a" "ewma x y a \<le> b"
proof -
  show "0 \<le> ewma x y a"
    using assms by (simp add: ewma_def)
  have "y * a \<le> b * a" "(1 - a) * x \<le> (1 - a) * b"
    using assms by (simp_all add: mult_right_mono mult_left_mono)
  then show "ewma x y a \<le> b"
    by (simp add: ewma_def algebra_simps)
qed

lemma sampled_ok: "scores_ok l \<Longrightarrow> scores_ok (sampled s l)" "sl_partner (sampled s l) = sl_partner l"
  using ewma_bounds [of shortTermAlpha "shortScore l" 10] ewma_bounds [of longTermAlpha "longScore l" 10]
  by (auto simp: sampled_def sampleScores_def scores_ok_def Let_def shortTermAlpha_def longTermAlpha_def
      shortTermScore_def longTermScore_def)

lemma newScore_bounds:
  assumes "scores_ok l" "unat (bytesRecv l) + unat (bytesSent l) < 2 ^ 64"
  shows "0 \<le> newScore l" "newScore l \<le> 25"
proof -
  let ?ls = "if bytesRecv l = 0 then 0 else of_nat (unat (bytesRecv l)) / of_nat (unat (bytesRecv l + bytesSent l)) :: rat"
  have sum: "unat (bytesRecv l + bytesSent l) = unat (bytesRecv l) + unat (bytesSent l)"
    using assms(2) by (simp add: unat_word_ariths)
  have "(0 :: rat) \<le> of_nat a / of_nat (a + b) \<and> (of_nat a / of_nat (a + b) :: rat) \<le> 1" for a b
    by (cases "a + b = 0") (auto simp: divide_le_eq_1 add_pos_nonneg add_nonneg_pos)
  note fr = this [of "unat (bytesRecv l)" "unat (bytesSent l)"]
  have "0 \<le> ?ls \<and> ?ls \<le> 1"
    unfolding sum by (cases "bytesRecv l = 0") (simp_all only: if_True if_False fr order_refl zero_le_one simp_thms)
  then have ls: "0 \<le> ?ls" "?ls \<le> 1"
    by (rule conjunct1, rule conjunct2)
  let ?x = "(shortScore l + longScore l) * (?ls * (1 / 2) + 3 / 4)"
  have sum: "0 \<le> shortScore l + longScore l" "shortScore l + longScore l \<le> 20"
    using assms(1) by (auto simp: scores_ok_def)
  have "?x \<le> 20 * (5 / 4)"
    by (rule mult_mono) (use sum ls in auto)
  moreover have x0: "0 \<le> ?x"
    by (rule mult_nonneg_nonneg) (use sum ls in auto)
  ultimately have "\<lfloor>?x\<rfloor> \<le> 25" "0 \<le> \<lfloor>?x\<rfloor>"
    by (simp_all add: floor_le_iff)
  then show "0 \<le> newScore l" "newScore l \<le> 25"
    using x0 by (simp_all only: newScore_def Let_def go_trunc_def if_True)
qed

datatype dsl_op =
    DSL_Sent int peer nat
  | DSL_Received int peer nat
  | DSL_Connected peer
  | DSL_Disconnected peer
  | DSL_Tick "peer order" int

fun dsl_step :: "dsl_op \<Rightarrow> dsl \<Rightarrow> dsl" where
  "dsl_step (DSL_Sent now p n) s = dsl_AddToSentBytes now p n s"
| "dsl_step (DSL_Received now p n) s = dsl_AddToReceivedBytes now p n s"
| "dsl_step (DSL_Connected p) s = dsl_PeerConnected p s"
| "dsl_step (DSL_Disconnected p) s = dsl_PeerDisconnected p s"
| "dsl_step (DSL_Tick ord now) s = snd (scoreTick ord now s)"

fun dsl_ok :: "dsl_op \<Rightarrow> bool" where
  "dsl_ok (DSL_Tick ord now) \<longleftrightarrow> go_range ord"
| "dsl_ok _ \<longleftrightarrow> True"

lemmas dsl_ops = dsl_AddToSentBytes_def dsl_AddToReceivedBytes_def dsl_PeerConnected_def dsl_PeerDisconnected_def
  dsl_findOrCreate_def dsl_find_def sl_AddToSentBytes_def sl_AddToReceivedBytes_def newScoreLedger_def

interpretation dsl_runs: step_invariant dsl_step dsl_ok dsl_inv
proof
  fix x s
  assume ok: "dsl_ok x" and inv: "dsl_inv s"
  show "dsl_inv (dsl_step x s)"
  proof (cases x)
    case (DSL_Tick ord now)
    then show ?thesis
      using ok inv by (auto simp: dsl_inv_def scoreTick_effect sampled_ok)
  qed (use inv in \<open>auto simp: dsl_inv_def dsl_ops scores_ok_def Let_def split: option.splits if_splits\<close>)
qed

lemma dsl_reach: "list_all dsl_ok xs \<Longrightarrow> dsl_inv (fold dsl_step xs NewDefaultScoreLedger)"
  by (rule dsl_runs.run_inv) (simp_all add: dsl_inv_def NewDefaultScoreLedger_def)

section \<open>Properties\<close>

text \<open>
  C24. Scores are bounded. Whatever the exchanges, connections and samples so far, the score a
  sample reports for a peer lies between 0 and 25, as long as the bytes exchanged with that
  peer in both directions do not add up to \<open>2^64\<close>; it is reported just when it changed.
\<close>

theorem score_bounds:
  assumes "list_all dsl_ok xs" "go_range ord"
    and "fmlookup (dsl_ledgerMap (fold dsl_step xs NewDefaultScoreLedger)) p = Some l"
    and "unat (bytesRecv l) + unat (bytesSent l) < 2 ^ 64"
  shows "\<exists>l'. fmlookup (dsl_ledgerMap (snd (scoreTick ord now (fold dsl_step xs NewDefaultScoreLedger)))) p = Some l' \<and>
    0 \<le> sl_score l' \<and> sl_score l' \<le> 25 \<and>
    (\<forall>n. (p, n) \<in> set (fst (scoreTick ord now (fold dsl_step xs NewDefaultScoreLedger))) \<longleftrightarrow>
       n = sl_score l' \<and> sl_score l' \<noteq> sl_score l)"
proof -
  let ?s = "fold dsl_step xs NewDefaultScoreLedger"
  have inv: "dsl_inv ?s"
    using assms(1) by (rule dsl_reach)
  then have l: "sl_partner l = p" "scores_ok l"
    using assms(3) by (auto simp: dsl_inv_def)
  let ?l1 = "sampleScores ?s (dsl_i ?s = 0) l"
  have "scores_ok ?l1" "bytesRecv ?l1 = bytesRecv l" "bytesSent ?l1 = bytesSent l"
    using sampled_ok(1) [OF l(2), of ?s] by (auto simp: sampled_def sampleScores_def Let_def scores_ok_def)
  then have "0 \<le> sl_score (sampled ?s l)" "sl_score (sampled ?s l) \<le> 25"
    using newScore_bounds [of ?l1] assms(4) by (simp_all add: sampled_def Let_def)
  moreover have "(p, n) \<in> set (fst (scoreTick ord now ?s)) \<longleftrightarrow> n = sl_score (sampled ?s l) \<and> sl_score (sampled ?s l) \<noteq> sl_score l" for n
  proof -
    have "(p, n) \<in> set (scoreUpdate ?s (the (fmlookup (dsl_ledgerMap ?s) q))) \<longleftrightarrow>
        q = p \<and> n = sl_score (sampled ?s l) \<and> sl_score (sampled ?s l) \<noteq> sl_score l"
      if "q |\<in>| fmdom (dsl_ledgerMap ?s)" for q
      using that inv assms(3) l by (auto simp: scoreUpdate_def dsl_inv_def fmlookup_dom_iff)
    then show ?thesis
      using assms(3) by (auto simp: scoreTick_effect [OF assms(2)] go_range.ord_set [OF assms(2)] fmlookup_dom_iff)
  qed
  ultimately show ?thesis
    using assms(3) by (simp add: scoreTick_effect [OF assms(2)])
qed

theorem score_bounds_witness:
  "\<exists>l'. fmlookup (dsl_ledgerMap (snd (scoreTick key_order 20
       (fold dsl_step [DSL_Connected ''p'', DSL_Received 5 ''p'' 100] NewDefaultScoreLedger)))) ''p'' = Some l' \<and>
     0 \<le> sl_score l' \<and> sl_score l' \<le> 25"
proof -
  have "list_all dsl_ok [DSL_Connected ''p'', DSL_Received 5 ''p'' 100]"
    by simp
  moreover have "fmlookup (dsl_ledgerMap (fold dsl_step [DSL_Connected ''p'', DSL_Received 5 ''p'' 100] NewDefaultScoreLedger)) ''p'' =
      Some ((newScoreLedger ''p'')\<lparr>exchangeCount := 1, lastExchange := 5, bytesRecv := 100\<rparr>)"
    by (simp add: dsl_ops NewDefaultScoreLedger_def)
  ultimately show ?thesis
    using score_bounds [of "[DSL_Connected ''p'', DSL_Received 5 ''p'' 100]" key_order "''p''" _ 20]
    by (simp add: newScoreLedger_def) blast
qed

text \<open>The receipt of a peer from the history alone: what was exchanged since it last disconnected.\<close>

fun receipt_spec :: "peer \<Rightarrow> dsl_op \<Rightarrow> uint64 \<times> uint64 \<times> uint64 \<Rightarrow> uint64 \<times> uint64 \<times> uint64" where
  "receipt_spec p (DSL_Sent now q n) (sent, recv, k) = (if q = p then (sent + word_of_nat n, recv, k + 1) else (sent, recv, k))"
| "receipt_spec p (DSL_Received now q n) (sent, recv, k) = (if q = p then (sent, recv + word_of_nat n, k + 1) else (sent, recv, k))"
| "receipt_spec p (DSL_Disconnected q) r = (if q = p then (0, 0, 0) else r)"
| "receipt_spec p _ r = r"

definition totals :: "receipt \<Rightarrow> uint64 \<times> uint64 \<times> uint64" where
  "totals r = (rc_Sent r, rc_Recv r, rc_Exchanged r)"

lemma receipt_step:
  assumes "dsl_ok x"
  shows "totals (GetReceipt p (dsl_step x s)) = receipt_spec p x (totals (GetReceipt p s))"
proof (cases x)
  case (DSL_Tick ord now)
  then show ?thesis
    using assms scoreTick_effect(1) [of ord now s p]
    by (cases "fmlookup (dsl_ledgerMap s) p")
      (auto simp: GetReceipt_def dsl_find_def totals_def sl_Receipt_def sampled_def sampleScores_def Let_def)
qed (auto simp: GetReceipt_def totals_def sl_Receipt_def dsl_ops Let_def split: option.splits)

text \<open>
  Receipts are the history. The byte and exchange counts of a peer's receipt are those of
  all exchanges since the peer last disconnected, modulo \<open>2^64\<close>; sampling and connecting do
  not disturb them.
\<close>

theorem receipt_is_history:
  assumes "list_all dsl_ok xs"
  shows "totals (GetReceipt p (fold dsl_step xs NewDefaultScoreLedger)) = fold (receipt_spec p) xs (0, 0, 0)"
proof -
  have "list_all dsl_ok xs \<Longrightarrow> totals (GetReceipt p (fold dsl_step xs s)) = fold (receipt_spec p) xs (totals (GetReceipt p s))" for s
    by (induction xs arbitrary: s) (simp_all add: receipt_step)
  moreover have "totals (GetReceipt p NewDefaultScoreLedger) = (0, 0, 0)"
    by (simp add: totals_def GetReceipt_def dsl_find_def NewDefaultScoreLedger_def)
  ultimately show ?thesis
    using assms by metis
qed

theorem receipt_is_history_witness:
  "totals (GetReceipt ''p'' (fold dsl_step [DSL_Sent 1 ''p'' 7, DSL_Disconnected ''p'', DSL_Sent 2 ''p'' 5, DSL_Tick key_order 3]
     NewDefaultScoreLedger)) = (5, 0, 1)"
  by (subst receipt_is_history) simp_all

end
