(* ===== verification/Engine.thy ===== *)
theory Engine
  imports Ledgers
begin

text \<open>
  The decision engine of \<open>server/internal/decision/engine.go\<close>: what it does with a message from
  a peer, with new local blocks, with a sent message and with connections, and how it turns
  the tasks popped from the request queue into an envelope.

  The state is the engine's ledgers and its configuration. The request queue
  (go-peertaskqueue), the score ledger and the work signal are collaborators the engine only
  calls in these operations: an operation returns the new state with the list of the calls it
  made, in order. What the engine reads from outside is an argument: the block store
  (\<open>accept\<close>, \<open>getSize\<close>, \<open>get\<close>), and the tasks the queue popped. Each operation is one atomic
  step; the code's locks make the ledger accesses atomic piecewise only.
\<close>

section \<open>State\<close>

record engine =
  ledgerMap :: "(peer, ledger) fmap"
  e_peerLedger :: peer_ledger
  sendDontHaves :: bool
  maxBlockSizeReplaceHasWithBlock :: nat
  peerBlockRequestFilter :: "(peer \<Rightarrow> cid \<Rightarrow> bool) option"

datatype engine_call =
    Queue_PushTasks peer "task list"
  | Queue_Remove cid peer
  | Queue_TasksDone peer "task list"
  | Queue_ThawRound
  | UpdateMetrics
  | Score_AddToSentBytes peer nat
  | Score_AddToReceivedBytes peer nat
  | Score_PeerConnected peer
  | Score_PeerDisconnected peer
  | SignalNewWork

definition newEngine :: "nat \<Rightarrow> (peer \<Rightarrow> cid \<Rightarrow> bool) option \<Rightarrow> engine" where
  "newEngine maxReplaceSize pbrf =
     \<lparr>ledgerMap = fmempty, e_peerLedger = newPeerLedger, sendDontHaves = True,
      maxBlockSizeReplaceHasWithBlock = maxReplaceSize, peerBlockRequestFilter = pbrf\<rparr>"

definition SetSendDontHaves :: "bool \<Rightarrow> engine \<Rightarrow> engine" where
  "SetSendDontHaves send e = e\<lparr>sendDontHaves := send\<rparr>"

section \<open>Helpers\<close>

definition sendAsBlock :: "engine \<Rightarrow> want_type \<Rightarrow> nat \<Rightarrow> bool" where
  "sendAsBlock e wantType blockSize =
     (let isWantBlock = (wantType = Wantlist_Block)
      in isWantBlock \<or> blockSize \<le> maxBlockSizeReplaceHasWithBlock e)"

definition findOrCreate :: "peer \<Rightarrow> engine \<Rightarrow> ledger \<times> engine" where
  "findOrCreate p e =
     (case fmlookup (ledgerMap e) p of
        Some l \<Rightarrow> (l, e)
      | None \<Rightarrow> (newLedger p, e\<lparr>ledgerMap := fmupd p (newLedger p) (ledgerMap e)\<rparr>))"

definition splitWantsCancels :: "msg_entry list \<Rightarrow> msg_entry list \<times> msg_entry list" where
  "splitWantsCancels es = (filter (\<lambda>et. \<not> Cancel et) es, filter Cancel es)"

definition splitWantsDenials ::
  "engine \<Rightarrow> peer \<Rightarrow> msg_entry list \<Rightarrow> msg_entry list \<times> msg_entry list" where
  "splitWantsDenials e p allWants =
     (case peerBlockRequestFilter e of
        None \<Rightarrow> (allWants, [])
      | Some f \<Rightarrow> (filter (\<lambda>et. f p (Cid et)) allWants, filter (\<lambda>et. \<not> f p (Cid et)) allWants))"

section \<open>Messages from peers\<close>

text \<open>The tasks \<open>sendDontHave\<close> appends for an entry: none unless both sides want DONT_HAVEs.\<close>

definition sendDontHave :: "engine \<Rightarrow> msg_entry \<Rightarrow> task list" where
  "sendDontHave e entry =
     (if sendDontHaves e \<and> SendDontHave entry
      then [\<lparr>Topic = Cid entry, task_Priority = sint (Priority entry),
             Work = BlockPresenceSize (Cid entry),
             Data = \<lparr>IsWantBlock = (WantType entry = Wantlist_Block),
                     td_SendDontHave = SendDontHave entry, BlockSize = 0, HaveBlock = False\<rparr>\<rparr>]
      else [])"

definition foundTask :: "engine \<Rightarrow> msg_entry \<Rightarrow> nat \<Rightarrow> task" where
  "foundTask e entry blockSize =
     (let isWantBlock = sendAsBlock e (WantType entry) blockSize;
          entrySize = (if \<not> isWantBlock then BlockPresenceSize (Cid entry) else blockSize)
      in \<lparr>Topic = Cid entry, task_Priority = sint (Priority entry), Work = entrySize,
          Data = \<lparr>IsWantBlock = isWantBlock, td_SendDontHave = SendDontHave entry,
                  BlockSize = blockSize, HaveBlock = True\<rparr>\<rparr>)"

text \<open>Removing the cancelled keys from the ledger and, where they were wanted, from the queue.\<close>

definition cancelEntry ::
  "peer \<Rightarrow> msg_entry \<Rightarrow> ledger \<times> engine_call list \<Rightarrow> ledger \<times> engine_call list" where
  "cancelEntry p entry = (\<lambda>(l, calls).
     let (removed, l') = ledger_CancelWant (Cid entry) l
     in (l', if removed then calls @ [Queue_Remove (Cid entry) p] else calls))"

text \<open>The body of the loop over the wants: the ledger, then a task for the answer.\<close>

definition wantEntry ::
  "engine \<Rightarrow> (cid, nat) fmap \<Rightarrow> msg_entry \<Rightarrow> ledger \<times> task list \<Rightarrow> ledger \<times> task list" where
  "wantEntry e blockSizes entry = (\<lambda>(l, active).
     (ledger_Wants (Cid entry) (Priority entry) (WantType entry) l,
      case fmlookup blockSizes (Cid entry) of
        None \<Rightarrow> active @ sendDontHave e entry
      | Some blockSize \<Rightarrow> active @ [foundTask e entry blockSize]))"

definition MessageReceived ::
  "cid order \<Rightarrow> (cid \<Rightarrow> bool) \<Rightarrow> (cid \<Rightarrow> nat option) \<Rightarrow> peer \<Rightarrow> message \<Rightarrow> engine \<Rightarrow>
     engine \<times> engine_call list" where
  "MessageReceived ord accept getSize p m e =
     (let entries = msg_Wantlist ord m;
          (wants0, cancels) = splitWantsCancels entries;
          (wants, denials) = splitWantsDenials e p wants0;
          (blockSizes, ok) = getBlockSizes accept getSize (ord (fset_of_list (map Cid wants)))
      in if \<not> ok then (e, [])
         else
           let pl1 = fold (\<lambda>entry. pl_Wants p (Cid entry)) wants (e_peerLedger e);
               pl2 = fold (\<lambda>entry. pl_CancelWant p (Cid entry)) cancels pl1;
               (l0, e1) = findOrCreate p (e\<lparr>e_peerLedger := pl2\<rparr>);
               l1 = (if m_full m then l0\<lparr>wantList := wl_New\<rparr> else l0);
               (l2, removes) = fold (cancelEntry p) cancels (l1, []);
               denied = concat (map (sendDontHave e) denials);
               (l3, active) = fold (wantEntry e blockSizes) wants (l2, denied);
               newWorkExists = (active \<noteq> [])
           in (e1\<lparr>ledgerMap := fmupd p l3 (ledgerMap e1)\<rparr>,
               removes @ (if length active > 0 then [Queue_PushTasks p active, UpdateMetrics] else []) @
               (if newWorkExists then [SignalNewWork] else [])))"

section \<open>Blocks\<close>

definition ReceivedBlocks :: "peer \<Rightarrow> block list \<Rightarrow> engine \<Rightarrow> engine \<times> engine_call list" where
  "ReceivedBlocks from blks e =
     (if length blks = 0 then (e, [])
      else let (l, e') = findOrCreate from e
           in (e', map (\<lambda>blk. Score_AddToReceivedBytes (Partner l) (length (RawData blk))) blks))"

definition blockSizes_of :: "block list \<Rightarrow> (cid, nat) fmap" where
  "blockSizes_of blks = fold (\<lambda>b. fmupd (block_cid b) (length (RawData b))) blks fmempty"

definition addMissing :: "peer \<Rightarrow> cid \<Rightarrow> (peer, cid list) fmap \<Rightarrow> (peer, cid list) fmap" where
  "addMissing p k missing =
     fmupd p ((case fmlookup missing p of None \<Rightarrow> [] | Some ks \<Rightarrow> ks) @ [k]) missing"

text \<open>One peer that may want the block \<open>k\<close>: push a task, or note the index entry as stale.\<close>

definition notifyPeer ::
  "engine \<Rightarrow> (cid, nat) fmap \<Rightarrow> cid \<Rightarrow> peer \<Rightarrow>
     engine_call list \<times> (peer, cid list) fmap \<Rightarrow> engine_call list \<times> (peer, cid list) fmap" where
  "notifyPeer e blockSizes k p = (\<lambda>(calls, missing).
     case Option.bind (fmlookup (ledgerMap e) p) (WantListContains k) of
       None \<Rightarrow> (calls, addMissing p k missing)
     | Some entry \<Rightarrow>
         let blockSize = (case fmlookup blockSizes k of None \<Rightarrow> 0 | Some n \<Rightarrow> n);
             isWantBlock = sendAsBlock e (WantType entry) blockSize;
             entrySize = (if \<not> isWantBlock then BlockPresenceSize k else blockSize)
         in (calls @ [Queue_PushTasks p
               [\<lparr>Topic = Cid entry, task_Priority = sint (Priority entry), Work = entrySize,
                 Data = \<lparr>IsWantBlock = isWantBlock, td_SendDontHave = False,
                         BlockSize = blockSize, HaveBlock = True\<rparr>\<rparr>], UpdateMetrics],
             missing))"

definition notifyBlock ::
  "peer order \<Rightarrow> engine \<Rightarrow> (cid, nat) fmap \<Rightarrow> block \<Rightarrow>
     engine_call list \<times> (peer, cid list) fmap \<Rightarrow> engine_call list \<times> (peer, cid list) fmap" where
  "notifyBlock ord e blockSizes b =
     fold (notifyPeer e blockSizes (block_cid b)) (pl_Peers ord (block_cid b) (e_peerLedger e))"

text \<open>The stale entries are checked again and removed from the index.\<close>

definition dropMissing :: "engine \<Rightarrow> peer \<Rightarrow> cid list \<Rightarrow> peer_ledger \<Rightarrow> peer_ledger" where
  "dropMissing e p ks pl =
     (case fmlookup (ledgerMap e) p of
        Some l \<Rightarrow> fold (\<lambda>k pl. if WantListContains k l \<noteq> None then pl else pl_CancelWant p k pl) ks pl
      | None \<Rightarrow> fold (pl_CancelWant p) ks pl)"

definition NotifyNewBlocks :: "peer order \<Rightarrow> block list \<Rightarrow> engine \<Rightarrow> engine \<times> engine_call list" where
  "NotifyNewBlocks ord blks e =
     (if length blks = 0 then (e, [])
      else
        let (calls, missing) = fold (notifyBlock ord e (blockSizes_of blks)) blks ([], fmempty);
            pl = fold (\<lambda>p pl. dropMissing e p (the (fmlookup missing p)) pl)
                   (ord (fmdom missing)) (e_peerLedger e)
        in (e\<lparr>e_peerLedger := pl\<rparr>, calls @ (if calls \<noteq> [] then [SignalNewWork] else [])))"

section \<open>Sent messages and connections\<close>

definition sentPresence :: "cid \<times> presence_type \<Rightarrow> wantlist \<Rightarrow> wantlist" where
  "sentPresence = (\<lambda>(c, t) w. if t = Presence_Have then snd (wl_RemoveType c Wantlist_Have w) else w)"

definition MessageSent :: "cid order \<Rightarrow> peer \<Rightarrow> message \<Rightarrow> engine \<Rightarrow> engine \<times> engine_call list" where
  "MessageSent ord p m e =
     (let (l, e1) = findOrCreate p e;
          w1 = fold (\<lambda>b w. snd (wl_RemoveType (block_cid b) Wantlist_Block w)) (Blocks ord m) (wantList l);
          w2 = fold sentPresence (BlockPresences ord m) w1
      in (e1\<lparr>ledgerMap := fmupd p (l\<lparr>wantList := w2\<rparr>) (ledgerMap e1)\<rparr>,
          map (\<lambda>b. Score_AddToSentBytes (Partner l) (length (RawData b))) (Blocks ord m)))"

definition PeerConnected :: "peer \<Rightarrow> engine \<Rightarrow> engine \<times> engine_call list" where
  "PeerConnected p e =
     ((case fmlookup (ledgerMap e) p of
         Some _ \<Rightarrow> e
       | None \<Rightarrow> e\<lparr>ledgerMap := fmupd p (newLedger p) (ledgerMap e)\<rparr>),
      [Score_PeerConnected p])"

definition PeerDisconnected :: "cid order \<Rightarrow> peer \<Rightarrow> engine \<Rightarrow> engine \<times> engine_call list" where
  "PeerDisconnected ord p e =
     (let pl = (case fmlookup (ledgerMap e) p of
                  None \<Rightarrow> e_peerLedger e
                | Some l \<Rightarrow> fold (\<lambda>entry. pl_CancelWant p (Cid entry)) (fst (ledger_Entries ord l))
                              (e_peerLedger e))
      in (e\<lparr>e_peerLedger := pl, ledgerMap := fmdrop p (ledgerMap e)\<rparr>, [Score_PeerDisconnected p]))"

definition Peers :: "peer order \<Rightarrow> engine \<Rightarrow> peer list" where
  "Peers ord e = map Partner (range_values ord (ledgerMap e))"

definition WantlistForPeer :: "cid order \<Rightarrow> peer \<Rightarrow> engine \<Rightarrow> wl_entry list \<times> engine" where
  "WantlistForPeer ord p e =
     (let (l, e1) = findOrCreate p e; (es, l') = ledger_Entries ord l
      in (es, e1\<lparr>ledgerMap := fmupd p l' (ledgerMap e1)\<rparr>))"

section \<open>Envelopes\<close>

text \<open>
  What \<open>PopTasks\<close> returns: a peer, its tasks and the bytes still pending for it. While the
  tasks are empty a worker waits for the work signal, the ticker (which thaws the queue
  first) or the end of its context. A round is the pop at the head of the outer loop with
  the wake-ups of the inner one; the queue and the channels decide them.
\<close>

type_synonym pop = "peer \<times> task list \<times> nat"

datatype wake = Wake_Signal pop | Wake_Tick pop | Wake_Done

record envelope =
  env_Peer :: peer
  env_Message :: message
  env_Sent :: "engine_call list"

datatype wait_result = Waiting | Cancelled | Popped pop
datatype envelope_result = Env_Waiting | Env_Error | Env_Ready envelope

fun waitTasks :: "pop \<Rightarrow> wake list \<Rightarrow> engine_call list \<times> wait_result" where
  "waitTasks (p, [], n) [] = ([], Waiting)"
| "waitTasks (p, [], n) (Wake_Done # ws) = ([], Cancelled)"
| "waitTasks (p, [], n) (Wake_Signal r # ws) =
     (let (calls, res) = waitTasks r ws in (UpdateMetrics # calls, res))"
| "waitTasks (p, [], n) (Wake_Tick r # ws) =
     (let (calls, res) = waitTasks r ws in (Queue_ThawRound # UpdateMetrics # calls, res))"
| "waitTasks (p, t # ts, n) ws = ([], Popped (p, t # ts, n))"

text \<open>The split of the popped tasks: the message with the presences, the wanted blocks.\<close>

definition splitTask ::
  "task \<Rightarrow> message \<times> cid list \<times> (cid, taskData) fmap \<Rightarrow> message \<times> cid list \<times> (cid, taskData) fmap" where
  "splitTask t = (\<lambda>(msg, blockCids, blockTasks).
     let c = Topic t; td = Data t
     in if HaveBlock td then
          if IsWantBlock td then (msg, blockCids @ [c], fmupd c td blockTasks)
          else (AddHave c msg, blockCids, blockTasks)
        else (AddDontHave c msg, blockCids, blockTasks))"

definition addFetched :: "(cid, block) fmap \<Rightarrow> (cid, taskData) fmap \<Rightarrow> cid \<Rightarrow> message \<Rightarrow> message" where
  "addFetched blks blockTasks c msg =
     (case fmlookup blks c of
        None \<Rightarrow> (case fmlookup blockTasks c of
                   Some t \<Rightarrow> if td_SendDontHave t then AddDontHave c msg else msg
                 | None \<Rightarrow> msg)
      | Some blk \<Rightarrow> AddBlock blk msg)"

definition envelopeMessage ::
  "cid order \<Rightarrow> (cid \<Rightarrow> bool) \<Rightarrow> (cid \<Rightarrow> block option) \<Rightarrow> task list \<Rightarrow> nat \<Rightarrow> message option" where
  "envelopeMessage ord accept get nextTasks pendingBytes =
     (let msg0 = SetPendingBytes (of_nat pendingBytes) (newMsg False);
          (msg1, blockCids, blockTasks) = fold splitTask nextTasks (msg0, [], fmempty);
          (blks, ok) = getBlocks accept get blockCids
      in if \<not> ok then None
         else Some (fold (addFetched blks blockTasks) (ord (fmdom blockTasks)) msg1))"

fun nextEnvelope ::
  "cid order \<Rightarrow> (cid \<Rightarrow> bool) \<Rightarrow> (cid \<Rightarrow> block option) \<Rightarrow> (pop \<times> wake list) list \<Rightarrow>
     engine_call list \<times> envelope_result" where
  "nextEnvelope ord accept get [] = ([], Env_Waiting)"
| "nextEnvelope ord accept get ((first, wakes) # rounds) =
     (let (calls, res) = waitTasks first wakes in
      case res of
        Waiting \<Rightarrow> (UpdateMetrics # calls, Env_Waiting)
      | Cancelled \<Rightarrow> (UpdateMetrics # calls, Env_Error)
      | Popped (p, nextTasks, pendingBytes) \<Rightarrow>
          (case envelopeMessage ord accept get nextTasks pendingBytes of
             None \<Rightarrow> (UpdateMetrics # calls, Env_Error)
           | Some msg \<Rightarrow>
               if msg_Empty msg then
                 (let (calls', res') = nextEnvelope ord accept get rounds
                  in (UpdateMetrics # calls @ Queue_TasksDone p nextTasks # calls', res'))
               else
                 (UpdateMetrics # calls,
                  Env_Ready \<lparr>env_Peer = p, env_Message = msg,
                             env_Sent = [Queue_TasksDone p nextTasks, SignalNewWork]\<rparr>)))"

end
