(* ===== verification/Engine_Props.thy ===== *)
theory Engine_Props
  imports Engine
begin

text \<open>
  Properties of the decision engine: the invariant that ties the ledgers to the index, the
  effect of each operation on the want lists, the tasks it pushes, the contents of the
  envelopes. \<open>e_wants e p k\<close> reads what the ledger of \<open>p\<close> says of the key \<open>k\<close>.
\<close>

section \<open>What the ledgers say\<close>

definition e_wants :: "engine \<Rightarrow> peer \<Rightarrow> cid \<Rightarrow> wl_entry option" where
  "e_wants e p k = Option.bind (fmlookup (ledgerMap e) p) (WantListContains k)"

definition ledger_ok :: "peer \<Rightarrow> ledger \<Rightarrow> bool" where
  "ledger_ok p l \<longleftrightarrow> Partner l = p \<and> wl_inv (wantList l)"

definition engine_inv :: "engine \<Rightarrow> bool" where
  "engine_inv e \<longleftrightarrow> fmpred ledger_ok (ledgerMap e) \<and> no_empty (e_peerLedger e) \<and>
     (\<forall>p k. e_wants e p k \<noteq> None \<longrightarrow> p |\<in>| members (e_peerLedger e) k)"

lemma engine_invI:
  assumes "\<And>p l. fmlookup (ledgerMap e) p = Some l \<Longrightarrow> ledger_ok p l"
    and "no_empty (e_peerLedger e)"
    and "\<And>p k. e_wants e p k \<noteq> None \<Longrightarrow> p |\<in>| members (e_peerLedger e) k"
  shows "engine_inv e"
  using assms unfolding engine_inv_def by (intro conjI fmpredI) auto

lemma engine_inv_ledgerD: "engine_inv e \<Longrightarrow> fmlookup (ledgerMap e) p = Some l \<Longrightarrow> ledger_ok p l"
  by (auto simp: engine_inv_def fmpred_iff)

lemma engine_inv_cleanD: "engine_inv e \<Longrightarrow> no_empty (e_peerLedger e)"
  by (simp add: engine_inv_def)

lemma engine_inv_indexD: "engine_inv e \<Longrightarrow> e_wants e p k = Some x \<Longrightarrow> p |\<in>| members (e_peerLedger e) k"
  by (simp add: engine_inv_def)

lemma engine_inv_wants_cid: "engine_inv e \<Longrightarrow> e_wants e p k = Some x \<Longrightarrow> Cid x = k"
  by (auto simp: e_wants_def WantListContains_def ledger_ok_def Option.bind_eq_Some_conv
      dest!: engine_inv_ledgerD intro: wl_inv_keyed)

lemma ledger_ok_new [intro, simp]: "ledger_ok p (newLedger p)"
  by (simp add: ledger_ok_def newLedger_def wl_inv_New)

lemma WantListContains_new [simp]: "WantListContains k (newLedger p) = None"
  by (simp add: WantListContains_def newLedger_def)

lemma engine_inv_newEngine: "engine_inv (newEngine n f)"
  by (rule engine_invI) (auto simp: newEngine_def newPeerLedger_def e_wants_def intro: no_emptyI)

section \<open>The entries of a message\<close>

lemma set_msg_Wantlist:
  "go_range ord \<Longrightarrow> msg_inv m \<Longrightarrow> en \<in> set (msg_Wantlist ord m) \<longleftrightarrow> fmlookup (m_wantlist m) (Cid en) = Some en"
  by (auto simp: msg_Wantlist_def set_range_values dest: msg_inv_entryD)

lemma Cid_msg_Wantlist:
  assumes "go_range ord" "msg_inv m"
  shows "map Cid (msg_Wantlist ord m) = ord (fmdom (m_wantlist m))"
proof -
  have "Cid (the (fmlookup (m_wantlist m) k)) = k" if "k \<in> set (ord (fmdom (m_wantlist m)))" for k
    using that msg_inv_entryD [OF assms(2), of k]
    by (auto simp: go_range.ord_set [OF assms(1)] fmlookup_dom_iff)
  then show ?thesis
    by (auto simp: msg_Wantlist_def range_values_eq [OF assms(1)] intro: map_idI)
qed

lemma distinct_msg_Wantlist:
  "go_range ord \<Longrightarrow> msg_inv m \<Longrightarrow> distinct (map Cid (msg_Wantlist ord m))"
  by (simp add: Cid_msg_Wantlist go_range.ord_distinct)

section \<open>The loops of a message\<close>

definition wantTasks :: "engine \<Rightarrow> (cid, nat) fmap \<Rightarrow> msg_entry \<Rightarrow> task list" where
  "wantTasks e blockSizes en =
     (case fmlookup blockSizes (Cid en) of None \<Rightarrow> sendDontHave e en | Some n \<Rightarrow> [foundTask e en n])"

lemma fold_wantEntry:
  "fold (wantEntry e bs) ws (l, a) =
     (fold (\<lambda>en. ledger_Wants (Cid en) (Priority en) (WantType en)) ws l,
      a @ concat (map (wantTasks e bs) ws))"
  by (induction ws arbitrary: l a) (auto simp: wantEntry_def wantTasks_def split: option.splits)

lemma fold_ledger_Wants:
  "fold (\<lambda>en. ledger_Wants (Cid en) (Priority en) (WantType en)) ws l =
     l\<lparr>wantList := wl_add_all (map wl_entry.truncate ws) (wantList l)\<rparr>"
  by (induction ws arbitrary: l) (auto simp: ledger_Wants_def wl_add_all_def wl_entry.truncate_def)

lemma fold_cancelEntry_ledger:
  "fst (fold (cancelEntry p) cs (l, calls)) =
     l\<lparr>wantList := fold (\<lambda>en w. snd (wl_Remove (Cid en) w)) cs (wantList l)\<rparr>"
  by (induction cs arbitrary: l calls)
    (auto simp: cancelEntry_def ledger_CancelWant_def Let_def split_beta)

lemma wl_Contains_fold_Remove:
  "wl_Contains k (fold (\<lambda>en w. snd (wl_Remove (Cid en) w)) cs w) =
     (if k \<in> Cid ` set cs then None else wl_Contains k w)"
  by (induction cs arbitrary: w) (auto simp: wl_Contains_Remove)

lemma fold_cancelEntry_calls:
  "distinct (map Cid cs) \<Longrightarrow>
   snd (fold (cancelEntry p) cs (l, calls)) =
     calls @ map (\<lambda>en. Queue_Remove (Cid en) p) (filter (\<lambda>en. WantListContains (Cid en) l \<noteq> None) cs)"
proof (induction cs arbitrary: l calls)
  case Nil
  then show ?case by simp
next
  case (Cons c cs)
  let ?l = "snd (ledger_CancelWant (Cid c) l)"
  have same: "WantListContains k ?l = WantListContains k l" if "k \<noteq> Cid c" for k
    using that by (simp add: ledger_CancelWant_def WantListContains_def split_beta wl_Contains_Remove)
  have "filter (\<lambda>en. WantListContains (Cid en) ?l \<noteq> None) cs = filter (\<lambda>en. WantListContains (Cid en) l \<noteq> None) cs"
  proof (rule filter_cong [OF refl])
    fix en assume "en \<in> set cs"
    then have "Cid en \<noteq> Cid c"
      using Cons.prems by (auto simp: image_iff)
    then show "(WantListContains (Cid en) ?l \<noteq> None) = (WantListContains (Cid en) l \<noteq> None)"
      by (simp add: same)
  qed
  moreover have "fst (ledger_CancelWant (Cid c) l) = (WantListContains (Cid c) l \<noteq> None)"
    by (auto simp: ledger_CancelWant_def WantListContains_def wl_Remove_def wl_Contains_def split_beta
        split: option.splits)
  ultimately show ?case
    using Cons by (auto simp: cancelEntry_def split_beta Let_def)
qed

text \<open>The wants of a message the engine admits, those it denies, and the cancels.\<close>

definition admits :: "engine \<Rightarrow> peer \<Rightarrow> cid \<Rightarrow> bool" where
  "admits e p k = (case peerBlockRequestFilter e of None \<Rightarrow> True | Some f \<Rightarrow> f p k)"

lemma splitWantsDenials_eq:
  "splitWantsDenials e p ws =
     (filter (\<lambda>en. admits e p (Cid en)) ws, filter (\<lambda>en. \<not> admits e p (Cid en)) ws)"
  by (auto simp: splitWantsDenials_def admits_def split: option.splits)

definition requested :: "message \<Rightarrow> cid \<Rightarrow> msg_entry option" where
  "requested m k =
     (case fmlookup (m_wantlist m) k of Some en \<Rightarrow> if Cancel en then None else Some en | None \<Rightarrow> None)"

definition cancelled :: "message \<Rightarrow> cid \<Rightarrow> bool" where
  "cancelled m k = (case fmlookup (m_wantlist m) k of Some en \<Rightarrow> Cancel en | None \<Rightarrow> False)"

definition admitted_list :: "cid order \<Rightarrow> peer \<Rightarrow> message \<Rightarrow> engine \<Rightarrow> msg_entry list" where
  "admitted_list ord p m e = filter (\<lambda>en. admits e p (Cid en)) (filter (\<lambda>en. \<not> Cancel en) (msg_Wantlist ord m))"

definition denied_list :: "cid order \<Rightarrow> peer \<Rightarrow> message \<Rightarrow> engine \<Rightarrow> msg_entry list" where
  "denied_list ord p m e = filter (\<lambda>en. \<not> admits e p (Cid en)) (filter (\<lambda>en. \<not> Cancel en) (msg_Wantlist ord m))"

definition cancel_list :: "cid order \<Rightarrow> message \<Rightarrow> msg_entry list" where
  "cancel_list ord m = filter Cancel (msg_Wantlist ord m)"


lemma requested_list:
  assumes "go_range ord" "msg_inv m"
  shows "en \<in> set (admitted_list ord p m e) \<longleftrightarrow> requested m (Cid en) = Some en \<and> admits e p (Cid en)"
    and "en \<in> set (denied_list ord p m e) \<longleftrightarrow> requested m (Cid en) = Some en \<and> \<not> admits e p (Cid en)"
  using assms
  by (auto simp: admitted_list_def denied_list_def set_msg_Wantlist requested_def split: option.splits if_splits)

lemma requested_cid: "msg_inv m \<Longrightarrow> requested m k = Some en \<Longrightarrow> Cid en = k"
  by (auto simp: requested_def intro: msg_inv_entryD split: option.splits if_splits)

lemma cancel_list_cids:
  assumes "go_range ord" "msg_inv m"
  shows "k \<in> Cid ` set (cancel_list ord m) \<longleftrightarrow> cancelled m k"
proof
  assume "cancelled m k"
  then obtain en where "fmlookup (m_wantlist m) k = Some en" "Cancel en"
    by (auto simp: cancelled_def split: option.splits)
  then show "k \<in> Cid ` set (cancel_list ord m)"
    using msg_inv_entryD [OF assms(2)] set_msg_Wantlist [OF assms] by (force simp: cancel_list_def)
qed (auto simp: cancel_list_def set_msg_Wantlist [OF assms] cancelled_def)

lemma admitted_cids:
  assumes "go_range ord" "msg_inv m"
  shows "k \<in> Cid ` set (admitted_list ord p m e) \<longleftrightarrow> requested m k \<noteq> None \<and> admits e p k"
proof
  assume "requested m k \<noteq> None \<and> admits e p k"
  then obtain en where "requested m k = Some en" "admits e p k" "Cid en = k"
    using requested_cid [OF assms(2)] by auto
  then show "k \<in> Cid ` set (admitted_list ord p m e)"
    using requested_list [OF assms] by force
qed (auto simp: requested_list [OF assms])

lemma distinct_cid_filter: "distinct (map Cid xs) \<Longrightarrow> distinct (map Cid (filter P xs))"
  by (induction xs) auto

lemma distinct_lists:
  assumes "go_range ord" "msg_inv m"
  shows "distinct (map Cid (admitted_list ord p m e))" "distinct (map Cid (denied_list ord p m e))"
    "distinct (map Cid (cancel_list ord m))"
  using distinct_msg_Wantlist [OF assms]
  by (simp_all add: admitted_list_def denied_list_def cancel_list_def distinct_cid_filter del: filter_filter)

section \<open>MessageReceived in closed form\<close>

definition ledger_of :: "peer \<Rightarrow> engine \<Rightarrow> ledger" where
  "ledger_of p e = (case fmlookup (ledgerMap e) p of Some l \<Rightarrow> l | None \<Rightarrow> newLedger p)"

lemma findOrCreate_eq:
  "findOrCreate p e = (ledger_of p e, e\<lparr>ledgerMap := fmupd p (ledger_of p e) (ledgerMap e)\<rparr>)"
proof (cases "fmlookup (ledgerMap e) p")
  case (Some l)
  then have "fmupd p l (ledgerMap e) = ledgerMap e"
    by (intro fmap_eqI) auto
  with Some show ?thesis
    by (simp add: findOrCreate_def ledger_of_def)
qed (simp add: findOrCreate_def ledger_of_def)

lemma ledger_of_ok: "engine_inv e \<Longrightarrow> ledger_ok p (ledger_of p e)"
  by (auto simp: ledger_of_def dest: engine_inv_ledgerD split: option.splits)

lemma WantListContains_ledger_of: "WantListContains k (ledger_of p e) = e_wants e p k"
  by (auto simp: ledger_of_def e_wants_def split: option.splits)

definition received_ledger :: "cid order \<Rightarrow> peer \<Rightarrow> message \<Rightarrow> engine \<Rightarrow> ledger" where
  "received_ledger ord p m e =
     (let w0 = (if m_full m then wl_New else wantList (ledger_of p e));
          w1 = fold (\<lambda>en w. snd (wl_Remove (Cid en) w)) (cancel_list ord m) w0
      in (ledger_of p e)\<lparr>wantList := wl_add_all (map wl_entry.truncate (admitted_list ord p m e)) w1\<rparr>)"

definition received_index :: "cid order \<Rightarrow> peer \<Rightarrow> message \<Rightarrow> engine \<Rightarrow> peer_ledger" where
  "received_index ord p m e =
     fold (\<lambda>en. pl_CancelWant p (Cid en)) (cancel_list ord m)
       (fold (\<lambda>en. pl_Wants p (Cid en)) (admitted_list ord p m e) (e_peerLedger e))"

definition admitted_sizes ::
  "cid order \<Rightarrow> (cid \<Rightarrow> bool) \<Rightarrow> (cid \<Rightarrow> nat option) \<Rightarrow> peer \<Rightarrow> message \<Rightarrow> engine \<Rightarrow> (cid, nat) fmap \<times> bool" where
  "admitted_sizes ord accept getSize p m e =
     getBlockSizes accept getSize (ord (fset_of_list (map Cid (admitted_list ord p m e))))"

definition received_tasks ::
  "cid order \<Rightarrow> (cid \<Rightarrow> bool) \<Rightarrow> (cid \<Rightarrow> nat option) \<Rightarrow> peer \<Rightarrow> message \<Rightarrow> engine \<Rightarrow> task list" where
  "received_tasks ord accept getSize p m e =
     concat (map (sendDontHave e) (denied_list ord p m e)) @
     concat (map (wantTasks e (fst (admitted_sizes ord accept getSize p m e))) (admitted_list ord p m e))"

lemma MessageReceived_state:
  "fst (MessageReceived ord accept getSize p m e) =
     (if snd (admitted_sizes ord accept getSize p m e)
      then e\<lparr>ledgerMap := fmupd p (received_ledger ord p m e) (ledgerMap e),
             e_peerLedger := received_index ord p m e\<rparr>
      else e)"
proof -
  have upd: "fmupd p x (fmupd p y mm) = fmupd p x mm" for x y :: ledger and mm
    by (rule fmap_eqI) simp
  have lo: "ledger_of p (e\<lparr>e_peerLedger := pl\<rparr>) = ledger_of p e" for pl
    by (simp add: ledger_of_def)
  show ?thesis
    by (simp add: MessageReceived_def splitWantsCancels_def splitWantsDenials_eq findOrCreate_eq
        fold_wantEntry fold_ledger_Wants fold_cancelEntry_ledger split_beta Let_def upd lo
        del: filter_filter fset_of_list_map fset_of_list_filter flip: admitted_list_def denied_list_def cancel_list_def admitted_sizes_def)
      (simp add: received_ledger_def received_index_def Let_def fold_cancelEntry_ledger)
qed


lemma MessageReceived_calls:
  assumes "go_range ord" "msg_inv m"
  shows "snd (MessageReceived ord accept getSize p m e) =
     (if snd (admitted_sizes ord accept getSize p m e)
      then map (\<lambda>en. Queue_Remove (Cid en) p)
             (filter (\<lambda>en. \<not> m_full m \<and> e_wants e p (Cid en) \<noteq> None) (cancel_list ord m)) @
           (if received_tasks ord accept getSize p m e = [] then []
            else [Queue_PushTasks p (received_tasks ord accept getSize p m e), UpdateMetrics, SignalNewWork])
      else [])"
proof -
  have lo: "ledger_of p (e\<lparr>e_peerLedger := pl\<rparr>) = ledger_of p e" for pl
    by (simp add: ledger_of_def)
  have new: "WantListContains k (l\<lparr>wantList := wl_New\<rparr>) = None" for k and l :: ledger
    by (simp add: WantListContains_def)
  show ?thesis
    using distinct_lists(3) [OF assms]
    by (simp add: MessageReceived_def splitWantsCancels_def splitWantsDenials_eq findOrCreate_eq
        fold_wantEntry fold_ledger_Wants fold_cancelEntry_calls split_beta Let_def lo
        del: filter_filter fset_of_list_map fset_of_list_filter concat_eq_Nil_conv
        flip: admitted_list_def denied_list_def cancel_list_def admitted_sizes_def)
      (auto simp add: received_tasks_def new WantListContains_ledger_of simp del: filter_filter concat_eq_Nil_conv)
qed

lemma admitted_sizes_ok:
  assumes "go_range ord" "msg_inv m" "\<And>k. accept k"
  shows "snd (admitted_sizes ord accept getSize p m e)"
    and "fmlookup (fst (admitted_sizes ord accept getSize p m e)) k =
      (if requested m k \<noteq> None \<and> admits e p k then getSize k else None)"
proof -
  let ?ks = "ord (fset_of_list (map Cid (admitted_list ord p m e)))"
  have set: "set ?ks = Cid ` set (admitted_list ord p m e)"
    by (simp add: go_range.ord_set [OF assms(1)] fset_of_list.rep_eq del: fset_of_list_map)
  show ok: "snd (admitted_sizes ord accept getSize p m e)"
    by (simp add: admitted_sizes_def getBlockSizes_def split_beta jobPerKey_refused assms(3))
  then have "getBlockSizes accept getSize ?ks = (fst (admitted_sizes ord accept getSize p m e), True)"
    by (simp add: admitted_sizes_def prod_eq_iff)
  from getBlockSizes_ok [OF this, of k]
  show "fmlookup (fst (admitted_sizes ord accept getSize p m e)) k =
      (if requested m k \<noteq> None \<and> admits e p k then getSize k else None)"
    unfolding set admitted_cids [OF assms(1,2)] .
qed

text \<open>The answer a want gets: the block or a HAVE when it is there, or else a DONT_HAVE.\<close>

definition answer :: "engine \<Rightarrow> (cid \<Rightarrow> nat option) \<Rightarrow> peer \<Rightarrow> msg_entry \<Rightarrow> task list" where
  "answer e getSize p en =
     (case (if admits e p (Cid en) then getSize (Cid en) else None) of
        Some n \<Rightarrow> [foundTask e en n]
      | None \<Rightarrow> sendDontHave e en)"

text \<open>The same as a condition on the task, spelt out field by field.\<close>

definition answers_want :: "engine \<Rightarrow> (cid \<Rightarrow> nat option) \<Rightarrow> peer \<Rightarrow> msg_entry \<Rightarrow> task \<Rightarrow> bool" where
  "answers_want e getSize p en t \<longleftrightarrow>
     Topic t = Cid en \<and> task_Priority t = sint (Priority en) \<and> td_SendDontHave (Data t) = SendDontHave en \<and>
     (case (if admits e p (Cid en) then getSize (Cid en) else None) of
        Some n \<Rightarrow> HaveBlock (Data t) \<and> BlockSize (Data t) = n \<and>
          (IsWantBlock (Data t) \<longleftrightarrow> WantType en = Wantlist_Block \<or> n \<le> maxBlockSizeReplaceHasWithBlock e) \<and>
          Work t = (if IsWantBlock (Data t) then n else BlockPresenceSize (Cid en))
      | None \<Rightarrow> sendDontHaves e \<and> SendDontHave en \<and> \<not> HaveBlock (Data t) \<and> BlockSize (Data t) = 0 \<and>
          (IsWantBlock (Data t) \<longleftrightarrow> WantType en = Wantlist_Block) \<and> Work t = BlockPresenceSize (Cid en))"

lemma answers_want_iff: "t \<in> set (answer e getSize p en) \<longleftrightarrow> answers_want e getSize p en t"
proof -
  have eq: "t = \<lparr>Topic = a, task_Priority = b, Work = w, Data = \<lparr>IsWantBlock = i, td_SendDontHave = d, BlockSize = n, HaveBlock = h\<rparr>\<rparr>
      \<longleftrightarrow> Topic t = a \<and> task_Priority t = b \<and> Work t = w \<and> IsWantBlock (Data t) = i \<and> td_SendDontHave (Data t) = d \<and>
          BlockSize (Data t) = n \<and> HaveBlock (Data t) = h" for a b w i d n h
    by (cases t) (auto intro: taskData.equality)
  show ?thesis
    by (cases "if admits e p (Cid en) then getSize (Cid en) else None")
      (auto simp: answer_def answers_want_def foundTask_def sendDontHave_def sendAsBlock_def Let_def eq)
qed

lemma answer_topic: "t \<in> set (answer e getSize p en) \<Longrightarrow> Topic t = Cid en"
  by (auto simp: answer_def foundTask_def sendDontHave_def Let_def split: option.splits if_splits)

lemma length_answer: "length (answer e getSize p en) \<le> 1"
  by (auto simp: answer_def sendDontHave_def split: option.splits)

lemma received_tasks_answers:
  assumes "go_range ord" "msg_inv m" "\<And>k. accept k"
  shows "received_tasks ord accept getSize p m e =
     concat (map (answer e getSize p) (denied_list ord p m e @ admitted_list ord p m e))"
proof -
  have "sendDontHave e en = answer e getSize p en" if "en \<in> set (denied_list ord p m e)" for en
    using that by (simp add: requested_list [OF assms(1,2)] answer_def)
  moreover have "wantTasks e (fst (admitted_sizes ord accept getSize p m e)) en = answer e getSize p en"
    if "en \<in> set (admitted_list ord p m e)" for en
    using that by (simp add: requested_list [OF assms(1,2)] answer_def wantTasks_def admitted_sizes_ok [OF assms])
  ultimately show ?thesis
    by (simp add: received_tasks_def cong: map_cong)
qed

lemma distinct_topics:
  "distinct (map Cid es) \<Longrightarrow> distinct (map Topic (concat (map (answer e getSize p) es)))"
proof (induction es)
  case (Cons en es)
  have "distinct (map Topic (answer e getSize p en))"
    using length_answer [of e getSize p en] by (cases "answer e getSize p en") auto
  moreover have "Topic ` set (answer e getSize p en) \<inter> Topic ` (\<Union>x\<in>set es. set (answer e getSize p x)) = {}"
    using Cons.prems by (auto dest!: answer_topic) (metis image_eqI)
  ultimately show ?case
    using Cons by simp
qed simp


section \<open>The want lists after each operation\<close>

lemma e_wants_upd:
  "e_wants (e\<lparr>ledgerMap := fmupd p l (ledgerMap e)\<rparr>) q k =
     (if q = p then WantListContains k l else e_wants e q k)"
  "e_wants (e\<lparr>ledgerMap := fmdrop p (ledgerMap e)\<rparr>) q k = (if q = p then None else e_wants e q k)"
  "e_wants (e\<lparr>e_peerLedger := pl\<rparr>) q k = e_wants e q k"
  by (auto simp: e_wants_def)

lemma truncate_cid [simp]: "Cid (wl_entry.truncate en) = Cid en"
  "WantType (wl_entry.truncate en) = WantType en" "Priority (wl_entry.truncate en) = Priority en"
  by (simp_all add: wl_entry.truncate_def)

lemma WantListContains_received:
  assumes "go_range ord" "msg_inv m"
  shows "WantListContains k (received_ledger ord p m e) =
     stronger_entry (if m_full m \<or> cancelled m k then None else e_wants e p k)
       (if admits e p k then map_option wl_entry.truncate (requested m k) else None)"
proof -
  let ?es = "map wl_entry.truncate (admitted_list ord p m e)"
  define w1 where "w1 = fold (\<lambda>en w. snd (wl_Remove (Cid en) w)) (cancel_list ord m)
    (if m_full m then wl_New else wantList (ledger_of p e))"
  have w1: "wl_Contains k w1 = (if m_full m \<or> cancelled m k then None else e_wants e p k)"
    using WantListContains_ledger_of [of k p e]
    by (simp add: w1_def wl_Contains_fold_Remove cancel_list_cids [OF assms] WantListContains_def)
  have res: "WantListContains k (received_ledger ord p m e) = wl_Contains k (wl_add_all ?es w1)"
    by (simp add: received_ledger_def w1_def WantListContains_def Let_def)
  have dist: "distinct (map Cid ?es)"
    using distinct_lists(1) [OF assms] by (simp add: comp_def)
  show ?thesis
  proof (cases "requested m k \<noteq> None \<and> admits e p k")
    case True
    then obtain en where en: "requested m k = Some en" "Cid en = k" "admits e p k"
      using requested_cid [OF assms(2)] by auto
    then have "wl_entry.truncate en \<in> set ?es"
      using requested_list [OF assms] by auto
    from wl_Contains_add_all_in [OF dist this, of w1] show ?thesis
      using en w1 res by simp
  next
    case False
    then have "k \<notin> Cid ` set ?es"
      using admitted_cids [OF assms, of k p e] by (simp add: image_image)
    then show ?thesis
      using False w1 res by (auto simp: wl_Contains_add_all_notin stronger_entry_def split: option.splits)
  qed
qed

lemma received_ledger_ok: "engine_inv e \<Longrightarrow> ledger_ok p (received_ledger ord p m e)"
  using ledger_of_ok [of e p]
  by (auto simp: ledger_ok_def received_ledger_def Let_def
      intro!: wl_inv_add_all fold_invariant [where P = wl_inv] wl_inv_Remove wl_inv_New)

lemma received_index_members:
  assumes "go_range ord" "msg_inv m"
  shows "q |\<in>| members (received_index ord p m e) k \<longleftrightarrow>
     (q |\<in>| members (e_peerLedger e) k \<or> (q = p \<and> requested m k \<noteq> None \<and> admits e p k)) \<and>
     \<not> (q = p \<and> cancelled m k)"
  by (simp add: received_index_def pl_index.peers_ins_all pl_index.peers_del_all
      cancel_list_cids [OF assms] admitted_cids [OF assms])

lemma received_index_clean: "no_empty (e_peerLedger e) \<Longrightarrow> no_empty (received_index ord p m e)"
  by (simp add: received_index_def pl_index.clean_ins_all pl_index.clean_del_all)

lemma requested_cancelled: "requested m k \<noteq> None \<Longrightarrow> \<not> cancelled m k"
  by (auto simp: requested_def cancelled_def split: option.splits if_splits)

lemma engine_inv_MessageReceived [inv_intros]:
  assumes "go_range ord" "msg_inv m" "engine_inv e"
  shows "engine_inv (fst (MessageReceived ord accept getSize p m e))"
proof (cases "snd (admitted_sizes ord accept getSize p m e)")
  case True
  let ?e = "e\<lparr>ledgerMap := fmupd p (received_ledger ord p m e) (ledgerMap e),
      e_peerLedger := received_index ord p m e\<rparr>"
  have wants: "e_wants ?e q k = (if q = p then WantListContains k (received_ledger ord p m e) else e_wants e q k)"
    for q k by (simp add: e_wants_def)
  have "engine_inv ?e"
  proof (rule engine_invI)
    show "ledger_ok q l" if "fmlookup (ledgerMap ?e) q = Some l" for q l
      using that received_ledger_ok [OF assms(3)] engine_inv_ledgerD [OF assms(3)]
      by (auto split: if_splits)
    show "no_empty (e_peerLedger ?e)"
      using received_index_clean [OF engine_inv_cleanD [OF assms(3)]] by simp
    show "q |\<in>| members (e_peerLedger ?e) k" if "e_wants ?e q k \<noteq> None" for q k
      using that engine_inv_indexD [OF assms(3)] requested_cancelled [of m k]
      by (auto simp: wants WantListContains_received [OF assms(1,2)] received_index_members [OF assms(1,2)]
          stronger_entry_def split: if_splits option.splits)
  qed
  then show ?thesis
    using True by (simp add: MessageReceived_state)
next
  case False
  then show ?thesis
    using assms by (simp add: MessageReceived_state)
qed

lemma engine_inv_keep:
  assumes "engine_inv e" "ledger_ok p l"
    and "\<And>k x. WantListContains k l = Some x \<Longrightarrow> e_wants e p k \<noteq> None"
  shows "engine_inv (e\<lparr>ledgerMap := fmupd p l (ledgerMap e)\<rparr>)"
proof (rule engine_invI)
  show "ledger_ok q l'" if "fmlookup (ledgerMap (e\<lparr>ledgerMap := fmupd p l (ledgerMap e)\<rparr>)) q = Some l'" for q l'
    using that assms(2) engine_inv_ledgerD [OF assms(1)] by (auto split: if_splits)
  show "q |\<in>| members (e_peerLedger (e\<lparr>ledgerMap := fmupd p l (ledgerMap e)\<rparr>)) k"
    if "e_wants (e\<lparr>ledgerMap := fmupd p l (ledgerMap e)\<rparr>) q k \<noteq> None" for q k
    using that assms(3) [of k] engine_inv_indexD [OF assms(1)] by (auto simp: e_wants_upd split: if_splits)
qed (use engine_inv_cleanD [OF assms(1)] in simp)

lemma engine_inv_findOrCreate [inv_intros]: "engine_inv e \<Longrightarrow> engine_inv (snd (findOrCreate p e))"
  by (auto simp: findOrCreate_eq WantListContains_ledger_of intro!: engine_inv_keep ledger_of_ok)

lemma engine_inv_ReceivedBlocks [inv_intros]: "engine_inv e \<Longrightarrow> engine_inv (fst (ReceivedBlocks p bs e))"
  using engine_inv_findOrCreate [of e p] by (auto simp: ReceivedBlocks_def split_beta Let_def)

lemma engine_inv_PeerConnected [inv_intros]: "engine_inv e \<Longrightarrow> engine_inv (fst (PeerConnected p e))"
  by (auto simp: PeerConnected_def intro!: engine_inv_keep split: option.splits)

lemma engine_inv_SetSendDontHaves [inv_intros]: "engine_inv e \<Longrightarrow> engine_inv (SetSendDontHaves b e)"
  by (auto simp: SetSendDontHaves_def engine_inv_def e_wants_def)


lemma wl_inv_sent:
  "wl_inv w \<Longrightarrow> wl_inv (fold sentPresence ps (fold (\<lambda>b w. snd (wl_RemoveType (block_cid b) Wantlist_Block w)) bs w))"
  by (intro fold_invariant [where P = wl_inv]) (auto simp: sentPresence_def intro: wl_inv_RemoveType)

lemma wl_Contains_sent_blocks:
  "wl_Contains k (fold (\<lambda>b w. snd (wl_RemoveType (block_cid b) Wantlist_Block w)) bs w) =
     (if k \<in> block_cid ` set bs then None else wl_Contains k w)"
  by (induction bs arbitrary: w) (auto simp: wl_Contains_RemoveType)

lemma wl_Contains_sent_presences:
  "wl_Contains k (fold sentPresence ps w) =
     (if (k, Presence_Have) \<in> set ps \<and> map_option WantType (wl_Contains k w) \<noteq> Some Wantlist_Block
      then None else wl_Contains k w)"
proof (induction ps arbitrary: w)
  case (Cons x ps)
  obtain c t where x: "x = (c, t)" by (cases x)
  have "wl_Contains k (sentPresence x w) =
      (if k = c \<and> t = Presence_Have \<and> map_option WantType (wl_Contains c w) \<noteq> Some Wantlist_Block
       then None else wl_Contains k w)"
    by (auto simp: x sentPresence_def wl_Contains_RemoveType)
  then show ?case
    using Cons.IH [of "sentPresence x w"]
    by (cases "k = c"; cases t; cases "wl_Contains k w") (simp_all add: x)
qed simp

lemma set_Blocks:
  "go_range ord \<Longrightarrow> msg_inv m \<Longrightarrow> k \<in> block_cid ` set (Blocks ord m) \<longleftrightarrow> k |\<in>| fmdom (m_blocks m)"
  by (auto simp: Blocks_def set_range_values fmlookup_dom_iff image_iff intro: exI msg_inv_blockD
      dest: msg_inv_blockD)

lemma set_BlockPresences:
  "go_range ord \<Longrightarrow> (k, t) \<in> set (BlockPresences ord m) \<longleftrightarrow> fmlookup (m_presences m) k = Some t"
  by (auto simp: BlockPresences_eq go_range.ord_set fmlookup_dom_iff image_iff)

lemma MessageSent_state:
  "fst (MessageSent ord p m e) =
     e\<lparr>ledgerMap := fmupd p ((ledger_of p e)\<lparr>wantList :=
        fold sentPresence (BlockPresences ord m)
          (fold (\<lambda>b w. snd (wl_RemoveType (block_cid b) Wantlist_Block w)) (Blocks ord m)
             (wantList (ledger_of p e)))\<rparr>) (ledgerMap e)\<rparr>"
proof -
  have "fmupd p x (fmupd p y mm) = fmupd p x mm" for x y :: ledger and mm
    by (rule fmap_eqI) simp
  then show ?thesis
    by (simp add: MessageSent_def findOrCreate_eq Let_def)
qed

lemma e_wants_MessageSent:
  assumes "go_range ord" "msg_inv m"
  shows "e_wants (fst (MessageSent ord p m e)) q k =
     (if q = p \<and> (k |\<in>| fmdom (m_blocks m) \<or>
          (fmlookup (m_presences m) k = Some Presence_Have \<and>
           map_option WantType (e_wants e p k) \<noteq> Some Wantlist_Block))
      then None else e_wants e q k)"
  using WantListContains_ledger_of [of k p e]
  by (auto simp: MessageSent_state e_wants_upd WantListContains_def wl_Contains_sent_presences
      wl_Contains_sent_blocks set_Blocks [OF assms] set_BlockPresences [OF assms(1)])

lemma engine_inv_MessageSent [inv_intros]:
  assumes "engine_inv e"
  shows "engine_inv (fst (MessageSent ord p m e))"
  unfolding MessageSent_state
proof (rule engine_inv_keep [OF assms])
  show "ledger_ok p ((ledger_of p e)\<lparr>wantList := fold sentPresence (BlockPresences ord m)
      (fold (\<lambda>b w. snd (wl_RemoveType (block_cid b) Wantlist_Block w)) (Blocks ord m) (wantList (ledger_of p e)))\<rparr>)"
    using ledger_of_ok [OF assms, of p] by (auto simp: ledger_ok_def intro: wl_inv_sent)
qed (use WantListContains_ledger_of [of _ p e] in
    \<open>auto simp: WantListContains_def wl_Contains_sent_presences wl_Contains_sent_blocks split: if_splits\<close>)

section \<open>Disconnecting\<close>

lemma ledger_Entries_cids:
  assumes "go_range ord" "wl_inv (wantList l)"
  shows "k \<in> Cid ` set (fst (ledger_Entries ord l)) \<longleftrightarrow> WantListContains k l \<noteq> None"
proof -
  have lists: "wl_lists (fst (wl_Entries ord (wantList l))) (wantList l)"
    using assms by (rule wl_Entries_lists)
  have "k \<in> Cid ` set (fst (wl_Entries ord (wantList l)))" if "wl_Contains k (wantList l) = Some x" for x
    using that lists wl_inv_keyed [OF assms(2) that] by (force simp: wl_lists_def wl_Contains_def)
  then show ?thesis
    using lists by (auto simp: ledger_Entries_def WantListContains_def split_beta wl_lists_def wl_Contains_def)
qed

definition dropped_index :: "cid order \<Rightarrow> peer \<Rightarrow> engine \<Rightarrow> peer_ledger" where
  "dropped_index ord p e =
     fold (\<lambda>entry. pl_CancelWant p (Cid entry)) (fst (ledger_Entries ord (ledger_of p e))) (e_peerLedger e)"

lemma PeerDisconnected_state:
  "fst (PeerDisconnected ord p e) =
     e\<lparr>ledgerMap := fmdrop p (ledgerMap e),
       e_peerLedger := (if fmlookup (ledgerMap e) p = None then e_peerLedger e else dropped_index ord p e)\<rparr>"
  by (auto simp: PeerDisconnected_def dropped_index_def ledger_of_def Let_def split: option.splits)

lemma dropped_index_members:
  assumes "go_range ord" "engine_inv e"
  shows "q |\<in>| members (dropped_index ord p e) k \<longleftrightarrow>
     q |\<in>| members (e_peerLedger e) k \<and> \<not> (q = p \<and> e_wants e p k \<noteq> None)"
  using ledger_of_ok [OF assms(2), of p]
  by (simp add: dropped_index_def pl_index.peers_del_all ledger_ok_def
      ledger_Entries_cids [OF assms(1)] WantListContains_ledger_of)

lemma members_PeerDisconnected:
  assumes "go_range ord" "engine_inv e"
  shows "q |\<in>| members (e_peerLedger (fst (PeerDisconnected ord p e))) k \<longleftrightarrow>
     q |\<in>| members (e_peerLedger e) k \<and> \<not> (q = p \<and> e_wants e p k \<noteq> None)"
  by (auto simp: PeerDisconnected_state dropped_index_members [OF assms] e_wants_def)

lemma e_wants_PeerDisconnected:
  "e_wants (fst (PeerDisconnected ord p e)) q k = (if q = p then None else e_wants e q k)"
  by (simp add: PeerDisconnected_state e_wants_def)

lemma engine_inv_PeerDisconnected [inv_intros]:
  assumes "go_range ord" "engine_inv e"
  shows "engine_inv (fst (PeerDisconnected ord p e))"
proof (rule engine_invI)
  show "ledger_ok q l" if "fmlookup (ledgerMap (fst (PeerDisconnected ord p e))) q = Some l" for q l
    using that engine_inv_ledgerD [OF assms(2)] by (auto simp: PeerDisconnected_state split: if_splits)
  show "no_empty (e_peerLedger (fst (PeerDisconnected ord p e)))"
    using engine_inv_cleanD [OF assms(2)]
    by (auto simp: PeerDisconnected_state dropped_index_def intro: pl_index.clean_del_all)
  show "q |\<in>| members (e_peerLedger (fst (PeerDisconnected ord p e))) k"
    if "e_wants (fst (PeerDisconnected ord p e)) q k \<noteq> None" for q k
    using that engine_inv_indexD [OF assms(2)]
    by (auto simp: members_PeerDisconnected [OF assms] e_wants_PeerDisconnected split: if_splits)
qed


section \<open>New blocks\<close>

definition notifyTask :: "engine \<Rightarrow> (cid, nat) fmap \<Rightarrow> cid \<Rightarrow> wl_entry \<Rightarrow> task" where
  "notifyTask e blockSizes k entry =
     (let blockSize = (case fmlookup blockSizes k of None \<Rightarrow> 0 | Some n \<Rightarrow> n);
          isWantBlock = sendAsBlock e (WantType entry) blockSize
      in \<lparr>Topic = Cid entry, task_Priority = sint (Priority entry),
          Work = (if \<not> isWantBlock then BlockPresenceSize k else blockSize),
          Data = \<lparr>IsWantBlock = isWantBlock, td_SendDontHave = False,
                  BlockSize = blockSize, HaveBlock = True\<rparr>\<rparr>)"

definition pushes_for :: "engine \<Rightarrow> (cid, nat) fmap \<Rightarrow> cid \<times> peer \<Rightarrow> engine_call list" where
  "pushes_for e blockSizes = (\<lambda>(k, p).
     case e_wants e p k of
       None \<Rightarrow> []
     | Some entry \<Rightarrow> [Queue_PushTasks p [notifyTask e blockSizes k entry], UpdateMetrics])"

definition stale :: "engine \<Rightarrow> cid \<times> peer \<Rightarrow> bool" where
  "stale e = (\<lambda>(k, p). e_wants e p k = None)"

lemma notifyPeer_eq:
  "notifyPeer e bs k p (calls, missing) =
     (calls @ pushes_for e bs (k, p), if stale e (k, p) then addMissing p k missing else missing)"
  by (auto simp: notifyPeer_def pushes_for_def stale_def e_wants_def notifyTask_def Let_def split: option.splits)

lemma fold_notifyPeer:
  "fold (notifyPeer e bs k) ps (calls, missing) =
     (calls @ concat (map (\<lambda>p. pushes_for e bs (k, p)) ps),
      fold (\<lambda>p. addMissing p k) (filter (\<lambda>p. stale e (k, p)) ps) missing)"
  by (induction ps arbitrary: calls missing) (auto simp: notifyPeer_eq)

text \<open>The pairs of a new block and a peer the index lists for it, in the order they are visited.\<close>

definition candidates :: "peer order \<Rightarrow> engine \<Rightarrow> block list \<Rightarrow> (cid \<times> peer) list" where
  "candidates ord e blks =
     concat (map (\<lambda>b. map (Pair (block_cid b)) (pl_Peers ord (block_cid b) (e_peerLedger e))) blks)"

lemma candidates_Cons:
  "candidates ord e (b # bs) =
     map (Pair (block_cid b)) (pl_Peers ord (block_cid b) (e_peerLedger e)) @ candidates ord e bs"
  by (simp add: candidates_def)

lemma fold_notifyBlock:
  "fold (notifyBlock ord e sz) bs (calls, missing) =
     (calls @ concat (map (pushes_for e sz) (candidates ord e bs)),
      fold (\<lambda>(k, p). addMissing p k) (filter (stale e) (candidates ord e bs)) missing)"
proof (induction bs arbitrary: calls missing)
  case (Cons b bs)
  have "notifyBlock ord e sz b (calls, missing) =
      (calls @ concat (map (\<lambda>p. pushes_for e sz (block_cid b, p)) (pl_Peers ord (block_cid b) (e_peerLedger e))),
       fold (\<lambda>p. addMissing p (block_cid b))
         (filter (\<lambda>p. stale e (block_cid b, p)) (pl_Peers ord (block_cid b) (e_peerLedger e))) missing)"
    by (simp add: notifyBlock_def fold_notifyPeer)
  then show ?case
    by (simp add: Cons.IH candidates_Cons comp_def filter_map fold_map)
qed (simp add: candidates_def)

lemma set_candidates:
  "go_range ord \<Longrightarrow> (k, p) \<in> set (candidates ord e bs) \<longleftrightarrow>
     k \<in> block_cid ` set bs \<and> p |\<in>| members (e_peerLedger e) k"
  by (auto simp: candidates_def set_pl_Peers)

text \<open>The map of missing wants holds the stale pairs and nothing else.\<close>

definition missing_pairs :: "(peer, cid list) fmap \<Rightarrow> (cid \<times> peer) set" where
  "missing_pairs mm = {(k, p). \<exists>ks. fmlookup mm p = Some ks \<and> k \<in> set ks}"

lemma missing_pairs_add: "missing_pairs (addMissing p k mm) = insert (k, p) (missing_pairs mm)"
  by (auto simp: missing_pairs_def addMissing_def split: option.splits if_splits)

lemma missing_pairs_fold:
  "missing_pairs (fold (\<lambda>(k, p). addMissing p k) xs mm) = set xs \<union> missing_pairs mm"
  by (induction xs arbitrary: mm) (auto simp: missing_pairs_add)

lemma dropMissing_stale:
  assumes "\<And>k. k \<in> set ks \<Longrightarrow> e_wants e p k = None"
  shows "dropMissing e p ks pl = fold (pl_CancelWant p) ks pl"
proof (cases "fmlookup (ledgerMap e) p")
  case (Some l)
  then have "WantListContains k l = None" if "k \<in> set ks" for k
    using assms [OF that] by (simp add: e_wants_def)
  then show ?thesis
    using Some by (auto simp: dropMissing_def intro!: fold_cong)
qed (simp add: dropMissing_def)

lemma members_fold_dropMissing:
  assumes "\<And>p k. p \<in> set ps \<Longrightarrow> k \<in> set (f p) \<Longrightarrow> e_wants e p k = None"
  shows "q |\<in>| members (fold (\<lambda>p. dropMissing e p (f p)) ps pl) k \<longleftrightarrow>
     q |\<in>| members pl k \<and> \<not> (q \<in> set ps \<and> k \<in> set (f q))"
  using assms
proof (induction ps arbitrary: pl)
  case (Cons p ps)
  have "q |\<in>| members (fold (pl_CancelWant p) (f p) pl) k \<longleftrightarrow>
      q |\<in>| members pl k \<and> \<not> (q = p \<and> k \<in> set (f p))"
    using pl_index.peers_del_all [where f = "\<lambda>x. x" and xs = "f p" and s = pl] by simp
  with Cons show ?case
    by (auto simp: dropMissing_stale)
qed simp

lemma no_empty_dropMissing: "no_empty pl \<Longrightarrow> no_empty (dropMissing e p ks pl)"
  by (auto simp: dropMissing_def intro!: fold_invariant [where P = no_empty] pl_index.clean_del split: option.splits)

definition notified_index :: "peer order \<Rightarrow> block list \<Rightarrow> engine \<Rightarrow> peer_ledger" where
  "notified_index ord blks e = e_peerLedger (fst (NotifyNewBlocks ord blks e))"

lemma NotifyNewBlocks_ledgers:
  "ledgerMap (fst (NotifyNewBlocks ord blks e)) = ledgerMap e"
  "e_wants (fst (NotifyNewBlocks ord blks e)) p k = e_wants e p k"
  by (auto simp: NotifyNewBlocks_def split_beta Let_def e_wants_def)

lemma NotifyNewBlocks_calls:
  "snd (NotifyNewBlocks ord blks e) =
     (let calls = concat (map (pushes_for e (blockSizes_of blks)) (candidates ord e blks))
      in calls @ (if calls \<noteq> [] then [SignalNewWork] else []))"
  by (auto simp: NotifyNewBlocks_def fold_notifyBlock Let_def candidates_def)

lemma members_notified_index:
  assumes "go_range ord"
  shows "p |\<in>| members (notified_index ord blks e) k \<longleftrightarrow>
     p |\<in>| members (e_peerLedger e) k \<and> \<not> (k \<in> block_cid ` set blks \<and> e_wants e p k = None)"
proof (cases "blks = []")
  case False
  define mm where "mm = fold (\<lambda>(k, p). addMissing p k) (filter (stale e) (candidates ord e blks)) fmempty"
  have pairs: "missing_pairs mm = {x \<in> set (candidates ord e blks). stale e x}"
    unfolding mm_def missing_pairs_fold by (auto simp: missing_pairs_def)
  have idx: "notified_index ord blks e =
      fold (\<lambda>p. dropMissing e p (the (fmlookup mm p))) (ord (fmdom mm)) (e_peerLedger e)"
    using False by (simp add: notified_index_def NotifyNewBlocks_def fold_notifyBlock mm_def)
  have mem: "(q \<in> set (ord (fmdom mm)) \<and> k \<in> set (the (fmlookup mm q))) \<longleftrightarrow> (k, q) \<in> missing_pairs mm" for q k
    by (auto simp: missing_pairs_def go_range.ord_set [OF assms] fmlookup_dom_iff)
  have "e_wants e q k' = None" if "q \<in> set (ord (fmdom mm))" "k' \<in> set (the (fmlookup mm q))" for q k'
    using that mem [of q k'] by (simp add: pairs stale_def)
  then have "p |\<in>| members (notified_index ord blks e) k \<longleftrightarrow>
      p |\<in>| members (e_peerLedger e) k \<and> (k, p) \<notin> missing_pairs mm"
    unfolding idx mem [symmetric] by (rule members_fold_dropMissing)
  then show ?thesis
    by (auto simp: pairs set_candidates [OF assms] stale_def)
qed (simp add: notified_index_def NotifyNewBlocks_def)


lemma engine_inv_NotifyNewBlocks [inv_intros]:
  assumes "go_range ord" "engine_inv e"
  shows "engine_inv (fst (NotifyNewBlocks ord blks e))"
proof (rule engine_invI)
  show "ledger_ok q l" if "fmlookup (ledgerMap (fst (NotifyNewBlocks ord blks e))) q = Some l" for q l
    using that engine_inv_ledgerD [OF assms(2)] by (simp add: NotifyNewBlocks_ledgers)
  show "no_empty (e_peerLedger (fst (NotifyNewBlocks ord blks e)))"
    using engine_inv_cleanD [OF assms(2)]
    by (auto simp: NotifyNewBlocks_def split_beta Let_def
        intro!: fold_invariant [where P = no_empty] no_empty_dropMissing)
  show "q |\<in>| members (e_peerLedger (fst (NotifyNewBlocks ord blks e))) k"
    if "e_wants (fst (NotifyNewBlocks ord blks e)) q k \<noteq> None" for q k
    using that engine_inv_indexD [OF assms(2)]
    by (auto simp: NotifyNewBlocks_ledgers members_notified_index [OF assms(1)] simp flip: notified_index_def)
qed

lemma engine_inv_WantlistForPeer [inv_intros]:
  assumes "go_range ord" "engine_inv e"
  shows "engine_inv (snd (WantlistForPeer ord p e))"
proof -
  have "ledger_ok p (snd (ledger_Entries ord (ledger_of p e)))"
    using ledger_of_ok [OF assms(2), of p] wl_inv_Entries [OF assms(1)]
    by (simp add: ledger_ok_def ledger_Entries_def split_beta)
  moreover have "WantListContains k (snd (ledger_Entries ord (ledger_of p e))) = e_wants e p k" for k
    using WantListContains_ledger_of [of k p e]
    by (simp add: ledger_Entries_def split_beta WantListContains_def)
  ultimately have "engine_inv ((snd (findOrCreate p e))\<lparr>ledgerMap :=
      fmupd p (snd (ledger_Entries ord (ledger_of p e))) (ledgerMap (snd (findOrCreate p e)))\<rparr>)"
    by (intro engine_inv_keep engine_inv_findOrCreate assms(2))
      (auto simp: findOrCreate_eq e_wants_upd WantListContains_ledger_of)
  then show ?thesis
    by (simp add: WantlistForPeer_def findOrCreate_eq split_beta Let_def)
qed

section \<open>Runs of the engine\<close>

datatype engine_op =
    Op_MessageReceived "cid \<Rightarrow> bool" "cid \<Rightarrow> nat option" peer message
  | Op_ReceivedBlocks peer "block list"
  | Op_NotifyNewBlocks "block list"
  | Op_MessageSent peer message
  | Op_PeerConnected peer
  | Op_PeerDisconnected peer
  | Op_WantlistForPeer peer
  | Op_SetSendDontHaves bool

fun engine_step :: "string order \<Rightarrow> engine_op \<Rightarrow> engine \<Rightarrow> engine" where
  "engine_step ord (Op_MessageReceived accept getSize p m) e = fst (MessageReceived ord accept getSize p m e)"
| "engine_step ord (Op_ReceivedBlocks p bs) e = fst (ReceivedBlocks p bs e)"
| "engine_step ord (Op_NotifyNewBlocks bs) e = fst (NotifyNewBlocks ord bs e)"
| "engine_step ord (Op_MessageSent p m) e = fst (MessageSent ord p m e)"
| "engine_step ord (Op_PeerConnected p) e = fst (PeerConnected p e)"
| "engine_step ord (Op_PeerDisconnected p) e = fst (PeerDisconnected ord p e)"
| "engine_step ord (Op_WantlistForPeer p) e = snd (WantlistForPeer ord p e)"
| "engine_step ord (Op_SetSendDontHaves b) e = SetSendDontHaves b e"

fun engine_op_ok :: "engine_op \<Rightarrow> bool" where
  "engine_op_ok (Op_MessageReceived accept getSize p m) = msg_inv m"
| "engine_op_ok _ = True"

lemma engine_inv_step:
  "go_range ord \<Longrightarrow> engine_op_ok x \<Longrightarrow> engine_inv e \<Longrightarrow> engine_inv (engine_step ord x e)"
  by (cases x) (auto intro: inv_intros)

interpretation engine_runs: step_invariant "engine_step key_order" engine_op_ok engine_inv
  by unfold_locales (simp add: engine_inv_step)

lemma engine_inv_run:
  "go_range ord \<Longrightarrow> engine_inv e \<Longrightarrow> list_all engine_op_ok xs \<Longrightarrow> engine_inv (fold (engine_step ord) xs e)"
  using fold_invariant [of engine_inv e xs "engine_step ord"] by (simp add: engine_inv_step list_all_iff)

section \<open>Envelopes\<close>

text \<open>The data of the popped task for a key, and what each kind of task puts into the message.\<close>

definition task_for :: "task list \<Rightarrow> cid \<Rightarrow> taskData option" where
  "task_for ts = map_of (map (\<lambda>t. (Topic t, Data t)) ts)"

definition block_task :: "task list \<Rightarrow> cid \<Rightarrow> taskData option" where
  "block_task ts k =
     (case task_for ts k of Some td \<Rightarrow> if HaveBlock td \<and> IsWantBlock td then Some td else None | None \<Rightarrow> None)"

definition presence_task :: "task list \<Rightarrow> cid \<Rightarrow> presence_type option" where
  "presence_task ts k =
     (case task_for ts k of
        Some td \<Rightarrow> if \<not> HaveBlock td then Some Presence_DontHave
                    else if IsWantBlock td then None else Some Presence_Have
      | None \<Rightarrow> None)"

lemma task_for_Cons: "task_for (t # ts) k = (if k = Topic t then Some (Data t) else task_for ts k)"
  by (simp add: task_for_def)

lemma task_for_None: "task_for ts k = None \<longleftrightarrow> k \<notin> Topic ` set ts"
  by (simp add: task_for_def map_of_eq_None_iff image_image)

lemma fold_splitTask:
  assumes "distinct (map Topic ts)" "m_blocks msg = fmempty"
    and "fold splitTask ts (msg, cids, bt) = (msg1, cids1, bt1)"
  shows "m_blocks msg1 = fmempty \<and> m_wantlist msg1 = m_wantlist msg \<and>
     set cids1 = set cids \<union> {k. block_task ts k \<noteq> None} \<and>
     (\<forall>k. fmlookup bt1 k = (if block_task ts k = None then fmlookup bt k else block_task ts k)) \<and>
     (\<forall>k. fmlookup (m_presences msg1) k =
        (if presence_task ts k = None then fmlookup (m_presences msg) k else presence_task ts k))"
  using assms
proof (induction ts arbitrary: msg cids bt)
  case Nil
  then show ?case by (simp add: block_task_def presence_task_def task_for_def)
next
  case (Cons t ts)
  have fresh: "task_for ts (Topic t) = None"
    using Cons.prems(1) by (simp add: task_for_None)
  obtain msg' cids' bt' where step: "splitTask t (msg, cids, bt) = (msg', cids', bt')"
    by (cases "splitTask t (msg, cids, bt)")
  have msg': "m_blocks msg' = fmempty" "m_wantlist msg' = m_wantlist msg"
    using step Cons.prems(2)
    by (auto simp: splitTask_def Let_def AddHave_def AddDontHave_def AddBlockPresence_def split: if_splits)
  have "distinct (map Topic ts)" "fold splitTask ts (msg', cids', bt') = (msg1, cids1, bt1)"
    using Cons.prems step by simp_all
  note IH = Cons.IH [OF this(1) msg'(1) this(2)]
  show ?case
    using IH step Cons.prems(2) fresh msg'(2)
    by (auto simp: splitTask_def Let_def AddHave_def AddDontHave_def AddBlockPresence_def
        block_task_def presence_task_def task_for_Cons split: if_splits)
qed

lemma fold_addFetched:
  assumes "distinct cs" "\<And>k b. fmlookup blks k = Some b \<Longrightarrow> block_cid b = k"
    and "\<And>c. c \<in> set cs \<Longrightarrow> fmlookup bt c \<noteq> None"
    and "\<And>c. c \<in> set cs \<Longrightarrow> fmlookup (m_blocks msg) c = None"
  shows "fmlookup (m_blocks (fold (addFetched blks bt) cs msg)) k =
       (if k \<in> set cs \<and> fmlookup blks k \<noteq> None then fmlookup blks k else fmlookup (m_blocks msg) k) \<and>
     fmlookup (m_presences (fold (addFetched blks bt) cs msg)) k =
       (if k \<in> set cs then
          (if fmlookup blks k \<noteq> None then None
           else if td_SendDontHave (the (fmlookup bt k)) then Some Presence_DontHave
           else fmlookup (m_presences msg) k)
        else fmlookup (m_presences msg) k) \<and>
     m_wantlist (fold (addFetched blks bt) cs msg) = m_wantlist msg"
  using assms
proof (induction cs arbitrary: msg)
  case (Cons c cs)
  let ?msg = "addFetched blks bt c msg"
  have keep: "fmlookup (m_blocks ?msg) d = fmlookup (m_blocks msg) d"
    "fmlookup (m_presences ?msg) d = fmlookup (m_presences msg) d" if "d \<noteq> c" for d
    using that Cons.prems(2)
    by (auto simp: addFetched_def AddDontHave_def AddBlockPresence_def AddBlock_def split: option.splits)
  have "fmlookup (m_blocks ?msg) d = None" if "d \<in> set cs" for d
    using that Cons.prems(1) Cons.prems(4) [of d] keep(1) [of d] by auto
  note IH = Cons.IH [OF _ Cons.prems(2) Cons.prems(3) this]
  have wl: "m_wantlist ?msg = m_wantlist msg"
    by (auto simp: addFetched_def AddDontHave_def AddBlockPresence_def AddBlock_def split: option.splits)
  obtain td where "fmlookup bt c = Some td"
    using Cons.prems(3) [of c] by auto
  then have at_c: "fmlookup (m_blocks ?msg) c = fmlookup blks c"
    "fmlookup (m_presences ?msg) c =
       (if fmlookup blks c \<noteq> None then None
        else if td_SendDontHave td then Some Presence_DontHave else fmlookup (m_presences msg) c)"
    using Cons.prems(2) [of c] Cons.prems(4) [of c]
    by (auto simp: addFetched_def AddDontHave_def AddBlockPresence_def AddBlock_def split: option.splits)
  show ?case
    using IH Cons.prems(1) Cons.prems(4) [of c] wl at_c \<open>fmlookup bt c = Some td\<close> by (cases "k = c") (auto simp: keep)
qed simp

definition envelope_blocks :: "(cid \<Rightarrow> block option) \<Rightarrow> task list \<Rightarrow> cid \<Rightarrow> block option" where
  "envelope_blocks get ts k = (case block_task ts k of Some td \<Rightarrow> get k | None \<Rightarrow> None)"

definition envelope_presences :: "(cid \<Rightarrow> block option) \<Rightarrow> task list \<Rightarrow> cid \<Rightarrow> presence_type option" where
  "envelope_presences get ts k =
     (case block_task ts k of
        Some td \<Rightarrow> if get k = None \<and> td_SendDontHave td then Some Presence_DontHave else None
      | None \<Rightarrow> presence_task ts k)"

lemma envelopeMessage_ok:
  assumes "go_range ord" "\<And>k. accept k" "\<And>k b. get k = Some b \<Longrightarrow> block_cid b = k"
    and "distinct (map Topic ts)"
  obtains m where "envelopeMessage ord accept get ts n = Some m" "m_wantlist m = fmempty"
    "\<And>k. fmlookup (m_blocks m) k = envelope_blocks get ts k"
    "\<And>k. fmlookup (m_presences m) k = envelope_presences get ts k"
proof -
  let ?msg0 = "SetPendingBytes (of_nat n) (newMsg False)"
  obtain msg1 cids bt where split: "fold splitTask ts (?msg0, [], fmempty) = (msg1, cids, bt)"
    by (cases "fold splitTask ts (?msg0, [], fmempty)")
  note sp = fold_splitTask [OF assms(4) _ split]
  obtain blks where blks: "getBlocks accept get cids = (blks, True)"
    by (cases "getBlocks accept get cids")
      (use assms(2) jobPerKey_refused [of accept cids] in \<open>auto simp: getBlocks_def split_beta split: if_splits\<close>)
  define m where "m = fold (addFetched blks bt) (ord (fmdom bt)) msg1"
  have bt: "fmlookup bt k = block_task ts k" for k
    using sp by (simp add: SetPendingBytes_def newMsg_def)
  have got: "fmlookup blks k = (if block_task ts k \<noteq> None then get k else None)" for k
    using getBlocks_ok [OF blks, of k] sp by (simp add: SetPendingBytes_def newMsg_def)
  have pres: "fmlookup (m_presences msg1) k = presence_task ts k" for k
    using sp by (auto simp: SetPendingBytes_def newMsg_def)
  have m1: "m_blocks msg1 = fmempty" "m_wantlist msg1 = fmempty"
    using sp by (simp_all add: SetPendingBytes_def newMsg_def)
  have "fmlookup (m_blocks m) k = envelope_blocks get ts k \<and>
      fmlookup (m_presences m) k = envelope_presences get ts k \<and> m_wantlist m = fmempty" for k
  proof -
    have keyed: "block_cid b = c" if "fmlookup blks c = Some b" for c b
      using that assms(3) by (auto simp: got split: if_splits)
    have dom: "c \<in> set (ord (fmdom bt)) \<longleftrightarrow> block_task ts c \<noteq> None" for c
      by (simp add: go_range.ord_set [OF assms(1)] fmlookup_dom_iff bt)
    have "presence_task ts k = None" if "block_task ts k \<noteq> None"
      using that by (auto simp: block_task_def presence_task_def split: option.splits if_splits)
    then show ?thesis
      using fold_addFetched [where blks = blks and cs = "ord (fmdom bt)" and bt = bt and msg = msg1 and k = k,
          OF go_range.ord_distinct [OF assms(1)] keyed]
      by (auto simp: m_def dom bt got m1 pres envelope_blocks_def envelope_presences_def split: option.splits)
  qed
  moreover have "envelopeMessage ord accept get ts n = Some m"
    by (simp add: envelopeMessage_def split blks m_def)
  ultimately show thesis
    using that by blast
qed


section \<open>Properties\<close>

definition pushed_to :: "peer \<Rightarrow> engine_call list \<Rightarrow> task list" where
  "pushed_to p calls =
     concat (map (\<lambda>c. case c of Queue_PushTasks q ts \<Rightarrow> if q = p then ts else [] | _ \<Rightarrow> []) calls)"

lemma pushed_to_append: "pushed_to p (xs @ ys) = pushed_to p xs @ pushed_to p ys"
  by (simp add: pushed_to_def)

lemma pushed_to_concat: "pushed_to p (concat xss) = concat (map (pushed_to p) xss)"
  by (induction xss) (simp_all add: pushed_to_append, simp add: pushed_to_def)

lemma set_pushed_for:
  "t \<in> set (pushed_to p (pushes_for e sizes (k, q))) \<longleftrightarrow>
     q = p \<and> (\<exists>en. e_wants e p k = Some en \<and> t = notifyTask e sizes k en)"
  by (cases "e_wants e q k") (auto simp: pushed_to_def pushes_for_def)


definition example_engine_ops :: "engine_op list" where
  "example_engine_ops =
     [Op_PeerConnected ''p'',
      Op_MessageReceived (\<lambda>_. True) (\<lambda>_. None) ''p'' example_msg,
      Op_NotifyNewBlocks [\<lparr>block_cid = ''w'', RawData = [1, 2]\<rparr>],
      Op_MessageSent ''p'' (AddBlock \<lparr>block_cid = ''w'', RawData = [1, 2]\<rparr> (newMsg False)),
      Op_PeerDisconnected ''p'']"

lemma msg_inv_example_msg: "msg_inv example_msg"
  unfolding example_msg_def AddHave_def msg_Cancel_def AddEntry_def by (intro inv_intros)


text \<open>
  C16. The ledger after a message: for the sender, a full message or a cancel forgets the old
  want, and each admitted want is added with the want-block-wins rule; denied wants are never
  recorded. The want lists of all other peers are untouched.
\<close>

theorem MessageReceived_wants:
  assumes "go_range ord" "msg_inv m" "\<And>k. accept k"
  shows "e_wants (fst (MessageReceived ord accept getSize p m e)) q k =
     (if q = p
      then stronger_entry (if m_full m \<or> cancelled m k then None else e_wants e p k)
             (if admits e p k then map_option wl_entry.truncate (requested m k) else None)
      else e_wants e q k)"
  using admitted_sizes_ok(1) [OF assms] WantListContains_received [OF assms(1,2), of k p e]
  by (simp add: MessageReceived_state e_wants_def)

theorem MessageReceived_wants_witness:
  "e_wants (fst (MessageReceived key_order (\<lambda>_. True) (\<lambda>_. None) ''p'' example_msg (newEngine 1024 None)))
     ''p'' ''w'' = Some \<lparr>Cid = ''w'', Priority = 5, WantType = Wantlist_Have\<rparr>"
proof -
  have "(if admits (newEngine 1024 None) ''p'' ''w'' then map_option wl_entry.truncate (requested example_msg ''w'') else None) =
      Some \<lparr>Cid = ''w'', Priority = 5, WantType = Wantlist_Have\<rparr>"
    by code_simp
  moreover have "e_wants (newEngine 1024 None) ''p'' ''w'' = None"
    by code_simp
  ultimately show ?thesis
    by (subst MessageReceived_wants) (simp_all add: msg_inv_example_msg stronger_entry_def)
qed

lemma received_answers:
  assumes "go_range ord" "msg_inv m" "\<And>k. accept k"
  shows "set (pushed_to p (snd (MessageReceived ord accept getSize p m e))) =
           {t. \<exists>k en. requested m k = Some en \<and> answers_want e getSize p en t} \<and>
         distinct (map Topic (pushed_to p (snd (MessageReceived ord accept getSize p m e)))) \<and>
         (\<forall>q. q \<noteq> p \<longrightarrow> pushed_to q (snd (MessageReceived ord accept getSize p m e)) = [])"
proof -
  let ?ts = "received_tasks ord accept getSize p m e"
  let ?es = "denied_list ord p m e @ admitted_list ord p m e"
  have removes: "pushed_to q (map (\<lambda>en. Queue_Remove (Cid en) p) es) = []" for q and es :: "msg_entry list"
    by (simp add: pushed_to_def)
  have push: "pushed_to q (snd (MessageReceived ord accept getSize p m e)) = (if q = p then ?ts else [])" for q
    unfolding MessageReceived_calls [OF assms(1,2)] using admitted_sizes_ok(1) [OF assms]
    by (simp add: pushed_to_append removes) (simp add: pushed_to_def)
  have "distinct (map Cid ?es)"
    using distinct_lists(1,2) [OF assms(1,2), of p e] by (auto simp: requested_list [OF assms(1,2)])
  then have "distinct (map Topic ?ts)"
    unfolding received_tasks_answers [OF assms] by (rule distinct_topics)
  moreover have "en \<in> set ?es \<longleftrightarrow> requested m (Cid en) = Some en" for en
    using requested_list [OF assms(1,2)] by auto
  then have "set ?ts = {t. \<exists>k en. requested m k = Some en \<and> t \<in> set (answer e getSize p en)}"
    using requested_cid [OF assms(2)] unfolding received_tasks_answers [OF assms] by fastforce
  ultimately show ?thesis
    by (simp add: push answers_want_iff)
qed

text \<open>
  C11. The work a message creates: exactly one batch for the sender, with exactly the answer of
  each want of the message and at most one task per key. The answer is the block (or a HAVE for
  a large block under a want-have) when the peer may have it and the store has it, and
  otherwise a DONT_HAVE, which both sides have to have asked for.
\<close>

theorem MessageReceived_answers:
  assumes "go_range ord" "msg_inv m" "\<And>k. accept k"
  shows "set (pushed_to p (snd (MessageReceived ord accept getSize p m e))) =
           {t. \<exists>k en. requested m k = Some en \<and> answers_want e getSize p en t} \<and>
         distinct (map Topic (pushed_to p (snd (MessageReceived ord accept getSize p m e)))) \<and>
         (\<forall>q. q \<noteq> p \<longrightarrow> pushed_to q (snd (MessageReceived ord accept getSize p m e)) = [])"
  using assms by (rule received_answers)

theorem MessageReceived_answers_witness:
  "\<exists>t. t \<in> set (pushed_to ''p'' (snd (MessageReceived key_order (\<lambda>_. True) (\<lambda>_. Some 2) ''p''
         example_msg (newEngine 1024 None)))) \<and> Topic t = ''w'' \<and> IsWantBlock (Data t)"
proof -
  have req: "requested example_msg ''w'' =
      Some \<lparr>Cid = ''w'', Priority = 5, WantType = Wantlist_Have, Cancel = False, SendDontHave = True\<rparr>"
    by code_simp
  have "foundTask (newEngine 1024 None) (the (requested example_msg ''w'')) 2 \<in>
      set (answer (newEngine 1024 None) (\<lambda>_. Some 2) ''p'' (the (requested example_msg ''w'')))"
    by (simp add: answer_def admits_def newEngine_def)
  then have "foundTask (newEngine 1024 None) (the (requested example_msg ''w'')) 2 \<in>
      set (pushed_to ''p'' (snd (MessageReceived key_order (\<lambda>_. True) (\<lambda>_. Some 2) ''p''
         example_msg (newEngine 1024 None))))"
    using MessageReceived_answers [OF go_range_key_order msg_inv_example_msg, where accept = "\<lambda>_. True"
        and p = "''p''" and getSize = "\<lambda>_. Some 2" and e = "newEngine 1024 None"] req
    by (auto simp: answers_want_iff)
  moreover have "Topic (foundTask (newEngine 1024 None) (the (requested example_msg ''w'')) 2) = ''w''"
      "IsWantBlock (Data (foundTask (newEngine 1024 None) (the (requested example_msg ''w'')) 2))"
    by (simp_all add: req foundTask_def sendAsBlock_def newEngine_def Let_def)
  ultimately show ?thesis
    by blast
qed

text \<open>
  When the block store's pool refuses a job (shutdown or a cancelled context) the message
  is dropped as a whole: no ledger, index or queue is touched.
\<close>

theorem MessageReceived_aborts:
  assumes "\<not> snd (getBlockSizes accept getSize (ord (fset_of_list (map Cid
             (fst (splitWantsDenials e p (fst (splitWantsCancels (msg_Wantlist ord m)))))))))"
  shows "MessageReceived ord accept getSize p m e = (e, [])"
  using assms by (simp add: MessageReceived_def split_beta Let_def)

theorem MessageReceived_aborts_witness:
  "MessageReceived key_order (\<lambda>_. False) (\<lambda>_. Some 2) ''p'' example_msg (newEngine 1024 None) =
     (newEngine 1024 None, [])"
  by (rule MessageReceived_aborts) code_simp


text \<open>
  C15. New blocks reach everyone who waits for them: in a state of the engine, the tasks pushed
  to a peer are exactly those for the new blocks on its want list, as a block or, for a large
  block under a want-have, as a HAVE. The want lists do not change, and the index of the new
  blocks' keys is exact afterwards.
\<close>

theorem NotifyNewBlocks_reaches:
  assumes "go_range ord" "engine_inv e"
  shows "set (pushed_to p (snd (NotifyNewBlocks ord blks e))) =
           {t. \<exists>b\<in>set blks. \<exists>en. e_wants e p (block_cid b) = Some en \<and>
                 t = notifyTask e (blockSizes_of blks) (block_cid b) en} \<and>
         (\<forall>q k. e_wants (fst (NotifyNewBlocks ord blks e)) q k = e_wants e q k) \<and>
         (\<forall>b\<in>set blks. \<forall>q. q |\<in>| members (e_peerLedger (fst (NotifyNewBlocks ord blks e))) (block_cid b) \<longleftrightarrow>
            e_wants e q (block_cid b) \<noteq> None)"
proof (intro conjI)
  have "pushed_to p (snd (NotifyNewBlocks ord blks e)) =
      concat (map (\<lambda>x. pushed_to p (pushes_for e (blockSizes_of blks) x)) (candidates ord e blks))"
    unfolding NotifyNewBlocks_calls Let_def pushed_to_append pushed_to_concat
    by (simp add: comp_def) (simp add: pushed_to_def)
  also have "set \<dots> = {t. \<exists>k. (k, p) \<in> set (candidates ord e blks) \<and>
      (\<exists>en. e_wants e p k = Some en \<and> t = notifyTask e (blockSizes_of blks) k en)}"
    by (auto simp: set_pushed_for)
  finally show "set (pushed_to p (snd (NotifyNewBlocks ord blks e))) =
      {t. \<exists>b\<in>set blks. \<exists>en. e_wants e p (block_cid b) = Some en \<and>
                 t = notifyTask e (blockSizes_of blks) (block_cid b) en}"
    by (auto simp: set_candidates [OF assms(1)] dest: engine_inv_indexD [OF assms(2)])
  show "\<forall>b\<in>set blks. \<forall>q. q |\<in>| members (e_peerLedger (fst (NotifyNewBlocks ord blks e))) (block_cid b) \<longleftrightarrow>
      e_wants e q (block_cid b) \<noteq> None"
    using engine_inv_indexD [OF assms(2)]
    by (auto simp: members_notified_index [OF assms(1)] simp flip: notified_index_def)
qed (simp add: NotifyNewBlocks_ledgers)

definition example_engine :: engine where
  "example_engine = fst (MessageReceived key_order (\<lambda>_. True) (\<lambda>_. None) ''p'' example_msg (newEngine 1024 None))"

lemma engine_inv_example: "engine_inv example_engine"
  unfolding example_engine_def
  by (intro engine_inv_MessageReceived engine_inv_newEngine) (simp_all add: msg_inv_example_msg)

lemma e_wants_example:
  "e_wants example_engine ''p'' ''w'' = Some \<lparr>Cid = ''w'', Priority = 5, WantType = Wantlist_Have\<rparr>"
  by code_simp

theorem NotifyNewBlocks_reaches_witness:
  "\<exists>t. t \<in> set (pushed_to ''p'' (snd (NotifyNewBlocks key_order [\<lparr>block_cid = ''w'', RawData = [1, 2]\<rparr>] example_engine))) \<and>
     Topic t = ''w''"
  using NotifyNewBlocks_reaches [OF go_range_key_order engine_inv_example, of "''p''" "[\<lparr>block_cid = ''w'', RawData = [1, 2]\<rparr>]"]
    e_wants_example
  by (auto simp: notifyTask_def Let_def)

text \<open>
  A sent message settles exactly what it carries: a block removes the partner's want for
  it, a HAVE removes a want-have but leaves a want-block standing, a DONT_HAVE removes
  nothing, and the wants of other peers stay.
\<close>

theorem MessageSent_settles:
  assumes "go_range ord" "msg_inv m"
  shows "e_wants (fst (MessageSent ord p m e)) q k =
     (if q = p \<and> (k |\<in>| fmdom (m_blocks m) \<or>
          (fmlookup (m_presences m) k = Some Presence_Have \<and>
           map_option WantType (e_wants e p k) \<noteq> Some Wantlist_Block))
      then None else e_wants e q k)"
  using assms by (rule e_wants_MessageSent)

theorem MessageSent_settles_witness:
  "e_wants (fst (MessageSent key_order ''p'' (AddHave ''w'' (newMsg False)) example_engine)) ''p'' ''w'' = None"
  by (subst MessageSent_settles)
    (auto simp: e_wants_example AddHave_def AddBlockPresence_def newMsg_def intro!: msg_invI)

text \<open>
  After a peer disconnects the engine holds no ledger for it, none of its wants can be
  found through the index any more, and nothing changes for the other peers.
\<close>

theorem PeerDisconnected_forgets:
  assumes "go_range ord" "engine_inv e"
  shows "fmlookup (ledgerMap (fst (PeerDisconnected ord p e))) p = None \<and>
         (\<forall>k. e_wants e p k \<noteq> None \<longrightarrow> p |\<notin>| members (e_peerLedger (fst (PeerDisconnected ord p e))) k) \<and>
         (\<forall>q k. q \<noteq> p \<longrightarrow> e_wants (fst (PeerDisconnected ord p e)) q k = e_wants e q k \<and>
            (q |\<in>| members (e_peerLedger (fst (PeerDisconnected ord p e))) k \<longleftrightarrow>
             q |\<in>| members (e_peerLedger e) k))"
  by (simp add: members_PeerDisconnected [OF assms] e_wants_PeerDisconnected)
    (simp add: PeerDisconnected_state)

theorem PeerDisconnected_forgets_witness:
  "''p'' |\<notin>| members (e_peerLedger (fst (PeerDisconnected key_order ''p'' example_engine))) ''w''"
  using PeerDisconnected_forgets [OF go_range_key_order engine_inv_example, of "''p''"] e_wants_example by simp

text \<open>
  The index leaks: when the engine has sent a peer the block it wanted, the want leaves
  the ledger but not the index, and the disconnection, which cleans the index by way of the
  ledger, leaves the peer listed there for good (until that very block is announced again).
\<close>

theorem peerLedger_leak:
  "''p'' |\<in>| members (e_peerLedger (fst (PeerDisconnected key_order ''p'' (fst (MessageSent key_order ''p''
     (AddBlock \<lparr>block_cid = ''w'', RawData = [1, 2]\<rparr> (newMsg False)) example_engine))))) ''w''"
  by code_simp

text \<open>
  C17. The envelope answers every popped task: with one task per key (what the request queue
  keeps) and a store that files blocks under their identifiers, the message holds the block
  of every block task that the store still has, a HAVE or DONT_HAVE for each presence task, a
  DONT_HAVE for a block that is gone where the requester asked for it, and nothing else.
\<close>

theorem envelope_answers:
  assumes "go_range ord" "\<And>k. accept k" "\<And>k b. get k = Some b \<Longrightarrow> block_cid b = k"
    and "distinct (map Topic ts)"
  shows "\<exists>m. envelopeMessage ord accept get ts n = Some m \<and> m_wantlist m = fmempty \<and>
     (\<forall>k. fmlookup (m_blocks m) k = envelope_blocks get ts k) \<and>
     (\<forall>k. fmlookup (m_presences m) k = envelope_presences get ts k)"
  by (rule envelopeMessage_ok [where ord = ord and accept = accept and get = get and ts = ts and n = n, OF assms])
    auto

definition example_get :: "cid \<Rightarrow> block option" where
  "example_get k = (if k = ''k'' then Some \<lparr>block_cid = ''k'', RawData = [7]\<rparr> else None)"

theorem envelope_answers_witness:
  "\<exists>m. envelopeMessage key_order (\<lambda>_. True) example_get [example_task True True 1] 0 = Some m \<and>
       fmlookup (m_blocks m) ''k'' = Some \<lparr>block_cid = ''k'', RawData = [7]\<rparr>"
proof -
  have "block_cid b = k" if "example_get k = Some b" for k b
    using that by (auto simp: example_get_def split: if_splits)
  from envelope_answers [where get = example_get and accept = "\<lambda>_. True" and n = 0
      and ts = "[example_task True True 1]", OF go_range_key_order _ this]
  show ?thesis
    by (auto simp: envelope_blocks_def block_task_def task_for_def example_task_def example_get_def)
qed

text \<open>
  A worker that returns an envelope returns a message with something in it, for the peer
  of a pop with tasks, and its \<open>Sent\<close> callback reports exactly these tasks done.
\<close>

theorem nextEnvelope_ready:
  assumes "nextEnvelope ord accept get rounds = (calls, Env_Ready env)"
  shows "\<not> msg_Empty (env_Message env) \<and>
     (\<exists>ts n. ts \<noteq> [] \<and> envelopeMessage ord accept get ts n = Some (env_Message env) \<and>
        env_Sent env = [Queue_TasksDone (env_Peer env) ts, SignalNewWork])"
proof -
  have popped: "fst (snd r) \<noteq> []"
    if "waitTasks first ws = (cs, Popped r)" for first ws cs and r :: pop
    using that by (induction first ws arbitrary: cs rule: waitTasks.induct) (auto split: prod.splits)
  from assms show ?thesis
  proof (induction rounds arbitrary: calls)
    case (Cons r rounds)
    obtain first wakes where r: "r = (first, wakes)" by (cases r)
    obtain cs res where w: "waitTasks first wakes = (cs, res)" by (cases "waitTasks first wakes")
    then obtain p ts n where res: "res = Popped (p, ts, n)"
      using Cons.prems r by (auto split: wait_result.splits)
    have "ts \<noteq> []"
      using popped [OF w [unfolded res]] by simp
    obtain m where m: "envelopeMessage ord accept get ts n = Some m"
      using Cons.prems r w res by (auto split: option.splits)
    show ?case
    proof (cases "msg_Empty m")
      case True
      then show ?thesis
        using Cons.prems Cons.IH r w res m by (auto split: prod.splits)
    next
      case False
      then show ?thesis
        using Cons.prems r w res m \<open>ts \<noteq> []\<close> by auto
    qed
  qed simp
qed


theorem nextEnvelope_ready_witness:
  "\<exists>calls env. nextEnvelope key_order (\<lambda>_. True) example_get
       [((''q'', [], 0), [Wake_Signal (''p'', [example_task True True 1], 0)])] = (calls, Env_Ready env) \<and>
     env_Peer env = ''p'' \<and> \<not> msg_Empty (env_Message env)"
proof -
  let ?r = "nextEnvelope key_order (\<lambda>_. True) example_get
       [((''q'', [], 0), [Wake_Signal (''p'', [example_task True True 1], 0)])]"
  have "(case snd ?r of Env_Ready env \<Rightarrow> env_Peer env = ''p'' | _ \<Rightarrow> False)"
    by code_simp
  then obtain calls env where r: "?r = (calls, Env_Ready env)" "env_Peer env = ''p''"
    by (cases ?r) (auto split: envelope_result.splits)
  with nextEnvelope_ready [OF r(1)] show ?thesis
    by blast
qed

end
