(* ===== verification/Server.thy ===== *)
theory Server
  imports Engine_Props
begin

text \<open>
  The server (\<open>server/server.go\<close>): it hands messages and connections to the decision engine,
  sends the envelopes the engine makes, and announces new blocks to the network through a
  collector and a bounded number of workers.

  A channel is the list of the keys in it, including those of senders that wait for room. The
  network is a parameter: whether a send succeeds is an argument.
\<close>

section \<open>Announcing blocks\<close>

definition provideKeysBufferSize :: nat where
  "provideKeysBufferSize = 2048"

definition provideWorkerMax :: nat where
  "provideWorkerMax = 6"

text \<open>
  The pipeline: the channel \<open>newBlocks\<close>, the collector's \<open>nextKey\<close> (present while \<open>keysOut\<close> is
  not nil) and \<open>toProvide\<close>, the channel \<open>provideKeys\<close>, the key the worker has taken and not yet
  started, the keys being provided. \<open>pv_announced\<close> and \<open>pv_started\<close> record, in order, the keys
  that entered and the keys whose announcement was started.
\<close>

record provider =
  pv_newBlocks :: "cid list"
  nextKey :: "cid option"
  toProvide :: "cid list"
  provideKeys :: "cid list"
  pv_taken :: "cid option"
  pv_running :: "cid list"
  pv_announced :: "cid list"
  pv_started :: "cid list"

definition pv_New :: provider where
  "pv_New = \<lparr>pv_newBlocks = [], nextKey = None, toProvide = [], provideKeys = [], pv_taken = None, pv_running = [],
     pv_announced = [], pv_started = []\<rparr>"

definition pv_notify :: "cid list \<Rightarrow> provider \<Rightarrow> provider" where
  "pv_notify ks s = s\<lparr>pv_newBlocks := pv_newBlocks s @ ks, pv_announced := pv_announced s @ ks\<rparr>"

text \<open>The two cases of the collector's select.\<close>

definition collectKey :: "provider \<Rightarrow> provider option" where
  "collectKey s =
     (case pv_newBlocks s of
        [] \<Rightarrow> None
      | blkey # rest \<Rightarrow>
          Some (case nextKey s of
                  None \<Rightarrow> s\<lparr>pv_newBlocks := rest, nextKey := Some blkey\<rparr>
                | Some _ \<Rightarrow> s\<lparr>pv_newBlocks := rest, toProvide := toProvide s @ [blkey]\<rparr>))"

definition emitKey :: "provider \<Rightarrow> provider option" where
  "emitKey s =
     (case nextKey s of
        None \<Rightarrow> None
      | Some k \<Rightarrow>
          if length (provideKeys s) < provideKeysBufferSize then
            let s1 = s\<lparr>provideKeys := provideKeys s @ [k]\<rparr>
            in Some (case toProvide s1 of
                       [] \<Rightarrow> s1\<lparr>nextKey := None\<rparr>
                     | n # rest \<Rightarrow> s1\<lparr>nextKey := Some n, toProvide := rest\<rparr>)
          else None)"

text \<open>The spawner takes a key, waits for a token and starts a worker; a worker that ends gives its token back.\<close>

definition takeKey :: "provider \<Rightarrow> provider option" where
  "takeKey s =
     (case (pv_taken s, provideKeys s) of
        (None, k # rest) \<Rightarrow> Some (s\<lparr>pv_taken := Some k, provideKeys := rest\<rparr>)
      | _ \<Rightarrow> None)"

definition startWorker :: "provider \<Rightarrow> provider option" where
  "startWorker s =
     (case pv_taken s of
        None \<Rightarrow> None
      | Some k \<Rightarrow>
          if length (pv_running s) < provideWorkerMax
          then Some (s\<lparr>pv_taken := None, pv_running := pv_running s @ [k], pv_started := pv_started s @ [k]\<rparr>)
          else None)"

definition endWorker :: "nat \<Rightarrow> provider \<Rightarrow> provider option" where
  "endWorker i s =
     (if i < length (pv_running s)
      then Some (s\<lparr>pv_running := take i (pv_running s) @ drop (Suc i) (pv_running s)\<rparr>)
      else None)"

section \<open>The server\<close>

record srv_stat =
  BlocksSent :: uint64
  DataSent :: uint64

record server =
  srv_engine :: engine
  srv_counters :: srv_stat
  srv_closing :: bool
  provideEnabled :: bool
  srv_provider :: provider

definition srv_New :: "engine \<Rightarrow> server" where
  "srv_New e = \<lparr>srv_engine = e, srv_counters = \<lparr>BlocksSent = 0, DataSent = 0\<rparr>, srv_closing = False,
     provideEnabled = True, srv_provider = pv_New\<rparr>"

datatype srv_call =
    SRV_Engine engine_call
  | SRV_SendMessage peer message

datatype srv_error = ServerClosed

section \<open>Messages\<close>

definition srv_WantlistForPeer :: "cid order \<Rightarrow> peer \<Rightarrow> server \<Rightarrow> cid list \<times> server" where
  "srv_WantlistForPeer ord p s =
     (let (es, e) = WantlistForPeer ord p (srv_engine s) in (map Cid es, s\<lparr>srv_engine := e\<rparr>))"

text \<open>\<open>sent\<close> is whether the network took the message; \<open>Sent\<close> of the envelope is deferred.\<close>

definition sendBlocks :: "cid order \<Rightarrow> bool \<Rightarrow> envelope \<Rightarrow> server \<Rightarrow> srv_call list \<times> server" where
  "sendBlocks ord sent env s =
     (let calls = [SRV_SendMessage (env_Peer env) (env_Message env)];
          blks = Blocks ord (env_Message env);
          dataSent = sum_list (map (\<lambda>b. length (RawData b)) blks);
          c = srv_counters s
      in (calls @ map SRV_Engine (env_Sent env),
          if \<not> sent then s
          else s\<lparr>srv_counters := c\<lparr>BlocksSent := BlocksSent c + word_of_nat (length blks),
                                  DataSent := DataSent c + word_of_nat dataSent\<rparr>\<rparr>))"

text \<open>What a task worker does with one envelope.\<close>

definition taskWorker :: "cid order \<Rightarrow> bool \<Rightarrow> envelope \<Rightarrow> server \<Rightarrow> srv_call list \<times> server" where
  "taskWorker ord sent env s =
     (let (e, calls1) = MessageSent ord (env_Peer env) (env_Message env) (srv_engine s);
          (calls2, s2) = sendBlocks ord sent env (s\<lparr>srv_engine := e\<rparr>)
      in (map SRV_Engine calls1 @ calls2, s2))"

text \<open>The keys are on their way to the collector when the call is done.\<close>

definition srv_NotifyNewBlocks :: "peer order \<Rightarrow> block list \<Rightarrow> server \<Rightarrow> srv_error + srv_call list \<times> server" where
  "srv_NotifyNewBlocks ord blks s =
     (if srv_closing s then Inl ServerClosed
      else
        let (e, calls) = NotifyNewBlocks ord blks (srv_engine s);
            s1 = s\<lparr>srv_engine := e\<rparr>
        in Inr (map SRV_Engine calls,
                if provideEnabled s1 then s1\<lparr>srv_provider := pv_notify (map block_cid blks) (srv_provider s1)\<rparr> else s1))"

definition srv_ReceiveMessage ::
  "cid order \<Rightarrow> (cid \<Rightarrow> bool) \<Rightarrow> (cid \<Rightarrow> nat option) \<Rightarrow> peer \<Rightarrow> message \<Rightarrow> server \<Rightarrow> srv_call list \<times> server" where
  "srv_ReceiveMessage ord accept getSize p incoming s =
     (let (e, calls) = MessageReceived ord accept getSize p incoming (srv_engine s)
      in (map SRV_Engine calls, s\<lparr>srv_engine := e\<rparr>))"

definition srv_ReceivedBlocks :: "peer \<Rightarrow> block list \<Rightarrow> server \<Rightarrow> srv_call list \<times> server" where
  "srv_ReceivedBlocks from blks s =
     (let (e, calls) = ReceivedBlocks from blks (srv_engine s) in (map SRV_Engine calls, s\<lparr>srv_engine := e\<rparr>))"

definition srv_PeerConnected :: "peer \<Rightarrow> server \<Rightarrow> srv_call list \<times> server" where
  "srv_PeerConnected p s =
     (let (e, calls) = PeerConnected p (srv_engine s) in (map SRV_Engine calls, s\<lparr>srv_engine := e\<rparr>))"

definition srv_PeerDisconnected :: "cid order \<Rightarrow> peer \<Rightarrow> server \<Rightarrow> srv_call list \<times> server" where
  "srv_PeerDisconnected ord p s =
     (let (e, calls) = PeerDisconnected ord p (srv_engine s) in (map SRV_Engine calls, s\<lparr>srv_engine := e\<rparr>))"

section \<open>The pipeline\<close>

inductive pv_step :: "provider \<Rightarrow> provider \<Rightarrow> bool" where
  collect: "collectKey s = Some s' \<Longrightarrow> pv_step s s'"
| emit: "emitKey s = Some s' \<Longrightarrow> pv_step s s'"
| taken: "takeKey s = Some s' \<Longrightarrow> pv_step s s'"
| started: "startWorker s = Some s' \<Longrightarrow> pv_step s s'"
| ended: "endWorker i s = Some s' \<Longrightarrow> pv_step s s'"

inductive pv_reach :: "provider \<Rightarrow> bool" where
  init: "pv_reach pv_New"
| notify: "pv_reach s \<Longrightarrow> pv_reach (pv_notify ks s)"
| step: "pv_reach s \<Longrightarrow> pv_step s s' \<Longrightarrow> pv_reach s'"

inductive_cases pv_stepE: "pv_step s s'"

definition pv_queue :: "provider \<Rightarrow> cid list" where
  "pv_queue s = (case pv_taken s of None \<Rightarrow> [] | Some k \<Rightarrow> [k]) @ provideKeys s @
     (case nextKey s of None \<Rightarrow> [] | Some k \<Rightarrow> [k]) @ toProvide s @ pv_newBlocks s"

definition pv_inv :: "provider \<Rightarrow> bool" where
  "pv_inv s \<longleftrightarrow> pv_announced s = pv_started s @ pv_queue s \<and> (nextKey s = None \<longrightarrow> toProvide s = []) \<and>
     length (provideKeys s) \<le> provideKeysBufferSize \<and> length (pv_running s) \<le> provideWorkerMax"

text \<open>How far a state is from having started every announcement.\<close>

definition pv_work :: "provider \<Rightarrow> nat" where
  "pv_work s = 5 * length (pv_newBlocks s) + 4 * (length (toProvide s) + (case nextKey s of None \<Rightarrow> 0 | Some _ \<Rightarrow> 1)) +
     3 * length (provideKeys s) + 2 * (case pv_taken s of None \<Rightarrow> 0 | Some _ \<Rightarrow> 1) + length (pv_running s)"

lemmas pv_defs = collectKey_def emitKey_def takeKey_def startWorker_def endWorker_def

lemma pv_step_inv: "pv_step s s' \<Longrightarrow> pv_inv s \<Longrightarrow> pv_inv s'"
  by (erule pv_stepE)
    (auto simp: pv_defs pv_inv_def pv_queue_def Let_def split: list.splits option.splits if_splits prod.splits)

lemma pv_step_work: "pv_step s s' \<Longrightarrow> pv_work s' < pv_work s"
  by (erule pv_stepE)
    (auto simp: pv_defs pv_work_def Let_def split: list.splits option.splits if_splits prod.splits)

lemma pv_reach_inv: "pv_reach s \<Longrightarrow> pv_inv s"
proof (induction rule: pv_reach.induct)
  case (notify s ks)
  then show ?case
    by (auto simp: pv_inv_def pv_notify_def pv_queue_def split: option.splits)
next
  case (step s s')
  then show ?case
    by (blast intro: pv_step_inv)
qed (simp add: pv_New_def pv_inv_def pv_queue_def)

lemma pv_not_stuck:
  assumes "pv_inv s" "\<And>s'. \<not> pv_step s s'"
  shows "pv_started s = pv_announced s \<and> pv_running s = []"
proof -
  have none: "collectKey s = None" "emitKey s = None" "takeKey s = None" "startWorker s = None" "endWorker 0 s = None"
    using assms(2) pv_step.intros by (meson not_None_eq)+
  have running: "pv_running s = []"
    using none(5) by (auto simp: endWorker_def split: if_splits)
  have taken: "pv_taken s = None"
    using none(4) running by (auto simp: startWorker_def provideWorkerMax_def split: option.splits)
  have keys: "provideKeys s = []"
    using none(3) taken by (auto simp: takeKey_def split: list.splits)
  have next_: "nextKey s = None"
    using none(2) keys by (auto simp: emitKey_def provideKeysBufferSize_def Let_def split: option.splits)
  have "pv_newBlocks s = []"
    using none(1) by (auto simp: collectKey_def split: list.splits)
  then show ?thesis
    using assms(1) running taken keys next_ by (simp add: pv_inv_def pv_queue_def)
qed

section \<open>Properties\<close>

text \<open>
  C22. Every new block is announced, in order, once, by at most six workers. In every reachable
  state the announcements started are a prefix of the keys handed in and the rest is in the
  pipeline; without new keys every sequence of steps ends, and a state with no step left has
  started an announcement for every key.
\<close>

theorem provides_all:
  assumes "pv_reach s"
  shows "pv_announced s = pv_started s @ pv_queue s \<and> length (pv_running s) \<le> provideWorkerMax \<and>
    wf {(s2, s1). pv_step s1 s2} \<and> ((\<forall>s'. \<not> pv_step s s') \<longrightarrow> pv_started s = pv_announced s)"
proof (intro conjI impI)
  note inv = pv_reach_inv [OF assms]
  then show "pv_announced s = pv_started s @ pv_queue s" "length (pv_running s) \<le> provideWorkerMax"
    by (simp_all add: pv_inv_def)
  have "{(s2, s1). pv_step s1 s2} \<subseteq> measure pv_work"
    by (auto intro: pv_step_work)
  then show "wf {(s2, s1). pv_step s1 s2}"
    by (rule wf_subset [OF wf_measure])
  show "pv_started s = pv_announced s" if "\<forall>s'. \<not> pv_step s s'"
    using pv_not_stuck [OF inv] that by blast
qed

definition busy_provider :: provider where
  "busy_provider = pv_notify [''a'', ''b''] pv_New"

theorem provides_all_witness:
  "pv_announced busy_provider = pv_started busy_provider @ pv_queue busy_provider \<and> pv_announced busy_provider = [''a'', ''b'']"
  using provides_all [OF pv_reach.notify [OF pv_reach.init, of "[''a'', ''b'']"]]
  by (simp add: busy_provider_def pv_notify_def pv_New_def)

text \<open>
  A task worker with an envelope tells the engine, sends the message once, and reports the
  tasks as done in every case. The blocks of the message are settled in the partner's ledger
  whether or not the network took it; only a message that was taken is counted.
\<close>

theorem taskWorker_effect:
  assumes "go_range ord" "msg_inv (env_Message env)" "taskWorker ord sent env s = (calls, s')"
  shows "(\<exists>scores. calls = map SRV_Engine scores @ SRV_SendMessage (env_Peer env) (env_Message env) # map SRV_Engine (env_Sent env)) \<and>
    (\<forall>k. k |\<in>| fmdom (m_blocks (env_Message env)) \<longrightarrow> e_wants (srv_engine s') (env_Peer env) k = None) \<and>
    (\<forall>q k. q \<noteq> env_Peer env \<longrightarrow> e_wants (srv_engine s') q k = e_wants (srv_engine s) q k) \<and>
    BlocksSent (srv_counters s') = BlocksSent (srv_counters s) +
      (if sent then word_of_nat (fcard (fmdom (m_blocks (env_Message env)))) else 0)"
proof -
  let ?e = "fst (MessageSent ord (env_Peer env) (env_Message env) (srv_engine s))"
  have n: "length (Blocks ord (env_Message env)) = fcard (fmdom (m_blocks (env_Message env)))"
    using go_range.length_ord [OF assms(1)] by (simp add: Blocks_def range_values_eq [OF assms(1)])
  have s': "srv_engine s' = ?e" "calls = map SRV_Engine (snd (MessageSent ord (env_Peer env) (env_Message env) (srv_engine s))) @
      SRV_SendMessage (env_Peer env) (env_Message env) # map SRV_Engine (env_Sent env)"
    "BlocksSent (srv_counters s') = BlocksSent (srv_counters s) +
      (if sent then word_of_nat (length (Blocks ord (env_Message env))) else 0)"
    using assms(3) by (auto simp: taskWorker_def sendBlocks_def Let_def split: prod.splits)
  show ?thesis
    using e_wants_MessageSent [OF assms(1,2)] by (auto simp: s' n)
qed

theorem taskWorker_effect_witness:
  "e_wants (srv_engine (snd (taskWorker key_order False
     \<lparr>env_Peer = ''p'', env_Message = AddBlock \<lparr>block_cid = ''w'', RawData = []\<rparr> (newMsg False), env_Sent = []\<rparr>
     (srv_New example_engine)))) ''p'' ''w'' = None"
proof -
  let ?env = "\<lparr>env_Peer = ''p'', env_Message = AddBlock \<lparr>block_cid = ''w'', RawData = []\<rparr> (newMsg False), env_Sent = []\<rparr>"
  have "msg_inv (env_Message ?env)"
    by (auto simp: AddBlock_def newMsg_def intro!: msg_invI split: if_splits)
  moreover have "''w'' |\<in>| fmdom (m_blocks (env_Message ?env))"
    by (simp add: AddBlock_def newMsg_def)
  moreover obtain calls s' where r: "taskWorker key_order False ?env (srv_New example_engine) = (calls, s')"
    by fastforce
  ultimately show ?thesis
    using taskWorker_effect [OF go_range_key_order _ r] unfolding r snd_conv by (metis envelope.select_convs(1))
qed

text \<open>An envelope that is sent after its peer has left brings the peer's ledger back.\<close>

lemma sent_after_disconnect:
  "fmlookup (ledgerMap (srv_engine (snd (taskWorker ord sent env (snd (srv_PeerDisconnected ord (env_Peer env) s)))))) (env_Peer env) \<noteq> None"
  by (auto simp: taskWorker_def sendBlocks_def MessageSent_def Let_def split: prod.splits)

end
