(* ===== verification/Session_Wants.thy ===== *)
theory Session_Wants
  imports Go_Prelude
begin

text \<open>
  The wants of one session: the queue of keys in \<open>client/internal/session/cidqueue.go\<close> and the
  bookkeeping of pending and live wants in \<open>client/internal/session/sessionwants.go\<close>. A queue
  deletes lazily: \<open>Remove\<close> takes a key out of the set only, and \<open>Pop\<close> skips what is not in the
  set. Times are nanoseconds; \<open>time.Now()\<close> is an argument.
\<close>

section \<open>Key queues\<close>

record cidQueue =
  elems :: "cid list"
  eset :: "cid fset"

definition newCidQueue :: cidQueue where
  "newCidQueue = \<lparr>elems = [], eset = {||}\<rparr>"

fun popElems :: "cid list \<Rightarrow> cid fset \<Rightarrow> cid \<times> cidQueue" where
  "popElems [] s = (Undef, \<lparr>elems = [], eset = s\<rparr>)"
| "popElems (out # cs) s =
     (if out |\<in>| s then (out, \<lparr>elems = cs, eset = s |-| {|out|}\<rparr>) else popElems cs s)"

definition cq_Pop :: "cidQueue \<Rightarrow> cid \<times> cidQueue" where
  "cq_Pop q = popElems (elems q) (eset q)"

definition cq_Cids :: "cidQueue \<Rightarrow> cid list \<times> cidQueue" where
  "cq_Cids q =
     (let es = (if length (elems q) > fcard (eset q) then filter (\<lambda>c. c |\<in>| eset q) (elems q) else elems q)
      in (es, q\<lparr>elems := es\<rparr>))"

definition cq_Push :: "cid \<Rightarrow> cidQueue \<Rightarrow> cidQueue" where
  "cq_Push c q = (if c |\<in>| eset q then q else q\<lparr>eset := finsert c (eset q), elems := elems q @ [c]\<rparr>)"

definition cq_Remove :: "cid \<Rightarrow> cidQueue \<Rightarrow> cidQueue" where
  "cq_Remove c q = q\<lparr>eset := eset q |-| {|c|}\<rparr>"

definition cq_Has :: "cid \<Rightarrow> cidQueue \<Rightarrow> bool" where
  "cq_Has c q \<longleftrightarrow> c |\<in>| eset q"

definition cq_Len :: "cidQueue \<Rightarrow> nat" where
  "cq_Len q = fcard (eset q)"

text \<open>Every key of the set has a place in the list; the keys in the order they will be popped.\<close>

definition cq_inv :: "cidQueue \<Rightarrow> bool" where
  "cq_inv q \<longleftrightarrow> fset (eset q) \<subseteq> set (elems q)"

fun drain :: "cid list \<Rightarrow> cid fset \<Rightarrow> cid list" where
  "drain [] s = []"
| "drain (c # cs) s = (if c |\<in>| s then c # drain cs (s |-| {|c|}) else drain cs s)"

definition queued :: "cidQueue \<Rightarrow> cid list" where
  "queued q = drain (elems q) (eset q)"

lemma set_drain: "set (drain cs s) = set cs \<inter> fset s"
  by (induction cs s rule: drain.induct) auto

lemma distinct_drain: "distinct (drain cs s)"
  by (induction cs s rule: drain.induct) (auto simp: set_drain)

lemma drain_snoc: "c |\<notin>| s \<Longrightarrow> c \<notin> set cs \<Longrightarrow> drain (cs @ [c]) (finsert c s) = drain cs s @ [c]"
proof (induction cs s rule: drain.induct)
  case (2 x cs s)
  have "finsert c s |-| {|x|} = finsert c (s |-| {|x|})"
    using 2(4) by auto
  then show ?case
    using 2 by auto
qed simp

lemma set_queued: "cq_inv q \<Longrightarrow> set (queued q) = fset (eset q)"
  by (auto simp: queued_def set_drain cq_inv_def)

lemma distinct_queued: "distinct (queued q)"
  by (simp add: queued_def distinct_drain)

lemma length_queued: "cq_inv q \<Longrightarrow> length (queued q) = cq_Len q"
  using distinct_card [OF distinct_queued, of q] by (simp add: set_queued cq_Len_def fcard.rep_eq)

lemma popElems_spec:
  assumes "fset s \<subseteq> set es"
  shows "cq_inv (snd (popElems es s))"
    "drain es s = [] \<Longrightarrow> fst (popElems es s) = Undef \<and> queued (snd (popElems es s)) = []"
    "drain es s = c # cs \<Longrightarrow> fst (popElems es s) = c \<and> queued (snd (popElems es s)) = cs"
  using assms by (induction es s rule: popElems.induct) (auto simp: cq_inv_def queued_def split: if_splits)

lemma cq_inv_ops [inv_intros]:
  "cq_inv newCidQueue" "cq_inv q \<Longrightarrow> cq_inv (cq_Push c q)" "cq_inv q \<Longrightarrow> cq_inv (cq_Remove c q)"
  "cq_inv q \<Longrightarrow> cq_inv (snd (cq_Pop q))" "cq_inv q \<Longrightarrow> cq_inv (snd (cq_Cids q))"
  by (auto simp: cq_inv_def newCidQueue_def cq_Push_def cq_Remove_def cq_Pop_def cq_Cids_def Let_def
      popElems_spec(1) [unfolded cq_inv_def])

lemma Pop_spec:
  assumes "cq_inv q" "queued q = c # cs"
  shows "fst (cq_Pop q) = c" "queued (snd (cq_Pop q)) = cs"
  using popElems_spec(3) [of "eset q" "elems q" c cs] assms by (auto simp: cq_Pop_def cq_inv_def queued_def)

text \<open>
  What a client of the queue relies on: a set of keys that is popped in a fixed order.
\<close>

locale key_queue =
  fixes inv :: "'q \<Rightarrow> bool" and abs :: "'q \<Rightarrow> 'k list"
    and push :: "'k \<Rightarrow> 'q \<Rightarrow> 'q" and pop :: "'q \<Rightarrow> 'k \<times> 'q" and remove :: "'k \<Rightarrow> 'q \<Rightarrow> 'q"
    and len :: "'q \<Rightarrow> nat"
  assumes abs_distinct: "inv q \<Longrightarrow> distinct (abs q)"
    and push_set: "inv q \<Longrightarrow> inv (push k q) \<and> set (abs (push k q)) = insert k (set (abs q))"
    and remove_set: "inv q \<Longrightarrow> inv (remove k q) \<and> set (abs (remove k q)) = set (abs q) - {k}"
    and pop_head: "inv q \<Longrightarrow> abs q = k # ks \<Longrightarrow> fst (pop q) = k \<and> inv (snd (pop q)) \<and> abs (snd (pop q)) = ks"
    and len_abs: "inv q \<Longrightarrow> len q = length (abs q)"
begin

text \<open>Popping as often as the queue is long yields every key once.\<close>

fun pops :: "nat \<Rightarrow> 'q \<Rightarrow> 'k list \<times> 'q" where
  "pops 0 q = ([], q)"
| "pops (Suc n) q = (let (k, q1) = pop q; (ks, q2) = pops n q1 in (k # ks, q2))"

lemma pops_take:
  "inv q \<Longrightarrow> n \<le> len q \<Longrightarrow>
     fst (pops n q) = take n (abs q) \<and> inv (snd (pops n q)) \<and> abs (snd (pops n q)) = drop n (abs q)"
proof (induction n arbitrary: q)
  case (Suc n)
  then obtain k ks where q: "abs q = k # ks"
    by (cases "abs q") (auto simp: len_abs)
  from pop_head [OF Suc.prems(1) this] have p: "fst (pop q) = k" "inv (snd (pop q))" "abs (snd (pop q)) = ks"
    by auto
  moreover have "n \<le> len (snd (pop q))"
    using Suc.prems q p by (simp add: len_abs)
  ultimately show ?case
    using Suc.IH [of "snd (pop q)"] q by (auto simp: Let_def split: prod.splits)
qed simp

lemma push_all_set: "inv q \<Longrightarrow> inv (fold push ks q) \<and> set (abs (fold push ks q)) = set ks \<union> set (abs q)"
  by (induction ks arbitrary: q) (auto simp: push_set)

lemma remove_all_set: "inv q \<Longrightarrow> inv (fold remove ks q) \<and> set (abs (fold remove ks q)) = set (abs q) - set ks"
  by (induction ks arbitrary: q) (auto simp: remove_set)

end

interpretation cidQ: key_queue cq_inv queued cq_Push cq_Pop cq_Remove cq_Len
proof
  fix q k ks
  assume inv: "cq_inv q"
  show "distinct (queued q)"
    by (rule distinct_queued)
  show "cq_inv (cq_Push k q) \<and> set (queued (cq_Push k q)) = insert k (set (queued q))"
    using inv set_queued [OF cq_inv_ops(2) [OF inv, of k]] 
    by (simp add: cq_inv_ops set_queued) (simp add: cq_Push_def insert_absorb)
  show "cq_inv (cq_Remove k q) \<and> set (queued (cq_Remove k q)) = set (queued q) - {k}"
    using inv set_queued [OF cq_inv_ops(3) [OF inv, of k]] 
    by (simp add: cq_inv_ops set_queued) (simp add: cq_Remove_def)
  show "cq_Len q = length (queued q)"
    using inv by (simp add: length_queued)
  show "fst (cq_Pop q) = k \<and> cq_inv (snd (cq_Pop q)) \<and> queued (snd (cq_Pop q)) = ks" if "queued q = k # ks"
    using inv that by (simp add: Pop_spec cq_inv_ops)
qed

section \<open>Session wants\<close>

definition liveWantsOrderGCLimit :: int where
  "liveWantsOrderGCLimit = 32"

record sessionWants =
  toFetch :: cidQueue
  liveWants :: "(cid, int) fmap"
  liveWantsOrder :: "cid list"
  broadcastLimit :: int

definition newSessionWants :: "int \<Rightarrow> sessionWants" where
  "newSessionWants limit =
     \<lparr>toFetch = newCidQueue, liveWants = fmempty, liveWantsOrder = [], broadcastLimit = limit\<rparr>"

definition BlocksRequested :: "cid list \<Rightarrow> sessionWants \<Rightarrow> sessionWants" where
  "BlocksRequested newWants sw = sw\<lparr>toFetch := fold cq_Push newWants (toFetch sw)\<rparr>"

fun moveWants :: "int \<Rightarrow> nat \<Rightarrow> sessionWants \<Rightarrow> cid list \<times> sessionWants" where
  "moveWants now 0 sw = ([], sw)"
| "moveWants now (Suc toAdd) sw =
     (if cq_Len (toFetch sw) > 0 then
        let (c, q) = cq_Pop (toFetch sw);
            (live, sw') = moveWants now toAdd
              (sw\<lparr>toFetch := q, liveWantsOrder := liveWantsOrder sw @ [c], liveWants := fmupd c now (liveWants sw)\<rparr>)
        in (c # live, sw')
      else ([], sw))"

definition GetNextWants :: "int \<Rightarrow> sessionWants \<Rightarrow> cid list \<times> sessionWants" where
  "GetNextWants now sw =
     (let currentLiveCount = int (fcard (fmdom (liveWants sw)));
          toAdd = broadcastLimit sw - currentLiveCount
      in moveWants now (nat toAdd) sw)"

definition wantSent :: "int \<Rightarrow> cid \<Rightarrow> sessionWants \<Rightarrow> sessionWants" where
  "wantSent now c sw =
     (if fmlookup (liveWants sw) c = None \<and> cq_Has c (toFetch sw)
      then sw\<lparr>toFetch := cq_Remove c (toFetch sw), liveWantsOrder := liveWantsOrder sw @ [c],
              liveWants := fmupd c now (liveWants sw)\<rparr>
      else sw)"

definition WantsSent :: "int \<Rightarrow> cid list \<Rightarrow> sessionWants \<Rightarrow> sessionWants" where
  "WantsSent now ks sw = fold (wantSent now) ks sw"

definition isWanted :: "cid \<Rightarrow> sessionWants \<Rightarrow> bool" where
  "isWanted c sw = (case fmlookup (liveWants sw) c of Some _ \<Rightarrow> True | None \<Rightarrow> cq_Has c (toFetch sw))"

definition blockReceived :: "int \<Rightarrow> cid \<Rightarrow> cid list \<times> int \<times> sessionWants \<Rightarrow> cid list \<times> int \<times> sessionWants" where
  "blockReceived now c = (\<lambda>(wanted, totalLatency, sw).
     if isWanted c sw then
       (wanted @ [c],
        (case fmlookup (liveWants sw) c of Some sentAt \<Rightarrow> totalLatency + (now - sentAt) | None \<Rightarrow> totalLatency),
        sw\<lparr>liveWants := fmdrop c (liveWants sw), toFetch := cq_Remove c (toFetch sw)\<rparr>)
     else (wanted, totalLatency, sw))"

definition cleanOrder :: "sessionWants \<Rightarrow> sessionWants" where
  "cleanOrder sw =
     (if int (length (liveWantsOrder sw)) - int (fcard (fmdom (liveWants sw))) > liveWantsOrderGCLimit
      then sw\<lparr>liveWantsOrder := filter (\<lambda>c. fmlookup (liveWants sw) c \<noteq> None) (liveWantsOrder sw)\<rparr>
      else sw)"

definition BlocksReceived :: "int \<Rightarrow> cid list \<Rightarrow> sessionWants \<Rightarrow> cid list \<times> int \<times> sessionWants" where
  "BlocksReceived now ks sw =
     (if length ks = 0 then ([], 0, sw)
      else let (wanted, totalLatency, sw1) = fold (blockReceived now) ks ([], 0, sw)
           in (wanted, totalLatency, cleanOrder sw1))"

text \<open>The loop of \<open>PrepareBroadcast\<close> over the order, with the live wants found so far.\<close>

fun broadcastLoop :: "int \<Rightarrow> cid list \<Rightarrow> cid list \<Rightarrow> sessionWants \<Rightarrow> cid list \<times> sessionWants" where
  "broadcastLoop now [] live sw = (live, sw)"
| "broadcastLoop now (c # cs) live sw =
     (case fmlookup (liveWants sw) c of
        None \<Rightarrow> broadcastLoop now cs live sw
      | Some _ \<Rightarrow>
          let sw1 = sw\<lparr>liveWants := fmupd c now (liveWants sw)\<rparr>; live1 = live @ [c]
          in if int (length live1) = broadcastLimit sw1 then (live1, sw1) else broadcastLoop now cs live1 sw1)"

definition PrepareBroadcast :: "int \<Rightarrow> sessionWants \<Rightarrow> cid list \<times> sessionWants" where
  "PrepareBroadcast now sw = broadcastLoop now (liveWantsOrder sw) [] sw"

definition sw_CancelPending :: "cid list \<Rightarrow> sessionWants \<Rightarrow> sessionWants" where
  "sw_CancelPending keys sw = sw\<lparr>toFetch := fold cq_Remove keys (toFetch sw)\<rparr>"

definition LiveWants :: "cid order \<Rightarrow> sessionWants \<Rightarrow> cid list" where
  "LiveWants ord sw = ord (fmdom (liveWants sw))"

text \<open>\<open>i\<close> is the random index.\<close>

definition RandomLiveWant :: "cid order \<Rightarrow> nat \<Rightarrow> sessionWants \<Rightarrow> cid" where
  "RandomLiveWant ord i sw =
     (if fcard (fmdom (liveWants sw)) = 0 then Undef
      else let ks = ord (fmdom (liveWants sw)) in if i < length ks then ks ! i else Undef)"

definition HasLiveWants :: "sessionWants \<Rightarrow> bool" where
  "HasLiveWants sw \<longleftrightarrow> fcard (fmdom (liveWants sw)) > 0"

section \<open>Effects\<close>

definition sw_inv :: "sessionWants \<Rightarrow> bool" where
  "sw_inv sw \<longleftrightarrow> cq_inv (toFetch sw) \<and> fset (fmdom (liveWants sw)) \<subseteq> set (liveWantsOrder sw)"

abbreviation live :: "sessionWants \<Rightarrow> cid \<Rightarrow> bool" where
  "live sw c \<equiv> fmlookup (liveWants sw) c \<noteq> None"

abbreviation pendingWants :: "sessionWants \<Rightarrow> cid list" where
  "pendingWants sw \<equiv> queued (toFetch sw)"

lemma isWanted_iff: "sw_inv sw \<Longrightarrow> isWanted c sw \<longleftrightarrow> live sw c \<or> c \<in> set (pendingWants sw)"
  by (auto simp: isWanted_def sw_inv_def set_queued cq_Has_def split: option.splits)

lemma moveWants_spec:
  assumes "sw_inv sw" "moveWants now n sw = (ks, sw')"
  shows "sw_inv sw' \<and> ks = take n (pendingWants sw) \<and> pendingWants sw' = drop n (pendingWants sw) \<and>
    liveWants sw' = fold (\<lambda>c. fmupd c now) ks (liveWants sw) \<and> broadcastLimit sw' = broadcastLimit sw"
  using assms
proof (induction n arbitrary: sw ks sw')
  case (Suc n)
  have inv: "cq_inv (toFetch sw)"
    using Suc.prems by (simp add: sw_inv_def)
  show ?case
  proof (cases "pendingWants sw")
    case Nil
    then show ?thesis
      using Suc.prems cidQ.len_abs [OF inv] by simp
  next
    case (Cons c cs)
    note pop = cidQ.pop_head [OF inv Cons]
    let ?q = "snd (cq_Pop (toFetch sw))"
    let ?sw = "sw\<lparr>toFetch := ?q, liveWantsOrder := liveWantsOrder sw @ [c], liveWants := fmupd c now (liveWants sw)\<rparr>"
    obtain ks1 sw1 where r: "moveWants now n ?sw = (ks1, sw1)"
      by fastforce
    have "sw_inv ?sw"
      using Suc.prems pop by (auto simp: sw_inv_def)
    note IH = Suc.IH [OF this r]
    have "ks = c # ks1" "sw' = sw1"
      using Suc.prems(2) cidQ.len_abs [OF inv] pop Cons r by (auto simp: Let_def split: prod.splits)
    then show ?thesis
      using IH pop Cons by simp
  qed
qed simp

lemma fcard_fold_fmupd: "fcard (fmdom (fold (\<lambda>c. fmupd c (v c)) ks m)) \<le> fcard (fmdom m) + length ks"
proof (induction ks arbitrary: m)
  case (Cons k ks)
  have "fcard (finsert k (fmdom m)) \<le> Suc (fcard (fmdom m))"
    by (simp add: fcard_finsert_if)
  then show ?case
    using Cons.IH [of "fmupd k (v k) m"] by simp
qed simp

text \<open>Only whether a key is live matters to the loop, and the loop does not change that.\<close>

lemma broadcastLoop_spec:
  assumes "int (length found) < broadcastLimit sw"
  shows "broadcastLoop now cs found sw =
    (let new = take (nat (broadcastLimit sw) - length found) (filter (live sw) cs)
     in (found @ new, sw\<lparr>liveWants := fold (\<lambda>c. fmupd c now) new (liveWants sw)\<rparr>))"
  using assms
proof (induction cs arbitrary: found sw)
  case (Cons c cs)
  show ?case
  proof (cases "fmlookup (liveWants sw) c")
    case None
    then show ?thesis
      using Cons by simp
  next
    case (Some t)
    let ?sw = "sw\<lparr>liveWants := fmupd c now (liveWants sw)\<rparr>"
    have same: "filter (live ?sw) cs = filter (live sw) cs"
      using Some by (intro filter_cong) auto
    show ?thesis
    proof (cases "int (length (found @ [c])) = broadcastLimit sw")
      case True
      then have "nat (broadcastLimit sw) - length found = 1"
        by auto
      then show ?thesis
        using Some True by simp
    next
      case False
      then have lt: "int (length (found @ [c])) < broadcastLimit ?sw"
        using Cons.prems by auto
      have "nat (broadcastLimit sw) - length found = Suc (nat (broadcastLimit sw) - length (found @ [c]))"
        using lt by auto
      then show ?thesis
        using Some False Cons.IH [OF lt] same by (simp add: Let_def)
    qed
  qed
qed simp

text \<open>One received block.\<close>

lemma blockReceived_spec:
  assumes "sw_inv sw" "blockReceived now c (wanted, lat, sw) = (wanted', lat', sw')"
  shows "sw_inv sw' \<and> wanted' = (if isWanted c sw then wanted @ [c] else wanted) \<and>
    lat' = lat + (case fmlookup (liveWants sw) c of Some at \<Rightarrow> now - at | None \<Rightarrow> 0) \<and>
    (\<forall>k. isWanted k sw' \<longleftrightarrow> isWanted k sw \<and> k \<noteq> c) \<and>
    (\<forall>k. fmlookup (liveWants sw') k = (if k = c then None else fmlookup (liveWants sw) k)) \<and>
    broadcastLimit sw' = broadcastLimit sw"
proof (cases "isWanted c sw")
  case True
  then have sw': "sw' = sw\<lparr>liveWants := fmdrop c (liveWants sw), toFetch := cq_Remove c (toFetch sw)\<rparr>"
    using assms(2) by (auto simp: blockReceived_def split: prod.splits)
  have inv: "sw_inv sw'"
    using assms(1) unfolding sw' by (auto simp: sw_inv_def cq_inv_ops)
  have "isWanted k sw' \<longleftrightarrow> isWanted k sw \<and> k \<noteq> c" for k
    unfolding sw' by (auto simp: isWanted_def cq_Has_def cq_Remove_def split: option.splits)
  then show ?thesis
    using inv True assms(2) sw' by (auto simp: blockReceived_def split: option.splits)
next
  case False
  then have same: "sw' = sw" "wanted' = wanted" "lat' = lat"
    using assms(2) by (auto simp: blockReceived_def split: prod.splits)
  have "fmlookup (liveWants sw) c = None"
    using False by (auto simp: isWanted_def split: option.splits)
  then show ?thesis
    using False assms(1) unfolding same by auto
qed

lemma cleanOrder_spec:
  "sw_inv sw \<Longrightarrow> sw_inv (cleanOrder sw)" "isWanted k (cleanOrder sw) = isWanted k sw"
  "liveWants (cleanOrder sw) = liveWants sw" "toFetch (cleanOrder sw) = toFetch sw"
  "sw_inv sw \<Longrightarrow> filter (live sw) (liveWantsOrder (cleanOrder sw)) = filter (live sw) (liveWantsOrder sw)"
  by (auto simp: cleanOrder_def sw_inv_def isWanted_def fmlookup_dom_iff split: option.splits)

lemma fold_blockReceived:
  assumes "sw_inv sw" "fold (blockReceived now) ks (wanted, lat, sw) = (wanted', lat', sw')"
  shows "\<exists>new. sw_inv sw' \<and> wanted' = wanted @ new \<and> distinct new \<and> set new = {c \<in> set ks. isWanted c sw} \<and>
    lat' = lat + (\<Sum>c\<leftarrow>new. case fmlookup (liveWants sw) c of Some at \<Rightarrow> now - at | None \<Rightarrow> 0) \<and>
    (\<forall>k. isWanted k sw' \<longleftrightarrow> isWanted k sw \<and> k \<notin> set ks)"
  using assms
proof (induction ks arbitrary: wanted lat sw)
  case (Cons c ks)
  obtain w1 l1 s1 where r: "blockReceived now c (wanted, lat, sw) = (w1, l1, s1)"
    by (rule prod_cases3)
  note B = blockReceived_spec [OF Cons.prems(1) r]
  obtain new where IH: "sw_inv sw'" "wanted' = w1 @ new" "distinct new" "set new = {k \<in> set ks. isWanted k s1}"
      "lat' = l1 + (\<Sum>k\<leftarrow>new. case fmlookup (liveWants s1) k of Some at \<Rightarrow> now - at | None \<Rightarrow> 0)"
      "\<forall>k. isWanted k sw' \<longleftrightarrow> isWanted k s1 \<and> k \<notin> set ks"
    using Cons.IH [of s1 w1 l1] B Cons.prems(2) r by auto
  have lookups: "(\<Sum>k\<leftarrow>new. case fmlookup (liveWants s1) k of Some at \<Rightarrow> now - at | None \<Rightarrow> 0) =
      (\<Sum>k\<leftarrow>new. case fmlookup (liveWants sw) k of Some at \<Rightarrow> now - at | None \<Rightarrow> 0)"
    using B IH(4) by (intro arg_cong [where f = sum_list] map_cong) auto
  have quiet: "fmlookup (liveWants sw) c = None" if "\<not> isWanted c sw"
    using that by (auto simp: isWanted_def split: option.splits)
  show ?case
  proof (cases "isWanted c sw")
    case True
    then show ?thesis
      using B IH lookups by (intro exI [of _ "c # new"]) auto
  next
    case False
    then show ?thesis
      using B IH lookups quiet by (intro exI [of _ new]) auto
  qed
qed simp

section \<open>Runs\<close>

datatype sw_op =
    SW_Requested "cid list"
  | SW_GetNextWants int
  | SW_WantsSent int "cid list"
  | SW_Received int "cid list"
  | SW_PrepareBroadcast int
  | SW_CancelPending "cid list"

fun sw_step :: "sw_op \<Rightarrow> sessionWants \<Rightarrow> sessionWants" where
  "sw_step (SW_Requested ks) sw = BlocksRequested ks sw"
| "sw_step (SW_GetNextWants now) sw = snd (GetNextWants now sw)"
| "sw_step (SW_WantsSent now ks) sw = WantsSent now ks sw"
| "sw_step (SW_Received now ks) sw = snd (snd (BlocksReceived now ks sw))"
| "sw_step (SW_PrepareBroadcast now) sw = snd (PrepareBroadcast now sw)"
| "sw_step (SW_CancelPending ks) sw = sw_CancelPending ks sw"

lemma broadcastLoop_inv: "sw_inv sw \<Longrightarrow> sw_inv (snd (broadcastLoop now cs found sw))"
proof (induction cs arbitrary: found sw)
  case (Cons c cs)
  show ?case
  proof (cases "fmlookup (liveWants sw) c")
    case (Some t)
    then have "sw_inv (sw\<lparr>liveWants := fmupd c now (liveWants sw)\<rparr>)"
      using Cons.prems by (auto simp: sw_inv_def fmlookup_dom_iff)
    then show ?thesis
      using Cons.IH Some by (simp add: Let_def)
  qed (use Cons in simp)
qed simp

lemma sw_inv_GetNextWants: "sw_inv sw \<Longrightarrow> sw_inv (snd (GetNextWants now sw))"
  using moveWants_spec by (metis GetNextWants_def prod.collapse)

lemma sw_inv_WantsSent: "sw_inv sw \<Longrightarrow> sw_inv (WantsSent now ks sw)"
  unfolding WantsSent_def
  by (rule fold_invariant [where P = sw_inv]) (auto simp: wantSent_def sw_inv_def cq_inv_ops)

lemma sw_inv_BlocksReceived: "sw_inv sw \<Longrightarrow> sw_inv (snd (snd (BlocksReceived now ks sw)))"
proof -
  assume inv: "sw_inv sw"
  obtain w l s where r: "fold (blockReceived now) ks ([], 0, sw) = (w, l, s)"
    by (rule prod_cases3)
  from fold_blockReceived [OF inv r] show ?thesis
    using inv r cleanOrder_spec(1) by (auto simp: BlocksReceived_def)
qed

interpretation sw_runs: step_invariant sw_step "\<lambda>_. True" sw_inv
proof
  fix x and sw :: sessionWants
  assume inv: "sw_inv sw"
  show "sw_inv (sw_step x sw)"
  proof (cases x)
    case (SW_Requested ks)
    then show ?thesis
      using inv cidQ.push_all_set by (simp add: BlocksRequested_def sw_inv_def)
  next
    case (SW_CancelPending ks)
    then show ?thesis
      using inv cidQ.remove_all_set by (simp add: sw_CancelPending_def sw_inv_def)
  qed (use inv in \<open>simp_all add: sw_inv_GetNextWants sw_inv_WantsSent sw_inv_BlocksReceived PrepareBroadcast_def broadcastLoop_inv\<close>)
qed

lemma sw_inv_run: "sw_inv (fold sw_step xs (newSessionWants limit))"
  by (rule sw_runs.run_inv) (auto simp: sw_inv_def newSessionWants_def cq_inv_ops list_all_iff)

section \<open>Properties\<close>

text \<open>
  Wants go live in order and within the limit. After any history \<open>GetNextWants\<close> takes the
  pending keys from the front of the queue, skipping removed ones, as many as the broadcast
  limit leaves room for; they become live, the rest stays pending in order, no key stops
  being wanted, and the live wants do not outgrow the limit.
\<close>

theorem GetNextWants_fifo:
  fixes xs :: "sw_op list" and limit now :: int
  defines "sw \<equiv> fold sw_step xs (newSessionWants limit)"
  defines "n \<equiv> nat (broadcastLimit sw - int (fcard (fmdom (liveWants sw))))"
  shows "\<exists>ks sw'. GetNextWants now sw = (ks, sw') \<and>
    ks = take n (pendingWants sw) \<and> distinct ks \<and> pendingWants sw' = drop n (pendingWants sw) \<and>
    (\<forall>c. fmlookup (liveWants sw') c = (if c \<in> set ks then Some now else fmlookup (liveWants sw) c)) \<and>
    (\<forall>c. isWanted c sw' = isWanted c sw) \<and>
    int (fcard (fmdom (liveWants sw'))) \<le> max (broadcastLimit sw) (int (fcard (fmdom (liveWants sw))))"
proof -
  have inv: "sw_inv sw"
    unfolding sw_def by (rule sw_inv_run)
  obtain ks sw' where r: "GetNextWants now sw = (ks, sw')"
    by fastforce
  then have m: "moveWants now n sw = (ks, sw')"
    by (simp add: GetNextWants_def n_def Let_def)
  note M = moveWants_spec [OF inv m]
  have lk: "fmlookup (liveWants sw') c = (if c \<in> set ks then Some now else fmlookup (liveWants sw) c)" for c
    using M by (simp add: fmlookup_fold_fmupd)
  have "set (pendingWants sw) = set ks \<union> set (pendingWants sw')"
    using M by (metis append_take_drop_id set_append)
  then have "isWanted c sw' = isWanted c sw" for c
    using M isWanted_iff [OF inv] isWanted_iff [of sw'] lk by auto
  moreover have "int (fcard (fmdom (liveWants sw'))) \<le> max (broadcastLimit sw) (int (fcard (fmdom (liveWants sw))))"
  proof -
    have "fcard (fmdom (liveWants sw')) \<le> fcard (fmdom (liveWants sw)) + length ks"
      using M fcard_fold_fmupd [of "\<lambda>_. now" ks "liveWants sw"] by simp
    moreover have "length ks \<le> n"
      using M by simp
    ultimately show ?thesis
      by (simp add: n_def)
  qed
  ultimately show ?thesis
    using r M lk distinct_queued [of "toFetch sw"] by auto
qed

text \<open>
  Blocks settle wants exactly. After any history \<open>BlocksReceived\<close> returns, once each, the
  keys that were wanted, live or pending; afterwards none of the received keys is wanted and
  all others are as before; the latency is the sum over the live ones.
\<close>

theorem BlocksReceived_exact:
  fixes xs :: "sw_op list" and limit now :: int and ks :: "cid list"
  defines "sw \<equiv> fold sw_step xs (newSessionWants limit)"
  shows "\<exists>wanted sw'. BlocksReceived now ks sw =
      (wanted, (\<Sum>c\<leftarrow>wanted. case fmlookup (liveWants sw) c of Some at \<Rightarrow> now - at | None \<Rightarrow> 0), sw') \<and>
    distinct wanted \<and> set wanted = {c \<in> set ks. isWanted c sw} \<and>
    (\<forall>c. isWanted c sw' \<longleftrightarrow> isWanted c sw \<and> c \<notin> set ks)"
proof (cases "ks = []")
  case True
  then show ?thesis
    by (auto simp: BlocksReceived_def)
next
  case False
  have inv: "sw_inv sw"
    unfolding sw_def by (rule sw_inv_run)
  obtain w l s where r: "fold (blockReceived now) ks ([], 0, sw) = (w, l, s)"
    by (rule prod_cases3)
  from fold_blockReceived [OF inv r] show ?thesis
    using r False by (auto simp: BlocksReceived_def cleanOrder_spec(2))
qed

text \<open>
  An idle broadcast is the first live wants in the order they went live, up to the limit,
  and restarts their clocks; every live want has a place in the order.
\<close>

theorem PrepareBroadcast_exact:
  fixes xs :: "sw_op list" and limit now :: int
  assumes "0 < broadcastLimit (fold sw_step xs (newSessionWants limit))"
  defines "sw \<equiv> fold sw_step xs (newSessionWants limit)"
  shows "\<exists>ks sw'. PrepareBroadcast now sw = (ks, sw') \<and>
    ks = take (nat (broadcastLimit sw)) (filter (live sw) (liveWantsOrder sw)) \<and>
    (\<forall>c. live sw c \<longrightarrow> c \<in> set (liveWantsOrder sw)) \<and>
    (\<forall>c. fmlookup (liveWants sw') c = (if c \<in> set ks then Some now else fmlookup (liveWants sw) c))"
proof -
  have "sw_inv sw"
    unfolding sw_def by (rule sw_inv_run)
  then have "\<forall>c. live sw c \<longrightarrow> c \<in> set (liveWantsOrder sw)"
    by (auto simp: sw_inv_def fmlookup_dom_iff)
  then show ?thesis
    using broadcastLoop_spec [of "[]" sw now "liveWantsOrder sw"] assms
    by (simp add: PrepareBroadcast_def Let_def fmlookup_fold_fmupd)
qed

theorem PrepareBroadcast_exact_witness:
  "\<exists>ks sw'. PrepareBroadcast 9 (fold sw_step [SW_Requested [''a'', ''b''], SW_GetNextWants 5] (newSessionWants 2)) = (ks, sw') \<and>
     ks = [''a'', ''b'']"
proof -
  have "filter (live (fold sw_step [SW_Requested [''a'', ''b''], SW_GetNextWants 5] (newSessionWants 2)))
      (liveWantsOrder (fold sw_step [SW_Requested [''a'', ''b''], SW_GetNextWants 5] (newSessionWants 2))) = [''a'', ''b''] \<and>
      broadcastLimit (fold sw_step [SW_Requested [''a'', ''b''], SW_GetNextWants 5] (newSessionWants 2)) = 2"
    by code_simp
  then show ?thesis
    using PrepareBroadcast_exact [of "[SW_Requested [''a'', ''b''], SW_GetNextWants 5]" 2 9] by auto
qed

definition twice_wanted :: sessionWants where
  "twice_wanted = fold sw_step
     [SW_Requested [''a''], SW_GetNextWants 1, SW_Received 2 [''a''], SW_Requested [''a'', ''b''], SW_GetNextWants 3]
     (newSessionWants 2)"

text \<open>
  A key that was received and requested again has two places in the order, so a broadcast
  names it twice and may leave no room for another live want: here with a limit of two the
  want for \<open>b\<close> is live but is not broadcast.
\<close>

theorem broadcast_starves:
  "fst (PrepareBroadcast 9 twice_wanted) = [''a'', ''a''] \<and> live twice_wanted ''b''"
  by code_simp

end
