(* ===== verification/Session_Interest.thy ===== *)
theory Session_Interest
  imports Message
begin

text \<open>
  The session interest manager of
  \<open>client/internal/sessioninterestmanager/sessioninterestmanager.go\<close>: for each key the sessions
  interested in it, and whether they still want the block.
\<close>

section \<open>State and operations\<close>

type_synonym sim = "(cid, (uint64, bool) fmap) fmap"

definition sim_New :: sim where
  "sim_New = fmempty"

definition RecordSessionInterest :: "uint64 \<Rightarrow> cid list \<Rightarrow> sim \<Rightarrow> sim" where
  "RecordSessionInterest ses ks m =
     fold (\<lambda>c m. case fmlookup m c of
             Some want \<Rightarrow> fmupd c (fmupd ses True want) m
           | None \<Rightarrow> fmupd c (fmupd ses True fmempty) m) ks m"

text \<open>Dropping the session from the entry of one key, and the key with its last session.\<close>

definition dropInterest :: "uint64 \<Rightarrow> cid \<Rightarrow> cid list \<times> sim \<Rightarrow> cid list \<times> sim" where
  "dropInterest ses c = (\<lambda>(deletedKs, m).
     case fmlookup m c of
       None \<Rightarrow> (deletedKs, m)
     | Some want \<Rightarrow>
         let want' = fmdrop ses want
         in if fcard (fmdom want') = 0 then (deletedKs @ [c], fmdrop c m) else (deletedKs, fmupd c want' m))"

definition RemoveSession :: "cid order \<Rightarrow> uint64 \<Rightarrow> sim \<Rightarrow> cid list \<times> sim" where
  "RemoveSession ord ses m = fold (dropInterest ses) (ord (fmdom m)) ([], m)"

definition RemoveSessionWants :: "uint64 \<Rightarrow> cid list \<Rightarrow> sim \<Rightarrow> sim" where
  "RemoveSessionWants ses ks m =
     fold (\<lambda>c m. case fmlookup m c of
             None \<Rightarrow> m
           | Some want \<Rightarrow> if fmlookup want ses = Some True then fmupd c (fmupd ses False want) m else m) ks m"

definition RemoveSessionInterested :: "uint64 \<Rightarrow> cid list \<Rightarrow> sim \<Rightarrow> cid list \<times> sim" where
  "RemoveSessionInterested ses ks m = fold (dropInterest ses) ks ([], m)"

definition interest :: "sim \<Rightarrow> cid \<Rightarrow> uint64 \<Rightarrow> bool option" where
  "interest m c ses = (case fmlookup m c of None \<Rightarrow> None | Some want \<Rightarrow> fmlookup want ses)"

definition FilterSessionInterested :: "uint64 \<Rightarrow> cid list list \<Rightarrow> sim \<Rightarrow> cid list list" where
  "FilterSessionInterested ses ksets m = map (filter (\<lambda>c. interest m c ses \<noteq> None)) ksets"

definition sessions_of :: "sim \<Rightarrow> cid \<Rightarrow> uint64 fset" where
  "sessions_of m c = (case fmlookup m c of None \<Rightarrow> {||} | Some want \<Rightarrow> fmdom want)"

definition wantedKs :: "block list \<Rightarrow> sim \<Rightarrow> cid fset" where
  "wantedKs blks m =
     fset_of_list (filter (\<lambda>c. \<exists>ses\<in>fset (sessions_of m c). interest m c ses = Some True) (map block_cid blks))"

definition SplitWantedUnwanted :: "block list \<Rightarrow> sim \<Rightarrow> block list \<times> block list" where
  "SplitWantedUnwanted blks m =
     (filter (\<lambda>b. block_cid b |\<in>| wantedKs blks m) blks,
      filter (\<lambda>b. block_cid b |\<notin>| wantedKs blks m) blks)"

definition InterestedSessions :: "uint64 order \<Rightarrow> cid list \<Rightarrow> cid list \<Rightarrow> cid list \<Rightarrow> sim \<Rightarrow> uint64 list" where
  "InterestedSessions ord blks haves dontHaves m =
     ord (fold (\<lambda>c ss. ss |\<union>| sessions_of m c) (blks @ haves @ dontHaves) {||})"

section \<open>Effects on the interest of one session\<close>

definition sim_inv :: "sim \<Rightarrow> bool" where
  "sim_inv m = fmpred (\<lambda>_ want. want \<noteq> fmempty) m"

lemma sim_inv_iff: "sim_inv m \<longleftrightarrow> (\<forall>c. fmlookup m c \<noteq> Some fmempty)"
  by (auto simp: sim_inv_def fmpred_iff)

lemma fmap_empty_iff: "fcard (fmdom m) = 0 \<longleftrightarrow> m = fmempty"
proof
  assume "fcard (fmdom m) = 0"
  then have "fmdom m = {||}" by simp
  then show "m = fmempty"
    by (intro fmap_eqI) (simp add: fmlookup_None_iff)
qed simp

lemma fmap_all_None: "m = fmempty \<longleftrightarrow> (\<forall>k. fmlookup m k = None)"
  by (auto intro: fmap_eqI)

lemma interest_Record:
  "interest (RecordSessionInterest s ks m) c ses =
     (if ses = s \<and> c \<in> set ks then Some True else interest m c ses)"
proof (induction ks arbitrary: m)
  case (Cons k ks)
  let ?m = "case fmlookup m k of Some want \<Rightarrow> fmupd k (fmupd s True want) m | None \<Rightarrow> fmupd k (fmupd s True fmempty) m"
  have i: "interest ?m c ses = (if ses = s \<and> c = k then Some True else interest m c ses)"
    by (auto simp: interest_def split: option.splits)
  have e: "RecordSessionInterest s (k # ks) m = RecordSessionInterest s ks ?m"
    by (simp add: RecordSessionInterest_def)
  show ?case
    unfolding e Cons.IH i by auto
qed (simp add: RecordSessionInterest_def)

lemma interest_RemoveSessionWants:
  "interest (RemoveSessionWants s ks m) c ses =
     (if ses = s \<and> c \<in> set ks \<and> interest m c ses = Some True then Some False else interest m c ses)"
proof (induction ks arbitrary: m)
  case (Cons k ks)
  let ?m = "case fmlookup m k of None \<Rightarrow> m
     | Some want \<Rightarrow> if fmlookup want s = Some True then fmupd k (fmupd s False want) m else m"
  have i: "interest ?m c ses =
      (if ses = s \<and> c = k \<and> interest m c ses = Some True then Some False else interest m c ses)"
    by (auto simp: interest_def split: option.splits)
  have e: "RemoveSessionWants s (k # ks) m = RemoveSessionWants s ks ?m"
    by (simp add: RemoveSessionWants_def)
  show ?case
    unfolding e Cons.IH i by auto
qed (simp add: RemoveSessionWants_def)

lemma dropInterest_step:
  fixes dk :: "cid list"
  assumes "sim_inv m" "dropInterest s k (dk, m) = (dk', m')"
  shows "sim_inv m'" "interest m' c ses = (if ses = s \<and> c = k then None else interest m c ses)"
    "dk' = (if fmlookup m k \<noteq> None \<and> (\<forall>t. t \<noteq> s \<longrightarrow> interest m k t = None) then dk @ [k] else dk)"
    "fmlookup m' c = None \<longleftrightarrow> fmlookup m c = None \<or> (c = k \<and> (\<forall>t. t \<noteq> s \<longrightarrow> interest m k t = None))"
proof -
  have empty: "fmdrop s want = fmempty \<longleftrightarrow> (\<forall>t. t \<noteq> s \<longrightarrow> fmlookup want t = None)" for want :: "(uint64, bool) fmap"
    by (auto simp: fmap_all_None)
  show "sim_inv m'"
    using assms unfolding sim_inv_iff
    by (cases "fmdrop s (the (fmlookup m k)) = fmempty")
      (auto simp: dropInterest_def Let_def fmap_empty_iff simp del: fmdom_drop fcard_0_eq split: option.splits if_splits)
  show "interest m' c ses = (if ses = s \<and> c = k then None else interest m c ses)"
    using assms by (auto simp: dropInterest_def Let_def interest_def fmap_empty_iff empty simp del: fmdom_drop fcard_0_eq
      split: option.splits if_splits)
  show "dk' = (if fmlookup m k \<noteq> None \<and> (\<forall>t. t \<noteq> s \<longrightarrow> interest m k t = None) then dk @ [k] else dk)"
    using assms by (auto simp: dropInterest_def Let_def interest_def fmap_empty_iff empty simp del: fmdom_drop fcard_0_eq
      split: option.splits if_splits)
  show "fmlookup m' c = None \<longleftrightarrow> fmlookup m c = None \<or> (c = k \<and> (\<forall>t. t \<noteq> s \<longrightarrow> interest m k t = None))"
    using assms by (auto simp: dropInterest_def Let_def interest_def fmap_empty_iff empty simp del: fmdom_drop fcard_0_eq
      split: option.splits if_splits)
qed

lemma known_key: "sim_inv m \<Longrightarrow> fmlookup m c \<noteq> None \<longleftrightarrow> (\<exists>t. interest m c t \<noteq> None)"
proof (cases "fmlookup m c")
  case (Some want)
  moreover assume "sim_inv m"
  ultimately have "want \<noteq> fmempty"
    by (auto simp: sim_inv_iff)
  then show ?thesis
    using Some unfolding fmap_all_None by (simp add: interest_def)
qed (simp add: interest_def)

lemma fold_dropInterest:
  assumes "sim_inv m"
  shows "\<exists>new m'. fold (dropInterest s) ks (dk, m) = (dk @ new, m') \<and> sim_inv m' \<and>
     (\<forall>c ses. interest m' c ses = (if ses = s \<and> c \<in> set ks then None else interest m c ses)) \<and>
     set new = {c \<in> set ks. fmlookup m c \<noteq> None \<and> (\<forall>t. t \<noteq> s \<longrightarrow> interest m c t = None)} \<and> distinct new"
  using assms
proof (induction ks arbitrary: dk m)
  case (Cons k ks)
  obtain dk1 m1 where r: "dropInterest s k (dk, m) = (dk1, m1)"
    by (metis prod.collapse)
  note step = dropInterest_step [OF Cons.prems r]
  obtain new m' where IH: "fold (dropInterest s) ks (dk1, m1) = (dk1 @ new, m')" "sim_inv m'"
      "\<forall>c ses. interest m' c ses = (if ses = s \<and> c \<in> set ks then None else interest m1 c ses)"
      "set new = {c \<in> set ks. fmlookup m1 c \<noteq> None \<and> (\<forall>t. t \<noteq> s \<longrightarrow> interest m1 c t = None)}" "distinct new"
    using Cons.IH [OF step(1), of dk1] by blast
  let ?gone = "fmlookup m k \<noteq> None \<and> (\<forall>t. t \<noteq> s \<longrightarrow> interest m k t = None)"
  let ?new = "if ?gone then k # new else new"
  have "k \<notin> set new" if ?gone
    using that IH(4) step(4) [of k] by auto
  moreover have "set ?new = {c \<in> set (k # ks). fmlookup m c \<noteq> None \<and> (\<forall>t. t \<noteq> s \<longrightarrow> interest m c t = None)}"
    using IH(4) step(2,4) by auto
  moreover have "fold (dropInterest s) (k # ks) (dk, m) = (dk @ ?new, m')"
    using IH(1) r step(3) by (cases ?gone) simp_all
  moreover have "\<forall>c ses. interest m' c ses = (if ses = s \<and> c \<in> set (k # ks) then None else interest m c ses)"
    using IH(3) step(2) by auto
  ultimately show ?case
    using IH(2,5) by (intro exI [of _ ?new] exI [of _ m']) auto
qed auto

lemma sim_inv_Record: "sim_inv m \<Longrightarrow> sim_inv (RecordSessionInterest s ks m)"
proof -
  have ne: "fmupd s True w \<noteq> fmempty" for w :: "(uint64, bool) fmap"
    by (metis fmempty_lookup fmupd_lookup option.distinct(1))
  show "sim_inv m \<Longrightarrow> sim_inv (RecordSessionInterest s ks m)"
    unfolding RecordSessionInterest_def
    by (rule fold_invariant [where P = sim_inv]) (auto simp: sim_inv_iff ne split: option.splits if_splits)
qed

lemma sim_inv_RemoveSessionWants: "sim_inv m \<Longrightarrow> sim_inv (RemoveSessionWants s ks m)"
proof -
  have ne: "fmupd s False w \<noteq> fmempty" for w :: "(uint64, bool) fmap"
    by (metis fmempty_lookup fmupd_lookup option.distinct(1))
  show "sim_inv m \<Longrightarrow> sim_inv (RemoveSessionWants s ks m)"
    unfolding RemoveSessionWants_def
    by (rule fold_invariant [where P = sim_inv]) (auto simp: sim_inv_iff ne split: option.splits if_splits)
qed

lemma sim_inv_New [inv_intros]: "sim_inv sim_New"
  by (simp add: sim_inv_iff sim_New_def)

lemma interest_sessions_of: "s |\<in>| sessions_of m c \<longleftrightarrow> interest m c s \<noteq> None"
  by (auto simp: sessions_of_def interest_def fmlookup_dom_iff split: option.splits)

lemma wantedKs_iff:
  "c |\<in>| wantedKs blks m \<longleftrightarrow> (\<exists>b\<in>set blks. block_cid b = c) \<and> (\<exists>ses. interest m c ses = Some True)"
  by (auto simp: wantedKs_def fset_of_list_elem interest_sessions_of)

section \<open>Runs\<close>

datatype sim_op =
    SIM_Record uint64 "cid list"
  | SIM_RemoveSession "cid order" uint64
  | SIM_RemoveWants uint64 "cid list"
  | SIM_RemoveInterested uint64 "cid list"

fun sim_step :: "sim_op \<Rightarrow> sim \<Rightarrow> sim" where
  "sim_step (SIM_Record s ks) m = RecordSessionInterest s ks m"
| "sim_step (SIM_RemoveSession ord s) m = snd (RemoveSession ord s m)"
| "sim_step (SIM_RemoveWants s ks) m = RemoveSessionWants s ks m"
| "sim_step (SIM_RemoveInterested s ks) m = snd (RemoveSessionInterested s ks m)"

interpretation sim_runs: step_invariant sim_step "\<lambda>_. True" sim_inv
proof
  fix x and m :: sim
  assume inv: "sim_inv m"
  have drop: "sim_inv (snd (fold (dropInterest s) ks ([], m)))" for s ks
    using fold_dropInterest [OF inv, of s ks "[]"] by auto
  then show "sim_inv (sim_step x m)"
    using inv by (cases x)
      (simp_all add: sim_inv_Record sim_inv_RemoveSessionWants RemoveSession_def RemoveSessionInterested_def)
qed

text \<open>
  The interest of a session in a key, seen from the history alone: the last operation that
  speaks of both decides.
\<close>

fun interest_spec :: "uint64 \<Rightarrow> cid \<Rightarrow> sim_op \<Rightarrow> bool option \<Rightarrow> bool option" where
  "interest_spec s c (SIM_Record t ks) i = (if t = s \<and> c \<in> set ks then Some True else i)"
| "interest_spec s c (SIM_RemoveSession ord t) i = (if t = s then None else i)"
| "interest_spec s c (SIM_RemoveWants t ks) i =
     (if t = s \<and> c \<in> set ks then map_option (\<lambda>_. False) i else i)"
| "interest_spec s c (SIM_RemoveInterested t ks) i = (if t = s \<and> c \<in> set ks then None else i)"

lemma RemoveSession_effect:
  assumes ord: "go_range ord" and inv: "sim_inv m" and r: "RemoveSession ord s m = (deletedKs, m')"
  shows "interest m' c t = (if t = s then None else interest m c t)"
    "distinct deletedKs"
    "c \<in> set deletedKs \<longleftrightarrow> interest m c s \<noteq> None \<and> (\<forall>t. t \<noteq> s \<longrightarrow> interest m c t = None)"
proof -
  have new: "(\<forall>c ses. interest m' c ses = (if ses = s \<and> c |\<in>| fmdom m then None else interest m c ses)) \<and>
      set deletedKs = {c. c |\<in>| fmdom m \<and> fmlookup m c \<noteq> None \<and> (\<forall>t. t \<noteq> s \<longrightarrow> interest m c t = None)} \<and>
      distinct deletedKs"
    using fold_dropInterest [OF inv, of s "ord (fmdom m)" "[]"] r
    by (auto simp: RemoveSession_def go_range.ord_set [OF ord])
  have out: "c |\<notin>| fmdom m \<Longrightarrow> interest m c t = None" for c t
    by (simp add: interest_def fmdom_notD)
  show "interest m' c t = (if t = s then None else interest m c t)"
    using new out by auto
  show "distinct deletedKs"
    using new by simp
  show "c \<in> set deletedKs \<longleftrightarrow> interest m c s \<noteq> None \<and> (\<forall>t. t \<noteq> s \<longrightarrow> interest m c t = None)"
    using new known_key [OF inv, of c] by (auto simp: fmlookup_dom_iff)
qed

lemma RemoveSessionInterested_effect:
  assumes inv: "sim_inv m" and r: "RemoveSessionInterested s ks m = (deletedKs, m')"
  shows "interest m' c t = (if t = s \<and> c \<in> set ks then None else interest m c t)"
    "distinct deletedKs"
    "c \<in> set deletedKs \<longleftrightarrow> c \<in> set ks \<and> interest m c s \<noteq> None \<and> (\<forall>t. t \<noteq> s \<longrightarrow> interest m c t = None)"
proof -
  have new: "(\<forall>c ses. interest m' c ses = (if ses = s \<and> c \<in> set ks then None else interest m c ses)) \<and>
      set deletedKs = {c \<in> set ks. fmlookup m c \<noteq> None \<and> (\<forall>t. t \<noteq> s \<longrightarrow> interest m c t = None)} \<and>
      distinct deletedKs"
    using fold_dropInterest [OF inv, of s ks "[]"] r by (auto simp: RemoveSessionInterested_def)
  then show "interest m' c t = (if t = s \<and> c \<in> set ks then None else interest m c t)" "distinct deletedKs"
    by simp_all
  show "c \<in> set deletedKs \<longleftrightarrow> c \<in> set ks \<and> interest m c s \<noteq> None \<and> (\<forall>t. t \<noteq> s \<longrightarrow> interest m c t = None)"
    using new known_key [OF inv, of c] by auto
qed

lemma interest_step:
  assumes "sim_inv m" "\<And>ord t. x = SIM_RemoveSession ord t \<Longrightarrow> go_range ord"
  shows "interest (sim_step x m) c s = interest_spec s c x (interest m c s)"
proof (cases x)
  case (SIM_RemoveSession ord t)
  obtain ks m' where r: "RemoveSession ord t m = (ks, m')"
    by fastforce
  show ?thesis
    using RemoveSession_effect(1) [OF assms(2) [OF SIM_RemoveSession] assms(1) r] SIM_RemoveSession r by simp
next
  case (SIM_RemoveInterested t ks)
  obtain ds m' where r: "RemoveSessionInterested t ks m = (ds, m')"
    by fastforce
  show ?thesis
    using RemoveSessionInterested_effect(1) [OF assms(1) r] SIM_RemoveInterested r by simp
next
  case (SIM_RemoveWants t ks)
  then show ?thesis
    by (cases "interest m c s") (auto simp: interest_RemoveSessionWants)
qed (auto simp: interest_Record)

lemma interest_run:
  assumes "sim_inv m" "list_all (\<lambda>x. case x of SIM_RemoveSession ord t \<Rightarrow> go_range ord | _ \<Rightarrow> True) xs"
  shows "interest (fold sim_step xs m) c s = fold (interest_spec s c) xs (interest m c s)"
  using assms
proof (induction xs arbitrary: m)
  case (Cons x xs)
  have "sim_inv (sim_step x m)"
    using sim_runs.step_inv Cons.prems(1) by simp
  moreover have "interest (sim_step x m) c s = interest_spec s c x (interest m c s)"
    by (rule interest_step) (use Cons.prems in auto)
  ultimately show ?case
    using Cons.IH Cons.prems(2) by simp
qed simp

section \<open>Properties\<close>

text \<open>
  Sessions learn of a message exactly when they should. After any history of calls the
  sessions that are told of a message are, once each, those with a recorded and not removed
  interest in one of its blocks, HAVEs or DONT_HAVEs.
\<close>

theorem InterestedSessions_exact:
  fixes xs :: "sim_op list" and blks haves dontHaves :: "cid list" and ord :: "uint64 order"
  assumes "list_all (\<lambda>x. case x of SIM_RemoveSession ord t \<Rightarrow> go_range ord | _ \<Rightarrow> True) xs" and "go_range ord"
  defines "ss \<equiv> InterestedSessions ord blks haves dontHaves (fold sim_step xs sim_New)"
  shows "distinct ss \<and>
    (s \<in> set ss \<longleftrightarrow>
      (\<exists>c \<in> set blks \<union> set haves \<union> set dontHaves. fold (interest_spec s c) xs None \<noteq> None))"
proof -
  let ?m = "fold sim_step xs sim_New"
  have union: "s |\<in>| fold (\<lambda>c ss. ss |\<union>| sessions_of m c) ks S \<longleftrightarrow>
      s |\<in>| S \<or> (\<exists>c\<in>set ks. s |\<in>| sessions_of m c)" for s ks S and m :: sim
    by (induction ks arbitrary: S) auto
  have "interest ?m c s = fold (interest_spec s c) xs None" for c
    using interest_run [OF sim_inv_New assms(1)] by (simp add: interest_def sim_New_def)
  then show ?thesis
    unfolding ss_def InterestedSessions_def
    by (auto simp: go_range.ord_set [OF assms(2)] go_range.ord_distinct [OF assms(2)] union interest_sessions_of)
qed

text \<open>
  Blocks are kept exactly when some session still wants them: the two lists are the
  blocks of the message in order, and after any history of calls the first has those whose
  key some session recorded and has neither received nor dropped.
\<close>

theorem SplitWantedUnwanted_exact:
  assumes "list_all (\<lambda>x. case x of SIM_RemoveSession ord t \<Rightarrow> go_range ord | _ \<Rightarrow> True) xs"
  shows "SplitWantedUnwanted blks (fold sim_step xs sim_New) =
    partition (\<lambda>b. \<exists>s. fold (interest_spec s (block_cid b)) xs None = Some True) blks"
proof -
  let ?m = "fold sim_step xs sim_New"
  have "interest ?m c s = fold (interest_spec s c) xs None" for c s
    using interest_run [OF sim_inv_New assms] by (simp add: interest_def sim_New_def)
  then have "block_cid b |\<in>| wantedKs blks ?m \<longleftrightarrow> (\<exists>s. fold (interest_spec s (block_cid b)) xs None = Some True)"
    if "b \<in> set blks" for b
    using that by (auto simp: wantedKs_iff)
  then show ?thesis
    unfolding SplitWantedUnwanted_def by (auto intro!: filter_cong)
qed

text \<open>
  A session that shuts down leaves no trace. After any history its interest in every key
  is gone, no other session's is touched, and the keys returned for the cancels are, once
  each, exactly those that only this session was interested in.
\<close>

theorem RemoveSession_cancels:
  assumes "list_all (\<lambda>x. case x of SIM_RemoveSession ord t \<Rightarrow> go_range ord | _ \<Rightarrow> True) xs" and "go_range ord"
    and "RemoveSession ord s (fold sim_step xs sim_New) = (deletedKs, m')"
  shows "(\<forall>c t. interest m' c t = (if t = s then None else fold (interest_spec t c) xs None)) \<and>
    distinct deletedKs \<and>
    (\<forall>c. c \<in> set deletedKs \<longleftrightarrow>
       fold (interest_spec s c) xs None \<noteq> None \<and> (\<forall>t. t \<noteq> s \<longrightarrow> fold (interest_spec t c) xs None = None))"
proof -
  let ?m = "fold sim_step xs sim_New"
  have inv: "sim_inv ?m"
    by (rule sim_runs.run_inv [OF sim_inv_New]) (simp add: list_all_iff)
  have "interest ?m c t = fold (interest_spec t c) xs None" for c t
    using interest_run [OF sim_inv_New assms(1)] by (simp add: interest_def sim_New_def)
  then show ?thesis
    using RemoveSession_effect [OF assms(2) inv assms(3)] by auto
qed

definition example_sim_run :: "sim_op list" where
  "example_sim_run =
     [SIM_Record 1 [''a'', ''b''], SIM_Record 2 [''b''], SIM_RemoveWants 1 [''a''], SIM_RemoveInterested 2 [''a'']]"

lemma example_sim_run_ok:
  "list_all (\<lambda>x. case x of SIM_RemoveSession ord t \<Rightarrow> go_range ord | _ \<Rightarrow> True) example_sim_run"
  by (simp add: example_sim_run_def)

theorem InterestedSessions_exact_witness:
  "1 \<in> set (InterestedSessions key_order [''a''] [] [''c''] (fold sim_step example_sim_run sim_New)) \<and>
   2 \<notin> set (InterestedSessions key_order [''a''] [] [''c''] (fold sim_step example_sim_run sim_New))"
  using InterestedSessions_exact [OF example_sim_run_ok go_range_key_order, of "[''a'']" "[]" "[''c'']" 1]
    InterestedSessions_exact [OF example_sim_run_ok go_range_key_order, of "[''a'']" "[]" "[''c'']" 2]
  by (auto simp: example_sim_run_def)

theorem SplitWantedUnwanted_exact_witness:
  "SplitWantedUnwanted [\<lparr>block_cid = ''a'', RawData = [1]\<rparr>, \<lparr>block_cid = ''b'', RawData = [2]\<rparr>] (fold sim_step example_sim_run sim_New) =
     ([\<lparr>block_cid = ''b'', RawData = [2]\<rparr>], [\<lparr>block_cid = ''a'', RawData = [1]\<rparr>])"
  using SplitWantedUnwanted_exact [OF example_sim_run_ok, of "[\<lparr>block_cid = ''a'', RawData = [1]\<rparr>, \<lparr>block_cid = ''b'', RawData = [2]\<rparr>]"]
  by (auto simp: example_sim_run_def split: if_splits)

theorem RemoveSession_cancels_witness:
  "\<exists>deletedKs m'. RemoveSession key_order 1 (fold sim_step example_sim_run sim_New) = (deletedKs, m') \<and>
     ''a'' \<in> set deletedKs \<and> ''b'' \<notin> set deletedKs \<and> interest m' ''b'' 2 = Some True"
proof -
  obtain deletedKs m' where r: "RemoveSession key_order 1 (fold sim_step example_sim_run sim_New) = (deletedKs, m')"
    by fastforce
  show ?thesis
    using RemoveSession_cancels [OF example_sim_run_ok go_range_key_order r] r
    by (auto simp: example_sim_run_def)
qed

end
