(* ===== verification/Session_Peers.thy ===== *)
theory Session_Peers
  imports Go_Prelude
begin

text \<open>
  The peers of one session, \<open>client/internal/sessionpeermanager/sessionpeermanager.go\<close>. Every
  operation returns the calls it makes on the connection manager's tagger, in order, with the
  session's tag left out (it is the same in every call).
\<close>

section \<open>State and operations\<close>

datatype tag_call = TagPeer peer | UntagPeer peer | Protect peer | Unprotect peer

record spm =
  spm_peers :: "peer fset"
  peersDiscovered :: bool

definition spm_New :: spm where
  "spm_New = \<lparr>spm_peers = {||}, peersDiscovered = False\<rparr>"

definition spm_AddPeer :: "peer \<Rightarrow> spm \<Rightarrow> bool \<times> tag_call list \<times> spm" where
  "spm_AddPeer p s =
     (if p |\<in>| spm_peers s then (False, [], s)
      else (True, [TagPeer p], s\<lparr>spm_peers := finsert p (spm_peers s), peersDiscovered := True\<rparr>))"

definition ProtectConnection :: "peer \<Rightarrow> spm \<Rightarrow> tag_call list" where
  "ProtectConnection p s = (if p |\<notin>| spm_peers s then [] else [Protect p])"

definition spm_RemovePeer :: "peer \<Rightarrow> spm \<Rightarrow> bool \<times> tag_call list \<times> spm" where
  "spm_RemovePeer p s =
     (if p |\<notin>| spm_peers s then (False, [], s)
      else (True, [UntagPeer p, Unprotect p], s\<lparr>spm_peers := spm_peers s |-| {|p|}\<rparr>))"

definition PeersDiscovered :: "spm \<Rightarrow> bool" where
  "PeersDiscovered s = peersDiscovered s"

definition spm_Peers :: "peer order \<Rightarrow> spm \<Rightarrow> peer list" where
  "spm_Peers ord s = ord (spm_peers s)"

definition HasPeers :: "spm \<Rightarrow> bool" where
  "HasPeers s \<longleftrightarrow> fcard (spm_peers s) > 0"

definition HasPeer :: "peer \<Rightarrow> spm \<Rightarrow> bool" where
  "HasPeer p s \<longleftrightarrow> p |\<in>| spm_peers s"

definition spm_Shutdown :: "peer order \<Rightarrow> spm \<Rightarrow> tag_call list" where
  "spm_Shutdown ord s = concat (map (\<lambda>p. [UntagPeer p, Unprotect p]) (ord (spm_peers s)))"

lemma HasPeers_iff: "HasPeers s \<longleftrightarrow> spm_peers s \<noteq> {||}"
  by (simp add: HasPeers_def) (metis fcard_0_eq neq0_conv)

section \<open>What the tagger sees\<close>

text \<open>The peers a tagger holds tagged and protected after some calls.\<close>

fun tags_after :: "tag_call \<Rightarrow> peer set \<times> peer set \<Rightarrow> peer set \<times> peer set" where
  "tags_after (TagPeer p) (T, P) = (insert p T, P)"
| "tags_after (UntagPeer p) (T, P) = (T - {p}, P)"
| "tags_after (Protect p) (T, P) = (T, insert p P)"
| "tags_after (Unprotect p) (T, P) = (T, P - {p})"

datatype spm_op = SPM_AddPeer peer | SPM_RemovePeer peer | SPM_Protect peer

fun spm_step :: "spm_op \<Rightarrow> tag_call list \<times> spm \<Rightarrow> tag_call list \<times> spm" where
  "spm_step (SPM_AddPeer p) (cs, s) = (let (_, new, s') = spm_AddPeer p s in (cs @ new, s'))"
| "spm_step (SPM_RemovePeer p) (cs, s) = (let (_, new, s') = spm_RemovePeer p s in (cs @ new, s'))"
| "spm_step (SPM_Protect p) (cs, s) = (cs @ ProtectConnection p s, s)"

definition tags_agree :: "tag_call list \<times> spm \<Rightarrow> bool" where
  "tags_agree = (\<lambda>(cs, s). \<exists>P. fold tags_after cs ({}, {}) = (fset (spm_peers s), P) \<and> P \<subseteq> fset (spm_peers s) \<and>
     (spm_peers s \<noteq> {||} \<longrightarrow> peersDiscovered s))"

interpretation spm_runs: step_invariant spm_step "\<lambda>_. True" tags_agree
proof
  fix x and cs_s :: "tag_call list \<times> spm"
  assume agree: "tags_agree cs_s"
  obtain cs s where s: "cs_s = (cs, s)"
    by fastforce
  from agree obtain P where P: "fold tags_after cs ({}, {}) = (fset (spm_peers s), P)" "P \<subseteq> fset (spm_peers s)"
      "spm_peers s \<noteq> {||} \<longrightarrow> peersDiscovered s"
    by (auto simp: tags_agree_def s)
  show "tags_agree (spm_step x cs_s)"
    using P unfolding s
    by (cases x) (auto simp: tags_agree_def spm_AddPeer_def spm_RemovePeer_def ProtectConnection_def)
qed

lemma fold_untag:
  "fold tags_after (concat (map (\<lambda>p. [UntagPeer p, Unprotect p]) ps)) (T, P) = (T - set ps, P - set ps)"
  by (induction ps arbitrary: T P) auto

section \<open>Properties\<close>

text \<open>
  Connections are held exactly as long as needed: after any history the tagged peers are
  the peers of the session, only these are protected, and the calls of \<open>Shutdown\<close> release them
  all.
\<close>

theorem session_tags_balanced:
  assumes "go_range ord"
  shows "case fold spm_step xs ([], spm_New) of (cs, s) \<Rightarrow>
    fst (fold tags_after cs ({}, {})) = fset (spm_peers s) \<and>
    snd (fold tags_after cs ({}, {})) \<subseteq> fset (spm_peers s) \<and>
    fold tags_after (cs @ spm_Shutdown ord s) ({}, {}) = ({}, {})"
proof -
  obtain cs s where r: "fold spm_step xs ([], spm_New) = (cs, s)"
    by fastforce
  have "tags_agree (fold spm_step xs ([], spm_New))"
    by (rule spm_runs.run_inv) (auto simp: tags_agree_def spm_New_def list_all_iff)
  then obtain P where "fold tags_after cs ({}, {}) = (fset (spm_peers s), P)" "P \<subseteq> fset (spm_peers s)"
    by (auto simp: tags_agree_def r)
  then show ?thesis
    by (auto simp: r spm_Shutdown_def fold_untag go_range.ord_set [OF assms])
qed

definition example_spm_ops :: "spm_op list" where
  "example_spm_ops = [SPM_AddPeer ''p'', SPM_Protect ''p'', SPM_AddPeer ''q'', SPM_RemovePeer ''q'']"

theorem session_tags_balanced_witness:
  "case fold spm_step example_spm_ops ([], spm_New) of (cs, s) \<Rightarrow>
     fset (spm_peers s) = {''p''} \<and> fst (fold tags_after cs ({}, {})) = {''p''} \<and>
     fold tags_after (cs @ spm_Shutdown key_order s) ({}, {}) = ({}, {})"
proof -
  have "fset (spm_peers (snd (fold spm_step example_spm_ops ([], spm_New)))) = {''p''}"
    by (auto simp: example_spm_ops_def spm_New_def spm_AddPeer_def spm_RemovePeer_def ProtectConnection_def)
  then show ?thesis
    using session_tags_balanced [OF go_range_key_order, of example_spm_ops] by (auto split: prod.splits)
qed

end
