(* ===== verification/Block_Presence.thy ===== *)
theory Block_Presence
  imports Go_Prelude
begin

text \<open>
  The block presence manager of \<open>client/internal/blockpresencemanager/blockpresencemanager.go\<close>: which
  peers said that they have, or do not have, a block.
\<close>

section \<open>State and operations\<close>

type_synonym bpm = "(cid, (peer, bool) fmap) fmap"

definition bpm_New :: bpm where
  "bpm_New = fmempty"

definition updateBlockPresence :: "peer \<Rightarrow> bool \<Rightarrow> cid \<Rightarrow> bpm \<Rightarrow> bpm" where
  "updateBlockPresence p present c m =
     (let ps = (case fmlookup m c of None \<Rightarrow> fmempty | Some ps \<Rightarrow> ps);
          m1 = fmupd c ps m
      in if fmlookup ps p = Some True then m1 else fmupd c (fmupd p present ps) m1)"

definition bpm_ReceiveFrom :: "peer \<Rightarrow> cid list \<Rightarrow> cid list \<Rightarrow> bpm \<Rightarrow> bpm" where
  "bpm_ReceiveFrom p haves dontHaves m =
     fold (updateBlockPresence p False) dontHaves (fold (updateBlockPresence p True) haves m)"

definition PeerHasBlock :: "peer \<Rightarrow> cid \<Rightarrow> bpm \<Rightarrow> bool" where
  "PeerHasBlock p c m = (case fmlookup m c of None \<Rightarrow> False | Some ps \<Rightarrow>
     (case fmlookup ps p of None \<Rightarrow> False | Some has \<Rightarrow> has))"

definition PeerDoesNotHaveBlock :: "peer \<Rightarrow> cid \<Rightarrow> bpm \<Rightarrow> bool" where
  "PeerDoesNotHaveBlock p c m = (case fmlookup m c of None \<Rightarrow> False | Some ps \<Rightarrow>
     (case fmlookup ps p of None \<Rightarrow> False | Some have_it \<Rightarrow> \<not> have_it))"

definition allDontHave :: "peer list \<Rightarrow> cid \<Rightarrow> bpm \<Rightarrow> bool" where
  "allDontHave peers c m =
     (case fmlookup m c of
        None \<Rightarrow> False
      | Some ps \<Rightarrow> list_all (\<lambda>p. \<not> (fmlookup ps p = None \<or> fmlookup ps p = Some True)) peers)"

definition AllPeersDoNotHaveBlock :: "peer list \<Rightarrow> cid list \<Rightarrow> bpm \<Rightarrow> cid list" where
  "AllPeersDoNotHaveBlock peers ks m = filter (\<lambda>c. allDontHave peers c m) ks"

definition RemoveKeys :: "cid list \<Rightarrow> bpm \<Rightarrow> bpm" where
  "RemoveKeys ks m = fold fmdrop ks m"

definition HasKey :: "cid \<Rightarrow> bpm \<Rightarrow> bool" where
  "HasKey c m = (case fmlookup m c of None \<Rightarrow> False | Some _ \<Rightarrow> True)"

section \<open>What each operation does to the answer for one peer and key\<close>

definition presence_of :: "bpm \<Rightarrow> peer \<Rightarrow> cid \<Rightarrow> bool option" where
  "presence_of m p c = Option.bind (fmlookup m c) (\<lambda>ps. fmlookup ps p)"

lemma presence_queries:
  "PeerHasBlock p c m \<longleftrightarrow> presence_of m p c = Some True"
  "PeerDoesNotHaveBlock p c m \<longleftrightarrow> presence_of m p c = Some False"
  by (auto simp: PeerHasBlock_def PeerDoesNotHaveBlock_def presence_of_def split: option.splits)

lemma presence_update:
  "presence_of (updateBlockPresence q b c m) p d =
     (if p = q \<and> d = c \<and> presence_of m p d \<noteq> Some True then Some b else presence_of m p d)"
  by (auto simp: updateBlockPresence_def presence_of_def Let_def split: option.splits if_splits)

lemma presence_updates:
  "presence_of (fold (updateBlockPresence q b) cs m) p d =
     (if p = q \<and> d \<in> set cs \<and> presence_of m p d \<noteq> Some True then Some b else presence_of m p d)"
proof (induction cs arbitrary: m)
  case (Cons c cs)
  have "presence_of (fold (updateBlockPresence q b) (c # cs) m) p d =
      presence_of (fold (updateBlockPresence q b) cs (updateBlockPresence q b c m)) p d"
    by simp
  then show ?case
    unfolding Cons.IH presence_update by auto
qed simp

lemma presence_ReceiveFrom:
  "presence_of (bpm_ReceiveFrom q haves dontHaves m) p c =
     (if p \<noteq> q then presence_of m p c
      else if c \<in> set haves \<or> presence_of m p c = Some True then Some True
      else if c \<in> set dontHaves then Some False else presence_of m p c)"
  by (auto simp: bpm_ReceiveFrom_def presence_updates)

lemma presence_RemoveKeys:
  "presence_of (RemoveKeys ks m) p c = (if c \<in> set ks then None else presence_of m p c)"
  by (simp add: RemoveKeys_def presence_of_def fmlookup_fold_fmdrop)

section \<open>Histories\<close>

datatype bpm_op =
    BPM_ReceiveFrom peer "cid list" "cid list"
  | BPM_RemoveKeys "cid list"

fun bpm_step :: "bpm_op \<Rightarrow> bpm \<Rightarrow> bpm" where
  "bpm_step (BPM_ReceiveFrom p hs ds) m = bpm_ReceiveFrom p hs ds m"
| "bpm_step (BPM_RemoveKeys ks) m = RemoveKeys ks m"

text \<open>The part of a history since the key was last removed.\<close>

fun since_removed :: "cid \<Rightarrow> bpm_op list \<Rightarrow> bpm_op list" where
  "since_removed c [] = []"
| "since_removed c (x # xs) =
     (if list_ex (\<lambda>y. case y of BPM_RemoveKeys ks \<Rightarrow> c \<in> set ks | _ \<Rightarrow> False) (x # xs) then since_removed c xs
      else x # xs)"

definition said_have :: "peer \<Rightarrow> cid \<Rightarrow> bpm_op list \<Rightarrow> bool" where
  "said_have p c xs = list_ex (\<lambda>x. case x of BPM_ReceiveFrom q hs _ \<Rightarrow> q = p \<and> c \<in> set hs | _ \<Rightarrow> False) xs"

definition said_dont_have :: "peer \<Rightarrow> cid \<Rightarrow> bpm_op list \<Rightarrow> bool" where
  "said_dont_have p c xs = list_ex (\<lambda>x. case x of BPM_ReceiveFrom q _ ds \<Rightarrow> q = p \<and> c \<in> set ds | _ \<Rightarrow> False) xs"

lemma no_removal_presence:
  assumes "\<not> list_ex (\<lambda>y. case y of BPM_RemoveKeys ks \<Rightarrow> c \<in> set ks | _ \<Rightarrow> False) xs"
  shows "presence_of (fold bpm_step xs m) p c =
     (if said_have p c xs \<or> presence_of m p c = Some True then Some True
      else if said_dont_have p c xs then Some False else presence_of m p c)"
  using assms
proof (induction xs arbitrary: m)
  case (Cons x xs)
  then show ?case
    by (cases x) (auto simp: said_have_def said_dont_have_def presence_ReceiveFrom presence_RemoveKeys)
qed (simp add: said_have_def said_dont_have_def)

lemma removal_presence:
  assumes "list_ex (\<lambda>y. case y of BPM_RemoveKeys ks \<Rightarrow> c \<in> set ks | _ \<Rightarrow> False) xs"
  shows "presence_of (fold bpm_step xs m) p c = presence_of (fold bpm_step (since_removed c xs) bpm_New) p c"
  using assms
proof (induction xs arbitrary: m)
  case (Cons x xs)
  show ?case
  proof (cases "list_ex (\<lambda>y. case y of BPM_RemoveKeys ks \<Rightarrow> c \<in> set ks | _ \<Rightarrow> False) xs")
    case True
    then show ?thesis
      using Cons.IH by simp
  next
    case False
    then obtain ks where x: "x = BPM_RemoveKeys ks" "c \<in> set ks"
      using Cons.prems by (auto split: bpm_op.splits)
    have "since_removed c xs = xs"
      using False by (cases xs) auto
    then show ?thesis
      using x no_removal_presence [OF False]
      by (simp add: presence_RemoveKeys) (simp add: presence_of_def bpm_New_def)
  qed
qed simp

section \<open>Properties\<close>

text \<open>
  C23. What the manager answers is exactly the history since the key was last removed: a peer
  has the block iff it once said so, a later DONT_HAVE does not take that back, and it does
  not have the block iff it said so and never the opposite.
\<close>

theorem presence_is_history:
  "(PeerHasBlock p c (fold bpm_step xs bpm_New) \<longleftrightarrow> said_have p c (since_removed c xs)) \<and>
   (PeerDoesNotHaveBlock p c (fold bpm_step xs bpm_New) \<longleftrightarrow>
      said_dont_have p c (since_removed c xs) \<and> \<not> said_have p c (since_removed c xs))"
proof -
  have split: "\<not> list_ex (\<lambda>y. case y of BPM_RemoveKeys ks \<Rightarrow> c \<in> set ks | _ \<Rightarrow> False) (since_removed c xs)"
    by (induction xs) auto
  have "presence_of (fold bpm_step xs bpm_New) p c = presence_of (fold bpm_step (since_removed c xs) bpm_New) p c"
  proof (cases "list_ex (\<lambda>y. case y of BPM_RemoveKeys ks \<Rightarrow> c \<in> set ks | _ \<Rightarrow> False) xs")
    case False
    then have "since_removed c xs = xs"
      by (cases xs) auto
    then show ?thesis
      by simp
  qed (rule removal_presence)
  moreover have "presence_of bpm_New p c = None"
    by (simp add: presence_of_def bpm_New_def)
  ultimately show ?thesis
    using no_removal_presence [OF split, of bpm_New p] by (simp add: presence_queries)
qed

end
