(* ===== verification/Want_Sender.thy ===== *)
theory Want_Sender
  imports Complex_Main Session_Peers Block_Presence
begin

text \<open>
  The session want sender of \<open>client/internal/session/sessionwantsender.go\<close> with its two
  trackers (\<open>peerresponsetracker.go\<close>, \<open>sentwantblockstracker.go\<close>): for each want of a session it
  sends a want-block to one peer and want-haves to the others.

  The run loop is one goroutine, so a round of it (\<open>onChange\<close>) is one function. What it reads
  from outside is an argument: the block presence manager, the iteration orders and the random
  numbers, one for each list of candidates. What it calls is returned in order. A \<open>wantInfo\<close> is
  reached only through the map of wants, so it is a value of that map. The random choice adds
  up exact fractions where the code adds floats.
\<close>

section \<open>Trackers\<close>

type_synonym peerResponseTracker = "(peer, nat) fmap"

definition newPeerResponseTracker :: peerResponseTracker where
  "newPeerResponseTracker = fmempty"

definition receivedBlockFrom :: "peer \<Rightarrow> peerResponseTracker \<Rightarrow> peerResponseTracker" where
  "receivedBlockFrom from prt =
     fmupd from (Suc (case fmlookup prt from of None \<Rightarrow> 0 | Some n \<Rightarrow> n)) prt"

definition getPeerCount :: "peer \<Rightarrow> peerResponseTracker \<Rightarrow> nat" where
  "getPeerCount p prt = (case fmlookup prt p of Some n \<Rightarrow> n | None \<Rightarrow> 1)"

fun chooseLoop :: "peerResponseTracker \<Rightarrow> nat \<Rightarrow> rat \<Rightarrow> rat \<Rightarrow> peer list \<Rightarrow> peer option" where
  "chooseLoop prt tot rnd counted [] = None"
| "chooseLoop prt tot rnd counted (p # ps) =
     (let counted' = counted + rat_of_nat (getPeerCount p prt) / rat_of_nat tot
      in if counted' > rnd then Some p else chooseLoop prt tot rnd counted' ps)"

definition choose_peer :: "rat \<Rightarrow> peer list \<Rightarrow> peerResponseTracker \<Rightarrow> peer" where
  "choose_peer rnd peers prt =
     (if length peers = 0 then NoPeer
      else let tot = sum_list (map (\<lambda>p. getPeerCount p prt) peers)
           in case chooseLoop prt tot rnd 0 peers of Some p \<Rightarrow> p | None \<Rightarrow> last peers)"

type_synonym sentWantBlocksTracker = "(peer, cid fset) fmap"

definition newSentWantBlocksTracker :: sentWantBlocksTracker where
  "newSentWantBlocksTracker = fmempty"

definition addSentWantBlocksTo :: "peer \<Rightarrow> cid list \<Rightarrow> sentWantBlocksTracker \<Rightarrow> sentWantBlocksTracker" where
  "addSentWantBlocksTo p ks s =
     (let cids = (case fmlookup s p of None \<Rightarrow> {||} | Some cids \<Rightarrow> cids)
      in fmupd p (fold finsert ks cids) s)"

definition haveSentWantBlockTo :: "peer \<Rightarrow> cid \<Rightarrow> sentWantBlocksTracker \<Rightarrow> bool" where
  "haveSentWantBlockTo p c s = (case fmlookup s p of None \<Rightarrow> False | Some cids \<Rightarrow> c |\<in>| cids)"

section \<open>What is known about a want\<close>

datatype BlockPresence = BPDontHave | BPUnknown | BPHave

fun bp_rank :: "BlockPresence \<Rightarrow> nat" where
  "bp_rank BPDontHave = 0"
| "bp_rank BPUnknown = 1"
| "bp_rank BPHave = 2"

instantiation BlockPresence :: linorder
begin

definition less_eq_BlockPresence :: "BlockPresence \<Rightarrow> BlockPresence \<Rightarrow> bool" where
  "less_eq_BlockPresence a b \<longleftrightarrow> bp_rank a \<le> bp_rank b"

definition less_BlockPresence :: "BlockPresence \<Rightarrow> BlockPresence \<Rightarrow> bool" where
  "less_BlockPresence a b \<longleftrightarrow> bp_rank a < bp_rank b"

instance
proof
  have inj: "bp_rank a = bp_rank b \<Longrightarrow> a = b" for a b
    by (cases a; cases b) simp_all
  fix a b c :: BlockPresence
  show "a < b \<longleftrightarrow> a \<le> b \<and> \<not> b \<le> a" "a \<le> a" "a \<le> b \<or> b \<le> a"
    by (auto simp: less_eq_BlockPresence_def less_BlockPresence_def)
  show "a \<le> b \<Longrightarrow> b \<le> c \<Longrightarrow> a \<le> c" "a \<le> b \<Longrightarrow> b \<le> a \<Longrightarrow> a = b"
    by (auto simp: less_eq_BlockPresence_def intro: inj)
qed

end

lemmas bp_order = less_eq_BlockPresence_def less_BlockPresence_def

record wantInfo =
  blockPresence :: "(peer, BlockPresence) fmap"
  sentTo :: peer
  bestPeer :: peer
  wi_exhausted :: bool

definition newWantInfo :: wantInfo where
  "newWantInfo = \<lparr>blockPresence = fmempty, sentTo = NoPeer, bestPeer = NoPeer, wi_exhausted = False\<rparr>"

text \<open>What a round reads from its surroundings.\<close>

record sws_env =
  env_bpm :: bpm
  env_ordp :: "peer order"
  env_ordc :: "cid order"
  env_rnd :: "peer list \<Rightarrow> rat"

definition betterPeer ::
  "(peer, BlockPresence) fmap \<Rightarrow> peer \<Rightarrow> BlockPresence \<times> peer \<times> nat \<Rightarrow> BlockPresence \<times> peer \<times> nat" where
  "betterPeer presence p = (\<lambda>(bestBP, best, countWithBest).
     case fmlookup presence p of
       None \<Rightarrow> (bestBP, best, countWithBest)
     | Some bp \<Rightarrow>
         if bp > bestBP then (bp, p, 1)
         else if bp = bestBP then (bestBP, best, Suc countWithBest)
         else (bestBP, best, countWithBest))"

definition calculateBestPeer :: "sws_env \<Rightarrow> peerResponseTracker \<Rightarrow> wantInfo \<Rightarrow> wantInfo" where
  "calculateBestPeer env prt wi =
     (let peers = env_ordp env (fmdom (blockPresence wi));
          (bestBP, best, countWithBest) = fold (betterPeer (blockPresence wi)) peers (BPDontHave, NoPeer, 0)
      in if best = NoPeer then wi\<lparr>bestPeer := best\<rparr>
         else if countWithBest \<le> 1 then wi\<lparr>bestPeer := best\<rparr>
         else let peersWithBest = filter (\<lambda>p. fmlookup (blockPresence wi) p = Some bestBP) peers
              in wi\<lparr>bestPeer := choose_peer (env_rnd env peersWithBest) peersWithBest prt\<rparr>)"

definition setPeerBlockPresence ::
  "sws_env \<Rightarrow> peerResponseTracker \<Rightarrow> peer \<Rightarrow> BlockPresence \<Rightarrow> wantInfo \<Rightarrow> wantInfo" where
  "setPeerBlockPresence env prt p bp wi =
     (let wi1 = calculateBestPeer env prt (wi\<lparr>blockPresence := fmupd p bp (blockPresence wi)\<rparr>)
      in if bp = BPHave then wi1\<lparr>wi_exhausted := False\<rparr> else wi1)"

definition wi_removePeer :: "sws_env \<Rightarrow> peerResponseTracker \<Rightarrow> peer \<Rightarrow> wantInfo \<Rightarrow> wantInfo" where
  "wi_removePeer env prt p wi =
     (let wi1 = (if p = sentTo wi then wi\<lparr>sentTo := NoPeer\<rparr> else wi)
      in calculateBestPeer env prt (wi1\<lparr>blockPresence := fmdrop p (blockPresence wi1)\<rparr>))"

section \<open>The sender\<close>

definition peerDontHaveLimit :: nat where
  "peerDontHaveLimit = 16"

definition changesBufferSize :: nat where
  "changesBufferSize = 128"

record sws_update =
  upd_from :: peer
  upd_ks :: "cid list"
  upd_haves :: "cid list"
  upd_dontHaves :: "cid list"

record peerAvailability =
  pa_target :: peer
  pa_available :: bool

record sws_change =
  ch_add :: "cid list"
  ch_cancel :: "cid list"
  ch_update :: sws_update
  ch_availability :: peerAvailability

record sws =
  sws_wants :: "(cid, wantInfo) fmap"
  peerConsecutiveDontHaves :: "(peer, nat) fmap"
  swbt :: sentWantBlocksTracker
  peerRspTrkr :: peerResponseTracker
  sws_spm :: spm

datatype sws_call =
    SWS_RegisterSession peer
  | SWS_Tagger tag_call
  | SWS_CancelSessionWants "cid list"
  | SWS_PeersExhausted "cid list"
  | SWS_SendWants peer "cid list" "cid list"
  | SWS_OnSend peer "cid list" "cid list"
  | SWS_SignalUnavailable peer

definition newSessionWantSender :: "spm \<Rightarrow> sws" where
  "newSessionWantSender spm =
     \<lparr>sws_wants = fmempty, peerConsecutiveDontHaves = fmempty, swbt = newSentWantBlocksTracker,
      peerRspTrkr = newPeerResponseTracker, sws_spm = spm\<rparr>"

text \<open>The changes the public methods put on the channel.\<close>

definition noChange :: sws_change where
  "noChange = \<lparr>ch_add = [], ch_cancel = [],
     ch_update = \<lparr>upd_from = NoPeer, upd_ks = [], upd_haves = [], upd_dontHaves = []\<rparr>,
     ch_availability = \<lparr>pa_target = NoPeer, pa_available = False\<rparr>\<rparr>"

definition sws_Add :: "cid list \<Rightarrow> sws_change list" where
  "sws_Add ks = (if length ks = 0 then [] else [noChange\<lparr>ch_add := ks\<rparr>])"

definition sws_Cancel :: "cid list \<Rightarrow> sws_change list" where
  "sws_Cancel ks = (if length ks = 0 then [] else [noChange\<lparr>ch_cancel := ks\<rparr>])"

definition sws_Update :: "peer \<Rightarrow> cid list \<Rightarrow> cid list \<Rightarrow> cid list \<Rightarrow> sws_change list" where
  "sws_Update from ks haves dontHaves =
     (let hasUpdate = (length ks > 0 \<or> length haves > 0 \<or> length dontHaves > 0)
      in if \<not> hasUpdate then []
         else [noChange\<lparr>ch_update :=
                 \<lparr>upd_from = from, upd_ks = ks, upd_haves = haves, upd_dontHaves = dontHaves\<rparr>\<rparr>])"

definition sws_SignalAvailability :: "peer \<Rightarrow> bool \<Rightarrow> sws_change list" where
  "sws_SignalAvailability p isAvailable =
     [noChange\<lparr>ch_availability := \<lparr>pa_target = p, pa_available = isAvailable\<rparr>\<rparr>]"

text \<open>The changes taken together in one round, and those left on the channel.\<close>

fun collectChanges :: "sws_change list \<Rightarrow> sws_change list \<Rightarrow> sws_change list \<times> sws_change list" where
  "collectChanges changes [] = (changes, [])"
| "collectChanges changes (next # chan) =
     (if length changes < changesBufferSize then collectChanges (changes @ [next]) chan
      else (changes, next # chan))"

subsection \<open>Wants\<close>

definition updateWantBlockPresence :: "sws_env \<Rightarrow> cid \<Rightarrow> peer \<Rightarrow> sws \<Rightarrow> sws" where
  "updateWantBlockPresence env c p s =
     (case fmlookup (sws_wants s) c of
        None \<Rightarrow> s
      | Some wi \<Rightarrow>
          let bp = (if PeerHasBlock p c (env_bpm env) then BPHave
                    else if PeerDoesNotHaveBlock p c (env_bpm env) then BPDontHave
                    else BPUnknown)
          in s\<lparr>sws_wants := fmupd c (setPeerBlockPresence env (peerRspTrkr s) p bp wi) (sws_wants s)\<rparr>)"

definition trackWant :: "sws_env \<Rightarrow> cid \<Rightarrow> sws \<Rightarrow> sws" where
  "trackWant env c s =
     (case fmlookup (sws_wants s) c of
        Some _ \<Rightarrow> s
      | None \<Rightarrow>
          fold (updateWantBlockPresence env c) (spm_Peers (env_ordp env) (sws_spm s))
            (s\<lparr>sws_wants := fmupd c newWantInfo (sws_wants s)\<rparr>))"

definition untrackWant :: "cid \<Rightarrow> sws \<Rightarrow> sws" where
  "untrackWant c s = s\<lparr>sws_wants := fmdrop c (sws_wants s)\<rparr>"

definition removeWant :: "cid \<Rightarrow> sws \<Rightarrow> wantInfo option \<times> sws" where
  "removeWant c s =
     (case fmlookup (sws_wants s) c of
        Some wi \<Rightarrow> (Some wi, s\<lparr>sws_wants := fmdrop c (sws_wants s)\<rparr>)
      | None \<Rightarrow> (None, s))"

definition getWantSentTo :: "cid \<Rightarrow> sws \<Rightarrow> peer \<times> bool" where
  "getWantSentTo c s = (case fmlookup (sws_wants s) c of Some wi \<Rightarrow> (sentTo wi, True) | None \<Rightarrow> (NoPeer, False))"

definition setWantSentTo :: "cid \<Rightarrow> peer \<Rightarrow> sws \<Rightarrow> sws" where
  "setWantSentTo c p s =
     (case fmlookup (sws_wants s) c of
        Some wi \<Rightarrow> s\<lparr>sws_wants := fmupd c (wi\<lparr>sentTo := p\<rparr>) (sws_wants s)\<rparr>
      | None \<Rightarrow> s)"

subsection \<open>Availability\<close>

definition updateWantsPeerAvailability :: "sws_env \<Rightarrow> peer \<Rightarrow> bool \<Rightarrow> sws \<Rightarrow> sws" where
  "updateWantsPeerAvailability env p isNowAvailable s =
     fold (\<lambda>c s.
       if isNowAvailable then updateWantBlockPresence env c p s
       else (case fmlookup (sws_wants s) c of
               None \<Rightarrow> s
             | Some wi \<Rightarrow> s\<lparr>sws_wants := fmupd c (wi_removePeer env (peerRspTrkr s) p wi) (sws_wants s)\<rparr>))
       (env_ordc env (fmdom (sws_wants s))) s"

type_synonym avail_acc = "peer list \<times> peer list \<times> sws_call list \<times> sws"

definition peerAvailable :: "sws_env \<Rightarrow> (peer, bool) fmap \<Rightarrow> peer \<Rightarrow> avail_acc \<Rightarrow> avail_acc" where
  "peerAvailable env avail p = (\<lambda>(newlyAvailable, newlyUnavailable, calls, s).
     case fmlookup avail p of
       None \<Rightarrow> (newlyAvailable, newlyUnavailable, calls, s)
     | Some isNowAvailable \<Rightarrow>
         let (stateChange, tags, spm) =
               (if isNowAvailable then spm_AddPeer p (sws_spm s) else spm_RemovePeer p (sws_spm s));
             s1 = s\<lparr>sws_spm := spm\<rparr>;
             calls1 = calls @ map SWS_Tagger tags
         in if stateChange then
              (if isNowAvailable then newlyAvailable @ [p] else newlyAvailable,
               if isNowAvailable then newlyUnavailable else newlyUnavailable @ [p],
               calls1,
               (updateWantsPeerAvailability env p isNowAvailable s1)
                 \<lparr>peerConsecutiveDontHaves := fmdrop p (peerConsecutiveDontHaves s1)\<rparr>)
            else (newlyAvailable, newlyUnavailable, calls1, s1))"

definition processAvailability :: "sws_env \<Rightarrow> (peer, bool) fmap \<Rightarrow> sws \<Rightarrow> avail_acc" where
  "processAvailability env avail s =
     fold (peerAvailable env avail) (env_ordp env (fmdom avail)) ([], [], [], s)"

subsection \<open>Updates\<close>

definition receivedKey :: "peer \<Rightarrow> cid \<Rightarrow> sws_call list \<times> sws \<Rightarrow> sws_call list \<times> sws" where
  "receivedKey from c = (\<lambda>(calls, s).
     let (removed, s1) = removeWant c s;
         (calls1, s2) =
           (case removed of
              Some _ \<Rightarrow> (calls @ map SWS_Tagger (ProtectConnection from (sws_spm s1)),
                          s1\<lparr>peerRspTrkr := receivedBlockFrom from (peerRspTrkr s1)\<rparr>)
            | None \<Rightarrow> (calls, s1))
     in (calls1, s2\<lparr>peerConsecutiveDontHaves := fmdrop from (peerConsecutiveDontHaves s2)\<rparr>))"

definition receivedKeys :: "sws_update \<Rightarrow> sws_call list \<times> sws \<Rightarrow> sws_call list \<times> sws" where
  "receivedKeys upd = fold (receivedKey (upd_from upd)) (upd_ks upd)"

definition countDontHave :: "peer \<Rightarrow> peer fset \<Rightarrow> sws \<Rightarrow> peer fset \<times> sws" where
  "countDontHave from prunePeers s =
     (let n = (case fmlookup (peerConsecutiveDontHaves s) from of None \<Rightarrow> 0 | Some n \<Rightarrow> n)
      in if n = peerDontHaveLimit then (finsert from prunePeers, s)
         else (prunePeers, s\<lparr>peerConsecutiveDontHaves := fmupd from (Suc n) (peerConsecutiveDontHaves s)\<rparr>))"

definition dontHaveWant :: "sws_env \<Rightarrow> peer \<Rightarrow> cid \<Rightarrow> sws \<Rightarrow> sws" where
  "dontHaveWant env from c s =
     (let s1 = updateWantBlockPresence env c from s
      in if haveSentWantBlockTo from c (swbt s1) then
           let (sent_to, ok) = getWantSentTo c s1
           in if ok \<and> sent_to = from then setWantSentTo c NoPeer s1 else s1
         else s1)"

definition dontHaveKey ::
  "sws_env \<Rightarrow> cid fset \<Rightarrow> peer \<Rightarrow> cid \<Rightarrow> cid fset \<times> peer fset \<times> sws \<Rightarrow> cid fset \<times> peer fset \<times> sws" where
  "dontHaveKey env blkCids from c = (\<lambda>(dontHaves, prunePeers, s).
     let (prune1, s1) = countDontHave from prunePeers s
     in if c |\<in>| blkCids then (dontHaves, prune1, s1)
        else (finsert c dontHaves, prune1, dontHaveWant env from c s1))"

definition haveKey ::
  "sws_env \<Rightarrow> cid fset \<Rightarrow> peer \<Rightarrow> cid \<Rightarrow> peer fset \<times> sws \<Rightarrow> peer fset \<times> sws" where
  "haveKey env blkCids from c = (\<lambda>(prunePeers, s).
     let s1 = (if c |\<notin>| blkCids then updateWantBlockPresence env c from s else s)
     in (prunePeers |-| {|from|}, s1\<lparr>peerConsecutiveDontHaves := fmdrop from (peerConsecutiveDontHaves s1)\<rparr>))"

definition processUpdates :: "sws_env \<Rightarrow> sws_update list \<Rightarrow> sws \<Rightarrow> cid list \<times> sws_call list \<times> sws" where
  "processUpdates env updates s =
     (let blkCids = fset_of_list (concat (map upd_ks updates));
          (calls, s1) = fold receivedKeys updates ([], s);
          (dontHaves, prune1, s2) =
            fold (\<lambda>upd. fold (dontHaveKey env blkCids (upd_from upd)) (upd_dontHaves upd)) updates ({||}, {||}, s1);
          (prune2, s3) = fold (\<lambda>upd. fold (haveKey env blkCids (upd_from upd)) (upd_haves upd)) updates (prune1, s2);
          prune3 = ffilter (\<lambda>p. \<not> fBex (fmdom (sws_wants s3)) (\<lambda>c. PeerHasBlock p c (env_bpm env))) prune2
      in (env_ordc env dontHaves, calls @ map SWS_SignalUnavailable (env_ordp env prune3), s3))"

subsection \<open>Exhausted wants\<close>

definition exhaustKey :: "cid \<Rightarrow> cid list \<times> sws \<Rightarrow> cid list \<times> sws" where
  "exhaustKey c = (\<lambda>(res, s).
     case fmlookup (sws_wants s) c of
       None \<Rightarrow> (res, s)
     | Some wi \<Rightarrow>
         if \<not> wi_exhausted wi
         then (res @ [c], s\<lparr>sws_wants := fmupd c (wi\<lparr>wi_exhausted := True\<rparr>) (sws_wants s)\<rparr>)
         else (res, s))"

definition newlyExhausted :: "cid list \<Rightarrow> sws \<Rightarrow> cid list \<times> sws" where
  "newlyExhausted ks s = fold exhaustKey ks ([], s)"

definition processExhaustedWants :: "cid list \<Rightarrow> sws \<Rightarrow> sws_call list \<times> sws" where
  "processExhaustedWants exhausted s =
     (let (new, s1) = newlyExhausted exhausted s
      in (if length new > 0 then [SWS_PeersExhausted new] else [], s1))"

definition checkForExhaustedWants :: "sws_env \<Rightarrow> cid list \<Rightarrow> peer list \<Rightarrow> sws \<Rightarrow> sws_call list \<times> sws" where
  "checkForExhaustedWants env dontHaves newlyUnavailable s =
     (if length dontHaves = 0 \<and> length newlyUnavailable = 0 then ([], s)
      else
        let wants = (if length newlyUnavailable > 0
                     then replicate (fcard (fmdom (sws_wants s))) Undef @ env_ordc env (fmdom (sws_wants s))
                     else dontHaves)
        in if length newlyUnavailable > 0 \<and> \<not> HasPeers (sws_spm s) then processExhaustedWants wants s
           else if length wants > 0
           then processExhaustedWants
                  (AllPeersDoNotHaveBlock (spm_Peers (env_ordp env) (sws_spm s)) wants (env_bpm env)) s
           else ([], s))"

subsection \<open>Sending\<close>

record wantSets =
  ws_blocks :: "cid fset"
  ws_haves :: "cid fset"

type_synonym allWants = "(peer, wantSets) fmap"

definition forPeer :: "peer \<Rightarrow> allWants \<Rightarrow> wantSets" where
  "forPeer p aw = (case fmlookup aw p of None \<Rightarrow> \<lparr>ws_blocks = {||}, ws_haves = {||}\<rparr> | Some w \<Rightarrow> w)"

definition addHave :: "cid \<Rightarrow> peer \<Rightarrow> allWants \<Rightarrow> allWants" where
  "addHave c p aw = (let w = forPeer p aw in fmupd p (w\<lparr>ws_haves := finsert c (ws_haves w)\<rparr>) aw)"

definition addWantBlock :: "cid \<Rightarrow> peer \<Rightarrow> allWants \<Rightarrow> allWants" where
  "addWantBlock c p aw = (let w = forPeer p aw in fmupd p (w\<lparr>ws_blocks := finsert c (ws_blocks w)\<rparr>) aw)"

definition nextWant :: "sws_env \<Rightarrow> peer list \<Rightarrow> cid \<Rightarrow> allWants \<times> sws \<Rightarrow> allWants \<times> sws" where
  "nextWant env newlyAvailable c = (\<lambda>(toSend, s).
     case fmlookup (sws_wants s) c of
       None \<Rightarrow> (toSend, s)
     | Some wi \<Rightarrow>
         let toSend1 = fold (addHave c) newlyAvailable toSend
         in if sentTo wi \<noteq> NoPeer then (toSend1, s)
            else if bestPeer wi = NoPeer then (toSend1, s)
            else
              let toSend2 = addWantBlock c (bestPeer wi) toSend1;
                  others = filter (\<lambda>op. op \<noteq> bestPeer wi) (spm_Peers (env_ordp env) (sws_spm s))
              in (fold (addHave c) others toSend2, setWantSentTo c (bestPeer wi) s))"

definition getPiggybackWantHaves :: "sws_env \<Rightarrow> peer \<Rightarrow> cid fset \<Rightarrow> sws \<Rightarrow> cid list" where
  "getPiggybackWantHaves env p wbs s =
     filter (\<lambda>c. c |\<notin>| wbs \<and> \<not> haveSentWantBlockTo p c (swbt s)) (env_ordc env (fmdom (sws_wants s)))"

definition sendTo :: "sws_env \<Rightarrow> allWants \<Rightarrow> peer \<Rightarrow> sws_call list \<times> sws \<Rightarrow> sws_call list \<times> sws" where
  "sendTo env sends p = (\<lambda>(calls, s).
     case fmlookup sends p of
       None \<Rightarrow> (calls, s)
     | Some w \<Rightarrow>
         let haves = fold finsert (getPiggybackWantHaves env p (ws_blocks w) s) (ws_haves w);
             wblks = env_ordc env (ws_blocks w);
             whaves = env_ordc env haves
         in (calls @ [SWS_SendWants p wblks whaves, SWS_OnSend p wblks whaves],
             s\<lparr>swbt := addSentWantBlocksTo p wblks (swbt s)\<rparr>))"

definition sws_sendWants :: "sws_env \<Rightarrow> allWants \<Rightarrow> sws \<Rightarrow> sws_call list \<times> sws" where
  "sws_sendWants env sends s = fold (sendTo env sends) (env_ordp env (fmdom sends)) ([], s)"

definition sendNextWants :: "sws_env \<Rightarrow> peer list \<Rightarrow> sws \<Rightarrow> sws_call list \<times> sws" where
  "sendNextWants env newlyAvailable s =
     (let (toSend, s1) = fold (nextWant env newlyAvailable) (env_ordc env (fmdom (sws_wants s))) (fmempty, s)
      in sws_sendWants env toSend s1)"

subsection \<open>A round of the run loop\<close>

type_synonym change_acc = "(peer, bool) fmap \<times> cid list \<times> sws_update list \<times> sws_call list \<times> sws"

definition applyChange :: "sws_env \<Rightarrow> sws_change \<Rightarrow> change_acc \<Rightarrow> change_acc" where
  "applyChange env chng = (\<lambda>(avail, cancels, updates, calls, s).
     let s1 = fold (trackWant env) (ch_add chng) s;
         s2 = fold untrackWant (ch_cancel chng) s1;
         cancels1 = cancels @ ch_cancel chng;
         u = ch_update chng;
         (avail1, updates1, calls1) =
           (if upd_from u \<noteq> NoPeer then
              (if length (upd_ks u) > 0 \<or> length (upd_haves u) > 0
               then (fmupd (upd_from u) True avail, updates @ [u], calls @ [SWS_RegisterSession (upd_from u)])
               else (avail, updates @ [u], calls))
            else (avail, updates, calls));
         a = ch_availability chng;
         avail2 = (if pa_target a \<noteq> NoPeer then fmupd (pa_target a) (pa_available a) avail1 else avail1)
     in (avail2, cancels1, updates1, calls1, s2))"

definition onChange :: "sws_env \<Rightarrow> sws_change list \<Rightarrow> sws \<Rightarrow> sws_call list \<times> sws" where
  "onChange env changes s =
     (let (avail, cancels, updates, calls1, s1) = fold (applyChange env) changes (fmempty, [], [], [], s);
          (newlyAvailable, newlyUnavailable, calls2, s2) = processAvailability env avail s1;
          (dontHaves, calls3, s3) = processUpdates env updates s2;
          (calls4, s4) = checkForExhaustedWants env dontHaves newlyUnavailable s3;
          calls5 = (if length cancels > 0 then [SWS_CancelSessionWants cancels] else []);
          (calls6, s6) = (if HasPeers (sws_spm s4) then sendNextWants env newlyAvailable s4 else ([], s4))
      in (calls1 @ calls2 @ calls3 @ calls4 @ calls5 @ calls6, s6))"

definition sws_round ::
  "sws_env \<Rightarrow> sws_change \<Rightarrow> sws_change list \<Rightarrow> sws \<Rightarrow> sws_change list \<times> sws_call list \<times> sws" where
  "sws_round env ch chan s =
     (let (changes, rest) = collectChanges [ch] chan; (calls, s') = onChange env changes s in (rest, calls, s'))"

end
