(* ===== verification/Sessions.thy ===== *)
theory Sessions
  imports Session_Wants Session_Interest Want_Sender
begin

text \<open>
  Sessions (\<open>client/internal/session/session.go\<close>) and the session manager
  (\<open>client/internal/sessionmanager/sessionmanager.go\<close>).

  A session is two loops: its own, which takes operations from \<open>incoming\<close>, and the want
  sender's, which takes changes. Both channels are lists here, and every handler of either
  loop is a function on the session's state. The session interest manager is shared by all
  sessions and passed along; calls on the peer manager, on the provider finder and on the
  session manager are returned in order. A timer is the delay it was last set to.
\<close>

section \<open>Latency\<close>

record latencyTracker =
  lt_totalLatency :: int
  lt_count :: nat

definition hasLatency :: "latencyTracker \<Rightarrow> bool" where
  "hasLatency lt \<longleftrightarrow> lt_totalLatency lt > 0 \<and> lt_count lt > 0"

definition averageLatency :: "latencyTracker \<Rightarrow> int" where
  "averageLatency lt = lt_totalLatency lt div int (lt_count lt)"

definition lt_receiveUpdate :: "nat \<Rightarrow> int \<Rightarrow> latencyTracker \<Rightarrow> latencyTracker" where
  "lt_receiveUpdate n latency lt =
     lt\<lparr>lt_totalLatency := lt_totalLatency lt + latency, lt_count := lt_count lt + n\<rparr>"

section \<open>Sessions\<close>

datatype ses_op =
    opReceive "cid list"
  | opWant "cid list"
  | opCancel "cid list"
  | opBroadcast "cid list"
  | opWantsSent "cid list"

datatype ses_call =
    SES_BroadcastWantHaves "cid list"
  | SES_FindMorePeers cid
  | SES_PeriodicSearchReset
  | SES_SendWants peer "cid list" "cid list"
  | SES_RegisterSession peer
  | SES_UnregisterSession
  | SES_CancelSessionWants "cid list"
  | SES_Tagger tag_call
  | SES_RemoveSession

record ses =
  ses_id :: uint64
  ses_sw :: sessionWants
  ses_sws :: sws
  ses_changes :: "sws_change list"
  ses_incoming :: "ses_op list"
  latencyTrkr :: latencyTracker
  idleTick :: "int option"
  baseTickDelay :: int
  consecutiveTicks :: nat
  initialSearchDelay :: int

definition broadcastLiveWantsLimit :: int where
  "broadcastLiveWantsLimit = 64"

text \<open>The state in which \<open>New\<close> leaves the run loop: the idle timer runs for the initial delay.\<close>

definition ses_New :: "uint64 \<Rightarrow> int \<Rightarrow> ses" where
  "ses_New i searchDelay =
     \<lparr>ses_id = i, ses_sw = newSessionWants broadcastLiveWantsLimit, ses_sws = newSessionWantSender spm_New,
      ses_changes = [], ses_incoming = [], latencyTrkr = \<lparr>lt_totalLatency = 0, lt_count = 0\<rparr>,
      idleTick = Some searchDelay, baseTickDelay = 500000000, consecutiveTicks = 0, initialSearchDelay = searchDelay\<rparr>"

definition ses_ReceiveFrom :: "peer \<Rightarrow> cid list \<Rightarrow> cid list \<Rightarrow> cid list \<Rightarrow> sim \<Rightarrow> ses \<Rightarrow> ses" where
  "ses_ReceiveFrom from ks haves dontHaves m s =
     (case FilterSessionInterested (ses_id s) [ks, haves, dontHaves] m of
        [ks', haves', dontHaves'] \<Rightarrow>
          let s1 = s\<lparr>ses_changes := ses_changes s @ sws_Update from ks' haves' dontHaves'\<rparr>
          in if length ks' = 0 then s1 else s1\<lparr>ses_incoming := ses_incoming s1 @ [opReceive ks']\<rparr>
      | _ \<Rightarrow> s)"

definition ses_GetBlocks :: "cid list \<Rightarrow> ses \<Rightarrow> ses" where
  "ses_GetBlocks keys s = s\<lparr>ses_incoming := ses_incoming s @ [opWant keys]\<rparr>"

definition ses_CancelBlocks :: "cid list \<Rightarrow> ses \<Rightarrow> ses" where
  "ses_CancelBlocks keys s = s\<lparr>ses_incoming := ses_incoming s @ [opCancel keys]\<rparr>"

definition SetBaseTickDelay :: "int \<Rightarrow> ses \<Rightarrow> ses" where
  "SetBaseTickDelay d s = s\<lparr>baseTickDelay := d\<rparr>"

definition onWantsSent :: "cid list \<Rightarrow> cid list \<Rightarrow> ses \<Rightarrow> ses" where
  "onWantsSent wbs whs s = s\<lparr>ses_incoming := ses_incoming s @ [opWantsSent (wbs @ whs)]\<rparr>"

definition onPeersExhausted :: "cid list \<Rightarrow> ses \<Rightarrow> ses" where
  "onPeersExhausted ks s = s\<lparr>ses_incoming := ses_incoming s @ [opBroadcast ks]\<rparr>"

definition resetIdleTick :: "ses \<Rightarrow> ses" where
  "resetIdleTick s =
     (let tickDelay = (if \<not> hasLatency (latencyTrkr s) then initialSearchDelay s
                       else baseTickDelay s + 3 * averageLatency (latencyTrkr s))
      in s\<lparr>idleTick := Some (tickDelay * int (1 + consecutiveTicks s))\<rparr>)"

text \<open>\<open>wants\<close> is \<open>None\<close> for the broadcast of an idle tick.\<close>

definition ses_broadcast :: "int \<Rightarrow> cid list option \<Rightarrow> ses \<Rightarrow> ses_call list \<times> ses" where
  "ses_broadcast now wants s =
     (let (ws, sw1) = (case wants of None \<Rightarrow> PrepareBroadcast now (ses_sw s) | Some ks \<Rightarrow> (ks, ses_sw s));
          s1 = resetIdleTick (s\<lparr>ses_sw := sw1\<rparr>)
      in (SES_BroadcastWantHaves ws #
            (if length ws > 0 \<and> consecutiveTicks s = 0 then [SES_FindMorePeers (hd ws)] else []),
          if HasLiveWants (ses_sw s1) then s1\<lparr>consecutiveTicks := Suc (consecutiveTicks s1)\<rparr> else s1))"

definition handlePeriodicSearch :: "cid order \<Rightarrow> nat \<Rightarrow> ses \<Rightarrow> ses_call list" where
  "handlePeriodicSearch ord i s =
     (let randomWant = RandomLiveWant ord i (ses_sw s)
      in if randomWant = Undef then []
         else [SES_FindMorePeers randomWant, SES_BroadcastWantHaves [randomWant], SES_PeriodicSearchReset])"

text \<open>One provider found for a key: as if it had sent a HAVE.\<close>

definition ses_providerFound :: "peer \<Rightarrow> cid \<Rightarrow> ses \<Rightarrow> ses" where
  "ses_providerFound p c s = s\<lparr>ses_changes := ses_changes s @ sws_Update p [] [c] []\<rparr>"

definition handleShutdown :: "peer order \<Rightarrow> ses \<Rightarrow> ses_call list \<times> ses" where
  "handleShutdown ord s =
     (map SES_Tagger (spm_Shutdown ord (sws_spm (ses_sws s))) @ [SES_UnregisterSession, SES_RemoveSession],
      s\<lparr>idleTick := None\<rparr>)"

definition handleReceive :: "int \<Rightarrow> cid list \<Rightarrow> sim \<Rightarrow> ses \<Rightarrow> sim \<times> ses" where
  "handleReceive now ks m s =
     (let (wanted, totalLatency, sw1) = BlocksReceived now ks (ses_sw s);
          s1 = s\<lparr>ses_sw := sw1\<rparr>
      in if length wanted = 0 then (m, s1)
         else (RemoveSessionWants (ses_id s) wanted m,
               resetIdleTick (s1\<lparr>latencyTrkr := lt_receiveUpdate (length wanted) totalLatency (latencyTrkr s1),
                                idleTick := None, consecutiveTicks := 0\<rparr>)))"

definition ses_wantBlocks :: "int \<Rightarrow> cid list \<Rightarrow> sim \<Rightarrow> ses \<Rightarrow> ses_call list \<times> sim \<times> ses" where
  "ses_wantBlocks now newks m s =
     (let (m1, s1) =
            (if length newks > 0
             then (RecordSessionInterest (ses_id s) newks m,
                   s\<lparr>ses_sw := BlocksRequested newks (ses_sw s), ses_changes := ses_changes s @ sws_Add newks\<rparr>)
             else (m, s))
      in if PeersDiscovered (sws_spm (ses_sws s1)) then ([], m1, s1)
         else
           let (ks, sw2) = GetNextWants now (ses_sw s1)
           in (if length ks > 0 then [SES_BroadcastWantHaves ks] else [], m1, s1\<lparr>ses_sw := sw2\<rparr>))"

text \<open>One operation of the run loop.\<close>

fun ses_run :: "int \<Rightarrow> ses_op \<Rightarrow> sim \<Rightarrow> ses \<Rightarrow> ses_call list \<times> sim \<times> ses" where
  "ses_run now (opReceive ks) m s = (let (m', s') = handleReceive now ks m s in ([], m', s'))"
| "ses_run now (opWant ks) m s = ses_wantBlocks now ks m s"
| "ses_run now (opCancel ks) m s =
     ([], m, s\<lparr>ses_sw := sw_CancelPending ks (ses_sw s), ses_changes := ses_changes s @ sws_Cancel ks\<rparr>)"
| "ses_run now (opWantsSent ks) m s = ([], m, s\<lparr>ses_sw := WantsSent now ks (ses_sw s)\<rparr>)"
| "ses_run now (opBroadcast ks) m s = (let (calls, s') = ses_broadcast now (Some ks) s in (calls, m, s'))"

text \<open>The run loop takes the next operation; the want sender's loop takes the next change.\<close>

definition ses_next :: "int \<Rightarrow> sim \<Rightarrow> ses \<Rightarrow> ses_call list \<times> sim \<times> ses" where
  "ses_next now m s =
     (case ses_incoming s of
        [] \<Rightarrow> ([], m, s)
      | oper # rest \<Rightarrow> ses_run now oper m (s\<lparr>ses_incoming := rest\<rparr>))"

fun ses_onCall :: "sws_call \<Rightarrow> ses_call list \<times> ses \<Rightarrow> ses_call list \<times> ses" where
  "ses_onCall (SWS_RegisterSession p) (cs, s) = (cs @ [SES_RegisterSession p], s)"
| "ses_onCall (SWS_Tagger t) (cs, s) = (cs @ [SES_Tagger t], s)"
| "ses_onCall (SWS_CancelSessionWants ks) (cs, s) = (cs @ [SES_CancelSessionWants ks], s)"
| "ses_onCall (SWS_PeersExhausted ks) (cs, s) = (cs, onPeersExhausted ks s)"
| "ses_onCall (SWS_SendWants p bs hs) (cs, s) = (cs @ [SES_SendWants p bs hs], s)"
| "ses_onCall (SWS_OnSend p bs hs) (cs, s) = (cs, onWantsSent bs hs s)"
| "ses_onCall (SWS_SignalUnavailable p) (cs, s) =
     (cs, s\<lparr>ses_changes := ses_changes s @ sws_SignalAvailability p False\<rparr>)"

definition ses_senderRound :: "sws_env \<Rightarrow> ses \<Rightarrow> ses_call list \<times> ses" where
  "ses_senderRound env s =
     (case ses_changes s of
        [] \<Rightarrow> ([], s)
      | ch # chan \<Rightarrow>
          let (rest, calls, sws') = sws_round env ch chan (ses_sws s)
          in fold ses_onCall calls ([], s\<lparr>ses_changes := rest, ses_sws := sws'\<rparr>))"

section \<open>The session manager\<close>

record sm =
  sm_sessions :: "(uint64, ses) fmap option"
  sm_sessID :: uint64
  sm_sim :: sim
  sm_bpm :: bpm

datatype sm_call = SM_SendCancels "cid list" | SM_ShutdownSession uint64

definition sm_New :: sm where
  "sm_New = \<lparr>sm_sessions = Some fmempty, sm_sessID = 0, sm_sim = sim_New, sm_bpm = bpm_New\<rparr>"

definition GetNextSessionID :: "sm \<Rightarrow> uint64 \<times> sm" where
  "GetNextSessionID s = (sm_sessID s + 1, s\<lparr>sm_sessID := sm_sessID s + 1\<rparr>)"

definition NewSession :: "int \<Rightarrow> sm \<Rightarrow> ses \<times> sm" where
  "NewSession searchDelay s =
     (let (i, s1) = GetNextSessionID s; session = ses_New i searchDelay
      in (session,
          case sm_sessions s1 of
            Some m \<Rightarrow> s1\<lparr>sm_sessions := Some (fmupd i session m)\<rparr>
          | None \<Rightarrow> s1))"

definition sm_Shutdown :: "uint64 order \<Rightarrow> sm \<Rightarrow> sm_call list \<times> sm" where
  "sm_Shutdown ord s =
     (case sm_sessions s of
        None \<Rightarrow> ([], s)
      | Some m \<Rightarrow> (map SM_ShutdownSession (ord (fmdom m)), s\<lparr>sm_sessions := None\<rparr>))"

definition cancelWants :: "cid list \<Rightarrow> sm \<Rightarrow> sm_call list \<times> sm" where
  "cancelWants ks s = ([SM_SendCancels ks], s\<lparr>sm_bpm := RemoveKeys ks (sm_bpm s)\<rparr>)"

definition sm_RemoveSession :: "cid order \<Rightarrow> uint64 \<Rightarrow> sm \<Rightarrow> sm_call list \<times> sm" where
  "sm_RemoveSession ord sesid s =
     (let (cancelKs, m) = RemoveSession ord sesid (sm_sim s);
          (calls, s1) = cancelWants cancelKs (s\<lparr>sm_sim := m\<rparr>)
      in (calls,
          case sm_sessions s1 of
            Some ss \<Rightarrow> s1\<lparr>sm_sessions := Some (fmdrop sesid ss)\<rparr>
          | None \<Rightarrow> s1))"

definition sm_CancelSessionWants :: "uint64 \<Rightarrow> cid list \<Rightarrow> sm \<Rightarrow> sm_call list \<times> sm" where
  "sm_CancelSessionWants sesid wants s =
     (let (cancelKs, m) = RemoveSessionInterested sesid wants (sm_sim s)
      in cancelWants cancelKs (s\<lparr>sm_sim := m\<rparr>))"

definition tellSession ::
  "peer \<Rightarrow> cid list \<Rightarrow> cid list \<Rightarrow> cid list \<Rightarrow> sim \<Rightarrow> uint64 \<Rightarrow> (uint64, ses) fmap \<Rightarrow> (uint64, ses) fmap" where
  "tellSession p blks haves dontHaves m i ss =
     (case fmlookup ss i of
        None \<Rightarrow> ss
      | Some sess \<Rightarrow> fmupd i (ses_ReceiveFrom p blks haves dontHaves m sess) ss)"

definition sm_ReceiveFrom ::
  "uint64 order \<Rightarrow> peer \<Rightarrow> cid list \<Rightarrow> cid list \<Rightarrow> cid list \<Rightarrow> sm \<Rightarrow> sm_call list \<times> sm" where
  "sm_ReceiveFrom ord p blks haves dontHaves s =
     (let s1 = s\<lparr>sm_bpm := bpm_ReceiveFrom p haves dontHaves (sm_bpm s)\<rparr>;
          ids = InterestedSessions ord blks haves dontHaves (sm_sim s1)
      in case sm_sessions s1 of
           None \<Rightarrow> if length ids = 0 then ([SM_SendCancels blks], s1) else ([], s1)
         | Some ss \<Rightarrow>
             ([SM_SendCancels blks],
              s1\<lparr>sm_sessions := Some (fold (tellSession p blks haves dontHaves (sm_sim s1)) ids ss)\<rparr>))"

end
