(* ===== verification/Want_Sender_Props.thy ===== *)
theory Want_Sender_Props
  imports Want_Sender
begin

text \<open>
  Properties of the session want sender: the best peer of a want is indeed a best one, every
  peer of the session is known to every want, a round leaves no want idle that a peer may
  have, and it sends exactly what it should.
\<close>

section \<open>Choosing a peer\<close>

lemma chooseLoop_mem: "chooseLoop prt tot rnd counted ps = Some p \<Longrightarrow> p \<in> set ps"
  by (induction prt tot rnd counted ps rule: chooseLoop.induct) (auto simp: Let_def split: if_splits)

lemma choose_mem: "ps \<noteq> [] \<Longrightarrow> choose_peer rnd ps prt \<in> set ps"
  by (auto simp: choose_peer_def Let_def dest: chooseLoop_mem split: option.splits)

lemma chooseLoop_interval:
  assumes "counted + rat_of_nat (sum_list (map (\<lambda>p. getPeerCount p prt) xs)) / rat_of_nat tot \<le> rnd"
    "rnd < counted + rat_of_nat (sum_list (map (\<lambda>p. getPeerCount p prt) (xs @ [p]))) / rat_of_nat tot"
  shows "chooseLoop prt tot rnd counted (xs @ p # ys) = Some p"
  using assms
proof (induction xs arbitrary: counted)
  case (Cons x xs)
  have "\<not> counted + rat_of_nat (getPeerCount x prt) / rat_of_nat tot > rnd"
  proof -
    have "(0::rat) \<le> rat_of_nat (sum_list (map (\<lambda>p. getPeerCount p prt) xs)) / rat_of_nat tot"
      by (rule divide_nonneg_nonneg) (rule of_nat_0_le_iff)+
    then show ?thesis
      using Cons.prems(1) unfolding list.map sum_list.Cons of_nat_add add_divide_distrib by linarith
  qed
  then show ?case
    using Cons.IH [of "counted + rat_of_nat (getPeerCount x prt) / rat_of_nat tot"] Cons.prems
    by (simp add: add_divide_distrib add.assoc)
qed simp

section \<open>The best peer\<close>

definition best_ok :: "wantInfo \<Rightarrow> bool" where
  "best_ok wi \<longleftrightarrow>
     (if bestPeer wi = NoPeer then \<forall>p bp. fmlookup (blockPresence wi) p = Some bp \<longrightarrow> bp = BPDontHave
      else \<exists>b. fmlookup (blockPresence wi) (bestPeer wi) = Some b \<and> b \<noteq> BPDontHave \<and>
             (\<forall>p bp. fmlookup (blockPresence wi) p = Some bp \<longrightarrow> bp \<le> b))"

lemma bp_least: "BPDontHave \<le> b" "b \<le> BPDontHave \<longleftrightarrow> b = BPDontHave" "BPDontHave < b \<longleftrightarrow> b \<noteq> BPDontHave"
  by (cases b; simp add: bp_order)+

lemma betterPeers:
  assumes "NoPeer |\<notin>| fmdom m" "set ps \<subseteq> fset (fmdom m)"
    and "fold (betterPeer m) ps (BPDontHave, NoPeer, 0) = (bestBP, best, n)"
  shows "(if best = NoPeer then bestBP = BPDontHave else best \<in> set ps \<and> fmlookup m best = Some bestBP \<and> bestBP \<noteq> BPDontHave) \<and>
    (\<forall>p\<in>set ps. \<forall>bp. fmlookup m p = Some bp \<longrightarrow> bp \<le> bestBP)"
  using assms(2,3)
proof (induction ps arbitrary: bestBP best n rule: rev_induct)
  case (snoc p ps)
  obtain b0 best0 n0 where r: "fold (betterPeer m) ps (BPDontHave, NoPeer, 0) = (b0, best0, n0)"
    by (rule prod_cases3)
  note IH = snoc.IH [OF _ r]
  obtain bp where bp: "fmlookup m p = Some bp"
    using snoc.prems(1) by (auto simp: fmlookup_dom_iff)
  have p: "p \<noteq> NoPeer"
    using assms(1) bp by (auto simp: fmlookup_dom_iff)
  have step: "betterPeer m p (b0, best0, n0) = (bestBP, best, n)"
    using snoc.prems(2) r by simp
  consider "bp > b0" | "bp \<le> b0"
    by fastforce
  then show ?case
  proof cases
    case 1
    have "bestBP = bp" "best = p" "bp \<noteq> BPDontHave"
      using 1 step bp bp_least(1) [of b0] by (auto simp: betterPeer_def)
    moreover have "\<forall>q\<in>set ps. \<forall>bq. fmlookup m q = Some bq \<longrightarrow> bq \<le> bp"
      using 1 IH snoc.prems(1) by fastforce
    ultimately show ?thesis
      using bp p by auto
  next
    case 2
    then have "bestBP = b0" "best = best0"
      using step bp by (auto simp: betterPeer_def split: if_splits)
    then show ?thesis
      using 2 IH snoc.prems(1) bp by auto
  qed
qed (auto simp: fmlookup_dom_iff)

lemma calculateBestPeer_fields [simp]:
  "blockPresence (calculateBestPeer env prt wi) = blockPresence wi"
  "sentTo (calculateBestPeer env prt wi) = sentTo wi"
  "wi_exhausted (calculateBestPeer env prt wi) = wi_exhausted wi"
  by (auto simp: calculateBestPeer_def Let_def split: prod.splits)

lemma calculateBestPeer_ok:
  assumes ord: "go_range (env_ordp env)" and np: "NoPeer |\<notin>| fmdom (blockPresence wi)"
  shows "best_ok (calculateBestPeer env prt wi)"
proof -
  let ?m = "blockPresence wi" and ?ps = "env_ordp env (fmdom (blockPresence wi))"
  obtain bestBP best n where r: "fold (betterPeer ?m) ?ps (BPDontHave, NoPeer, 0) = (bestBP, best, n)"
    by (rule prod_cases3)
  have set: "set ?ps = fset (fmdom ?m)"
    by (rule go_range.ord_set [OF ord])
  note B = betterPeers [OF np _ r, unfolded set, OF subset_refl]
  have le: "bp \<le> bestBP" if "fmlookup ?m p = Some bp" for p bp
    using B that by (auto simp: fmlookup_dom_iff)
  show ?thesis
  proof (cases "best = NoPeer")
    case True
    then have "bestPeer (calculateBestPeer env prt wi) = NoPeer"
      using r by (simp add: calculateBestPeer_def)
    then show ?thesis
      using B True le by (auto simp: best_ok_def bp_least(2))
  next
    case False
    let ?qs = "filter (\<lambda>p. fmlookup ?m p = Some bestBP) ?ps"
    have "best \<in> set ?qs"
      using B False set by auto
    then have "choose_peer rnd ?qs prt \<in> set ?qs" for rnd
      by (metis choose_mem empty_iff list.set(1))
    then have "fmlookup ?m (bestPeer (calculateBestPeer env prt wi)) = Some bestBP"
      using B False r by (auto simp: calculateBestPeer_def Let_def)
    moreover from this have "bestPeer (calculateBestPeer env prt wi) \<noteq> NoPeer"
      using np by (auto simp: fmlookup_dom_iff)
    ultimately show ?thesis
      using B False le by (auto simp: best_ok_def)
  qed
qed

section \<open>Invariant\<close>

definition wi_ok :: "wantInfo \<Rightarrow> bool" where
  "wi_ok wi \<longleftrightarrow> best_ok wi \<and> NoPeer |\<notin>| fmdom (blockPresence wi) \<and>
     (sentTo wi \<noteq> NoPeer \<longrightarrow> sentTo wi |\<in>| fmdom (blockPresence wi))"

definition knows :: "peer fset \<Rightarrow> sws \<Rightarrow> bool" where
  "knows ps s \<longleftrightarrow> (\<forall>c wi. fmlookup (sws_wants s) c = Some wi \<longrightarrow> ps |\<subseteq>| fmdom (blockPresence wi))"

definition wants_ok :: "sws \<Rightarrow> bool" where
  "wants_ok s \<longleftrightarrow> (\<forall>c wi. fmlookup (sws_wants s) c = Some wi \<longrightarrow> wi_ok wi)"

definition counts_ok :: "sws \<Rightarrow> bool" where
  "counts_ok s \<longleftrightarrow> (\<forall>p n. fmlookup (peerConsecutiveDontHaves s) p = Some n \<longrightarrow> n \<le> peerDontHaveLimit)"

definition sws_inv :: "sws \<Rightarrow> bool" where
  "sws_inv s \<longleftrightarrow> wants_ok s \<and> knows (spm_peers (sws_spm s)) s \<and> NoPeer |\<notin>| spm_peers (sws_spm s) \<and> counts_ok s"

definition env_ok :: "sws_env \<Rightarrow> bool" where
  "env_ok env \<longleftrightarrow> go_range (env_ordp env) \<and> go_range (env_ordc env)"

lemma wi_ok_new: "wi_ok newWantInfo"
  by (simp add: wi_ok_def best_ok_def newWantInfo_def)

lemma setPeerBlockPresence_ok:
  assumes "env_ok env" "wi_ok wi" "p \<noteq> NoPeer"
  shows "wi_ok (setPeerBlockPresence env prt p bp wi)"
    "blockPresence (setPeerBlockPresence env prt p bp wi) = fmupd p bp (blockPresence wi)"
    "sentTo (setPeerBlockPresence env prt p bp wi) = sentTo wi"
proof -
  let ?wi = "calculateBestPeer env prt (wi\<lparr>blockPresence := fmupd p bp (blockPresence wi)\<rparr>)"
  have "best_ok ?wi"
    using assms by (intro calculateBestPeer_ok) (auto simp: env_ok_def wi_ok_def)
  moreover have "best_ok (?wi\<lparr>wi_exhausted := False\<rparr>) = best_ok ?wi"
    by (simp add: best_ok_def)
  ultimately show "wi_ok (setPeerBlockPresence env prt p bp wi)"
    using assms(2,3) by (auto simp: setPeerBlockPresence_def Let_def wi_ok_def)
qed (simp_all add: setPeerBlockPresence_def Let_def)

lemma wi_removePeer_ok:
  assumes "env_ok env" "wi_ok wi"
  shows "wi_ok (wi_removePeer env prt p wi)"
    "blockPresence (wi_removePeer env prt p wi) = fmdrop p (blockPresence wi)"
    "sentTo (wi_removePeer env prt p wi) = (if sentTo wi = p then NoPeer else sentTo wi)"
proof -
  show f: "blockPresence (wi_removePeer env prt p wi) = fmdrop p (blockPresence wi)"
    "sentTo (wi_removePeer env prt p wi) = (if sentTo wi = p then NoPeer else sentTo wi)"
    by (auto simp: wi_removePeer_def Let_def)
  have "best_ok (wi_removePeer env prt p wi)"
    unfolding wi_removePeer_def Let_def
    by (intro calculateBestPeer_ok) (use assms in \<open>auto simp: env_ok_def wi_ok_def\<close>)
  then show "wi_ok (wi_removePeer env prt p wi)"
    using assms by (auto simp: wi_ok_def f)
qed

section \<open>Changing what is known of one want\<close>

definition onWant :: "cid \<Rightarrow> (wantInfo \<Rightarrow> wantInfo) \<Rightarrow> sws \<Rightarrow> sws" where
  "onWant c f s =
     (case fmlookup (sws_wants s) c of
        None \<Rightarrow> s | Some wi \<Rightarrow> s\<lparr>sws_wants := fmupd c (f wi) (sws_wants s)\<rparr>)"

definition level :: "sws_env \<Rightarrow> peer \<Rightarrow> cid \<Rightarrow> BlockPresence" where
  "level env p c =
     (if PeerHasBlock p c (env_bpm env) then BPHave
      else if PeerDoesNotHaveBlock p c (env_bpm env) then BPDontHave else BPUnknown)"

lemma update_onWant:
  "updateWantBlockPresence env c p s = onWant c (setPeerBlockPresence env (peerRspTrkr s) p (level env p c)) s"
  by (cases "fmlookup (sws_wants s) c") (simp_all add: updateWantBlockPresence_def onWant_def level_def Let_def)

lemma setWantSentTo_onWant: "setWantSentTo c p s = onWant c (\<lambda>wi. wi\<lparr>sentTo := p\<rparr>) s"
  by (simp add: setWantSentTo_def onWant_def)

lemma onWant_lookup [simp]:
  "fmlookup (sws_wants (onWant c f s)) k =
     (if k = c then map_option f (fmlookup (sws_wants s) c) else fmlookup (sws_wants s) k)"
  by (auto simp: onWant_def split: option.splits)

lemma onWant_frame [simp]:
  "fmdom (sws_wants (onWant c f s)) = fmdom (sws_wants s)"
  "peerConsecutiveDontHaves (onWant c f s) = peerConsecutiveDontHaves s"
  "swbt (onWant c f s) = swbt s" "peerRspTrkr (onWant c f s) = peerRspTrkr s" "sws_spm (onWant c f s) = sws_spm s"
  by (auto simp: onWant_def fmlookup_dom_iff split: option.splits)

lemma onWant_wants_ok:
  "wants_ok s \<Longrightarrow> (\<And>wi. wi_ok wi \<Longrightarrow> wi_ok (f wi)) \<Longrightarrow> wants_ok (onWant c f s)"
  by (auto simp: wants_ok_def)

lemma onWant_knows:
  "knows ps s \<Longrightarrow> (\<And>wi. ps |\<subseteq>| fmdom (blockPresence wi) \<Longrightarrow> ps |\<subseteq>| fmdom (blockPresence (f wi))) \<Longrightarrow> knows ps (onWant c f s)"
  by (auto simp: knows_def)

lemma fold_onWant_lookup:
  "distinct cs \<Longrightarrow> fmlookup (sws_wants (fold (\<lambda>c. onWant c (f c)) cs s)) k =
     (if k \<in> set cs then map_option (f k) (fmlookup (sws_wants s) k) else fmlookup (sws_wants s) k)"
  by (induction cs arbitrary: s) auto

lemma fold_onWant_frame:
  "fmdom (sws_wants (fold (\<lambda>c. onWant c (f c)) cs s)) = fmdom (sws_wants s)"
  "peerConsecutiveDontHaves (fold (\<lambda>c. onWant c (f c)) cs s) = peerConsecutiveDontHaves s"
  "swbt (fold (\<lambda>c. onWant c (f c)) cs s) = swbt s"
  "peerRspTrkr (fold (\<lambda>c. onWant c (f c)) cs s) = peerRspTrkr s"
  "sws_spm (fold (\<lambda>c. onWant c (f c)) cs s) = sws_spm s"
  by (induction cs arbitrary: s) auto

text \<open>Both directions of an availability change touch every want once.\<close>

definition availEffect :: "sws_env \<Rightarrow> peerResponseTracker \<Rightarrow> peer \<Rightarrow> bool \<Rightarrow> cid \<Rightarrow> wantInfo \<Rightarrow> wantInfo" where
  "availEffect env prt p b c =
     (if b then setPeerBlockPresence env prt p (level env p c) else wi_removePeer env prt p)"

lemma updateWantsPeerAvailability_eq:
  "updateWantsPeerAvailability env p b s =
     fold (\<lambda>c. onWant c (availEffect env (peerRspTrkr s) p b c)) (env_ordc env (fmdom (sws_wants s))) s"
proof -
  have "fold (\<lambda>c s. if b then updateWantBlockPresence env c p s
       else (case fmlookup (sws_wants s) c of None \<Rightarrow> s
             | Some wi \<Rightarrow> s\<lparr>sws_wants := fmupd c (wi_removePeer env (peerRspTrkr s) p wi) (sws_wants s)\<rparr>)) cs s' =
      fold (\<lambda>c. onWant c (availEffect env (peerRspTrkr s) p b c)) cs s'" if "peerRspTrkr s' = peerRspTrkr s" for cs s'
    using that
  proof (induction cs arbitrary: s')
    case (Cons c cs)
    have "(if b then updateWantBlockPresence env c p s'
       else (case fmlookup (sws_wants s') c of None \<Rightarrow> s'
             | Some wi \<Rightarrow> s'\<lparr>sws_wants := fmupd c (wi_removePeer env (peerRspTrkr s') p wi) (sws_wants s')\<rparr>)) =
       onWant c (availEffect env (peerRspTrkr s) p b c) s'"
      using Cons.prems by (cases "fmlookup (sws_wants s') c")
        (simp_all add: availEffect_def update_onWant, simp_all add: onWant_def)
    then show ?case
      using Cons.IH [of "onWant c (availEffect env (peerRspTrkr s) p b c) s'"] Cons.prems by simp
  qed simp
  then show ?thesis
    by (simp add: updateWantsPeerAvailability_def)
qed

lemma updateWantsPeerAvailability_lookup:
  assumes "env_ok env"
  shows "fmlookup (sws_wants (updateWantsPeerAvailability env p b s)) k =
    map_option (availEffect env (peerRspTrkr s) p b k) (fmlookup (sws_wants s) k)"
proof -
  have "distinct (env_ordc env (fmdom (sws_wants s)))" "set (env_ordc env (fmdom (sws_wants s))) = fset (fmdom (sws_wants s))"
    using assms go_range.ord_distinct go_range.ord_set unfolding env_ok_def by blast+
  then show ?thesis
    by (cases "fmlookup (sws_wants s) k") (auto simp: updateWantsPeerAvailability_eq fold_onWant_lookup fmlookup_dom_iff)
qed

lemma updateWantsPeerAvailability_frame [simp]:
  "fmdom (sws_wants (updateWantsPeerAvailability env p b s)) = fmdom (sws_wants s)"
  "peerConsecutiveDontHaves (updateWantsPeerAvailability env p b s) = peerConsecutiveDontHaves s"
  "swbt (updateWantsPeerAvailability env p b s) = swbt s"
  "peerRspTrkr (updateWantsPeerAvailability env p b s) = peerRspTrkr s"
  "sws_spm (updateWantsPeerAvailability env p b s) = sws_spm s"
  by (simp_all add: updateWantsPeerAvailability_eq fold_onWant_frame)

lemma updateWantBlockPresence_inv:
  assumes "env_ok env" "p \<noteq> NoPeer"
  shows "wants_ok s \<Longrightarrow> wants_ok (updateWantBlockPresence env c p s)"
    "knows ps s \<Longrightarrow> knows ps (updateWantBlockPresence env c p s)"
proof -
  show "wants_ok (updateWantBlockPresence env c p s)" if "wants_ok s"
    unfolding update_onWant by (rule onWant_wants_ok [OF that]) (rule setPeerBlockPresence_ok(1) [OF assms(1) _ assms(2)])
  show "knows ps (updateWantBlockPresence env c p s)" if "knows ps s"
    unfolding update_onWant
    by (rule onWant_knows [OF that]) (auto simp: setPeerBlockPresence_def Let_def)
qed

lemma updateWantBlockPresence_frame [simp]:
  "fmdom (sws_wants (updateWantBlockPresence env c p s)) = fmdom (sws_wants s)"
  "peerConsecutiveDontHaves (updateWantBlockPresence env c p s) = peerConsecutiveDontHaves s"
  "swbt (updateWantBlockPresence env c p s) = swbt s" "peerRspTrkr (updateWantBlockPresence env c p s) = peerRspTrkr s"
  "sws_spm (updateWantBlockPresence env c p s) = sws_spm s"
  by (simp_all add: update_onWant)

section \<open>Every step keeps the invariant\<close>

lemma fold_update_peers:
  assumes "env_ok env" "NoPeer \<notin> set ps" "wants_ok s"
    "\<And>k wi. k \<noteq> c \<Longrightarrow> fmlookup (sws_wants s) k = Some wi \<Longrightarrow> Q |\<subseteq>| fmdom (blockPresence wi)"
    "\<And>wi. fmlookup (sws_wants s) c = Some wi \<Longrightarrow> Q |\<subseteq>| fmdom (blockPresence wi) |\<union>| fset_of_list ps"
  shows "wants_ok (fold (updateWantBlockPresence env c) ps s) \<and> knows Q (fold (updateWantBlockPresence env c) ps s) \<and>
    sws_spm (fold (updateWantBlockPresence env c) ps s) = sws_spm s \<and>
    peerConsecutiveDontHaves (fold (updateWantBlockPresence env c) ps s) = peerConsecutiveDontHaves s \<and>
    fmdom (sws_wants (fold (updateWantBlockPresence env c) ps s)) = fmdom (sws_wants s)"
  using assms(2-5)
proof (induction ps arbitrary: s)
  case Nil
  have "Q |\<subseteq>| fmdom (blockPresence wi)" if "fmlookup (sws_wants s) k = Some wi" for k wi
    using that Nil.prems(3,4) by (cases "k = c") auto
  then show ?case
    using Nil.prems(2) by (auto simp: knows_def)
next
  case (Cons p ps)
  have p: "p \<noteq> NoPeer"
    using Cons.prems(1) by auto
  let ?s = "updateWantBlockPresence env c p s"
  have "Q |\<subseteq>| fmdom (blockPresence wi) |\<union>| fset_of_list ps" if wi: "fmlookup (sws_wants ?s) c = Some wi" for wi
  proof -
    obtain w0 where "fmlookup (sws_wants s) c = Some w0" "fmdom (blockPresence wi) = finsert p (fmdom (blockPresence w0))"
      using wi by (auto simp: update_onWant setPeerBlockPresence_def Let_def)
    then show ?thesis
      using Cons.prems(4) by auto
  qed
  moreover have "Q |\<subseteq>| fmdom (blockPresence wi)" if "k \<noteq> c" "fmlookup (sws_wants ?s) k = Some wi" for k wi
    using that Cons.prems(3) by (simp add: update_onWant)
  moreover have "wants_ok ?s"
    using updateWantBlockPresence_inv(1) [OF assms(1) p] Cons.prems(2) by blast
  ultimately show ?case
    using Cons.IH [of ?s] Cons.prems(1) by simp
qed

lemma trackWant_inv:
  assumes env: "env_ok env" and inv: "sws_inv s"
  shows "sws_inv (trackWant env c s) \<and> sws_spm (trackWant env c s) = sws_spm s \<and>
    fmdom (sws_wants (trackWant env c s)) = finsert c (fmdom (sws_wants s))"
proof (cases "fmlookup (sws_wants s) c")
  case None
  let ?ps = "spm_Peers (env_ordp env) (sws_spm s)" and ?s = "s\<lparr>sws_wants := fmupd c newWantInfo (sws_wants s)\<rparr>"
  have set: "fset_of_list ?ps = spm_peers (sws_spm s)"
    using env go_range.fset_of_list_ord by (auto simp: env_ok_def spm_Peers_def)
  have np: "NoPeer \<notin> set ?ps"
    using inv set by (metis fset_of_list_elem sws_inv_def)
  have ok: "wants_ok ?s"
    using inv wi_ok_new by (auto simp: sws_inv_def wants_ok_def)
  have "spm_peers (sws_spm s) |\<subseteq>| fmdom (blockPresence wi)" if "k \<noteq> c" "fmlookup (sws_wants ?s) k = Some wi" for k wi
    using inv that by (auto simp: sws_inv_def knows_def)
  moreover have "spm_peers (sws_spm s) |\<subseteq>| fmdom (blockPresence wi) |\<union>| fset_of_list ?ps" for wi
    using set by auto
  ultimately have F: "wants_ok (fold (updateWantBlockPresence env c) ?ps ?s) \<and>
      knows (spm_peers (sws_spm s)) (fold (updateWantBlockPresence env c) ?ps ?s) \<and>
      sws_spm (fold (updateWantBlockPresence env c) ?ps ?s) = sws_spm ?s \<and>
      peerConsecutiveDontHaves (fold (updateWantBlockPresence env c) ?ps ?s) = peerConsecutiveDontHaves ?s \<and>
      fmdom (sws_wants (fold (updateWantBlockPresence env c) ?ps ?s)) = fmdom (sws_wants ?s)"
    by (intro fold_update_peers [OF env np ok]) auto
  then show ?thesis
    using None inv by (simp add: trackWant_def sws_inv_def counts_ok_def)
next
  case (Some wi)
  then show ?thesis
    using inv by (auto simp: trackWant_def fmlookup_dom_iff)
qed

lemma untrackWant_inv:
  "sws_inv s \<Longrightarrow> sws_inv (untrackWant c s) \<and> sws_spm (untrackWant c s) = sws_spm s \<and>
     fmdom (sws_wants (untrackWant c s)) = fmdom (sws_wants s) |-| {|c|}"
  by (auto simp: untrackWant_def sws_inv_def wants_ok_def knows_def counts_ok_def)

lemma availEffect_ok:
  assumes "env_ok env" "p \<noteq> NoPeer" "wi_ok wi"
  shows "wi_ok (availEffect env prt p b c wi)"
    "fmdom (blockPresence (availEffect env prt p b c wi)) =
       (if b then finsert p (fmdom (blockPresence wi)) else fmdom (blockPresence wi) |-| {|p|})"
    "sentTo (availEffect env prt p b c wi) = (if \<not> b \<and> sentTo wi = p then NoPeer else sentTo wi)"
  using setPeerBlockPresence_ok [OF assms(1,3,2)] wi_removePeer_ok [OF assms(1,3)]
  by (auto simp: availEffect_def)

lemma peerAvailable_inv:
  assumes env: "env_ok env" and inv: "sws_inv s" and p: "p \<noteq> NoPeer"
    and r: "peerAvailable env avail p (na, nu, cs, s) = (na', nu', cs', s')"
  shows "sws_inv s' \<and> fmdom (sws_wants s') = fmdom (sws_wants s) \<and>
    spm_peers (sws_spm s') = (case fmlookup avail p of None \<Rightarrow> spm_peers (sws_spm s)
       | Some b \<Rightarrow> if b then finsert p (spm_peers (sws_spm s)) else spm_peers (sws_spm s) |-| {|p|})"
proof (cases "fmlookup avail p")
  case None
  then show ?thesis
    using r inv by (simp add: peerAvailable_def)
next
  case (Some b)
  show ?thesis
  proof (cases "(p |\<in>| spm_peers (sws_spm s)) = b")
    case True
    then have "s' = s"
      using r Some by (cases b) (auto simp: peerAvailable_def spm_AddPeer_def spm_RemovePeer_def)
    then show ?thesis
      using inv Some True by (cases b) auto
  next
    case False
    let ?spm = "(if b then snd (snd (spm_AddPeer p (sws_spm s))) else snd (snd (spm_RemovePeer p (sws_spm s))))"
    let ?s1 = "s\<lparr>sws_spm := ?spm\<rparr>"
    let ?s2 = "updateWantsPeerAvailability env p b ?s1"
    have s': "s' = ?s2\<lparr>peerConsecutiveDontHaves := fmdrop p (peerConsecutiveDontHaves s)\<rparr>"
      using r Some False by (cases b) (auto simp: peerAvailable_def spm_AddPeer_def spm_RemovePeer_def)
    have peers: "spm_peers ?spm = (if b then finsert p (spm_peers (sws_spm s)) else spm_peers (sws_spm s) |-| {|p|})"
      using False by (auto simp: spm_AddPeer_def spm_RemovePeer_def)
    have each: "wi_ok wi \<and> spm_peers ?spm |\<subseteq>| fmdom (blockPresence wi)"
      if wi: "fmlookup (sws_wants ?s2) c = Some wi" for c wi
    proof -
      obtain w0 where w0: "fmlookup (sws_wants s) c = Some w0" "wi = availEffect env (peerRspTrkr s) p b c w0"
        using wi updateWantsPeerAvailability_lookup [OF env, of p b ?s1 c] by auto
      then have "wi_ok w0" "spm_peers (sws_spm s) |\<subseteq>| fmdom (blockPresence w0)"
        using inv by (auto simp: sws_inv_def wants_ok_def knows_def)
      with availEffect_ok [OF env p this(1), of "peerRspTrkr s" b c] show ?thesis
        unfolding w0(2) peers by auto
    qed
    have "NoPeer |\<notin>| spm_peers ?spm"
      using inv p unfolding peers by (auto simp: sws_inv_def)
    then have "sws_inv s'"
      using each inv unfolding s' by (auto simp: sws_inv_def wants_ok_def knows_def counts_ok_def)
    then show ?thesis
      using Some unfolding s' by (simp add: peers)
  qed
qed

definition available :: "(peer, bool) fmap \<Rightarrow> peer fset \<Rightarrow> peer fset" where
  "available avail ps = (ps |-| ffilter (\<lambda>p. fmlookup avail p = Some False) (fmdom avail)) |\<union>|
     ffilter (\<lambda>p. fmlookup avail p = Some True) (fmdom avail)"

lemma fold_peerAvailable_inv:
  assumes env: "env_ok env" and "sws_inv s" "NoPeer \<notin> set ps" "distinct ps"
    and "fold (peerAvailable env avail) ps (na, nu, cs, s) = (na', nu', cs', s')"
  shows "sws_inv s' \<and> fmdom (sws_wants s') = fmdom (sws_wants s) \<and>
    (\<forall>q. q |\<in>| spm_peers (sws_spm s') \<longleftrightarrow>
       (if q \<in> set ps \<and> fmlookup avail q \<noteq> None then fmlookup avail q = Some True else q |\<in>| spm_peers (sws_spm s)))"
  using assms(2-5)
proof (induction ps arbitrary: na nu cs s)
  case (Cons p ps)
  obtain na1 nu1 cs1 s1 where r: "peerAvailable env avail p (na, nu, cs, s) = (na1, nu1, cs1, s1)"
    by (rule prod_cases4)
  have p: "p \<noteq> NoPeer"
    using Cons.prems by auto
  note P = peerAvailable_inv [OF env Cons.prems(1) p r]
  have IH: "sws_inv s' \<and> fmdom (sws_wants s') = fmdom (sws_wants s1) \<and>
    (\<forall>q. q |\<in>| spm_peers (sws_spm s') \<longleftrightarrow>
       (if q \<in> set ps \<and> fmlookup avail q \<noteq> None then fmlookup avail q = Some True else q |\<in>| spm_peers (sws_spm s1)))"
    by (rule Cons.IH) (use P Cons.prems r in auto)
  have "q |\<in>| spm_peers (sws_spm s') \<longleftrightarrow>
      (if q \<in> set (p # ps) \<and> fmlookup avail q \<noteq> None then fmlookup avail q = Some True else q |\<in>| spm_peers (sws_spm s))" for q
  proof (cases "q = p")
    case True
    have "q |\<in>| spm_peers (sws_spm s') \<longleftrightarrow> q |\<in>| spm_peers (sws_spm s1)"
      using IH True Cons.prems(3) by simp
    then show ?thesis
      using P True by (cases "fmlookup avail p") auto
  next
    case False
    have "q |\<in>| spm_peers (sws_spm s1) \<longleftrightarrow> q |\<in>| spm_peers (sws_spm s)"
      using P False by (cases "fmlookup avail p") auto
    then show ?thesis
      using IH False by auto
  qed
  then show ?case
    using IH P by blast
qed simp

lemma processAvailability_inv:
  assumes env: "env_ok env" and "sws_inv s" "NoPeer |\<notin>| fmdom avail"
    and r: "processAvailability env avail s = (na, nu, cs, s')"
  shows "sws_inv s' \<and> fmdom (sws_wants s') = fmdom (sws_wants s) \<and>
    (\<forall>q. q |\<in>| spm_peers (sws_spm s') \<longleftrightarrow>
       (case fmlookup avail q of Some b \<Rightarrow> b | None \<Rightarrow> q |\<in>| spm_peers (sws_spm s)))"
proof -
  have o: "set (env_ordp env (fmdom avail)) = fset (fmdom avail)" "distinct (env_ordp env (fmdom avail))"
    using env go_range.ord_set go_range.ord_distinct unfolding env_ok_def by blast+
  from fold_peerAvailable_inv [OF env assms(2) _ o(2)] show ?thesis
    using r assms(3) unfolding processAvailability_def o(1) by (auto simp: fmlookup_dom_iff split: option.splits)
qed

lemma sws_inv_counts:
  "sws_inv s \<Longrightarrow> (\<And>p n. fmlookup m p = Some n \<Longrightarrow> n \<le> peerDontHaveLimit) \<Longrightarrow> sws_inv (s\<lparr>peerConsecutiveDontHaves := m\<rparr>)"
  by (auto simp: sws_inv_def wants_ok_def knows_def counts_ok_def)

lemma sws_inv_shrink:
  assumes "sws_inv s" "\<And>c wi. fmlookup (sws_wants s') c = Some wi \<Longrightarrow> fmlookup (sws_wants s) c = Some wi"
    "sws_spm s' = sws_spm s" "\<And>p n. fmlookup (peerConsecutiveDontHaves s') p = Some n \<Longrightarrow> n \<le> peerDontHaveLimit"
  shows "sws_inv s'"
  using assms unfolding sws_inv_def wants_ok_def knows_def counts_ok_def by metis

lemma sws_inv_count: "sws_inv s \<Longrightarrow> fmlookup (peerConsecutiveDontHaves s) p = Some n \<Longrightarrow> n \<le> peerDontHaveLimit"
  by (simp add: sws_inv_def counts_ok_def)

lemma receivedKey_inv:
  assumes "sws_inv s" "receivedKey from c (cs, s) = (cs', s')"
  shows "sws_inv s' \<and> sws_spm s' = sws_spm s \<and> fmdom (sws_wants s') = fmdom (sws_wants s) |-| {|c|} \<and>
    swbt s' = swbt s"
proof -
  have lk: "fmlookup (sws_wants s') k = (if k = c then None else fmlookup (sws_wants s) k)" for k
    using assms(2) by (cases "fmlookup (sws_wants s) c") (auto simp: receivedKey_def removeWant_def)
  have f: "sws_spm s' = sws_spm s" "swbt s' = swbt s"
      "peerConsecutiveDontHaves s' = fmdrop from (peerConsecutiveDontHaves s)"
    using assms(2) by (cases "fmlookup (sws_wants s) c"; force simp: receivedKey_def removeWant_def)+
  have "sws_inv s'"
    using sws_inv_count [OF assms(1)] by (intro sws_inv_shrink [OF assms(1)]) (auto simp: lk f split: if_splits)
  moreover have "fmdom (sws_wants s') = fmdom (sws_wants s) |-| {|c|}"
    by (intro fset_eqI) (auto simp: fmlookup_dom_iff lk)
  ultimately show ?thesis
    using f by simp
qed

lemma fold_receivedKey_inv:
  assumes "sws_inv s" "fold (receivedKey from) ks (cs, s) = (cs', s')"
  shows "sws_inv s' \<and> sws_spm s' = sws_spm s \<and> fmdom (sws_wants s') = fmdom (sws_wants s) |-| fset_of_list ks \<and>
    swbt s' = swbt s"
  using assms
proof (induction ks arbitrary: cs s)
  case (Cons c ks)
  obtain cs1 s1 where r: "receivedKey from c (cs, s) = (cs1, s1)"
    by fastforce
  show ?case
    using receivedKey_inv [OF Cons.prems(1) r] Cons.IH [of s1 cs1] Cons.prems(2) r by auto
qed simp

lemma fold_receivedKeys_inv:
  assumes "sws_inv s" "fold receivedKeys us (cs, s) = (cs', s')"
  shows "sws_inv s' \<and> sws_spm s' = sws_spm s \<and>
    fmdom (sws_wants s') = fmdom (sws_wants s) |-| fset_of_list (concat (map upd_ks us)) \<and> swbt s' = swbt s"
  using assms
proof (induction us arbitrary: cs s)
  case (Cons u us)
  obtain cs1 s1 where r: "receivedKeys u (cs, s) = (cs1, s1)"
    by fastforce
  show ?case
    using fold_receivedKey_inv [OF Cons.prems(1) r [unfolded receivedKeys_def]] Cons.IH [of s1 cs1] Cons.prems(2) r by auto
qed simp

lemma clearSentTo_ok: "wi_ok wi \<Longrightarrow> wi_ok (wi\<lparr>sentTo := NoPeer\<rparr>)"
  by (simp add: wi_ok_def best_ok_def)

lemma sws_inv_onWant:
  assumes "sws_inv s" "\<And>wi. wi_ok wi \<Longrightarrow> wi_ok (f wi)"
    "\<And>wi. fmdom (blockPresence wi) |\<subseteq>| fmdom (blockPresence (f wi))"
  shows "sws_inv (onWant c f s)"
  using assms(1) onWant_wants_ok [of s f c] onWant_knows [of "spm_peers (sws_spm s)" s f c] assms(2,3)
  unfolding sws_inv_def counts_ok_def onWant_frame by (meson order_trans)

lemma sws_inv_update:
  assumes "env_ok env" "p \<noteq> NoPeer" "sws_inv s"
  shows "sws_inv (updateWantBlockPresence env c p s)"
  unfolding update_onWant
  using setPeerBlockPresence_ok [OF assms(1) _ assms(2)]
  by (intro sws_inv_onWant [OF assms(3)]) (auto simp: setPeerBlockPresence_def Let_def)

lemma countDontHave_inv:
  assumes "sws_inv s" "countDontHave from pr s = (pr', s')"
  shows "sws_inv s' \<and> sws_spm s' = sws_spm s \<and> sws_wants s' = sws_wants s"
proof -
  have "(case fmlookup (peerConsecutiveDontHaves s) from of None \<Rightarrow> 0 | Some n \<Rightarrow> n) \<le> peerDontHaveLimit"
    using sws_inv_count [OF assms(1)] by (auto split: option.splits)
  then show ?thesis
    using assms sws_inv_count [OF assms(1)]
    by (auto simp: countDontHave_def Let_def intro!: sws_inv_counts split: if_splits)
qed

lemma dontHaveWant_inv:
  assumes "env_ok env" "sws_inv s" "from \<noteq> NoPeer"
  shows "sws_inv (dontHaveWant env from c s) \<and> sws_spm (dontHaveWant env from c s) = sws_spm s \<and>
    fmdom (sws_wants (dontHaveWant env from c s)) = fmdom (sws_wants s)"
proof -
  let ?s = "updateWantBlockPresence env c from s"
  have inv: "sws_inv ?s"
    by (rule sws_inv_update [OF assms(1,3,2)])
  have "sws_inv (setWantSentTo c NoPeer ?s)"
    unfolding setWantSentTo_onWant by (rule sws_inv_onWant [OF inv]) (simp_all add: clearSentTo_ok)
  moreover have "dontHaveWant env from c s \<in> {?s, setWantSentTo c NoPeer ?s}"
    by (auto simp: dontHaveWant_def Let_def split: prod.splits)
  ultimately show ?thesis
    using inv by (auto simp: setWantSentTo_onWant)
qed

lemma dontHaveKey_inv:
  assumes env: "env_ok env" and inv: "sws_inv s" and nf: "from \<noteq> NoPeer"
    and r: "dontHaveKey env blks from c (dh, pr, s) = (dh', pr', s')"
  shows "sws_inv s' \<and> sws_spm s' = sws_spm s \<and> fmdom (sws_wants s') = fmdom (sws_wants s)"
proof -
  obtain pr1 s1 where c: "countDontHave from pr s = (pr1, s1)"
    by fastforce
  note C = countDontHave_inv [OF inv c]
  show ?thesis
    using r c C dontHaveWant_inv [OF env _ nf, of s1 c] by (auto simp: dontHaveKey_def split: if_splits)
qed

lemma haveKey_inv:
  assumes env: "env_ok env" and inv: "sws_inv s" and nf: "from \<noteq> NoPeer"
    and r: "haveKey env blks from c (pr, s) = (pr', s')"
  shows "sws_inv s' \<and> sws_spm s' = sws_spm s \<and> fmdom (sws_wants s') = fmdom (sws_wants s)"
proof -
  define s1 where "s1 = (if c |\<notin>| blks then updateWantBlockPresence env c from s else s)"
  have "sws_inv s1"
    using sws_inv_update [OF env nf inv] inv by (simp add: s1_def)
  moreover have s': "s' = s1\<lparr>peerConsecutiveDontHaves := fmdrop from (peerConsecutiveDontHaves s1)\<rparr>"
    using r by (simp add: haveKey_def s1_def Let_def)
  moreover have "sws_spm s1 = sws_spm s" "fmdom (sws_wants s1) = fmdom (sws_wants s)"
    by (simp_all add: s1_def)
  ultimately show ?thesis
    using sws_inv_count [of s1] by (auto intro!: sws_inv_counts split: if_splits)
qed

text \<open>A fold over the keys of every update, as the second and third loops are.\<close>

lemma fold_updates:
  assumes "P a" "\<And>u k a. u \<in> set us \<Longrightarrow> P a \<Longrightarrow> P (g (upd_from u) k a)"
  shows "P (fold (\<lambda>u. fold (g (upd_from u)) (ks u)) us a)"
  using assms
proof (induction us arbitrary: a)
  case (Cons u us)
  have "P (fold (g (upd_from u)) (ks u) a)"
    by (rule fold_invariant [where P = P]) (simp_all add: Cons.prems)
  moreover have "P (g (upd_from v) k a)" if "v \<in> set us" "P a" for v k a
    using that by (intro Cons.prems(2)) simp_all
  ultimately show ?case
    using Cons.IH by simp
qed simp

lemma processUpdates_inv:
  assumes env: "env_ok env" and inv: "sws_inv s" and nf: "\<And>u. u \<in> set us \<Longrightarrow> upd_from u \<noteq> NoPeer"
    and r: "processUpdates env us s = (dhs, cs, s')"
  shows "sws_inv s' \<and> sws_spm s' = sws_spm s \<and>
    fmdom (sws_wants s') = fmdom (sws_wants s) |-| fset_of_list (concat (map upd_ks us))"
proof -
  let ?blks = "fset_of_list (concat (map upd_ks us))"
  obtain cs1 s1 where r1: "fold receivedKeys us ([], s) = (cs1, s1)"
    by fastforce
  note R = fold_receivedKeys_inv [OF inv r1]
  let ?good = "\<lambda>s2. sws_inv s2 \<and> sws_spm s2 = sws_spm s1 \<and> fmdom (sws_wants s2) = fmdom (sws_wants s1)"
  obtain dh pr s2 where r2:
    "fold (\<lambda>u. fold (dontHaveKey env ?blks (upd_from u)) (upd_dontHaves u)) us ({||}, {||}, s1) = (dh, pr, s2)"
    by (rule prod_cases3)
  have "(\<lambda>(_, _, s2). ?good s2)
      (fold (\<lambda>u. fold (dontHaveKey env ?blks (upd_from u)) (upd_dontHaves u)) us ({||}, {||}, s1))"
  proof (rule fold_updates)
    fix u k and a :: "cid fset \<times> peer fset \<times> sws"
    assume u: "u \<in> set us" "(\<lambda>(_, _, s2). ?good s2) a"
    obtain d p s0 where a: "a = (d, p, s0)"
      by (rule prod_cases3)
    obtain d' p' s0' where k: "dontHaveKey env ?blks (upd_from u) k (d, p, s0) = (d', p', s0')"
      by (rule prod_cases3)
    show "(\<lambda>(_, _, s2). ?good s2) (dontHaveKey env ?blks (upd_from u) k a)"
      using dontHaveKey_inv [OF env _ nf [OF u(1)] k] u(2) k a by simp
  qed (use R in simp)
  then have g2: "?good s2"
    by (simp add: r2)
  obtain pr3 s3 where r3: "fold (\<lambda>u. fold (haveKey env ?blks (upd_from u)) (upd_haves u)) us (pr, s2) = (pr3, s3)"
    by fastforce
  have "(\<lambda>(_, s3). ?good s3) (fold (\<lambda>u. fold (haveKey env ?blks (upd_from u)) (upd_haves u)) us (pr, s2))"
  proof (rule fold_updates)
    fix u k and a :: "peer fset \<times> sws"
    assume u: "u \<in> set us" "(\<lambda>(_, s2). ?good s2) a"
    obtain p s0 where a: "a = (p, s0)"
      by fastforce
    obtain p' s0' where k: "haveKey env ?blks (upd_from u) k (p, s0) = (p', s0')"
      by fastforce
    show "(\<lambda>(_, s2). ?good s2) (haveKey env ?blks (upd_from u) k a)"
      using haveKey_inv [OF env _ nf [OF u(1)] k] u(2) k a by simp
  qed (use g2 in simp)
  then have "?good s3"
    by (simp add: r3)
  moreover have "s' = s3"
    using r r1 r2 r3 by (simp add: processUpdates_def Let_def)
  ultimately show ?thesis
    using R by simp
qed

section \<open>Exhausted wants\<close>

lemma exhaustKey_effect:
  assumes "sws_inv s" "exhaustKey c (res, s) = (res', s')"
  shows "sws_inv s' \<and> s' = onWant c (\<lambda>wi. wi\<lparr>wi_exhausted := True\<rparr>) s \<and>
    res' = (if \<exists>wi. fmlookup (sws_wants s) c = Some wi \<and> \<not> wi_exhausted wi then res @ [c] else res)"
proof -
  have same: "fmupd c (wi\<lparr>wi_exhausted := True\<rparr>) (sws_wants s) = sws_wants s"
    if "fmlookup (sws_wants s) c = Some wi" "wi_exhausted wi" for wi
  proof -
    have "wi\<lparr>wi_exhausted := True\<rparr> = wi"
      using that(2) by simp
    then show ?thesis
      using that(1) by (intro fmap_eqI) auto
  qed
  have s': "s' = onWant c (\<lambda>wi. wi\<lparr>wi_exhausted := True\<rparr>) s"
    using assms(2) same by (auto simp: exhaustKey_def onWant_def split: option.splits if_splits)
  moreover have "sws_inv s'"
    unfolding s' by (rule sws_inv_onWant [OF assms(1)]) (auto simp: wi_ok_def best_ok_def)
  ultimately show ?thesis
    using assms(2) by (auto simp: exhaustKey_def split: option.splits if_splits)
qed

lemma newlyExhausted_effect:
  assumes "sws_inv s" "fold exhaustKey ks (res, s) = (res', s')"
  shows "\<exists>new. res' = res @ new \<and> distinct new \<and>
      set new = {c \<in> set ks. \<exists>wi. fmlookup (sws_wants s) c = Some wi \<and> \<not> wi_exhausted wi} \<and>
    sws_inv s' \<and> sws_spm s' = sws_spm s \<and> fmdom (sws_wants s') = fmdom (sws_wants s) \<and> swbt s' = swbt s \<and>
    (\<forall>c. fmlookup (sws_wants s') c =
       (if c \<in> set ks then map_option (\<lambda>wi. wi\<lparr>wi_exhausted := True\<rparr>) (fmlookup (sws_wants s) c)
        else fmlookup (sws_wants s) c))"
  using assms
proof (induction ks arbitrary: res s)
  case (Cons c ks)
  obtain res1 s1 where r: "exhaustKey c (res, s) = (res1, s1)"
    by fastforce
  note E = exhaustKey_effect [OF Cons.prems(1) r]
  obtain new where IH: "res' = res1 @ new" "distinct new"
      "set new = {c \<in> set ks. \<exists>wi. fmlookup (sws_wants s1) c = Some wi \<and> \<not> wi_exhausted wi}"
      "sws_inv s'" "sws_spm s' = sws_spm s1" "fmdom (sws_wants s') = fmdom (sws_wants s1)" "swbt s' = swbt s1"
      "\<forall>c. fmlookup (sws_wants s') c =
       (if c \<in> set ks then map_option (\<lambda>wi. wi\<lparr>wi_exhausted := True\<rparr>) (fmlookup (sws_wants s1) c)
        else fmlookup (sws_wants s1) c)"
    using Cons.IH [of s1 res1] E Cons.prems(2) r by auto
  have w1: "fmlookup (sws_wants s1) k = (if k = c then map_option (\<lambda>wi. wi\<lparr>wi_exhausted := True\<rparr>) (fmlookup (sws_wants s) c)
      else fmlookup (sws_wants s) k)" for k
    using E by simp
  let ?fresh = "\<exists>wi. fmlookup (sws_wants s) c = Some wi \<and> \<not> wi_exhausted wi"
  have "c \<notin> set new"
    using IH(3) w1 [of c] by (cases "fmlookup (sws_wants s) c") auto
  moreover have "set (if ?fresh then c # new else new) =
      {k \<in> set (c # ks). \<exists>wi. fmlookup (sws_wants s) k = Some wi \<and> \<not> wi_exhausted wi}"
    using IH(3) calculation by (auto simp: w1 split: if_splits)
  moreover have "fmlookup (sws_wants s') k =
       (if k \<in> set (c # ks) then map_option (\<lambda>wi. wi\<lparr>wi_exhausted := True\<rparr>) (fmlookup (sws_wants s) k)
        else fmlookup (sws_wants s) k)" for k
    using IH(8) by (auto simp: w1 option.map_comp comp_def)
  ultimately show ?case
    using IH E by (intro exI [of _ "if ?fresh then c # new else new"]) auto
qed simp

lemma processExhaustedWants_inv:
  assumes "sws_inv s" "processExhaustedWants ks s = (cs, s')"
  shows "sws_inv s' \<and> sws_spm s' = sws_spm s \<and> fmdom (sws_wants s') = fmdom (sws_wants s)"
proof -
  obtain new s1 where r: "fold exhaustKey ks ([], s) = (new, s1)"
    by fastforce
  from newlyExhausted_effect [OF assms(1) r] show ?thesis
    using assms(2) r by (auto simp: processExhaustedWants_def newlyExhausted_def)
qed

lemma checkForExhaustedWants_inv:
  assumes "sws_inv s" "checkForExhaustedWants env dhs nu s = (cs, s')"
  shows "sws_inv s' \<and> sws_spm s' = sws_spm s \<and> fmdom (sws_wants s') = fmdom (sws_wants s)"
  using assms processExhaustedWants_inv [OF assms(1)]
  by (auto simp: checkForExhaustedWants_def Let_def split: if_splits)

section \<open>Sending\<close>

definition idle_want :: "wantInfo \<Rightarrow> bool" where
  "idle_want wi \<longleftrightarrow> sentTo wi = NoPeer \<and> bestPeer wi \<noteq> NoPeer"

lemma fold_addHave:
  "ws_blocks (forPeer p (fold (addHave c) ps aw)) = ws_blocks (forPeer p aw)"
  "ws_haves (forPeer p (fold (addHave c) ps aw)) =
     (if p \<in> set ps then finsert c (ws_haves (forPeer p aw)) else ws_haves (forPeer p aw))"
  "fmdom (fold (addHave c) ps aw) = fmdom aw |\<union>| fset_of_list ps"
  by (induction ps arbitrary: aw) (auto simp: addHave_def forPeer_def Let_def split: option.splits)

lemma addWantBlock_effect:
  "ws_blocks (forPeer p (addWantBlock c q aw)) =
     (if p = q then finsert c (ws_blocks (forPeer p aw)) else ws_blocks (forPeer p aw))"
  "ws_haves (forPeer p (addWantBlock c q aw)) = ws_haves (forPeer p aw)"
  "fmdom (addWantBlock c q aw) = finsert q (fmdom aw)"
  by (auto simp: addWantBlock_def forPeer_def Let_def)

text \<open>What the round has collected for a peer once it has gone through the wants \<open>cs\<close> of \<open>s\<close>.\<close>

definition gets_block :: "sws \<Rightarrow> cid set \<Rightarrow> peer \<Rightarrow> cid \<Rightarrow> bool" where
  "gets_block s cs p c \<longleftrightarrow> c \<in> cs \<and> (\<exists>wi. fmlookup (sws_wants s) c = Some wi \<and> idle_want wi \<and> bestPeer wi = p)"

definition gets_have :: "peer list \<Rightarrow> sws \<Rightarrow> cid set \<Rightarrow> peer \<Rightarrow> cid \<Rightarrow> bool" where
  "gets_have newly s cs p c \<longleftrightarrow> c \<in> cs \<and> (\<exists>wi. fmlookup (sws_wants s) c = Some wi \<and>
     (p \<in> set newly \<or> idle_want wi \<and> p |\<in>| spm_peers (sws_spm s) \<and> p \<noteq> bestPeer wi))"

definition collected :: "peer list \<Rightarrow> sws \<Rightarrow> cid set \<Rightarrow> allWants \<Rightarrow> bool" where
  "collected newly s cs aw \<longleftrightarrow>
     (\<forall>p c. c |\<in>| ws_blocks (forPeer p aw) \<longleftrightarrow> gets_block s cs p c) \<and>
     (\<forall>p c. c |\<in>| ws_haves (forPeer p aw) \<longleftrightarrow> gets_have newly s cs p c) \<and>
     (\<forall>p. p |\<in>| fmdom aw \<longleftrightarrow> (\<exists>c. gets_block s cs p c \<or> gets_have newly s cs p c))"

lemma nextWant_effect:
  assumes env: "env_ok env" and c: "c \<notin> cs" and wc: "fmlookup (sws_wants s1) c = fmlookup (sws_wants s) c"
    and spm: "sws_spm s1 = sws_spm s" and col: "collected newly s cs aw"
    and r: "nextWant env newly c (aw, s1) = (aw', s2)"
  shows "collected newly s (insert c cs) aw'"
    "s2 = onWant c (\<lambda>wi. if idle_want wi then wi\<lparr>sentTo := bestPeer wi\<rparr> else wi) s1"
proof -
  have peers: "set (spm_Peers (env_ordp env) (sws_spm s1)) = fset (spm_peers (sws_spm s))"
    using env go_range.ord_set by (auto simp: env_ok_def spm_Peers_def spm)
  have "collected newly s (insert c cs) aw' \<and>
    s2 = onWant c (\<lambda>wi. if idle_want wi then wi\<lparr>sentTo := bestPeer wi\<rparr> else wi) s1"
  proof (cases "fmlookup (sws_wants s) c")
    case None
    then show ?thesis
      using r wc col by (auto simp: nextWant_def collected_def gets_block_def gets_have_def onWant_def)
  next
    case (Some wi)
    have here: "gets_block s (insert c cs) p k \<longleftrightarrow> (if k = c then idle_want wi \<and> bestPeer wi = p else gets_block s cs p k)"
      "gets_have newly s (insert c cs) p k \<longleftrightarrow>
         (if k = c then p \<in> set newly \<or> idle_want wi \<and> p |\<in>| spm_peers (sws_spm s) \<and> p \<noteq> bestPeer wi
          else gets_have newly s cs p k)" for p k
      using Some c by (auto simp: gets_block_def gets_have_def)
    have not_c: "\<not> gets_block s cs p c" "\<not> gets_have newly s cs p c" for p
      using c by (auto simp: gets_block_def gets_have_def)
    have dom_aw: "p |\<in>| fmdom aw \<longleftrightarrow> (\<exists>k. k \<noteq> c \<and> (gets_block s cs p k \<or> gets_have newly s cs p k))" for p
      using col not_c unfolding collected_def by metis
    show ?thesis
    proof (cases "idle_want wi")
      case True
      let ?others = "filter (\<lambda>op. op \<noteq> bestPeer wi) (spm_Peers (env_ordp env) (sws_spm s1))"
      have aw': "aw' = fold (addHave c) ?others (addWantBlock c (bestPeer wi) (fold (addHave c) newly aw))"
          "s2 = setWantSentTo c (bestPeer wi) s1"
        using r Some wc True by (simp_all add: nextWant_def idle_want_def Let_def)
      have s2: "s2 = onWant c (\<lambda>wi. if idle_want wi then wi\<lparr>sentTo := bestPeer wi\<rparr> else wi) s1"
        using aw'(2) Some wc True by (simp add: setWantSentTo_def onWant_def)
      have "collected newly s (insert c cs) aw'"
        unfolding collected_def aw'(1) fold_addHave addWantBlock_effect
      proof (intro conjI allI, goal_cases)
        case (1 p k)
        then show ?case
          using col True not_c by (auto simp: here collected_def)
      next
        case (2 p k)
        then show ?case
          using col True not_c peers by (auto simp: here collected_def)
      next
        case (3 p)
        have "(\<exists>k. gets_block s (insert c cs) p k \<or> gets_have newly s (insert c cs) p k) \<longleftrightarrow>
            p = bestPeer wi \<or> p \<in> set newly \<or> p |\<in>| spm_peers (sws_spm s) \<or>
            (\<exists>k. k \<noteq> c \<and> (gets_block s cs p k \<or> gets_have newly s cs p k))"
          using True by (auto simp: here)
        then show ?case
          using peers dom_aw [of p] by (auto simp: fset_of_list_elem)
      qed
      then show ?thesis
        using s2 by simp
    next
      case False
      have aw': "aw' = fold (addHave c) newly aw" "s2 = s1"
        using r Some wc False by (auto simp: nextWant_def idle_want_def Let_def split: if_splits)
      have "collected newly s (insert c cs) aw'"
        unfolding collected_def aw'(1) fold_addHave
      proof (intro conjI allI, goal_cases)
        case (1 p k)
        then show ?case
          using col False not_c by (auto simp: here collected_def)
      next
        case (2 p k)
        then show ?case
          using col False not_c by (auto simp: here collected_def)
      next
        case (3 p)
        have "(\<exists>k. gets_block s (insert c cs) p k \<or> gets_have newly s (insert c cs) p k) \<longleftrightarrow>
            p \<in> set newly \<or> (\<exists>k. k \<noteq> c \<and> (gets_block s cs p k \<or> gets_have newly s cs p k))"
          using False by (auto simp: here)
        then show ?case
          using dom_aw [of p] by (auto simp: fset_of_list_elem)
      qed
      moreover have "onWant c (\<lambda>wi. if idle_want wi then wi\<lparr>sentTo := bestPeer wi\<rparr> else wi) s1 = s1"
      proof -
        have "fmupd c wi (sws_wants s1) = sws_wants s1"
          using Some wc by (intro fmap_eqI) auto
        then show ?thesis
          using Some wc False by (simp add: onWant_def)
      qed
      ultimately show ?thesis
        using aw'(2) by simp
    qed
  qed
  then show "collected newly s (insert c cs) aw'"
    "s2 = onWant c (\<lambda>wi. if idle_want wi then wi\<lparr>sentTo := bestPeer wi\<rparr> else wi) s1"
    by blast+
qed

lemma fold_nextWant:
  assumes "env_ok env" "distinct cs" "set cs \<inter> done = {}"
    "\<And>c. c \<in> set cs \<Longrightarrow> fmlookup (sws_wants s1) c = fmlookup (sws_wants s) c"
    "sws_spm s1 = sws_spm s" "collected newly s done aw"
    "fold (nextWant env newly) cs (aw, s1) = (aw', s2)"
  shows "collected newly s (set cs \<union> done) aw' \<and>
    s2 = fold (\<lambda>c. onWant c (\<lambda>wi. if idle_want wi then wi\<lparr>sentTo := bestPeer wi\<rparr> else wi)) cs s1"
  using assms(2-)
proof (induction cs arbitrary: "done" aw s1)
  case (Cons c cs)
  obtain aw1 s3 where r: "nextWant env newly c (aw, s1) = (aw1, s3)"
    by fastforce
  have c: "c \<notin> done" "fmlookup (sws_wants s1) c = fmlookup (sws_wants s) c"
    using Cons.prems by auto
  note N = nextWant_effect [OF assms(1) c Cons.prems(4,5) r]
  have "collected newly s (set cs \<union> insert c done) aw' \<and>
    s2 = fold (\<lambda>c. onWant c (\<lambda>wi. if idle_want wi then wi\<lparr>sentTo := bestPeer wi\<rparr> else wi)) cs s3"
    by (rule Cons.IH) (use Cons.prems N r in auto)
  then show ?case
    using N(2) by simp
qed simp

lemma collected_empty: "collected newly s {} fmempty"
  by (simp add: collected_def gets_block_def gets_have_def forPeer_def)

definition sendsTo :: "sws_env \<Rightarrow> peer list \<Rightarrow> sws \<Rightarrow> peer \<Rightarrow> cid list \<Rightarrow> cid list \<Rightarrow> bool" where
  "sendsTo env newly s p bs hs \<longleftrightarrow>
     (\<exists>c. gets_block s UNIV p c \<or> gets_have newly s UNIV p c) \<and>
     distinct bs \<and> set bs = {c. gets_block s UNIV p c} \<and> distinct hs \<and>
     set hs = {c. gets_have newly s UNIV p c \<or>
        c |\<in>| fmdom (sws_wants s) \<and> \<not> gets_block s UNIV p c \<and> \<not> haveSentWantBlockTo p c (swbt s)}"

lemma haveSent_add:
  "haveSentWantBlockTo p c (addSentWantBlocksTo q ks t) \<longleftrightarrow> haveSentWantBlockTo p c t \<or> (p = q \<and> c \<in> set ks)"
proof -
  have "c |\<in>| fold finsert ks S \<longleftrightarrow> c |\<in>| S \<or> c \<in> set ks" for S
    by (induction ks arbitrary: S) auto
  then show ?thesis
    by (auto simp: haveSentWantBlockTo_def addSentWantBlocksTo_def Let_def split: option.splits)
qed

lemma fold_finsert: "fold finsert ks S = fset_of_list ks |\<union>| S"
  by (induction ks arbitrary: S) auto

lemma fold_sendTo:
  assumes env: "env_ok env" and "distinct ps" "set ps \<subseteq> fset (fmdom aw)"
    and "\<And>p c. p \<in> set ps \<Longrightarrow> haveSentWantBlockTo p c (swbt s1) = haveSentWantBlockTo p c (swbt s)"
    and "sws_wants s1 = w" "fmdom w = fmdom (sws_wants s)" "collected newly s UNIV aw"
    and "fold (sendTo env aw) ps (cs, s1) = (cs', s2)"
  shows "\<exists>sends. cs' = cs @ concat (map (\<lambda>(p, bs, hs). [SWS_SendWants p bs hs, SWS_OnSend p bs hs]) sends) \<and>
    map fst sends = ps \<and> (\<forall>(p, bs, hs) \<in> set sends. sendsTo env newly s p bs hs) \<and>
    sws_wants s2 = w \<and> sws_spm s2 = sws_spm s1 \<and> peerConsecutiveDontHaves s2 = peerConsecutiveDontHaves s1"
  using assms(2-)
proof (induction ps arbitrary: cs s1)
  case (Cons p ps)
  obtain snd where w: "fmlookup aw p = Some snd"
    using Cons.prems(2) by (auto simp: fmlookup_dom_iff)
  let ?hs = "fold finsert (getPiggybackWantHaves env p (ws_blocks snd) s1) (ws_haves snd)"
  let ?bl = "env_ordc env (ws_blocks snd)" and ?hl = "env_ordc env ?hs"
  let ?s = "s1\<lparr>swbt := addSentWantBlocksTo p ?bl (swbt s1)\<rparr>"
  let ?cs = "cs @ [SWS_SendWants p ?bl ?hl, SWS_OnSend p ?bl ?hl]"
  have step: "sendTo env aw p (cs, s1) = (?cs, ?s)"
    by (simp add: sendTo_def w Let_def)
  have ord: "go_range (env_ordc env)"
    using env by (simp add: env_ok_def)
  have fp: "forPeer p aw = snd"
    using w by (simp add: forPeer_def)
  have mem: "c |\<in>| ws_blocks snd \<longleftrightarrow> gets_block s UNIV p c" "c |\<in>| ws_haves snd \<longleftrightarrow> gets_have newly s UNIV p c" for c
    using Cons.prems(6) fp unfolding collected_def by blast+
  have pig: "set (getPiggybackWantHaves env p (ws_blocks snd) s1) =
      {c. c |\<in>| fmdom (sws_wants s) \<and> \<not> gets_block s UNIV p c \<and> \<not> haveSentWantBlockTo p c (swbt s)}"
    using Cons.prems(3-5) by (auto simp: getPiggybackWantHaves_def go_range.ord_set [OF ord] mem)
  have "\<exists>c. gets_block s UNIV p c \<or> gets_have newly s UNIV p c"
    using Cons.prems(2,6) unfolding collected_def by auto
  then have sends: "sendsTo env newly s p ?bl ?hl"
    by (auto simp: sendsTo_def go_range.ord_set [OF ord] go_range.ord_distinct [OF ord] mem fold_finsert fset_of_list_elem pig)
  have r: "fold (sendTo env aw) ps (?cs, ?s) = (cs', s2)"
    using Cons.prems(7) step by simp
  have hs: "haveSentWantBlockTo q c (swbt ?s) = haveSentWantBlockTo q c (swbt s)" if "q \<in> set ps" for q c
    using that Cons.prems(1) Cons.prems(3) [of q c] by (auto simp: haveSent_add)
  obtain sends' where "cs' = ?cs @ concat (map (\<lambda>(p, bs, hs). [SWS_SendWants p bs hs, SWS_OnSend p bs hs]) sends')"
      "map fst sends' = ps" "\<forall>(p, bs, hs) \<in> set sends'. sendsTo env newly s p bs hs"
      "sws_wants s2 = w" "sws_spm s2 = sws_spm ?s" "peerConsecutiveDontHaves s2 = peerConsecutiveDontHaves ?s"
    using Cons.IH [of ?s ?cs] Cons.prems hs r by auto
  then show ?case
    using sends by (intro exI [of _ "(p, ?bl, ?hl) # sends'"]) auto
qed simp

definition sendsOf :: "(peer \<times> cid list \<times> cid list) list \<Rightarrow> sws_call list" where
  "sendsOf sends = concat (map (\<lambda>(p, bs, hs). [SWS_SendWants p bs hs, SWS_OnSend p bs hs]) sends)"

lemma sentTo_best_ok: "wi_ok wi \<Longrightarrow> wi_ok (if idle_want wi then wi\<lparr>sentTo := bestPeer wi\<rparr> else wi)"
  by (auto simp: wi_ok_def best_ok_def idle_want_def fmlookup_dom_iff)

lemma sendNextWants_effect:
  assumes env: "env_ok env" and inv: "sws_inv s" and r: "sendNextWants env newly s = (calls, s')"
  shows "\<exists>sends. calls = sendsOf sends \<and> distinct (map fst sends) \<and>
    (\<forall>(p, bs, hs) \<in> set sends. sendsTo env newly s p bs hs) \<and>
    (\<forall>p. p \<in> fst ` set sends \<longleftrightarrow> (\<exists>c. gets_block s UNIV p c \<or> gets_have newly s UNIV p c)) \<and>
    (\<forall>c. fmlookup (sws_wants s') c =
       map_option (\<lambda>wi. if idle_want wi then wi\<lparr>sentTo := bestPeer wi\<rparr> else wi) (fmlookup (sws_wants s) c)) \<and>
    sws_inv s' \<and> sws_spm s' = sws_spm s \<and> fmdom (sws_wants s') = fmdom (sws_wants s)"
proof -
  let ?f = "\<lambda>wi. if idle_want wi then wi\<lparr>sentTo := bestPeer wi\<rparr> else wi"
  let ?cs = "env_ordc env (fmdom (sws_wants s))"
  have ords: "go_range (env_ordc env)" "go_range (env_ordp env)"
    using env by (simp_all add: env_ok_def)
  have cs: "distinct ?cs" "set ?cs = fset (fmdom (sws_wants s))"
    using go_range.ord_distinct [OF ords(1)] go_range.ord_set [OF ords(1)] by auto
  obtain aw s1 where r1: "fold (nextWant env newly) ?cs (fmempty, s) = (aw, s1)"
    by fastforce
  have N: "collected newly s (set ?cs \<union> {}) aw \<and> s1 = fold (\<lambda>c. onWant c ?f) ?cs s"
    by (rule fold_nextWant [OF env cs(1) _ _ _ _ r1]) (auto simp: collected_empty)
  have univ: "gets_block s (set ?cs) p c = gets_block s UNIV p c" "gets_have newly s (set ?cs) p c = gets_have newly s UNIV p c" for p c
    by (auto simp: gets_block_def gets_have_def cs(2) fmlookup_dom_iff)
  have col: "collected newly s UNIV aw"
    using N by (simp add: collected_def univ)
  have lk: "fmlookup (sws_wants s1) c = map_option ?f (fmlookup (sws_wants s) c)" for c
    using N cs by (cases "fmlookup (sws_wants s) c") (auto simp: fold_onWant_lookup fmlookup_dom_iff)
  have fr: "fmdom (sws_wants s1) = fmdom (sws_wants s)" "sws_spm s1 = sws_spm s" "swbt s1 = swbt s"
      "peerConsecutiveDontHaves s1 = peerConsecutiveDontHaves s"
    using N by (simp_all add: fold_onWant_frame)
  let ?ps = "env_ordp env (fmdom aw)"
  have r2: "fold (sendTo env aw) ?ps ([], s1) = (calls, s')"
    using r r1 by (simp add: sendNextWants_def sws_sendWants_def)
  have ps: "distinct ?ps" "set ?ps = fset (fmdom aw)"
    using go_range.ord_distinct [OF ords(2)] go_range.ord_set [OF ords(2)] by auto
  obtain sends where S: "calls = [] @ concat (map (\<lambda>(p, bs, hs). [SWS_SendWants p bs hs, SWS_OnSend p bs hs]) sends)"
      "map fst sends = ?ps" "\<forall>(p, bs, hs) \<in> set sends. sendsTo env newly s p bs hs"
      "sws_wants s' = sws_wants s1" "sws_spm s' = sws_spm s1" "peerConsecutiveDontHaves s' = peerConsecutiveDontHaves s1"
    using fold_sendTo [OF env ps(1) _ _ refl fr(1) col r2] fr(3) ps(2) by auto
  have "p \<in> fst ` set sends \<longleftrightarrow> (\<exists>c. gets_block s UNIV p c \<or> gets_have newly s UNIV p c)" for p
    using S(2) ps(2) col unfolding collected_def by (metis list.set_map)
  moreover have "wi_ok wi \<and> spm_peers (sws_spm s') |\<subseteq>| fmdom (blockPresence wi)"
    if wi: "fmlookup (sws_wants s') c = Some wi" for c wi
  proof -
    obtain w0 where w0: "fmlookup (sws_wants s) c = Some w0" "wi = ?f w0"
      using wi lk [of c] by (auto simp: S(4))
    then have "wi_ok w0" "spm_peers (sws_spm s) |\<subseteq>| fmdom (blockPresence w0)"
      using inv by (auto simp: sws_inv_def wants_ok_def knows_def)
    then show ?thesis
      using sentTo_best_ok [of w0] w0(2) by (simp add: S(5) fr)
  qed
  then have "sws_inv s'"
    using inv S(5,6) fr by (auto simp: sws_inv_def wants_ok_def knows_def counts_ok_def)
  ultimately show ?thesis
    using S ps lk fr by (intro exI [of _ sends]) (auto simp: sendsOf_def)
qed

section \<open>Rounds\<close>

fun tracked_after :: "sws_change list \<Rightarrow> cid fset \<Rightarrow> cid fset" where
  "tracked_after [] D = D"
| "tracked_after (ch # chs) D = tracked_after chs ((D |\<union>| fset_of_list (ch_add ch)) |-| fset_of_list (ch_cancel ch))"

definition round_updates :: "sws_change list \<Rightarrow> sws_update list" where
  "round_updates chs = filter (\<lambda>u. upd_from u \<noteq> NoPeer) (map ch_update chs)"

lemma fold_trackWant_inv:
  assumes env: "env_ok env"
  shows "sws_inv s \<Longrightarrow> sws_inv (fold (trackWant env) cs s) \<and> sws_spm (fold (trackWant env) cs s) = sws_spm s \<and>
    fmdom (sws_wants (fold (trackWant env) cs s)) = fmdom (sws_wants s) |\<union>| fset_of_list cs"
proof (induction cs arbitrary: s)
  case (Cons c cs)
  then show ?case
    using trackWant_inv [OF env Cons.prems, of c] Cons.IH [of "trackWant env c s"] by auto
qed simp

lemma fold_untrackWant_inv:
  "sws_inv s \<Longrightarrow> sws_inv (fold untrackWant cs s) \<and> sws_spm (fold untrackWant cs s) = sws_spm s \<and>
    fmdom (sws_wants (fold untrackWant cs s)) = fmdom (sws_wants s) |-| fset_of_list cs"
proof (induction cs arbitrary: s)
  case (Cons c cs)
  then show ?case
    using untrackWant_inv [OF Cons.prems, of c] Cons.IH [of "untrackWant c s"] by auto
qed simp

lemma applyChange_inv:
  assumes env: "env_ok env" and inv: "sws_inv s" and np: "NoPeer |\<notin>| fmdom avail"
    and r: "applyChange env ch (avail, cancels, us, cs, s) = (avail', cancels', us', cs', s')"
  shows "sws_inv s' \<and> sws_spm s' = sws_spm s \<and> NoPeer |\<notin>| fmdom avail' \<and> us' = us @ round_updates [ch] \<and>
    cancels' = cancels @ ch_cancel ch \<and>
    fmdom (sws_wants s') = (fmdom (sws_wants s) |\<union>| fset_of_list (ch_add ch)) |-| fset_of_list (ch_cancel ch)"
proof -
  let ?s1 = "fold (trackWant env) (ch_add ch) s"
  have T: "sws_inv ?s1" "sws_spm ?s1 = sws_spm s" "fmdom (sws_wants ?s1) = fmdom (sws_wants s) |\<union>| fset_of_list (ch_add ch)"
    using fold_trackWant_inv [OF env inv, of "ch_add ch"] by blast+
  have "s' = fold untrackWant (ch_cancel ch) ?s1" "cancels' = cancels @ ch_cancel ch" "us' = us @ round_updates [ch]"
      "NoPeer |\<notin>| fmdom avail'"
    using r np by (auto simp: applyChange_def Let_def round_updates_def split: if_splits)
  then show ?thesis
    using T fold_untrackWant_inv [OF T(1), of "ch_cancel ch"] by simp
qed

lemma fold_applyChange_inv:
  assumes env: "env_ok env" and "sws_inv s" "NoPeer |\<notin>| fmdom avail"
    and "fold (applyChange env) chs (avail, cancels, us, cs, s) = (avail', cancels', us', cs', s')"
  shows "sws_inv s' \<and> sws_spm s' = sws_spm s \<and> NoPeer |\<notin>| fmdom avail' \<and> us' = us @ round_updates chs \<and>
    cancels' = cancels @ concat (map ch_cancel chs) \<and> fmdom (sws_wants s') = tracked_after chs (fmdom (sws_wants s))"
  using assms(2-)
proof (induction chs arbitrary: avail cancels us cs s)
  case (Cons ch chs)
  obtain a1 c1 u1 k1 s1 where r: "applyChange env ch (avail, cancels, us, cs, s) = (a1, c1, u1, k1, s1)"
    by (rule prod_cases5)
  note A = applyChange_inv [OF env Cons.prems(1,2) r]
  have "round_updates (ch # chs) = round_updates [ch] @ round_updates chs"
    by (simp add: round_updates_def)
  then show ?case
    using A Cons.IH [of s1 a1 c1 u1 k1] Cons.prems(3) r by auto
qed (simp add: round_updates_def)

lemma onChange_effect:
  assumes env: "env_ok env" and inv: "sws_inv s" and r: "onChange env chs s = (calls, s')"
  shows "sws_inv s' \<and>
    fmdom (sws_wants s') =
      tracked_after chs (fmdom (sws_wants s)) |-| fset_of_list (concat (map upd_ks (round_updates chs))) \<and>
    (HasPeers (sws_spm s') \<longrightarrow> (\<forall>c wi. fmlookup (sws_wants s') c = Some wi \<longrightarrow> \<not> idle_want wi))"
proof -
  obtain avail cancels us cs1 s1 where r1:
    "fold (applyChange env) chs (fmempty, [], [], [], s) = (avail, cancels, us, cs1, s1)"
    by (rule prod_cases5)
  note A = fold_applyChange_inv [OF env inv _ r1, simplified]
  obtain na nu cs2 s2 where r2: "processAvailability env avail s1 = (na, nu, cs2, s2)"
    by (rule prod_cases4)
  have P: "sws_inv s2 \<and> fmdom (sws_wants s2) = fmdom (sws_wants s1)"
    using processAvailability_inv [OF env _ _ r2] A by blast
  obtain dhs cs3 s3 where r3: "processUpdates env us s2 = (dhs, cs3, s3)"
    by (rule prod_cases3)
  have us: "u \<in> set us \<Longrightarrow> upd_from u \<noteq> NoPeer" for u
    using A by (auto simp: round_updates_def)
  note U = processUpdates_inv [OF env _ us r3]
  obtain cs4 s4 where r4: "checkForExhaustedWants env dhs nu s3 = (cs4, s4)"
    by fastforce
  note X = checkForExhaustedWants_inv [OF _ r4]
  obtain cs6 s6 where r6: "(if HasPeers (sws_spm s4) then sendNextWants env na s4 else ([], s4)) = (cs6, s6)"
    by fastforce
  have s': "s' = s6"
    using r r1 r2 r3 r4 r6 by (simp add: onChange_def Let_def)
  have i4: "sws_inv s4" and d4: "fmdom (sws_wants s4) =
      tracked_after chs (fmdom (sws_wants s)) |-| fset_of_list (concat (map upd_ks (round_updates chs)))"
    using A P U X by auto
  show ?thesis
  proof (cases "HasPeers (sws_spm s4)")
    case True
    then have "sendNextWants env na s4 = (cs6, s6)"
      using r6 by simp
    from sendNextWants_effect [OF env i4 this]
    have S: "sws_inv s6" "fmdom (sws_wants s6) = fmdom (sws_wants s4)"
        "\<And>c. fmlookup (sws_wants s6) c =
           map_option (\<lambda>wi. if idle_want wi then wi\<lparr>sentTo := bestPeer wi\<rparr> else wi) (fmlookup (sws_wants s4) c)"
      by blast+
    have "\<not> idle_want wi" if wi: "fmlookup (sws_wants s6) c = Some wi" for c wi
    proof -
      obtain w0 where "wi = (if idle_want w0 then w0\<lparr>sentTo := bestPeer w0\<rparr> else w0)"
        using wi S(3) [of c] by auto
      then show ?thesis
        by (cases "idle_want w0") (auto simp: idle_want_def)
    qed
    then show ?thesis
      using S(1,2) d4 s' by simp
  next
    case False
    then show ?thesis
      using r6 i4 d4 s' by auto
  qed
qed

inductive sws_reach :: "sws \<Rightarrow> bool" where
  sws_start: "sws_reach (newSessionWantSender spm_New)"
| sws_next: "sws_reach s \<Longrightarrow> env_ok env \<Longrightarrow> sws_reach (snd (onChange env chs s))"

lemma sws_reach_inv: "sws_reach s \<Longrightarrow> sws_inv s"
proof (induction rule: sws_reach.induct)
  case sws_start
  show ?case
    by (simp add: sws_inv_def wants_ok_def knows_def counts_ok_def newSessionWantSender_def spm_New_def)
next
  case (sws_next s env chs)
  obtain calls s' where "onChange env chs s = (calls, s')"
    by fastforce
  then show ?case
    using onChange_effect [OF sws_next.hyps(2) sws_next.IH] by simp
qed

definition example_env :: "bpm \<Rightarrow> sws_env" where
  "example_env b = \<lparr>env_bpm = b, env_ordp = key_order, env_ordc = key_order, env_rnd = (\<lambda>_. 1 / 2)\<rparr>"

lemma env_ok_example: "env_ok (example_env b)"
  by (simp add: env_ok_def example_env_def)

definition example_sws :: sws where
  "example_sws = snd (onChange (example_env bpm_New)
     (sws_Add [''c''] @ sws_SignalAvailability ''p'' True @ sws_SignalAvailability ''q'' True)
     (newSessionWantSender spm_New))"

lemma example_sws_reach: "sws_reach example_sws"
  unfolding example_sws_def by (rule sws_next [OF sws_start env_ok_example])

section \<open>Properties\<close>


definition refused_bpm :: bpm where
  "refused_bpm = bpm_ReceiveFrom ''q'' [] [''c''] (bpm_ReceiveFrom ''p'' [] [''c''] bpm_New)"

definition refused_changes :: "sws_change list" where
  "refused_changes = sws_Update ''p'' [] [] [''c''] @ sws_Update ''q'' [] [] [''c'']"


text \<open>
  C8. The best peer is one: in every reachable state, a want with no best peer has no peer
  above DONT_HAVE, and the best peer of any other want is a peer it knows, above DONT_HAVE,
  that no known peer surpasses. Every peer of the session is known to every want, a want-block
  on its way went to a known peer, and no peer's count of DONT_HAVEs in a row passes the limit.
\<close>

theorem want_sender_invariant:
  assumes "sws_reach s"
  shows "(\<forall>c wi. fmlookup (sws_wants s) c = Some wi \<longrightarrow>
      (bestPeer wi = NoPeer \<longrightarrow> (\<forall>p bp. fmlookup (blockPresence wi) p = Some bp \<longrightarrow> bp = BPDontHave)) \<and>
      (bestPeer wi \<noteq> NoPeer \<longrightarrow> (\<exists>b. fmlookup (blockPresence wi) (bestPeer wi) = Some b \<and> BPDontHave < b \<and>
         (\<forall>p bp. fmlookup (blockPresence wi) p = Some bp \<longrightarrow> bp \<le> b))) \<and>
      spm_peers (sws_spm s) |\<subseteq>| fmdom (blockPresence wi) \<and>
      (sentTo wi \<noteq> NoPeer \<longrightarrow> sentTo wi |\<in>| fmdom (blockPresence wi))) \<and>
    (\<forall>p n. fmlookup (peerConsecutiveDontHaves s) p = Some n \<longrightarrow> n \<le> 16)"
proof -
  have inv: "sws_inv s"
    by (rule sws_reach_inv [OF assms])
  have each: "best_ok wi" "spm_peers (sws_spm s) |\<subseteq>| fmdom (blockPresence wi)"
      "sentTo wi \<noteq> NoPeer \<longrightarrow> sentTo wi |\<in>| fmdom (blockPresence wi)" if "fmlookup (sws_wants s) c = Some wi" for c wi
    using inv that by (auto simp: sws_inv_def wants_ok_def knows_def wi_ok_def)
  then show ?thesis
    using inv unfolding best_ok_def sws_inv_def counts_ok_def peerDontHaveLimit_def bp_least(3)
    by (metis (no_types, lifting))
qed

theorem want_sender_invariant_witness:
  "\<exists>wi. fmlookup (sws_wants example_sws) ''c'' = Some wi \<and> {|''p'', ''q''|} |\<subseteq>| fmdom (blockPresence wi)"
proof -
  have "spm_peers (sws_spm example_sws) = {|''p'', ''q''|}"
    by code_simp
  moreover have "fmlookup (sws_wants example_sws) ''c'' \<noteq> None"
    by code_simp
  ultimately show ?thesis
    using want_sender_invariant [OF example_sws_reach] by (metis option.exhaust)
qed

text \<open>
  The wants of a round: afterwards exactly the keys are tracked that were tracked or added
  and not cancelled later, less all keys received in the round, in whatever order the round's
  changes came.
\<close>

theorem round_tracks_wants:
  assumes "sws_reach s" "env_ok env"
  shows "fmdom (sws_wants (snd (onChange env chs s))) =
    tracked_after chs (fmdom (sws_wants s)) |-| fset_of_list (concat (map upd_ks (round_updates chs)))"
proof -
  obtain calls s' where r: "onChange env chs s = (calls, s')"
    by fastforce
  show ?thesis
    using onChange_effect [OF assms(2) sws_reach_inv [OF assms(1)] r] r by simp
qed

theorem round_tracks_wants_witness:
  "fmdom (sws_wants (snd (onChange (example_env bpm_New) (sws_Update ''p'' [''c''] [] [] @ sws_Add [''d'']) example_sws))) =
     {|''d''|}"
proof -
  have "fmdom (sws_wants example_sws) = {|''c''|}"
    by code_simp
  then show ?thesis
    using round_tracks_wants [OF example_sws_reach env_ok_example, of bpm_New "sws_Update ''p'' [''c''] [] [] @ sws_Add [''d'']"]
    by (auto simp: sws_Update_def sws_Add_def noChange_def round_updates_def)
qed

text \<open>
  Exactly one want-block per want. Sending makes one request per peer; a want-block goes out
  for the wants without one on its way that some peer may have, to their best peer and to no
  other, and is recorded there; every other peer of the session is sent a want-have for these
  wants, and a newly available peer a want-have for every want.
\<close>

theorem sendNextWants_exact:
  assumes "sws_reach s" "env_ok env"
  shows "\<exists>sends s'. sendNextWants env newly s = (sendsOf sends, s') \<and> distinct (map fst sends) \<and>
    (\<forall>(p, bs, hs) \<in> set sends. distinct bs \<and>
       set bs = {c. \<exists>wi. fmlookup (sws_wants s) c = Some wi \<and> idle_want wi \<and> bestPeer wi = p}) \<and>
    (\<forall>c wi. fmlookup (sws_wants s) c = Some wi \<longrightarrow>
       (idle_want wi \<longrightarrow> (\<exists>bs hs. (bestPeer wi, bs, hs) \<in> set sends \<and> c \<in> set bs) \<and>
          (\<forall>q. q |\<in>| spm_peers (sws_spm s) \<and> q \<noteq> bestPeer wi \<longrightarrow> (\<exists>bs hs. (q, bs, hs) \<in> set sends \<and> c \<in> set hs))) \<and>
       (\<forall>q \<in> set newly. \<exists>bs hs. (q, bs, hs) \<in> set sends \<and> c \<in> set hs)) \<and>
    (\<forall>c. fmlookup (sws_wants s') c =
       map_option (\<lambda>wi. if idle_want wi then wi\<lparr>sentTo := bestPeer wi\<rparr> else wi) (fmlookup (sws_wants s) c))"
proof -
  obtain calls s' where r: "sendNextWants env newly s = (calls, s')"
    by fastforce
  obtain sends where S: "calls = sendsOf sends" "distinct (map fst sends)"
      "\<forall>(p, bs, hs) \<in> set sends. sendsTo env newly s p bs hs"
      "\<forall>p. p \<in> fst ` set sends \<longleftrightarrow> (\<exists>c. gets_block s UNIV p c \<or> gets_have newly s UNIV p c)"
      "\<forall>c. fmlookup (sws_wants s') c =
         map_option (\<lambda>wi. if idle_want wi then wi\<lparr>sentTo := bestPeer wi\<rparr> else wi) (fmlookup (sws_wants s) c)"
    using sendNextWants_effect [OF assms(2) sws_reach_inv [OF assms(1)] r] by blast
  have req: "\<exists>bs hs. (p, bs, hs) \<in> set sends \<and> sendsTo env newly s p bs hs"
    if "gets_block s UNIV p c \<or> gets_have newly s UNIV p c" for p c
  proof -
    have "p \<in> fst ` set sends"
      using that S(4) by blast
    then show ?thesis
      using S(3) by force
  qed
  have block: "\<exists>bs hs. (bestPeer wi, bs, hs) \<in> set sends \<and> c \<in> set bs"
    if "fmlookup (sws_wants s) c = Some wi" "idle_want wi" for c wi
    using req [of "bestPeer wi" c] that by (auto simp: gets_block_def sendsTo_def)
  have have_: "\<exists>bs hs. (q, bs, hs) \<in> set sends \<and> c \<in> set hs" if "gets_have newly s UNIV q c" for q c
    using req [of q c] that by (auto simp: sendsTo_def)
  have "\<forall>(p, bs, hs) \<in> set sends. distinct bs \<and>
       set bs = {c. \<exists>wi. fmlookup (sws_wants s) c = Some wi \<and> idle_want wi \<and> bestPeer wi = p}"
    using S(3) by (auto simp: sendsTo_def gets_block_def)
  then show ?thesis
    using S(1,2,5) r block have_ by (intro exI [of _ sends] exI [of _ s']) (auto simp: gets_have_def)
qed

theorem sendNextWants_exact_witness:
  "\<exists>sends s'. sendNextWants (example_env bpm_New) [''r''] example_sws = (sendsOf sends, s') \<and>
     (\<exists>bs hs. (''r'', bs, hs) \<in> set sends \<and> ''c'' \<in> set hs)"
proof -
  have "fmlookup (sws_wants example_sws) ''c'' \<noteq> None"
    by code_simp
  then show ?thesis
    using sendNextWants_exact [OF example_sws_reach env_ok_example, of bpm_New "[''r'']"] by fastforce
qed

text \<open>
  Peers are chosen with a chance in proportion to the blocks they were first to deliver: a
  candidate is chosen exactly when the random number falls into its share of the unit
  interval.
\<close>

theorem choose_proportional:
  assumes "tot = sum_list (map (\<lambda>p. getPeerCount p prt) (xs @ p # ys))"
    "rat_of_nat (sum_list (map (\<lambda>p. getPeerCount p prt) xs)) / rat_of_nat tot \<le> rnd"
    "rnd < rat_of_nat (sum_list (map (\<lambda>p. getPeerCount p prt) (xs @ [p]))) / rat_of_nat tot"
  shows "choose_peer rnd (xs @ p # ys) prt = p"
  using chooseLoop_interval [of 0 prt xs tot rnd p ys] assms by (simp add: choose_peer_def)

theorem choose_proportional_witness:
  "choose_peer (1 / 2) [''p'', ''q'', ''r''] (receivedBlockFrom ''q'' (receivedBlockFrom ''q'' newPeerResponseTracker)) = ''q''"
proof -
  let ?prt = "receivedBlockFrom ''q'' (receivedBlockFrom ''q'' newPeerResponseTracker)"
  have counts: "getPeerCount ''p'' ?prt = 1" "getPeerCount ''q'' ?prt = 2" "getPeerCount ''r'' ?prt = 1"
    by code_simp+
  show ?thesis
    using choose_proportional [where xs = "[''p'']" and p = "''q''" and ys = "[''r'']" and tot = 4 and prt = ?prt and rnd = "1 / 2"]
    by (simp add: counts)
qed

definition departed_bpm :: bpm where
  "departed_bpm = bpm_ReceiveFrom ''r'' [''c''] [] refused_bpm"

definition departed :: "sws_call list \<times> sws" where
  "departed = onChange (example_env departed_bpm)
     (refused_changes @ sws_Update ''r'' [] [''c''] [] @ sws_SignalAvailability ''r'' False) example_sws"

definition departed_later :: "sws_call list \<times> sws" where
  "departed_later = onChange (example_env (bpm_ReceiveFrom ''q'' [''c''] [] departed_bpm))
     (sws_Update ''q'' [] [''c''] []) (snd departed)"

text \<open>
  A want can get stuck at a peer that has left. When a HAVE and the disconnection of its
  sender are taken in the same round, the peer is not in the session afterwards, but the want
  is sent to it and recorded as on its way there; when another peer of the session then sends
  a HAVE, no want-block goes out.
\<close>

theorem want_stuck_at_departed_peer:
  "spm_peers (sws_spm (snd departed)) = {|''p'', ''q''|} \<and>
   map_option sentTo (fmlookup (sws_wants (snd departed)) ''c'') = Some ''r'' \<and>
   map_option sentTo (fmlookup (sws_wants (snd departed_later)) ''c'') = Some ''r'' \<and>
   \<not> list_ex (\<lambda>x. case x of SWS_SendWants p bs hs \<Rightarrow> bs \<noteq> [] | _ \<Rightarrow> False) (fst departed_later)"
  by code_simp

definition refusals :: "nat \<Rightarrow> sws_call list" where
  "refusals n = fst (snd (processUpdates (example_env bpm_New)
     [\<lparr>upd_from = ''p'', upd_ks = [], upd_haves = [], upd_dontHaves = replicate n ''a''\<rparr>] (newSessionWantSender spm_New)))"

text \<open>
  A peer is pruned on the seventeenth DONT_HAVE in a row, not on the sixteenth, which is the
  limit.
\<close>

theorem prune_on_seventeenth:
  "peerDontHaveLimit = 16 \<and> refusals 16 = [] \<and> refusals 17 = [SWS_SignalUnavailable ''p'']"
  by code_simp

end
