(* ===== verification/Sessions_Props.thy ===== *)
theory Sessions_Props
  imports Sessions Want_Sender_Props
begin

text \<open>
  What sessions, their want senders, the session interest manager and the session manager
  achieve together: a key a session waits for is known to the interest manager, so a block
  for it is kept, reaches the session and settles the want.
\<close>

section \<open>Steps of the client's session layer\<close>

text \<open>
  One step is one message from the network, one call of a client, or one turn of one of the
  two loops of a session. The want sender reads the block presences of the manager, and its
  request to cancel wants is carried out by the manager.
\<close>

datatype sm_op =
    SM_NewSession int
  | SM_Remove "cid order" uint64
  | SM_Receive "uint64 order" peer "cid list" "cid list" "cid list"
  | SM_GetBlocks uint64 "cid list"
  | SM_CancelBlocks uint64 "cid list"
  | SM_Next uint64 int
  | SM_IdleTick uint64 int
  | SM_SenderRound uint64 sws_env
  | SM_ProviderFound uint64 peer cid
  | SM_SignalAvailability uint64 peer bool

definition putSession :: "uint64 \<Rightarrow> ses \<Rightarrow> sm \<Rightarrow> sm" where
  "putSession i x s = s\<lparr>sm_sessions := map_option (fmupd i x) (sm_sessions s)\<rparr>"

definition getSession :: "uint64 \<Rightarrow> sm \<Rightarrow> ses option" where
  "getSession i s = Option.bind (sm_sessions s) (\<lambda>ss. fmlookup ss i)"

definition withSession :: "uint64 \<Rightarrow> (ses \<Rightarrow> ses_call list \<times> sim \<times> ses) \<Rightarrow> sm \<Rightarrow> ses_call list \<times> sm" where
  "withSession i f s =
     (case getSession i s of
        None \<Rightarrow> ([], s)
      | Some x \<Rightarrow> let (calls, m, x') = f x in (calls, putSession i x' (s\<lparr>sm_sim := m\<rparr>)))"

definition onSession :: "uint64 \<Rightarrow> (ses \<Rightarrow> ses) \<Rightarrow> sm \<Rightarrow> ses_call list \<times> sm" where
  "onSession i f s = withSession i (\<lambda>x. ([], sm_sim s, f x)) s"

fun sm_onCall :: "uint64 \<Rightarrow> ses_call \<Rightarrow> sm \<Rightarrow> sm" where
  "sm_onCall i (SES_CancelSessionWants ks) s = snd (sm_CancelSessionWants i ks s)"
| "sm_onCall i _ s = s"

fun sm_step :: "sm_op \<Rightarrow> sm \<Rightarrow> ses_call list \<times> sm" where
  "sm_step (SM_NewSession d) s = ([], snd (NewSession d s))"
| "sm_step (SM_Remove ord i) s = ([], snd (sm_RemoveSession ord i s))"
| "sm_step (SM_Receive ord p blks haves dontHaves) s = ([], snd (sm_ReceiveFrom ord p blks haves dontHaves s))"
| "sm_step (SM_GetBlocks i ks) s = onSession i (ses_GetBlocks ks) s"
| "sm_step (SM_CancelBlocks i ks) s = onSession i (ses_CancelBlocks ks) s"
| "sm_step (SM_Next i now) s = withSession i (ses_next now (sm_sim s)) s"
| "sm_step (SM_IdleTick i now) s =
     withSession i (\<lambda>x. let (calls, x') = ses_broadcast now None x in (calls, sm_sim s, x')) s"
| "sm_step (SM_SenderRound i env) s =
     (let (calls, s1) = withSession i
            (\<lambda>x. let (calls, x') = ses_senderRound (env\<lparr>env_bpm := sm_bpm s\<rparr>) x in (calls, sm_sim s, x')) s
      in (calls, fold (sm_onCall i) calls s1))"
| "sm_step (SM_ProviderFound i p c) s = onSession i (ses_providerFound p c) s"
| "sm_step (SM_SignalAvailability i p b) s =
     onSession i (\<lambda>x. x\<lparr>ses_changes := ses_changes x @ sws_SignalAvailability p b\<rparr>) s"

definition sm_exec :: "sm_op \<Rightarrow> sm \<Rightarrow> sm" where
  "sm_exec x s = snd (sm_step x s)"

section \<open>Only a cancelled key makes the want sender cancel\<close>

fun noCancel :: "sws_call \<Rightarrow> bool" where
  "noCancel (SWS_CancelSessionWants _) = False"
| "noCancel _ = True"

definition quiet :: "sws_call list \<Rightarrow> bool" where
  "quiet cs = list_all noCancel cs"

lemma quiet_simps [simp]:
  "quiet []" "quiet (cs @ ds) \<longleftrightarrow> quiet cs \<and> quiet ds" "quiet (x # cs) \<longleftrightarrow> noCancel x \<and> quiet cs"
  "quiet (map SWS_Tagger ts)" "quiet (map SWS_SignalUnavailable ps)"
  by (auto simp: quiet_def list_all_iff)

lemma quiet_cancel: "quiet cs \<Longrightarrow> SWS_CancelSessionWants ks \<notin> set cs"
  by (auto simp: quiet_def list_all_iff)

lemma applyChange_calls:
  "fold (applyChange env) chs (avail, cancels, us, cs, s) = (avail', cancels', us', cs', s') \<Longrightarrow> quiet cs \<Longrightarrow>
     quiet cs' \<and> cancels' = cancels @ concat (map ch_cancel chs)"
proof (induction chs arbitrary: avail cancels us cs s)
  case (Cons ch chs)
  obtain a1 c1 u1 k1 s1 where r: "applyChange env ch (avail, cancels, us, cs, s) = (a1, c1, u1, k1, s1)"
    by (rule prod_cases5)
  then have "quiet k1" "c1 = cancels @ ch_cancel ch"
    using Cons.prems(2) by (auto simp: applyChange_def Let_def split: if_splits)
  then show ?case
    using Cons.IH [of a1 c1 u1 k1 s1] Cons.prems r by simp
qed simp

lemma peerAvailable_calls: "quiet (fst (snd (snd acc))) \<Longrightarrow> quiet (fst (snd (snd (peerAvailable env avail p acc))))"
  by (auto simp: peerAvailable_def Let_def split: prod.splits option.splits)

lemma processAvailability_calls: "quiet (fst (snd (snd (processAvailability env avail s))))"
  unfolding processAvailability_def
  by (rule fold_invariant [where P = "\<lambda>acc. quiet (fst (snd (snd acc)))"]) (auto intro: peerAvailable_calls)

lemma receivedKey_calls: "quiet (fst acc) \<Longrightarrow> quiet (fst (receivedKey p c acc))"
  by (auto simp: receivedKey_def Let_def split: prod.splits option.splits)

lemma receivedKeys_calls: "quiet (fst acc) \<Longrightarrow> quiet (fst (fold receivedKeys us acc))"
  by (rule fold_invariant [where P = "\<lambda>acc. quiet (fst acc)"])
    (auto simp: receivedKeys_def intro: fold_invariant [where P = "\<lambda>acc. quiet (fst acc)"] receivedKey_calls)

lemma processUpdates_calls: "quiet (fst (snd (processUpdates env us s)))"
  using receivedKeys_calls [of "([], s)" us]
  by (auto simp: processUpdates_def Let_def split: prod.splits)

lemma checkForExhaustedWants_calls: "quiet (fst (checkForExhaustedWants env dhs nu s))"
  by (auto simp: checkForExhaustedWants_def processExhaustedWants_def Let_def split: prod.splits)

lemma sendTo_calls: "quiet (fst acc) \<Longrightarrow> quiet (fst (sendTo env sends p acc))"
  by (auto simp: sendTo_def Let_def split: prod.splits option.splits)

lemma sendNextWants_calls: "quiet (fst (sendNextWants env na s))"
  by (auto simp: sendNextWants_def sws_sendWants_def split: prod.splits
      intro: fold_invariant [where P = "\<lambda>acc. quiet (fst acc)"] sendTo_calls)

lemma onChange_cancels:
  assumes "SWS_CancelSessionWants ks \<in> set (fst (onChange env chs s))"
  shows "ks = concat (map ch_cancel chs)"
proof -
  obtain avail cancels us cs1 s1 where r1:
    "fold (applyChange env) chs (fmempty, [], [], [], s) = (avail, cancels, us, cs1, s1)"
    by (rule prod_cases5)
  obtain na nu cs2 s2 where r2: "processAvailability env avail s1 = (na, nu, cs2, s2)"
    by (rule prod_cases4)
  obtain dhs cs3 s3 where r3: "processUpdates env us s2 = (dhs, cs3, s3)"
    by (rule prod_cases3)
  obtain cs4 s4 where r4: "checkForExhaustedWants env dhs nu s3 = (cs4, s4)"
    by fastforce
  have "quiet cs1" "cancels = concat (map ch_cancel chs)"
    using applyChange_calls [OF r1] by auto
  moreover have "quiet cs2" "quiet cs3" "quiet cs4"
    using processAvailability_calls [of env avail s1] processUpdates_calls [of env us s2]
      checkForExhaustedWants_calls [of env dhs nu s3] by (simp_all add: r2 r3 r4)
  moreover have "quiet (fst (if HasPeers (sws_spm s4) then sendNextWants env na s4 else ([], s4)))"
    using sendNextWants_calls by auto
  ultimately show ?thesis
    using assms r1 r2 r3 r4 by (auto simp: onChange_def Let_def quiet_cancel split: prod.splits if_splits)
qed

lemma collectChanges_concat: "collectChanges taken chan = (changes, rest) \<Longrightarrow> changes @ rest = taken @ chan"
  by (induction taken chan rule: collectChanges.induct) (auto split: if_splits)


section \<open>What each operation does to the wants of a session\<close>

lemma isWanted_BlocksRequested: "isWanted c (BlocksRequested ks sw) \<longleftrightarrow> isWanted c sw \<or> c \<in> set ks"
proof -
  have "c |\<in>| eset (fold cq_Push ks q) \<longleftrightarrow> c |\<in>| eset q \<or> c \<in> set ks" for q
    by (induction ks arbitrary: q) (auto simp: cq_Push_def)
  then show ?thesis
    by (auto simp: isWanted_def BlocksRequested_def cq_Has_def split: option.splits)
qed

lemma isWanted_CancelPending: "isWanted c (sw_CancelPending ks sw) \<Longrightarrow> isWanted c sw"
proof -
  have "c |\<in>| eset (fold cq_Remove ks q) \<Longrightarrow> c |\<in>| eset q" for q
  proof (induction ks arbitrary: q)
    case (Cons k ks)
    then have "c |\<in>| eset (cq_Remove k q)"
      by simp
    then show ?case
      by (simp add: cq_Remove_def)
  qed simp
  then show "isWanted c (sw_CancelPending ks sw) \<Longrightarrow> isWanted c sw"
    by (auto simp: isWanted_def sw_CancelPending_def cq_Has_def split: option.splits)
qed

lemma isWanted_WantsSent: "isWanted c (WantsSent now ks sw) = isWanted c sw"
  unfolding WantsSent_def
  by (rule fold_preserves [where g = "isWanted c"])
    (auto simp: wantSent_def isWanted_def cq_Has_def cq_Remove_def split: option.splits)

lemma isWanted_broadcastLoop: "isWanted c (snd (broadcastLoop now cs found sw)) = isWanted c sw"
proof (induction cs arbitrary: found sw)
  case (Cons k cs)
  show ?case
  proof (cases "fmlookup (liveWants sw) k")
    case (Some t)
    then have "isWanted c (sw\<lparr>liveWants := fmupd k now (liveWants sw)\<rparr>) = isWanted c sw"
      by (auto simp: isWanted_def split: option.splits)
    then show ?thesis
      using Cons.IH Some by (simp add: Let_def)
  qed (simp add: Cons.IH)
qed simp

lemma isWanted_GetNextWants:
  assumes inv: "sw_inv sw"
  shows "isWanted c (snd (GetNextWants now sw)) = isWanted c sw"
proof -
  let ?n = "nat (broadcastLimit sw - int (fcard (fmdom (liveWants sw))))"
  obtain ks sw' where r: "moveWants now ?n sw = (ks, sw')"
    by fastforce
  note M = moveWants_spec [OF inv r]
  then have "set (pendingWants sw) = set ks \<union> set (pendingWants sw')"
    by (metis append_take_drop_id set_append)
  then have "isWanted c sw' = isWanted c sw"
    using M isWanted_iff [OF inv] isWanted_iff [of sw'] by (auto simp: fmlookup_fold_fmupd)
  then show ?thesis
    using r by (simp add: GetNextWants_def Let_def)
qed

lemma BlocksReceived_effect:
  assumes "sw_inv sw" "BlocksReceived now ks sw = (wanted, lat, sw')"
  shows "sw_inv sw' \<and> set wanted = {c \<in> set ks. isWanted c sw} \<and> (\<forall>c. isWanted c sw' \<longleftrightarrow> isWanted c sw \<and> c \<notin> set ks)"
proof (cases "ks = []")
  case False
  obtain w l s where r: "fold (blockReceived now) ks ([], 0, sw) = (w, l, s)"
    by (rule prod_cases3)
  from fold_blockReceived [OF assms(1) r] show ?thesis
    using r False assms(2) by (auto simp: BlocksReceived_def cleanOrder_spec)
qed (use assms in \<open>auto simp: BlocksReceived_def\<close>)

section \<open>One session\<close>

definition uncancelled :: "cid \<Rightarrow> ses \<Rightarrow> bool" where
  "uncancelled c x \<longleftrightarrow> (\<forall>ks. opCancel ks \<in> set (ses_incoming x) \<longrightarrow> c \<notin> set ks) \<and>
     (\<forall>ch\<in>set (ses_changes x). c \<notin> set (ch_cancel ch))"

text \<open>The interest manager expects what the session waits for.\<close>

definition expected :: "cid \<Rightarrow> sim \<Rightarrow> ses \<Rightarrow> bool" where
  "expected c m x \<longleftrightarrow> uncancelled c x \<and> (isWanted c (ses_sw x) \<longrightarrow> interest m c (ses_id x) = Some True)"

definition others_keep :: "uint64 \<Rightarrow> sim \<Rightarrow> sim \<Rightarrow> bool" where
  "others_keep i m m' \<longleftrightarrow> (\<forall>c t. t \<noteq> i \<longrightarrow> interest m' c t = interest m c t)"

lemma uncancelled_changes [simp]:
  "ch \<in> set (sws_Add ks) \<Longrightarrow> ch_cancel ch = []" "ch \<in> set (sws_Update p ks hs ds) \<Longrightarrow> ch_cancel ch = []"
  "ch \<in> set (sws_SignalAvailability p b) \<Longrightarrow> ch_cancel ch = []"
  by (auto simp: sws_Add_def sws_Update_def sws_SignalAvailability_def noChange_def Let_def split: if_splits)

lemma resetIdleTick_frame [simp]:
  "ses_id (resetIdleTick x) = ses_id x" "ses_sw (resetIdleTick x) = ses_sw x"
  "ses_incoming (resetIdleTick x) = ses_incoming x" "ses_changes (resetIdleTick x) = ses_changes x"
  "ses_sws (resetIdleTick x) = ses_sws x"
  by (simp_all add: resetIdleTick_def Let_def)

lemma ses_broadcast_effect:
  assumes "sw_inv (ses_sw x)" "ses_broadcast now wants x = (calls, x')"
  shows "sw_inv (ses_sw x') \<and> ses_id x' = ses_id x \<and> ses_incoming x' = ses_incoming x \<and>
    ses_changes x' = ses_changes x \<and> (\<forall>c. isWanted c (ses_sw x') = isWanted c (ses_sw x))"
proof -
  let ?sw = "case wants of None \<Rightarrow> snd (PrepareBroadcast now (ses_sw x)) | Some ks \<Rightarrow> ses_sw x"
  have x': "ses_sw x' = ?sw \<and> ses_id x' = ses_id x \<and> ses_incoming x' = ses_incoming x \<and> ses_changes x' = ses_changes x"
    using assms(2) by (cases wants) (auto simp: ses_broadcast_def Let_def split: prod.splits if_splits)
  have "sw_inv ?sw \<and> (\<forall>c. isWanted c ?sw = isWanted c (ses_sw x))"
    using assms(1) by (cases wants) (simp_all add: PrepareBroadcast_def isWanted_broadcastLoop broadcastLoop_inv)
  then show ?thesis
    using x' by simp
qed

lemma handleReceive_effect:
  assumes inv: "sw_inv (ses_sw x)" and r: "handleReceive now ks m x = (m', x')"
  shows "sw_inv (ses_sw x') \<and> ses_id x' = ses_id x \<and> ses_incoming x' = ses_incoming x \<and>
    ses_changes x' = ses_changes x \<and> (\<forall>c. isWanted c (ses_sw x') \<longleftrightarrow> isWanted c (ses_sw x) \<and> c \<notin> set ks) \<and>
    (\<exists>wanted. set wanted = {c \<in> set ks. isWanted c (ses_sw x)} \<and> m' = RemoveSessionWants (ses_id x) wanted m)"
proof -
  obtain w l sw1 where b: "BlocksReceived now ks (ses_sw x) = (w, l, sw1)"
    by (rule prod_cases3)
  note B = BlocksReceived_effect [OF inv b]
  show ?thesis
  proof (cases "w = []")
    case True
    then show ?thesis
      using r b B by (intro conjI exI [of _ w]) (auto simp: handleReceive_def RemoveSessionWants_def)
  next
    case False
    then show ?thesis
      using r b B by (intro conjI exI [of _ w]) (auto simp: handleReceive_def Let_def)
  qed
qed

lemma ses_wantBlocks_effect:
  assumes inv: "sw_inv (ses_sw x)" and r: "ses_wantBlocks now ks m x = (calls, m', x')"
  shows "sw_inv (ses_sw x') \<and> ses_id x' = ses_id x \<and> ses_incoming x' = ses_incoming x \<and>
    ses_changes x' = ses_changes x @ sws_Add ks \<and> (\<forall>c. isWanted c (ses_sw x') \<longleftrightarrow> isWanted c (ses_sw x) \<or> c \<in> set ks) \<and>
    m' = RecordSessionInterest (ses_id x) ks m"
proof -
  let ?x = "x\<lparr>ses_sw := BlocksRequested ks (ses_sw x), ses_changes := ses_changes x @ sws_Add ks\<rparr>"
  let ?y = "if length ks > 0 then ?x else x"
  have empty: "BlocksRequested [] (ses_sw x) = ses_sw x" "sws_Add [] = []" "RecordSessionInterest i [] m = m" for i
    by (simp_all add: BlocksRequested_def sws_Add_def RecordSessionInterest_def)
  have y: "?y = ?x"
    using empty by auto
  have i1: "sw_inv (BlocksRequested ks (ses_sw x))"
    using sw_runs.step_inv [OF _ inv, of "SW_Requested ks"] by simp
  have m': "m' = RecordSessionInterest (ses_id x) ks m" and
    x': "x' = (if PeersDiscovered (sws_spm (ses_sws x)) then ?x else ?x\<lparr>ses_sw := snd (GetNextWants now (ses_sw ?x))\<rparr>)"
    using r empty by (auto simp: ses_wantBlocks_def Let_def split: if_splits prod.splits)
  show ?thesis
    unfolding x' m' using i1 sw_inv_GetNextWants [OF i1] isWanted_GetNextWants [OF i1]
    by (simp add: isWanted_BlocksRequested)
qed

lemma ses_run_effect:
  assumes inv: "sw_inv (ses_sw x)" and sim: "sim_inv m" and r: "ses_run now oper m x = (calls, m', x')"
  shows "sw_inv (ses_sw x') \<and> ses_id x' = ses_id x \<and> ses_incoming x' = ses_incoming x \<and> sim_inv m' \<and>
    others_keep (ses_id x) m m' \<and>
    (expected c m x \<and> (\<forall>ks. oper = opCancel ks \<longrightarrow> c \<notin> set ks) \<longrightarrow> expected c m' x')"
proof (cases oper)
  case (opReceive ks)
  then have h: "handleReceive now ks m x = (m', x')"
    using r by (auto split: prod.splits)
  from handleReceive_effect [OF inv h] show ?thesis
    using sim by (auto simp: others_keep_def expected_def uncancelled_def interest_RemoveSessionWants sim_inv_RemoveSessionWants)
next
  case (opWant ks)
  then have h: "ses_wantBlocks now ks m x = (calls, m', x')"
    using r by simp
  from ses_wantBlocks_effect [OF inv h] show ?thesis
    using sim by (auto simp: others_keep_def expected_def uncancelled_def interest_Record sim_inv_Record)
next
  case (opCancel ks)
  have "sw_inv (sw_CancelPending ks (ses_sw x))"
    using sw_runs.step_inv [OF _ inv, of "SW_CancelPending ks"] by simp
  moreover have "ch_cancel ch = ks" if "ch \<in> set (sws_Cancel ks)" for ch
    using that by (auto simp: sws_Cancel_def split: if_splits)
  ultimately show ?thesis
    using r opCancel sim isWanted_CancelPending by (auto simp: others_keep_def expected_def uncancelled_def)
next
  case (opWantsSent ks)
  then show ?thesis
    using r inv sim by (auto simp: others_keep_def expected_def uncancelled_def isWanted_WantsSent sw_inv_WantsSent)
next
  case (opBroadcast ks)
  then have h: "ses_broadcast now (Some ks) x = (calls, x')" "m' = m"
    using r by (auto split: prod.splits)
  from ses_broadcast_effect [OF inv h(1)] show ?thesis
    using sim h(2) by (auto simp: others_keep_def expected_def uncancelled_def)
qed

lemma ses_onCall_effect:
  assumes "ses_onCall call (cs, x) = (cs', x')" "noCancel call \<or> (\<exists>ks. call = SWS_CancelSessionWants ks \<and> c \<notin> set ks)"
    "\<forall>ks. SES_CancelSessionWants ks \<in> set cs \<longrightarrow> c \<notin> set ks" "uncancelled c x"
  shows "ses_id x' = ses_id x \<and> ses_sw x' = ses_sw x \<and> uncancelled c x' \<and>
    (\<forall>ks. SES_CancelSessionWants ks \<in> set cs' \<longrightarrow> c \<notin> set ks)"
  using assms by (cases call) (auto simp: uncancelled_def onPeersExhausted_def onWantsSent_def)

lemma fold_ses_onCall_effect:
  "fold ses_onCall calls (cs, x) = (cs', x') \<Longrightarrow>
   (\<forall>ks. SWS_CancelSessionWants ks \<in> set calls \<longrightarrow> c \<notin> set ks) \<Longrightarrow>
   (\<forall>ks. SES_CancelSessionWants ks \<in> set cs \<longrightarrow> c \<notin> set ks) \<Longrightarrow> uncancelled c x \<Longrightarrow>
   ses_id x' = ses_id x \<and> ses_sw x' = ses_sw x \<and> uncancelled c x' \<and>
     (\<forall>ks. SES_CancelSessionWants ks \<in> set cs' \<longrightarrow> c \<notin> set ks)"
proof (induction calls arbitrary: cs x)
  case (Cons call calls)
  obtain cs1 x1 where r: "ses_onCall call (cs, x) = (cs1, x1)"
    by fastforce
  have "noCancel call \<or> (\<exists>ks. call = SWS_CancelSessionWants ks \<and> c \<notin> set ks)"
    using Cons.prems(2) by (cases call) auto
  from ses_onCall_effect [OF r this Cons.prems(3,4)] show ?case
    using Cons.IH [of cs1 x1] Cons.prems r by auto
qed auto

lemma ses_onCall_frame: "ses_id (snd (ses_onCall call acc)) = ses_id (snd acc) \<and> ses_sw (snd (ses_onCall call acc)) = ses_sw (snd acc)"
  by (cases acc; cases call) (auto simp: onPeersExhausted_def onWantsSent_def)

lemma ses_senderRound_frame:
  assumes "ses_senderRound env x = (calls, x')"
  shows "ses_id x' = ses_id x \<and> ses_sw x' = ses_sw x"
proof -
  have "ses_id (snd (fold ses_onCall cs acc)) = ses_id (snd acc) \<and> ses_sw (snd (fold ses_onCall cs acc)) = ses_sw (snd acc)" for cs acc
    by (induction cs arbitrary: acc) (simp_all add: ses_onCall_frame)
  then have "fold ses_onCall cs ([], y) = (calls, x') \<Longrightarrow> ses_id x' = ses_id y \<and> ses_sw x' = ses_sw y" for cs y
    by (metis snd_conv)
  from this show ?thesis
    using assms by (fastforce simp: ses_senderRound_def split: list.splits prod.splits)
qed

lemma ses_senderRound_effect:
  assumes r: "ses_senderRound env x = (calls, x')" and u: "uncancelled c x"
  shows "uncancelled c x' \<and> (\<forall>ks. SES_CancelSessionWants ks \<in> set calls \<longrightarrow> c \<notin> set ks)"
proof (cases "ses_changes x")
  case (Cons ch chan)
  obtain changes rest where co: "collectChanges [ch] chan = (changes, rest)"
    by fastforce
  obtain cs s' where oc: "onChange env changes (ses_sws x) = (cs, s')"
    by fastforce
  have parts: "set (ses_changes x) = set changes \<union> set rest"
    using collectChanges_concat [OF co] Cons by (metis append_Cons append_Nil set_append)
  let ?x = "x\<lparr>ses_changes := rest, ses_sws := s'\<rparr>"
  have f: "fold ses_onCall cs ([], ?x) = (calls, x')"
    using r Cons co oc by (simp add: ses_senderRound_def sws_round_def)
  have "c \<notin> set ks" if k: "SWS_CancelSessionWants ks \<in> set cs" for ks
    using onChange_cancels [of ks env changes "ses_sws x"] k oc u parts by (auto simp: uncancelled_def)
  moreover have "uncancelled c ?x"
    using u parts by (auto simp: uncancelled_def)
  ultimately show ?thesis
    using fold_ses_onCall_effect [OF f, of c] by simp
qed (use assms in \<open>simp add: ses_senderRound_def\<close>)

lemma ses_ReceiveFrom_effect:
  fixes x :: ses
  defines "ks' m ks \<equiv> filter (\<lambda>k. interest m k (ses_id x) \<noteq> None) ks"
  shows "ses_id (ses_ReceiveFrom p ks haves dontHaves m x) = ses_id x"
    "ses_sw (ses_ReceiveFrom p ks haves dontHaves m x) = ses_sw x"
    "ses_incoming (ses_ReceiveFrom p ks haves dontHaves m x) =
       ses_incoming x @ (if ks' m ks = [] then [] else [opReceive (ks' m ks)])"
    "ses_changes (ses_ReceiveFrom p ks haves dontHaves m x) =
       ses_changes x @ sws_Update p (ks' m ks) (ks' m haves) (ks' m dontHaves)"
  by (simp_all add: ses_ReceiveFrom_def FilterSessionInterested_def Let_def ks'_def)

lemma expected_ReceiveFrom:
  "expected c m x \<Longrightarrow> expected c m (ses_ReceiveFrom p ks haves dontHaves m' x)"
  by (auto simp: expected_def uncancelled_def ses_ReceiveFrom_effect)

section \<open>The manager\<close>

definition sm_inv :: "sm \<Rightarrow> bool" where
  "sm_inv s \<longleftrightarrow> sim_inv (sm_sim s) \<and> (\<forall>i x. getSession i s = Some x \<longrightarrow> ses_id x = i \<and> sw_inv (ses_sw x))"

definition waits :: "uint64 \<Rightarrow> cid \<Rightarrow> sm \<Rightarrow> bool" where
  "waits i c s \<longleftrightarrow> sm_inv s \<and> (\<forall>x. getSession i s = Some x \<longrightarrow> expected c (sm_sim s) x)"

lemma getSession_put [simp]:
  "getSession j (putSession i x s) = (if j = i then map_option (\<lambda>_. x) (sm_sessions s) else getSession j s)"
  by (cases "sm_sessions s") (auto simp: getSession_def putSession_def)

lemma getSession_frame [simp]:
  "getSession j (s\<lparr>sm_sim := m\<rparr>) = getSession j s" "getSession j (s\<lparr>sm_bpm := b\<rparr>) = getSession j s"
  "getSession j (s\<lparr>sm_sessID := k\<rparr>) = getSession j s" "sm_sim (putSession i x s) = sm_sim s"
  by (simp_all add: getSession_def putSession_def)

text \<open>A step of session \<open>j\<close>.\<close>

lemma withSession_waits:
  assumes w: "waits i c s"
    and f: "\<And>x calls m' x'. getSession j s = Some x \<Longrightarrow> ses_id x = j \<Longrightarrow> sw_inv (ses_sw x) \<Longrightarrow> sim_inv (sm_sim s) \<Longrightarrow>
        f x = (calls, m', x') \<Longrightarrow>
        ses_id x' = j \<and> sw_inv (ses_sw x') \<and> sim_inv m' \<and> others_keep j (sm_sim s) m' \<and>
        (j = i \<longrightarrow> expected c (sm_sim s) x \<longrightarrow> expected c m' x')"
  shows "waits i c (snd (withSession j f s))"
proof (cases "getSession j s")
  case (Some x)
  obtain calls m' x' where r: "f x = (calls, m', x')"
    by (rule prod_cases3)
  have x: "ses_id x = j" "sw_inv (ses_sw x)" "sim_inv (sm_sim s)"
    using w Some by (auto simp: waits_def sm_inv_def)
  note F = f [OF Some x r]
  have s': "snd (withSession j f s) = putSession j x' (s\<lparr>sm_sim := m'\<rparr>)"
    using Some r by (simp add: withSession_def)
  have "expected c m' y" if y: "getSession i (putSession j x' (s\<lparr>sm_sim := m'\<rparr>)) = Some y" for y
  proof (cases "j = i")
    case True
    then show ?thesis
      using F y Some w by (auto simp: waits_def)
  next
    case False
    then have "getSession i s = Some y"
      using y by simp
    then have "ses_id y = i" "expected c (sm_sim s) y"
      using w by (auto simp: waits_def sm_inv_def)
    then show ?thesis
      using F False by (auto simp: expected_def others_keep_def)
  qed
  moreover have "sm_inv (putSession j x' (s\<lparr>sm_sim := m'\<rparr>))"
    using F w by (auto simp: sm_inv_def waits_def split: if_splits)
  ultimately show ?thesis
    unfolding s' by (simp add: waits_def)
qed (use w in \<open>simp add: withSession_def\<close>)

lemma others_keep_refl [simp]: "others_keep j m m"
  by (simp add: others_keep_def)

lemma onSession_waits:
  assumes "waits i c s" "\<And>x. ses_id (f x) = ses_id x \<and> ses_sw (f x) = ses_sw x"
    "\<And>x. j = i \<Longrightarrow> uncancelled c x \<Longrightarrow> uncancelled c (f x)"
  shows "waits i c (snd (onSession j f s))"
  unfolding onSession_def using assms
  by (intro withSession_waits) (auto simp: expected_def)

lemma interest_dropped:
  assumes "sim_inv m" "RemoveSessionInterested j ks m = (del, m')"
  shows "sim_inv m' \<and> others_keep j m m' \<and> (\<forall>c. c \<notin> set ks \<longrightarrow> interest m' c j = interest m c j)"
  using RemoveSessionInterested_effect [OF assms] sim_runs.step_inv [OF _ assms(1), of "SIM_RemoveInterested j ks"] assms(2)
  by (auto simp: others_keep_def)

lemma sm_CancelSessionWants_waits:
  assumes w: "waits i c s" and c: "j = i \<Longrightarrow> c \<notin> set ks"
  shows "waits i c (snd (sm_CancelSessionWants j ks s))"
proof -
  obtain del m' where r: "RemoveSessionInterested j ks (sm_sim s) = (del, m')"
    by fastforce
  have inv: "sim_inv (sm_sim s)"
    using w by (simp add: waits_def sm_inv_def)
  note D = interest_dropped [OF inv r]
  have "expected c m' x" if x: "getSession i s = Some x" for x
    using w x D c by (cases "j = i") (auto simp: waits_def sm_inv_def expected_def others_keep_def)
  then show ?thesis
    using w r D by (auto simp: sm_CancelSessionWants_def cancelWants_def waits_def sm_inv_def)
qed

lemma sm_onCalls_waits:
  assumes "waits i c s" "j = i \<Longrightarrow> \<forall>ks. SES_CancelSessionWants ks \<in> set calls \<longrightarrow> c \<notin> set ks"
  shows "waits i c (fold (sm_onCall j) calls s)"
proof (rule fold_invariant [where P = "waits i c"])
  fix call s
  assume call: "call \<in> set calls" "waits i c s"
  show "waits i c (sm_onCall j call s)"
    by (cases call) (use call assms(2) in \<open>auto intro: sm_CancelSessionWants_waits\<close>)
qed (rule assms(1))

lemma NewSession_waits: "waits i c s \<Longrightarrow> waits i c (snd (NewSession d s))"
proof (cases "sm_sessions s")
  case (Some ss)
  have new: "sw_inv (newSessionWants b)" "\<not> isWanted c (newSessionWants b)" for b
    using sw_inv_run [of "[]" b] by (simp_all add: isWanted_def newSessionWants_def cq_Has_def newCidQueue_def)
  let ?x = "ses_New (sm_sessID s + 1) d"
  have s': "snd (NewSession d s) = putSession (sm_sessID s + 1) ?x (s\<lparr>sm_sessID := sm_sessID s + 1\<rparr>)"
    using Some by (simp add: NewSession_def GetNextSessionID_def putSession_def Let_def)
  have "ses_id ?x = sm_sessID s + 1" "sw_inv (ses_sw ?x)" "expected c m ?x" for m
    using new by (simp_all add: ses_New_def expected_def uncancelled_def)
  moreover assume "waits i c s"
  ultimately show ?thesis
    unfolding s' waits_def sm_inv_def by (simp add: Some)
qed (simp add: NewSession_def GetNextSessionID_def waits_def sm_inv_def Let_def)

lemma sm_RemoveSession_waits:
  assumes w: "waits i c s" and ord: "go_range ord"
  shows "waits i c (snd (sm_RemoveSession ord j s))"
proof -
  obtain del m' where r: "RemoveSession ord j (sm_sim s) = (del, m')"
    by fastforce
  have inv: "sim_inv (sm_sim s)"
    using w by (simp add: waits_def sm_inv_def)
  have m': "sim_inv m'" "\<And>c t. t \<noteq> j \<Longrightarrow> interest m' c t = interest (sm_sim s) c t"
    using sim_runs.step_inv [OF _ inv, of "SIM_RemoveSession ord j"] RemoveSession_effect [OF ord inv r] r by auto
  let ?s = "snd (sm_RemoveSession ord j s)"
  have s': "sm_sim ?s = m'" "\<And>k. getSession k ?s = (if k = j then None else getSession k s)"
    using r by (auto simp: sm_RemoveSession_def cancelWants_def Let_def getSession_def split: option.splits)
  have "expected c m' x" if x: "getSession i ?s = Some x" for x
    using w x m'(2) s'(2) by (auto simp: waits_def sm_inv_def expected_def split: if_splits)
  then show ?thesis
    using w m'(1) s' by (auto simp: waits_def sm_inv_def)
qed

lemma fold_tellSession:
  "distinct ids \<Longrightarrow> fmlookup (fold (tellSession p blks haves dontHaves m) ids ss) i =
     (if i \<in> set ids then map_option (ses_ReceiveFrom p blks haves dontHaves m) (fmlookup ss i) else fmlookup ss i)"
proof (induction ids arbitrary: ss)
  case (Cons k ids)
  have "fmlookup (tellSession p blks haves dontHaves m k ss) i =
      (if i = k then map_option (ses_ReceiveFrom p blks haves dontHaves m) (fmlookup ss i) else fmlookup ss i)"
    by (auto simp: tellSession_def split: option.splits)
  then show ?case
    using Cons by auto
qed simp

lemma sm_ReceiveFrom_effect:
  assumes ord: "go_range ord"
  defines "s' s p blks haves dontHaves \<equiv> snd (sm_ReceiveFrom ord p blks haves dontHaves s)"
  shows "sm_sim (s' s p blks haves dontHaves) = sm_sim s"
    "getSession i (s' s p blks haves dontHaves) =
       (if i \<in> set (InterestedSessions ord blks haves dontHaves (sm_sim s))
        then map_option (ses_ReceiveFrom p blks haves dontHaves (sm_sim s)) (getSession i s) else getSession i s)"
proof -
  have d: "distinct (InterestedSessions ord blks haves dontHaves (sm_sim s))"
    by (simp add: InterestedSessions_def go_range.ord_distinct [OF ord])
  show "sm_sim (s' s p blks haves dontHaves) = sm_sim s"
    by (cases "sm_sessions s") (simp_all add: s'_def sm_ReceiveFrom_def Let_def)
  show "getSession i (s' s p blks haves dontHaves) =
       (if i \<in> set (InterestedSessions ord blks haves dontHaves (sm_sim s))
        then map_option (ses_ReceiveFrom p blks haves dontHaves (sm_sim s)) (getSession i s) else getSession i s)"
    using fold_tellSession [OF d] by (cases "sm_sessions s") (simp_all add: s'_def sm_ReceiveFrom_def Let_def getSession_def)
qed

lemma sm_ReceiveFrom_waits:
  assumes w: "waits i c s" and ord: "go_range ord"
  shows "waits i c (snd (sm_ReceiveFrom ord p blks haves dontHaves s))"
proof -
  note R = sm_ReceiveFrom_effect [OF ord]
  have "ses_id x = j \<and> sw_inv (ses_sw x)"
    if "getSession j (snd (sm_ReceiveFrom ord p blks haves dontHaves s)) = Some x" for j x
    using that w unfolding R(2) by (auto simp: waits_def sm_inv_def ses_ReceiveFrom_effect split: if_splits)
  moreover have "expected c (sm_sim s) x"
    if "getSession i (snd (sm_ReceiveFrom ord p blks haves dontHaves s)) = Some x" for x
    using that w unfolding R(2) by (auto simp: waits_def expected_ReceiveFrom split: if_splits)
  ultimately show ?thesis
    using w by (simp add: waits_def sm_inv_def R(1))
qed

lemma ses_next_waits: "waits i c s \<Longrightarrow> waits i c (snd (withSession j (ses_next now (sm_sim s)) s))"
proof (rule withSession_waits)
  fix x calls m' x'
  assume x: "ses_id x = j" "sw_inv (ses_sw x)" "sim_inv (sm_sim s)" and r: "ses_next now (sm_sim s) x = (calls, m', x')"
  show "ses_id x' = j \<and> sw_inv (ses_sw x') \<and> sim_inv m' \<and> others_keep j (sm_sim s) m' \<and>
      (j = i \<longrightarrow> expected c (sm_sim s) x \<longrightarrow> expected c m' x')"
  proof (cases "ses_incoming x")
    case (Cons oper rest)
    then have run: "ses_run now oper (sm_sim s) (x\<lparr>ses_incoming := rest\<rparr>) = (calls, m', x')"
      using r by (simp add: ses_next_def)
    have "expected c (sm_sim s) x \<Longrightarrow> expected c (sm_sim s) (x\<lparr>ses_incoming := rest\<rparr>) \<and> (\<forall>ks. oper = opCancel ks \<longrightarrow> c \<notin> set ks)"
      using Cons by (auto simp: expected_def uncancelled_def)
    then show ?thesis
      using ses_run_effect [OF _ x(3) run, of c] x(1,2) by auto
  qed (use r x in \<open>simp add: ses_next_def\<close>)
qed

fun cancels :: "uint64 \<Rightarrow> cid \<Rightarrow> sm_op \<Rightarrow> bool" where
  "cancels i c (SM_CancelBlocks j ks) \<longleftrightarrow> j = i \<and> c \<in> set ks"
| "cancels i c _ \<longleftrightarrow> False"

fun ranges :: "sm_op \<Rightarrow> bool" where
  "ranges (SM_Remove ord i) \<longleftrightarrow> go_range ord"
| "ranges (SM_Receive ord p blks haves dontHaves) \<longleftrightarrow> go_range ord"
| "ranges _ \<longleftrightarrow> True"

lemma idleTick_waits:
  assumes w: "waits i c s"
  shows "waits i c (snd (sm_step (SM_IdleTick j now) s))"
  unfolding sm_step.simps
proof (rule withSession_waits [OF w])
  fix x calls m' x'
  assume x: "ses_id x = j" "sw_inv (ses_sw x)" "sim_inv (sm_sim s)"
    and "(let (calls, x') = ses_broadcast now None x in (calls, sm_sim s, x')) = (calls, m', x')"
  then have r: "ses_broadcast now None x = (calls, x')" "m' = sm_sim s"
    by (simp_all split: prod.splits)
  from ses_broadcast_effect [OF x(2) r(1)] show "ses_id x' = j \<and> sw_inv (ses_sw x') \<and> sim_inv m' \<and>
      others_keep j (sm_sim s) m' \<and> (j = i \<longrightarrow> expected c (sm_sim s) x \<longrightarrow> expected c m' x')"
    using x r(2) by (simp add: expected_def uncancelled_def)
qed

lemma senderRound_waits:
  assumes w: "waits i c s"
  shows "waits i c (snd (sm_step (SM_SenderRound j env) s))"
proof -
  let ?f = "\<lambda>x. let (calls, x') = ses_senderRound (env\<lparr>env_bpm := sm_bpm s\<rparr>) x in (calls, sm_sim s, x')"
  obtain calls s1 where r: "withSession j ?f s = (calls, s1)"
    by fastforce
  have "waits i c (snd (withSession j ?f s))"
    using w by (rule withSession_waits)
      (auto simp: expected_def dest: ses_senderRound_frame ses_senderRound_effect split: prod.splits)
  moreover have "\<forall>ks. SES_CancelSessionWants ks \<in> set calls \<longrightarrow> c \<notin> set ks" if "j = i"
  proof (cases "getSession j s")
    case (Some x)
    obtain cs x' where sr: "ses_senderRound (env\<lparr>env_bpm := sm_bpm s\<rparr>) x = (cs, x')"
      by fastforce
    have "uncancelled c x"
      using w Some that by (auto simp: waits_def expected_def)
    then show ?thesis
      using r Some sr ses_senderRound_effect [OF sr, of c] by (simp add: withSession_def)
  qed (use r in \<open>auto simp: withSession_def\<close>)
  ultimately show ?thesis
    using r by (simp add: sm_onCalls_waits)
qed

interpretation sm_runs: step_invariant sm_exec "\<lambda>x. ranges x \<and> \<not> cancels i c x" "waits i c" for i c
proof
  fix x s
  assume ok: "ranges x \<and> \<not> cancels i c x" and w: "waits i c s"
  show "waits i c (sm_exec x s)"
  proof (cases x)
    case (SM_CancelBlocks j ks)
    then show ?thesis
      using ok w unfolding sm_exec_def
      by (auto intro!: onSession_waits simp: ses_CancelBlocks_def uncancelled_def)
  next
    case (SM_SenderRound j env)
    then show ?thesis
      using senderRound_waits [OF w] by (simp only: sm_exec_def)
  next
    case (SM_IdleTick j now)
    then show ?thesis
      using idleTick_waits [OF w] by (simp only: sm_exec_def)
  qed (use ok w in \<open>auto simp: sm_exec_def NewSession_waits sm_RemoveSession_waits sm_ReceiveFrom_waits ses_next_waits
      ses_GetBlocks_def ses_providerFound_def uncancelled_def intro!: onSession_waits\<close>)
qed

lemma waits_New: "waits i c sm_New"
  by (simp add: waits_def sm_inv_def getSession_def sm_New_def sim_inv_New)

lemma reached_waits:
  "list_all ranges xs \<Longrightarrow> list_all (\<lambda>x. \<not> cancels i c x) xs \<Longrightarrow> waits i c (fold sm_exec xs sm_New)"
  by (rule sm_runs.run_inv [OF waits_New]) (simp add: list_all_iff)

text \<open>Turns of the run loop of a session work through its queue.\<close>

lemma next_session:
  assumes w: "waits i c s" and x: "getSession i s = Some x" and q: "ses_incoming x = oper # rest"
  shows "\<exists>x'. getSession i (sm_exec (SM_Next i now) s) = Some x' \<and> ses_incoming x' = rest \<and>
    (\<forall>ks. oper = opReceive ks \<and> c \<in> set ks \<longrightarrow> \<not> isWanted c (ses_sw x'))"
proof -
  obtain calls m' x' where r: "ses_run now oper (sm_sim s) (x\<lparr>ses_incoming := rest\<rparr>) = (calls, m', x')"
    by (rule prod_cases3)
  have inv: "sw_inv (ses_sw (x\<lparr>ses_incoming := rest\<rparr>))" "sim_inv (sm_sim s)"
    using w x by (auto simp: waits_def sm_inv_def)
  have "\<not> isWanted c (ses_sw x')" if "oper = opReceive ks" "c \<in> set ks" for ks
    using r that handleReceive_effect [OF inv(1), of now ks "sm_sim s" m' x'] by (simp split: prod.splits)
  moreover have "getSession i (sm_exec (SM_Next i now) s) = Some x'"
    using x q r by (cases "sm_sessions s") (auto simp: sm_exec_def withSession_def ses_next_def getSession_def putSession_def)
  ultimately show ?thesis
    using ses_run_effect [OF inv r] by auto
qed

lemma queue_drains:
  assumes "waits i c s" "getSession i s = Some x" "ses_incoming x = pre @ opReceive ks # post" "c \<in> set ks"
    "length nows = Suc (length pre)"
  shows "\<exists>x'. getSession i (fold (\<lambda>now. sm_exec (SM_Next i now)) nows s) = Some x' \<and>
    \<not> isWanted c (ses_sw x') \<and> ses_incoming x' = post"
  using assms
proof (induction pre arbitrary: s x nows)
  case Nil
  then obtain now where nows: "nows = [now]"
    by (auto simp: length_Suc_conv)
  then show ?case
    using Nil.prems next_session [OF Nil.prems(1,2), of "opReceive ks" post now] by fastforce
next
  case (Cons oper pre)
  then obtain now nows' where nows: "nows = now # nows'" "length nows' = Suc (length pre)"
    by (auto simp: length_Suc_conv)
  obtain x1 where x1: "getSession i (sm_exec (SM_Next i now) s) = Some x1" "ses_incoming x1 = pre @ opReceive ks # post"
    using next_session [OF Cons.prems(1,2)] Cons.prems(3) by fastforce
  have "waits i c (sm_exec (SM_Next i now) s)"
    using sm_runs.step_inv [OF _ Cons.prems(1), of "SM_Next i now"] by simp
  from Cons.IH [OF this x1 Cons.prems(4) nows(2)] show ?case
    by (simp add: nows(1))
qed

section \<open>Properties\<close>

text \<open>
  Sessions and the interest manager agree. In every state the session layer reaches, and
  for every key the client has not cancelled in a session, a key that session waits for is
  recorded as expected by it. So no message carrying the block can pass the session by.
\<close>

theorem session_wants_expected:
  assumes "list_all ranges xs" "list_all (\<lambda>x. \<not> cancels i c x) xs"
    "getSession i (fold sm_exec xs sm_New) = Some x" "isWanted c (ses_sw x)"
  shows "interest (sm_sim (fold sm_exec xs sm_New)) c i = Some True"
  using reached_waits [OF assms(1,2)] assms(3,4) by (auto simp: waits_def sm_inv_def expected_def)

definition two_sessions :: "sm_op list" where
  "two_sessions =
     [SM_NewSession 5, SM_NewSession 5, SM_GetBlocks 1 [''a''], SM_GetBlocks 2 [''a''],
      SM_Next 1 10, SM_Next 2 11, SM_CancelBlocks 2 [''a''], SM_Next 2 12, SM_SenderRound 2 (example_env bpm_New)]"

theorem session_wants_expected_witness:
  "interest (sm_sim (fold sm_exec two_sessions sm_New)) ''a'' 1 = Some True \<and>
   interest (sm_sim (fold sm_exec two_sessions sm_New)) ''a'' 2 = None"
proof -
  have "map_option (\<lambda>x. isWanted ''a'' (ses_sw x)) (getSession 1 (fold sm_exec two_sessions sm_New)) = Some True"
    by code_simp
  moreover have "interest (sm_sim (fold sm_exec two_sessions sm_New)) ''a'' 2 = None"
    by code_simp
  moreover have "list_all ranges two_sessions" "list_all (\<lambda>x. \<not> cancels 1 ''a'' x) two_sessions"
    by (simp_all add: two_sessions_def)
  ultimately show ?thesis
    using session_wants_expected [of two_sessions 1 "''a''"] by auto
qed

definition cancelled_run :: "sm_op list" where
  "cancelled_run =
     [SM_NewSession 5, SM_GetBlocks 1 [''a''], SM_Next 1 10, SM_CancelBlocks 1 [''a''], SM_Next 1 11,
      SM_SenderRound 1 (example_env bpm_New)]"

text \<open>
  A cancelled want is broadcast again. After the client cancels its request for a live
  want no session is interested in the key, but the session still holds it as live: every
  idle tick broadcasts it and searches for providers, and a block for it would be dropped.
\<close>

theorem cancelled_want_rebroadcast:
  "interest (sm_sim (fold sm_exec cancelled_run sm_New)) ''a'' 1 = None \<and>
   fst (sm_step (SM_IdleTick 1 99) (fold sm_exec cancelled_run sm_New)) =
     [SES_BroadcastWantHaves [''a''], SES_FindMorePeers ''a'']"
  by code_simp

end
