(* ===== verification/Client.thy ===== *)
theory Client
  imports Sessions_Props
begin

text \<open>
  The client (\<open>client/client.go\<close>). It takes messages from the network, keeps the
  blocks some session wants, tells the sessions and publishes the blocks.

  The block store is a parameter: \<open>has c\<close> is \<open>None\<close> when the look-up fails. Calls on the peer
  manager, the block-received notifier and the publisher are returned in order. The publisher
  and the channels of a request are the theory \<open>Getter\<close>.
\<close>

section \<open>State\<close>

record counters =
  blocksRecvd :: uint64
  dupBlocksRecvd :: uint64
  dupDataRecvd :: uint64
  dataRecvd :: uint64
  messagesRecvd :: uint64

record client =
  cl_sm :: sm
  cl_counters :: counters
  cl_closing :: bool
  blockReceivedNotifier :: bool
  simulateDontHavesOnTimeout :: bool
  provSearchDelay :: int

datatype cl_call =
    CL_ResponseReceived peer "cid list"
  | CL_SessionManager sm_call
  | CL_ReceivedBlocks peer "block list"
  | CL_Publish "block list"

datatype cl_error = BitswapClosed

definition cl_New :: client where
  "cl_New = \<lparr>cl_sm = sm_New,
     cl_counters = \<lparr>blocksRecvd = 0, dupBlocksRecvd = 0, dupDataRecvd = 0, dataRecvd = 0, messagesRecvd = 0\<rparr>,
     cl_closing = False, blockReceivedNotifier = False, simulateDontHavesOnTimeout = True, provSearchDelay = 1000000000\<rparr>"

section \<open>Operations\<close>

definition onDontHaveTimeout :: "uint64 order \<Rightarrow> peer \<Rightarrow> cid list \<Rightarrow> client \<Rightarrow> cl_call list \<times> client" where
  "onDontHaveTimeout ords p dontHaves cl =
     (if simulateDontHavesOnTimeout cl
      then let (calls, s) = sm_ReceiveFrom ords p [] [] dontHaves (cl_sm cl)
           in (map CL_SessionManager calls, cl\<lparr>cl_sm := s\<rparr>)
      else ([], cl))"

text \<open>\<open>GetBlocks\<close> of the client makes a session for the request.\<close>

definition cl_GetBlocks :: "cid list \<Rightarrow> client \<Rightarrow> client" where
  "cl_GetBlocks keys cl =
     (let (session, s) = NewSession (provSearchDelay cl) (cl_sm cl)
      in cl\<lparr>cl_sm := if length keys = 0 then s else snd (onSession (ses_id session) (ses_GetBlocks keys) s)\<rparr>)"

definition cl_NotifyNewBlocks ::
  "uint64 order \<Rightarrow> block list \<Rightarrow> client \<Rightarrow> cl_error + cl_call list \<times> client" where
  "cl_NotifyNewBlocks ords blks cl =
     (if cl_closing cl then Inl BitswapClosed
      else
        let blkCids = map block_cid blks;
            (calls, s) = sm_ReceiveFrom ords NoPeer blkCids [] [] (cl_sm cl)
        in Inr (map CL_SessionManager calls @ [CL_Publish blks], cl\<lparr>cl_sm := s\<rparr>))"

definition receiveBlocksFrom ::
  "uint64 order \<Rightarrow> peer \<Rightarrow> block list \<Rightarrow> cid list \<Rightarrow> cid list \<Rightarrow> client \<Rightarrow> cl_error + cl_call list \<times> client" where
  "receiveBlocksFrom ords from blks haves dontHaves cl =
     (if cl_closing cl then Inl BitswapClosed
      else
        let (wanted, notWanted) = SplitWantedUnwanted blks (sm_sim (cl_sm cl));
            allKs = map block_cid blks;
            combined = allKs @ haves @ dontHaves;
            (calls, s) = sm_ReceiveFrom ords from allKs haves dontHaves (cl_sm cl)
        in Inr ([CL_ResponseReceived from combined] @ map CL_SessionManager calls @
                (if blockReceivedNotifier cl then [CL_ReceivedBlocks from wanted] else []) @
                map (\<lambda>b. CL_Publish [b]) wanted,
                cl\<lparr>cl_sm := s\<rparr>))"

definition blockstoreHas :: "(cid \<Rightarrow> bool option) \<Rightarrow> block list \<Rightarrow> bool list" where
  "blockstoreHas has blks = map (\<lambda>b. case has (block_cid b) of None \<Rightarrow> False | Some h \<Rightarrow> h) blks"

definition countBlock :: "block \<times> bool \<Rightarrow> counters \<Rightarrow> counters" where
  "countBlock = (\<lambda>(b, has) c.
     let blkLen = word_of_nat (length (RawData b)) :: uint64;
         c1 = c\<lparr>blocksRecvd := blocksRecvd c + 1, dataRecvd := dataRecvd c + blkLen\<rparr>
     in if has then c1\<lparr>dupBlocksRecvd := dupBlocksRecvd c1 + 1, dupDataRecvd := dupDataRecvd c1 + blkLen\<rparr> else c1)"

definition updateReceiveCounters :: "(cid \<Rightarrow> bool option) \<Rightarrow> block list \<Rightarrow> client \<Rightarrow> client" where
  "updateReceiveCounters has blks cl =
     cl\<lparr>cl_counters := fold countBlock (zip blks (blockstoreHas has blks)) (cl_counters cl)\<rparr>"

definition ReceiveMessage ::
  "(cid \<Rightarrow> bool option) \<Rightarrow> uint64 order \<Rightarrow> cid order \<Rightarrow> peer \<Rightarrow> message \<Rightarrow> client \<Rightarrow> cl_call list \<times> client" where
  "ReceiveMessage has ords ordc p incoming cl =
     (let cl1 = cl\<lparr>cl_counters := (cl_counters cl)\<lparr>messagesRecvd := messagesRecvd (cl_counters cl) + 1\<rparr>\<rparr>;
          iblocks = Blocks ordc incoming;
          cl2 = (if length iblocks > 0 then updateReceiveCounters has iblocks cl1 else cl1);
          haves = Haves ordc incoming;
          dontHaves = DontHaves ordc incoming
      in if length iblocks > 0 \<or> length haves > 0 \<or> length dontHaves > 0
         then (case receiveBlocksFrom ords p iblocks haves dontHaves cl2 of
                 Inl _ \<Rightarrow> ([], cl2)
               | Inr r \<Rightarrow> r)
         else ([], cl2))"

section \<open>Lemmas\<close>

lemma wanted_kept:
  "set (fst (SplitWantedUnwanted blks m)) = {b \<in> set blks. \<exists>i. interest m (block_cid b) i = Some True}"
  by (auto simp: SplitWantedUnwanted_def wantedKs_iff)

lemma told_interested:
  assumes "go_range ord" "c \<in> set (ks @ haves @ dontHaves)" "interest m c i \<noteq> None"
  shows "i \<in> set (InterestedSessions ord ks haves dontHaves m)"
proof -
  have "i |\<in>| fold (\<lambda>c ss. ss |\<union>| sessions_of m c) cs S \<longleftrightarrow> i |\<in>| S \<or> (\<exists>c\<in>set cs. i |\<in>| sessions_of m c)" for cs S
    by (induction cs arbitrary: S) auto
  then show ?thesis
    using assms by (auto simp: InterestedSessions_def go_range.ord_set [OF assms(1)] interest_sessions_of)
qed

lemma updateReceiveCounters_frame [simp]:
  "cl_sm (updateReceiveCounters has blks cl) = cl_sm cl" "cl_closing (updateReceiveCounters has blks cl) = cl_closing cl"
  by (simp_all add: updateReceiveCounters_def)

text \<open>A message with blocks, on a client that is not closing.\<close>

lemma ReceiveMessage_blocks:
  assumes "\<not> cl_closing cl" "Blocks ordc msg \<noteq> []" "ReceiveMessage has ords ordc p msg cl = (calls, cl')"
  shows "cl_sm cl' = snd (sm_ReceiveFrom ords p (map block_cid (Blocks ordc msg)) (Haves ordc msg) (DontHaves ordc msg) (cl_sm cl))"
    "CL_Publish bs \<in> set calls \<longleftrightarrow> (\<exists>b\<in>set (fst (SplitWantedUnwanted (Blocks ordc msg) (sm_sim (cl_sm cl)))). bs = [b])"
  using assms by (auto simp: ReceiveMessage_def receiveBlocksFrom_def Let_def split: prod.splits if_splits)

lemma block_arrives:
  assumes run: "cl_sm cl = fold sm_exec xs sm_New" "list_all ranges xs" "list_all (\<lambda>x. \<not> cancels i c x) xs"
    and cl: "\<not> cl_closing cl"
    and wants: "getSession i (cl_sm cl) = Some x" "isWanted c (ses_sw x)"
    and msg: "fmlookup (m_blocks msg) k = Some b" "block_cid b = c"
    and ords: "go_range ords" "go_range ordc"
    and turns: "length nows = Suc (length (ses_incoming x))"
  shows "\<exists>calls cl' x'. ReceiveMessage has ords ordc p msg cl = (calls, cl') \<and> CL_Publish [b] \<in> set calls \<and>
    getSession i (fold (\<lambda>now. sm_exec (SM_Next i now)) nows (cl_sm cl')) = Some x' \<and> \<not> isWanted c (ses_sw x')"
proof -
  let ?blks = "Blocks ordc msg" and ?m = "sm_sim (cl_sm cl)"
  have w: "waits i c (cl_sm cl)"
    using reached_waits [OF run(2,3)] by (simp add: run(1))
  then have x: "ses_id x = i" "interest ?m c i = Some True"
    using wants by (auto simp: waits_def sm_inv_def expected_def)
  have b: "b \<in> set ?blks"
    using msg(1) set_range_values [OF ords(2), of "m_blocks msg"] by (auto simp: Blocks_def)
  obtain calls cl' where r: "ReceiveMessage has ords ordc p msg cl = (calls, cl')"
    by fastforce
  have ne: "?blks \<noteq> []"
    using b by auto
  note R = ReceiveMessage_blocks [OF cl ne r]
  let ?ks = "filter (\<lambda>k. interest ?m k i \<noteq> None) (map block_cid ?blks)"
  have told: "i \<in> set (InterestedSessions ords (map block_cid ?blks) (Haves ordc msg) (DontHaves ordc msg) ?m)"
    using b msg(2) x(2) by (intro told_interested [OF ords(1), of c]) auto
  have c: "c \<in> set ?ks"
    using b msg(2) x(2) by auto
  let ?x = "ses_ReceiveFrom p (map block_cid ?blks) (Haves ordc msg) (DontHaves ordc msg) ?m x"
  have s': "getSession i (cl_sm cl') = Some ?x" "waits i c (cl_sm cl')"
    using told wants(1) sm_ReceiveFrom_waits [OF w ords(1)] by (simp_all add: R(1) sm_ReceiveFrom_effect [OF ords(1)])
  have "ses_incoming ?x = ses_incoming x @ opReceive ?ks # []"
    using c x(1) by (auto simp: ses_ReceiveFrom_effect filter_empty_conv)
  from queue_drains [OF s'(2,1) this c turns] obtain x'
    where "getSession i (fold (\<lambda>now. sm_exec (SM_Next i now)) nows (cl_sm cl')) = Some x'" "\<not> isWanted c (ses_sw x')"
    by blast
  moreover have "CL_Publish [b] \<in> set calls"
    using b msg(2) x(2) by (auto simp: R(2) wanted_kept)
  ultimately show ?thesis
    using r by blast
qed

section \<open>Properties\<close>

text \<open>
  C4. A wanted block arrives. Take any state the client's session layer reaches and a session
  that waits for a key its caller has not cancelled. A message that carries the block
  publishes it to the callers, whatever else is in the message, and puts it on the session's
  queue; once the session's loop has worked through what was queued, the want is settled.
\<close>

theorem wanted_block_arrives:
  assumes run: "cl_sm cl = fold sm_exec xs sm_New" "list_all ranges xs" "list_all (\<lambda>x. \<not> cancels i c x) xs"
    and cl: "\<not> cl_closing cl"
    and wants: "getSession i (cl_sm cl) = Some x" "isWanted c (ses_sw x)"
    and msg: "fmlookup (m_blocks msg) k = Some b" "block_cid b = c"
    and ords: "go_range ords" "go_range ordc"
    and turns: "length nows = Suc (length (ses_incoming x))"
  shows "\<exists>calls cl' x'. ReceiveMessage has ords ordc p msg cl = (calls, cl') \<and> CL_Publish [b] \<in> set calls \<and>
    getSession i (fold (\<lambda>now. sm_exec (SM_Next i now)) nows (cl_sm cl')) = Some x' \<and> \<not> isWanted c (ses_sw x')"
  by (rule block_arrives) (fact assms)+

definition waiting_client :: client where
  "waiting_client = cl_New\<lparr>cl_sm := fold sm_exec [SM_NewSession 5, SM_GetBlocks 1 [''a''], SM_Next 1 10] sm_New\<rparr>"

definition block_message :: message where
  "block_message = AddBlock \<lparr>block_cid = ''a'', RawData = [1, 2]\<rparr> (newMsg False)"

theorem wanted_block_arrives_witness:
  "\<exists>calls cl' x'. ReceiveMessage (\<lambda>_. Some False) key_order key_order ''p'' block_message waiting_client = (calls, cl') \<and>
     CL_Publish [\<lparr>block_cid = ''a'', RawData = [1, 2]\<rparr>] \<in> set calls \<and>
     getSession 1 (fold (\<lambda>now. sm_exec (SM_Next 1 now)) [12] (cl_sm cl')) = Some x' \<and> \<not> isWanted ''a'' (ses_sw x')"
proof -
  let ?s = "fold sm_exec [SM_NewSession 5, SM_GetBlocks 1 [''a''], SM_Next 1 10] sm_New"
  have state: "case getSession 1 ?s of None \<Rightarrow> False | Some x \<Rightarrow> isWanted ''a'' (ses_sw x) \<and> ses_incoming x = []"
    by code_simp
  then obtain x where x: "getSession 1 ?s = Some x" "isWanted ''a'' (ses_sw x)" "ses_incoming x = []"
    by (auto split: option.splits)
  have b: "fmlookup (m_blocks block_message) ''a'' = Some \<lparr>block_cid = ''a'', RawData = [1, 2]\<rparr>"
    by (simp add: block_message_def AddBlock_def newMsg_def)
  show ?thesis
    by (rule wanted_block_arrives [where xs = "[SM_NewSession 5, SM_GetBlocks 1 [''a''], SM_Next 1 10]" and x = x and k = "''a''"])
      (use x b in \<open>simp_all add: waiting_client_def cl_New_def\<close>)
qed

text \<open>
  Exactly the wanted blocks are published. A message publishes a block just when the block
  is in the message and some session still expects its key, each on its own; a client that is
  closing publishes nothing and tells no session.
\<close>

theorem ReceiveMessage_publishes:
  fixes has :: "cid \<Rightarrow> bool option" and ords :: "uint64 order" and ordc :: "cid order"
    and p :: peer and msg :: message and cl :: client
  assumes "go_range ordc"
  defines "r \<equiv> ReceiveMessage has ords ordc p msg cl"
  shows "(CL_Publish bs \<in> set (fst r) \<longleftrightarrow>
      \<not> cl_closing cl \<and> (\<exists>k b i. bs = [b] \<and> fmlookup (m_blocks msg) k = Some b \<and>
         interest (sm_sim (cl_sm cl)) (block_cid b) i = Some True)) \<and>
    (cl_closing cl \<longrightarrow> fst r = [] \<and> cl_sm (snd r) = cl_sm cl)"
proof (intro conjI)
  have blocks: "b \<in> set (Blocks ordc msg) \<longleftrightarrow> (\<exists>k. fmlookup (m_blocks msg) k = Some b)" for b
    using set_range_values [OF assms(1), of "m_blocks msg"] by (simp add: Blocks_def)
  show "cl_closing cl \<longrightarrow> fst r = [] \<and> cl_sm (snd r) = cl_sm cl"
    by (auto simp: r_def ReceiveMessage_def receiveBlocksFrom_def Let_def)
  show "CL_Publish bs \<in> set (fst r) \<longleftrightarrow>
      \<not> cl_closing cl \<and> (\<exists>k b i. bs = [b] \<and> fmlookup (m_blocks msg) k = Some b \<and>
         interest (sm_sim (cl_sm cl)) (block_cid b) i = Some True)"
  proof (cases "cl_closing cl \<or> Blocks ordc msg = []")
    case True
    have "\<not> (\<exists>k b. fmlookup (m_blocks msg) k = Some b)" if "Blocks ordc msg = []"
      using blocks that by auto
    then show ?thesis
      using True by (auto simp: r_def ReceiveMessage_def receiveBlocksFrom_def SplitWantedUnwanted_def Let_def split: prod.splits)
  next
    case False
    then have "CL_Publish bs \<in> set (fst r) \<longleftrightarrow>
        (\<exists>b\<in>set (fst (SplitWantedUnwanted (Blocks ordc msg) (sm_sim (cl_sm cl)))). bs = [b])"
      unfolding r_def by (intro ReceiveMessage_blocks(2) [of cl ordc msg has ords p _ "snd (ReceiveMessage has ords ordc p msg cl)"]) auto
    then show ?thesis
      using False by (auto simp: wanted_kept blocks)
  qed
qed

theorem ReceiveMessage_publishes_witness:
  "CL_Publish [\<lparr>block_cid = ''a'', RawData = [1, 2]\<rparr>] \<in>
     set (fst (ReceiveMessage (\<lambda>_. None) key_order key_order ''p'' block_message waiting_client))"
proof -
  have "interest (sm_sim (cl_sm waiting_client)) ''a'' 1 = Some True" "\<not> cl_closing waiting_client"
    by code_simp+
  moreover have "fmlookup (m_blocks block_message) ''a'' = Some \<lparr>block_cid = ''a'', RawData = [1, 2]\<rparr>"
    by (simp add: block_message_def AddBlock_def newMsg_def)
  ultimately show ?thesis
    using ReceiveMessage_publishes [OF go_range_key_order, of "[\<lparr>block_cid = ''a'', RawData = [1, 2]\<rparr>]" "\<lambda>_. None" key_order "''p''"
        block_message waiting_client] by auto
qed

end
