(* ===== verification/Wire.thy ===== *)
theory Wire
  imports Message
begin

unbundle bit_operations_syntax

text \<open>
  The bytes of a message: the protobuf codec of \<open>message/pb/message.pb.go\<close> and
  \<open>message/pb/cid.go\<close>, and the framing of \<open>message/message.go\<close>.

  The code marshals into a buffer of \<open>Size()\<close> bytes from the end to the front; here the buffer
  is the part already written, and each write puts bytes in front of it. That what is written
  has exactly \<open>Size()\<close> bytes, so that the buffer is filled and never overrun, is shown below. The
  code unmarshals with an index into the data; here the rest of the data is passed on, and the
  index is recovered from the lengths where the code checks it for overflow.

  \<open>cid.Cast\<close> of go-cid and the reader of go-msgio are parameters.
\<close>

section \<open>Structures with the numbers of their enumerations\<close>

record w_entry =
  we_Block :: cid
  we_Priority :: int32
  we_Cancel :: bool
  we_WantType :: int32
  we_SendDontHave :: bool

record w_wantlist =
  ww_Entries :: "w_entry list"
  ww_Full :: bool

record w_presence =
  wp_Cid :: cid
  wp_Type :: int32

record w_message =
  wm_Wantlist :: w_wantlist
  wm_Blocks :: "bytes list"
  wm_Payload :: "pb_block list"
  wm_BlockPresences :: "w_presence list"
  wm_PendingBytes :: int32

section \<open>Sizes\<close>

text \<open>A field of \<open>l\<close> bytes with its tag and length.\<close>

definition sized :: "nat \<Rightarrow> nat" where
  "sized l = 1 + l + sovMessage (of_nat l)"

definition w_entry_Size :: "w_entry \<Rightarrow> nat" where
  "w_entry_Size e =
     sized (pb_Cid_Size (we_Block e)) +
     (if we_Priority e \<noteq> 0 then 1 + sovMessage (scast (we_Priority e)) else 0) +
     (if we_Cancel e then 2 else 0) +
     (if we_WantType e \<noteq> 0 then 1 + sovMessage (scast (we_WantType e)) else 0) +
     (if we_SendDontHave e then 2 else 0)"

definition w_wantlist_Size :: "w_wantlist \<Rightarrow> nat" where
  "w_wantlist_Size w = sum_list (map (\<lambda>e. sized (w_entry_Size e)) (ww_Entries w)) + (if ww_Full w then 2 else 0)"

definition w_block_Size :: "pb_block \<Rightarrow> nat" where
  "w_block_Size b =
     (if length (pb_Prefix b) > 0 then sized (length (pb_Prefix b)) else 0) +
     (if length (pb_Data b) > 0 then sized (length (pb_Data b)) else 0)"

definition w_presence_Size :: "w_presence \<Rightarrow> nat" where
  "w_presence_Size p =
     sized (pb_Cid_Size (wp_Cid p)) + (if wp_Type p \<noteq> 0 then 1 + sovMessage (scast (wp_Type p)) else 0)"

definition w_Size :: "w_message \<Rightarrow> nat" where
  "w_Size m =
     sized (w_wantlist_Size (wm_Wantlist m)) +
     sum_list (map (\<lambda>b. sized (length b)) (wm_Blocks m)) +
     sum_list (map (\<lambda>b. sized (w_block_Size b)) (wm_Payload m)) +
     sum_list (map (\<lambda>p. sized (w_presence_Size p)) (wm_BlockPresences m)) +
     (if wm_PendingBytes m \<noteq> 0 then 1 + sovMessage (scast (wm_PendingBytes m)) else 0)"

section \<open>Marshalling\<close>

text \<open>The bytes \<open>encodeVarintMessage\<close> writes, seven bits each from the least; \<open>PutUvarint\<close> writes the same.\<close>

function varint :: "uint64 \<Rightarrow> bytes" where
  "varint v = (if v \<ge> 128 then (ucast (v AND 0x7F) OR 0x80) # varint (drop_bit 7 v) else [ucast v])"
  by auto
termination
proof (relation "measure unat")
  fix v :: uint64
  assume "128 \<le> v"
  then have "unat v > 0"
    by (simp add: word_le_nat_alt)
  then have "unat v div 2 ^ 7 < unat v"
    by simp
  then show "(drop_bit 7 v, v) \<in> measure unat"
    by (simp add: drop_bit_eq_div unat_div)
qed simp

declare varint.simps [simp del]

definition encodeVarintMessage :: "bytes \<Rightarrow> uint64 \<Rightarrow> bytes" where
  "encodeVarintMessage buf v = varint v @ buf"

text \<open>A field of bytes: the bytes, their length, the tag.\<close>

definition putBytes :: "8 word \<Rightarrow> bytes \<Rightarrow> bytes \<Rightarrow> bytes" where
  "putBytes tag b buf = tag # encodeVarintMessage (b @ buf) (of_nat (length b))"

definition putVarint :: "8 word \<Rightarrow> uint64 \<Rightarrow> bytes \<Rightarrow> bytes" where
  "putVarint tag v buf = tag # encodeVarintMessage buf v"

definition cid_bytes :: "cid \<Rightarrow> bytes" where
  "cid_bytes c = map of_char c"

definition w_entry_Marshal :: "w_entry \<Rightarrow> bytes" where
  "w_entry_Marshal e =
     (let b0 = [];
          b1 = (if we_SendDontHave e then 0x28 # 1 # b0 else b0);
          b2 = (if we_WantType e \<noteq> 0 then putVarint 0x20 (scast (we_WantType e)) b1 else b1);
          b3 = (if we_Cancel e then 0x18 # 1 # b2 else b2);
          b4 = (if we_Priority e \<noteq> 0 then putVarint 0x10 (scast (we_Priority e)) b3 else b3)
      in putBytes 0x0A (cid_bytes (we_Block e)) b4)"

definition w_wantlist_Marshal :: "w_wantlist \<Rightarrow> bytes" where
  "w_wantlist_Marshal w =
     (let b1 = (if ww_Full w then [0x10, 1] else [])
      in foldr (\<lambda>e. putBytes 0x0A (w_entry_Marshal e)) (ww_Entries w) b1)"

definition w_block_Marshal :: "pb_block \<Rightarrow> bytes" where
  "w_block_Marshal b =
     (let b1 = (if length (pb_Data b) > 0 then putBytes 0x12 (pb_Data b) [] else [])
      in if length (pb_Prefix b) > 0 then putBytes 0x0A (pb_Prefix b) b1 else b1)"

definition w_presence_Marshal :: "w_presence \<Rightarrow> bytes" where
  "w_presence_Marshal p =
     (let b1 = (if wp_Type p \<noteq> 0 then putVarint 0x10 (scast (wp_Type p)) [] else [])
      in putBytes 0x0A (cid_bytes (wp_Cid p)) b1)"

definition w_Marshal :: "w_message \<Rightarrow> bytes" where
  "w_Marshal m =
     (let b1 = (if wm_PendingBytes m \<noteq> 0 then putVarint 0x28 (scast (wm_PendingBytes m)) [] else []);
          b2 = foldr (\<lambda>p. putBytes 0x22 (w_presence_Marshal p)) (wm_BlockPresences m) b1;
          b3 = foldr (\<lambda>b. putBytes 0x1A (w_block_Marshal b)) (wm_Payload m) b2;
          b4 = foldr (putBytes 0x12) (wm_Blocks m) b3
      in putBytes 0x0A (w_wantlist_Marshal (wm_Wantlist m)) b4)"

section \<open>Unmarshalling\<close>

datatype pb_error =
    ErrIntOverflowMessage
  | ErrUnexpectedEOF
  | ErrInvalidLengthMessage
  | ErrUnexpectedEndOfGroupMessage
  | ErrEndGroup
  | ErrIllegalTag
  | ErrWrongWireType
  | ErrIllegalWireType
  | ErrCast

text \<open>The loop that reads a varint into an integer of some width.\<close>

fun readVarint :: "nat \<Rightarrow> 'a::len word \<Rightarrow> bytes \<Rightarrow> pb_error + 'a word \<times> bytes" where
  "readVarint shift acc d =
     (if shift \<ge> 64 then Inl ErrIntOverflowMessage
      else case d of
        [] \<Rightarrow> Inl ErrUnexpectedEOF
      | b # r \<Rightarrow>
          let acc' = acc OR push_bit shift (ucast (b AND 0x7F))
          in if b < 0x80 then Inr (acc', r) else readVarint (shift + 7) acc' r)"

declare readVarint.simps [simp del]

lemma readVarint_shrinks: "readVarint shift acc d = Inr (v, r) \<Longrightarrow> length r < length d"
proof (induction shift acc d rule: readVarint.induct)
  case (1 shift acc d)
  then show ?case
    by (subst (asm) (2) readVarint.simps) (fastforce simp: Let_def split: if_splits list.splits)
qed

text \<open>The length of a field and its bytes; \<open>l\<close> is the length of all the data.\<close>

definition readBytes :: "nat \<Rightarrow> bytes \<Rightarrow> pb_error + bytes \<times> bytes" where
  "readBytes l d =
     (case readVarint 0 (0 :: 64 word) d of
        Inl e \<Rightarrow> Inl e
      | Inr (n, r) \<Rightarrow>
          if sint n < 0 then Inl ErrInvalidLengthMessage
          else if sint (of_nat (l - length r) + n) < 0 then Inl ErrInvalidLengthMessage
          else if unat n > length r then Inl ErrUnexpectedEOF
          else Inr (take (unat n) r, drop (unat n) r))"

lemma readBytes_shrinks: "readBytes l d = Inr (b, r) \<Longrightarrow> length r < length d"
  using readVarint_shrinks by (fastforce simp: readBytes_def split: sum.splits prod.splits if_splits)

text \<open>
  \<open>skipMessage\<close>, how many bytes an unknown field takes: one round of its loop from index \<open>i\<close>, giving
  the new index and depth, and the loop.
\<close>

definition skipNext :: "bytes \<Rightarrow> nat \<Rightarrow> nat \<Rightarrow> pb_error + nat \<times> nat" where
  "skipNext d i depth =
     (case readVarint 0 (0 :: 64 word) (drop i d) of
        Inl e \<Rightarrow> Inl e
      | Inr (wire, r) \<Rightarrow>
          let wireType = unat (wire AND 7);
              i1 = length d - length r
          in if wireType = 0 then
               (case readVarint 0 (0 :: 64 word) r of
                  Inl e \<Rightarrow> Inl e
                | Inr (_, r') \<Rightarrow> Inr (length d - length r', depth))
             else if wireType = 1 then Inr (i1 + 8, depth)
             else if wireType = 2 then
               (case readVarint 0 (0 :: 64 word) r of
                  Inl e \<Rightarrow> Inl e
                | Inr (n, r') \<Rightarrow>
                    if sint n < 0 then Inl ErrInvalidLengthMessage
                    else Inr (length d - length r' + unat n, depth))
             else if wireType = 3 then Inr (i1, depth + 1)
             else if wireType = 4 then (if depth = 0 then Inl ErrUnexpectedEndOfGroupMessage else Inr (i1, depth - 1))
             else if wireType = 5 then Inr (i1 + 4, depth)
             else Inl ErrIllegalWireType)"

lemma skipNext_progress: "skipNext d i depth = Inr (i', depth') \<Longrightarrow> i < i'"
  by (fastforce simp: skipNext_def Let_def dest: readVarint_shrinks split: sum.splits prod.splits if_splits)

function skipFrom :: "bytes \<Rightarrow> nat \<Rightarrow> nat \<Rightarrow> pb_error + nat" where
  "skipFrom d i depth =
     (if i \<ge> length d then Inl ErrUnexpectedEOF
      else case skipNext d i depth of
        Inl e \<Rightarrow> Inl e
      | Inr (i', depth') \<Rightarrow>
          if i' \<ge> 2 ^ 63 then Inl ErrInvalidLengthMessage
          else if depth' = 0 then Inr i'
          else skipFrom d i' depth')"
  by pat_completeness auto
termination
  by (relation "measure (\<lambda>(d, i, _). length d - i)") (auto dest: skipNext_progress)

declare skipFrom.simps [simp del]

definition skipMessage :: "bytes \<Rightarrow> pb_error + nat" where
  "skipMessage d = skipFrom d 0 0"

lemma skipFrom_progress: "skipFrom d i depth = Inr n \<Longrightarrow> i < n"
proof (induction d i depth rule: skipFrom.induct)
  case (1 d i depth)
  show ?case
  proof (cases "skipNext d i depth")
    case (Inr p)
    obtain i' depth' where p: "p = (i', depth')"
      by (cases p)
    have "i < i'"
      using Inr by (auto simp: p dest: skipNext_progress)
    then show ?thesis
      using "1.prems" "1.IH" [OF _ Inr p [symmetric]] Inr by (subst (asm) skipFrom.simps) (auto simp: p split: if_splits)
  qed (use "1.prems" in \<open>auto simp: skipFrom.simps [of d i] split: if_splits\<close>)
qed

text \<open>
  The loop that every \<open>Unmarshal\<close> is: read a tag, check it, read the field by its kind or skip
  it. \<open>kind\<close> says which fields a message has, \<open>onVarint\<close> and \<open>onBytes\<close> what it does with one.
\<close>

datatype field_kind = VarintField | BytesField | UnknownField

function unmarshalFields ::
  "(nat \<Rightarrow> field_kind) \<Rightarrow> (nat \<Rightarrow> uint64 \<Rightarrow> 's \<Rightarrow> 's) \<Rightarrow> (nat \<Rightarrow> bytes \<Rightarrow> 's \<Rightarrow> pb_error + 's) \<Rightarrow> nat \<Rightarrow> bytes \<Rightarrow> 's \<Rightarrow> pb_error + 's" where
  "unmarshalFields kind onVarint onBytes l d m =
     (if d = [] then Inr m
      else case readVarint 0 (0 :: 64 word) d of
        Inl e \<Rightarrow> Inl e
      | Inr (wire, r) \<Rightarrow>
          let fieldNum = ucast (drop_bit 3 wire) :: int32;
              wireType = wire AND 7
          in if wireType = 4 then Inl ErrEndGroup
             else if sint fieldNum \<le> 0 then Inl ErrIllegalTag
             else case kind (unat fieldNum) of
               VarintField \<Rightarrow>
                 if wireType \<noteq> 0 then Inl ErrWrongWireType
                 else (case readVarint 0 0 r of
                         Inl e \<Rightarrow> Inl e
                       | Inr (v, r') \<Rightarrow> unmarshalFields kind onVarint onBytes l r' (onVarint (unat fieldNum) v m))
             | BytesField \<Rightarrow>
                 if wireType \<noteq> 2 then Inl ErrWrongWireType
                 else (case readBytes l r of
                         Inl e \<Rightarrow> Inl e
                       | Inr (b, r') \<Rightarrow>
                           (case onBytes (unat fieldNum) b m of
                              Inl e \<Rightarrow> Inl e
                            | Inr m' \<Rightarrow> unmarshalFields kind onVarint onBytes l r' m'))
             | UnknownField \<Rightarrow>
                 (case skipMessage d of
                    Inl e \<Rightarrow> Inl e
                  | Inr n \<Rightarrow>
                      if 2 ^ 63 \<le> l - length d + n then Inl ErrInvalidLengthMessage
                      else if n > length d then Inl ErrUnexpectedEOF
                      else unmarshalFields kind onVarint onBytes l (drop n d) m))"
  by pat_completeness auto
termination
  by (relation "measure (\<lambda>(_, _, _, _, d, _). length d)")
    (auto dest!: readVarint_shrinks readBytes_shrinks skipFrom_progress simp: skipMessage_def)

declare unmarshalFields.simps [simp del]

definition unmarshal ::
  "(nat \<Rightarrow> field_kind) \<Rightarrow> (nat \<Rightarrow> uint64 \<Rightarrow> 's \<Rightarrow> 's) \<Rightarrow> (nat \<Rightarrow> bytes \<Rightarrow> 's \<Rightarrow> pb_error + 's) \<Rightarrow> bytes \<Rightarrow> 's \<Rightarrow> pb_error + 's" where
  "unmarshal kind onVarint onBytes d m = unmarshalFields kind onVarint onBytes (length d) d m"

text \<open>\<open>castCid\<close> is \<open>cid.Cast\<close>. A number is kept at the width of its field.\<close>

definition entry_kind :: "nat \<Rightarrow> field_kind" where
  "entry_kind n = (if n = 1 then BytesField else if n \<in> {2, 3, 4, 5} then VarintField else UnknownField)"

definition entry_varint :: "nat \<Rightarrow> uint64 \<Rightarrow> w_entry \<Rightarrow> w_entry" where
  "entry_varint n v e =
     (if n = 2 then e\<lparr>we_Priority := ucast v\<rparr>
      else if n = 3 then e\<lparr>we_Cancel := v \<noteq> 0\<rparr>
      else if n = 4 then e\<lparr>we_WantType := ucast v\<rparr>
      else e\<lparr>we_SendDontHave := v \<noteq> 0\<rparr>)"

definition entry_bytes :: "(bytes \<Rightarrow> cid option) \<Rightarrow> nat \<Rightarrow> bytes \<Rightarrow> w_entry \<Rightarrow> pb_error + w_entry" where
  "entry_bytes castCid n b e = (case castCid b of None \<Rightarrow> Inl ErrCast | Some c \<Rightarrow> Inr (e\<lparr>we_Block := c\<rparr>))"

definition w_entry_Unmarshal :: "(bytes \<Rightarrow> cid option) \<Rightarrow> bytes \<Rightarrow> pb_error + w_entry" where
  "w_entry_Unmarshal castCid d =
     unmarshal entry_kind entry_varint (entry_bytes castCid) d
       \<lparr>we_Block = Undef, we_Priority = 0, we_Cancel = False, we_WantType = 0, we_SendDontHave = False\<rparr>"

definition wantlist_kind :: "nat \<Rightarrow> field_kind" where
  "wantlist_kind n = (if n = 1 then BytesField else if n = 2 then VarintField else UnknownField)"

definition wantlist_bytes :: "(bytes \<Rightarrow> cid option) \<Rightarrow> nat \<Rightarrow> bytes \<Rightarrow> w_wantlist \<Rightarrow> pb_error + w_wantlist" where
  "wantlist_bytes castCid n b w =
     (case w_entry_Unmarshal castCid b of
        Inl e \<Rightarrow> Inl e
      | Inr en \<Rightarrow> Inr (w\<lparr>ww_Entries := ww_Entries w @ [en]\<rparr>))"

definition w_wantlist_Unmarshal :: "(bytes \<Rightarrow> cid option) \<Rightarrow> bytes \<Rightarrow> w_wantlist \<Rightarrow> pb_error + w_wantlist" where
  "w_wantlist_Unmarshal castCid d w =
     unmarshal wantlist_kind (\<lambda>n v w. w\<lparr>ww_Full := v \<noteq> 0\<rparr>) (wantlist_bytes castCid) d w"

definition block_kind :: "nat \<Rightarrow> field_kind" where
  "block_kind n = (if n \<in> {1, 2} then BytesField else UnknownField)"

definition block_bytes :: "nat \<Rightarrow> bytes \<Rightarrow> pb_block \<Rightarrow> pb_error + pb_block" where
  "block_bytes n b s = Inr (if n = 1 then s\<lparr>pb_Prefix := b\<rparr> else s\<lparr>pb_Data := b\<rparr>)"

definition w_block_Unmarshal :: "bytes \<Rightarrow> pb_error + pb_block" where
  "w_block_Unmarshal d = unmarshal block_kind (\<lambda>n v s. s) block_bytes d \<lparr>pb_Prefix = [], pb_Data = []\<rparr>"

definition presence_kind :: "nat \<Rightarrow> field_kind" where
  "presence_kind n = (if n = 1 then BytesField else if n = 2 then VarintField else UnknownField)"

definition presence_bytes :: "(bytes \<Rightarrow> cid option) \<Rightarrow> nat \<Rightarrow> bytes \<Rightarrow> w_presence \<Rightarrow> pb_error + w_presence" where
  "presence_bytes castCid n b p = (case castCid b of None \<Rightarrow> Inl ErrCast | Some c \<Rightarrow> Inr (p\<lparr>wp_Cid := c\<rparr>))"

definition w_presence_Unmarshal :: "(bytes \<Rightarrow> cid option) \<Rightarrow> bytes \<Rightarrow> pb_error + w_presence" where
  "w_presence_Unmarshal castCid d =
     unmarshal presence_kind (\<lambda>n v p. p\<lparr>wp_Type := ucast v\<rparr>) (presence_bytes castCid) d \<lparr>wp_Cid = Undef, wp_Type = 0\<rparr>"

definition message_kind :: "nat \<Rightarrow> field_kind" where
  "message_kind n = (if n \<in> {1, 2, 3, 4} then BytesField else if n = 5 then VarintField else UnknownField)"

definition message_bytes :: "(bytes \<Rightarrow> cid option) \<Rightarrow> nat \<Rightarrow> bytes \<Rightarrow> w_message \<Rightarrow> pb_error + w_message" where
  "message_bytes castCid n b m =
     (if n = 1 then
        (case w_wantlist_Unmarshal castCid b (wm_Wantlist m) of
           Inl e \<Rightarrow> Inl e
         | Inr w \<Rightarrow> Inr (m\<lparr>wm_Wantlist := w\<rparr>))
      else if n = 2 then Inr (m\<lparr>wm_Blocks := wm_Blocks m @ [b]\<rparr>)
      else if n = 3 then
        (case w_block_Unmarshal b of
           Inl e \<Rightarrow> Inl e
         | Inr blk \<Rightarrow> Inr (m\<lparr>wm_Payload := wm_Payload m @ [blk]\<rparr>))
      else
        (case w_presence_Unmarshal castCid b of
           Inl e \<Rightarrow> Inl e
         | Inr p \<Rightarrow> Inr (m\<lparr>wm_BlockPresences := wm_BlockPresences m @ [p]\<rparr>)))"

definition w_empty :: w_message where
  "w_empty = \<lparr>wm_Wantlist = \<lparr>ww_Entries = [], ww_Full = False\<rparr>, wm_Blocks = [], wm_Payload = [],
     wm_BlockPresences = [], wm_PendingBytes = 0\<rparr>"

definition w_Unmarshal :: "(bytes \<Rightarrow> cid option) \<Rightarrow> bytes \<Rightarrow> pb_error + w_message" where
  "w_Unmarshal castCid d = unmarshal message_kind (\<lambda>n v m. m\<lparr>wm_PendingBytes := ucast v\<rparr>) (message_bytes castCid) d w_empty"

section \<open>Varints\<close>

lemma bit_len_Suc: "n > 0 \<Longrightarrow> bit_len n = Suc (bit_len (n div 2))"
  by (subst bit_len.simps) simp

lemma bit_len_pos: "n > 0 \<Longrightarrow> bit_len n > 0"
  by (simp add: bit_len_Suc)

lemma bit_len_less: "0 \<le> n \<Longrightarrow> n < 2 ^ k \<Longrightarrow> bit_len n \<le> k"
proof (induction k arbitrary: n)
  case 0
  then show ?case by (simp add: bit_len.simps)
next
  case (Suc k)
  then show ?case
    by (cases "n = 0") (auto simp: bit_len_Suc, simp add: bit_len.simps)
qed

lemma bit_len_shift: "n \<ge> 2 ^ k \<Longrightarrow> bit_len n = k + bit_len (n div 2 ^ k)"
proof (induction k arbitrary: n)
  case (Suc k)
  then have "n > 0"
    by (meson less_le_trans zero_less_numeral zero_less_power)
  moreover have "n div 2 \<ge> 2 ^ k"
    using Suc.prems by (simp add: zdiv_mono1 [of "2 * 2 ^ k" n 2])
  ultimately show ?case
    using Suc.IH [of "n div 2"] by (simp add: bit_len_Suc zdiv_zmult2_eq)
qed simp

lemma bit_127 [simp]: "bit (0x7F :: int) n \<longleftrightarrow> n < 7"
proof -
  have "(0x7F :: int) = mask 7"
    by (simp add: mask_eq_exp_minus_1)
  then show ?thesis
    by (simp only: bit_mask_iff possible_bit_int) simp
qed

lemma bit_128 [simp]: "bit (0x80 :: int) n \<longleftrightarrow> n = 7"
proof -
  have "(0x80 :: int) = 2 ^ 7"
    by simp
  then show ?thesis
    by (simp only: bit_exp_iff possible_bit_int) auto
qed

lemma less_128_iff: "b < 0x80 \<longleftrightarrow> \<not> bit b 7" for b :: "8 word"
proof -
  have "uint b < 256" "0 \<le> uint b"
    using uint_lt2p [of b] by simp_all
  then have "odd (uint b div 128) \<longleftrightarrow> \<not> uint b < 128"
    by presburger
  then have "bit (uint b) 7 \<longleftrightarrow> \<not> uint b < 128"
    by (simp add: bit_iff_odd)
  then show ?thesis
    by (simp add: word_less_def bit_uint_iff)
qed

lemma more_bits: "\<not> (ucast (v AND 0x7F) OR 0x80 :: 8 word) < 0x80" for v :: uint64
  unfolding less_128_iff by (simp add: bit_simps)

lemma low_bits: "(ucast (v AND 0x7F) OR 0x80 :: 8 word) AND 0x7F = ucast (v AND 0x7F)" for v :: uint64
  by (rule bit_word_eqI) (auto simp: bit_simps)

lemma high_bits:
  fixes v :: uint64
  assumes "v < 0x80" "n \<ge> 7"
  shows "\<not> bit v n"
proof -
  have "v AND mask 7 = v"
    using assms(1) by (intro less_mask_eq) simp
  then have "take_bit 7 v = v"
    by (simp only: take_bit_eq_mask)
  then have "bit v n \<longleftrightarrow> bit (take_bit 7 v) n"
    by simp
  then show ?thesis
    using assms(2) by (simp add: bit_take_bit_iff)
qed

lemma low_byte:
  fixes v :: uint64
  assumes "v < 0x80"
  shows "(ucast v :: 8 word) < 0x80" "ucast ((ucast v :: 8 word) AND 0x7F) = v"
proof -
  show "(ucast v :: 8 word) < 0x80"
    using high_bits [OF assms, of 7] by (simp add: less_128_iff bit_simps)
  show "ucast ((ucast v :: 8 word) AND 0x7F) = v"
    by (rule bit_word_eqI) (use high_bits [OF assms] in \<open>auto simp: bit_simps intro: leI le_less_trans ccontr\<close>)
qed

lemma varint_bits:
  fixes v acc :: uint64
  shows "(acc OR push_bit s (ucast (ucast (v AND 0x7F) :: 8 word))) OR push_bit (s + 7) (drop_bit 7 v) = acc OR push_bit s v"
proof (rule bit_word_eqI)
  fix n
  have "n - s = 7 + (n - (s + 7))" if "s \<le> n" "\<not> n - s < 7"
    using that by simp
  then show "bit ((acc OR push_bit s (ucast (ucast (v AND 0x7F) :: 8 word))) OR push_bit (s + 7) (drop_bit 7 v)) n \<longleftrightarrow>
      bit (acc OR push_bit s v) n"
    by (cases "s \<le> n"; cases "n - s < 7") (auto simp: bit_simps)
qed

lemma readVarint_varint:
  assumes "s < 64" "unat v < 2 ^ (64 - s)"
  shows "readVarint s acc (varint v @ r) = Inr (acc OR push_bit s v, r)"
  using assms
proof (induction v arbitrary: s acc rule: varint.induct)
  case (1 v)
  show ?case
  proof (cases "128 \<le> v")
    case True
    have big: "128 \<le> unat v"
      using True by (simp add: word_le_nat_alt)
    have s: "s + 7 < 64"
    proof (rule ccontr)
      assume "\<not> s + 7 < 64"
      then have "(2::nat) ^ (64 - s) \<le> 2 ^ 7"
        by (intro power_increasing) auto
      then show False
        using big "1.prems"(2) by simp
    qed
    have "(2::nat) ^ (64 - s) = 2 ^ (64 - (s + 7) + 7)"
      using s by simp
    also have "\<dots> = 2 ^ (64 - (s + 7)) * 2 ^ 7"
      by (rule power_add)
    finally have "unat (drop_bit 7 v) < 2 ^ (64 - (s + 7))"
      using "1.prems"(2) by (simp add: drop_bit_eq_div unat_div div_less_iff_less_mult)
    then have IH: "readVarint (s + 7) acc' (varint (drop_bit 7 v) @ r) = Inr (acc' OR push_bit (s + 7) (drop_bit 7 v), r)" for acc'
      by (rule "1.IH" [OF True s])
    show ?thesis
      using True "1.prems"(1) more_bits [of v]
      by (subst varint.simps, subst readVarint.simps) (simp add: low_bits IH varint_bits Let_def)
  next
    case False
    then show ?thesis
      using "1.prems"(1) low_byte [of v]
      by (subst varint.simps, subst readVarint.simps) (simp add: Let_def flip: not_less)
  qed
qed

lemma bit_len_or_1:
  assumes "n > 0"
  shows "bit_len (n OR 1) = bit_len n"
proof -
  have "(n OR 1) div 2 = n div 2"
    by (auto simp: or_one_eq)
  moreover have "n OR 1 > 0"
    using assms by (simp add: or_one_eq)
  ultimately show ?thesis
    using assms by (simp add: bit_len_Suc)
qed

lemma sovMessage_small: "v < 0x80 \<Longrightarrow> sovMessage v = 1"
proof -
  assume "v < 0x80"
  then have "uint v < 2 ^ 7"
    by (simp add: word_less_def)
  then have "uint v OR 1 < 2 ^ 7"
    by (auto simp: or_one_eq)
  then have "bit_len (uint v OR 1) \<le> 7"
    by (intro bit_len_less) (auto simp: or_one_eq)
  moreover have "uint v OR 1 \<noteq> 0" "0 \<le> uint v OR 1"
    by (simp_all add: or_eq_0_iff)
  then have "0 < bit_len (uint v OR 1)"
    by (intro bit_len_pos) linarith
  ultimately show ?thesis
    by (simp add: sovMessage_def uint_or)
qed

lemma sovMessage_big:
  assumes "0x80 \<le> v"
  shows "sovMessage v = Suc (sovMessage (drop_bit 7 v))"
proof -
  have v: "uint v \<ge> 2 ^ 7"
    using assms by (simp add: word_le_def)
  then have pos: "uint v > 0" "uint v div 2 ^ 7 > 0"
    by (simp_all add: pos_imp_zdiv_pos_iff)
  have "uint (drop_bit 7 v) = uint v div 2 ^ 7"
    by (simp add: drop_bit_eq_div uint_div)
  then have "bit_len (uint v OR 1) = 7 + bit_len (uint (drop_bit 7 v) OR 1)"
    using pos bit_len_shift [OF v] by (simp add: bit_len_or_1)
  then show ?thesis
    by (simp add: sovMessage_def uint_or)
qed

lemma length_varint: "length (varint v) = sovMessage v"
proof (induction v rule: varint.induct)
  case (1 v)
  then show ?case
    by (subst varint.simps) (simp add: sovMessage_big sovMessage_small not_le)
qed

text \<open>
  Reading into a narrower integer, as the code does for its \<open>int32\<close> fields, is reading into 64
  bits and dropping the upper ones.
\<close>

lemma readVarint_narrow:
  fixes acc :: uint64
  assumes "LENGTH('a::len) \<le> 64"
  shows "readVarint s (ucast acc :: 'a word) d =
    (case readVarint s acc d of Inl e \<Rightarrow> Inl e | Inr (v, r) \<Rightarrow> Inr (ucast v, r))"
proof (induction s acc d rule: readVarint.induct)
  case (1 s acc d)
  show ?case
  proof (cases d)
    case (Cons b r)
    have "ucast acc OR push_bit s (ucast (b AND 0x7F)) = (ucast (acc OR push_bit s (ucast (b AND 0x7F))) :: 'a word)"
      using assms by (intro bit_word_eqI) (auto simp: bit_simps)
    then show ?thesis
      using "1.IH" [OF _ Cons refl] Cons
      by (subst (1 2) readVarint.simps) (auto simp: Let_def)
  qed (subst (1 2) readVarint.simps, simp)
qed

section \<open>Fields\<close>

lemma tag_read: "b < 0x80 \<Longrightarrow> readVarint 0 (0 :: 64 word) (b # r) = Inr (ucast b, r)"
proof -
  assume b: "b < 0x80"
  have "b AND 0x7F = b"
  proof (rule bit_word_eqI)
    fix n
    assume "n < LENGTH(8)"
    then consider "n < 7" | "n = 7"
      by fastforce
    then show "bit (b AND 0x7F) n = bit b n"
      using b by cases (simp_all add: bit_simps less_128_iff)
  qed
  then show ?thesis
    using b by (subst readVarint.simps) simp
qed

lemma readVarint_whole: "readVarint 0 0 (varint v @ r) = Inr (v, r)"
  using readVarint_varint [of 0 v 0 r] unsigned_less [of v, where ?'a = nat] by simp

lemma length_word:
  assumes "n < 2 ^ 63"
  shows "unat (of_nat n :: uint64) = n" "sint (of_nat n :: uint64) = int n"
proof -
  show "unat (of_nat n :: uint64) = n"
    using assms by (simp add: unat_of_nat)
  have "signed_take_bit 63 (int n) = int n"
    using assms by (simp add: signed_take_bit_int_eq_self)
  then show "sint (of_nat n :: uint64) = int n"
    by (simp add: signed_of_nat)
qed

lemma readBytes_putBytes:
  assumes "l < 2 ^ 63" "length (b @ r) \<le> l"
  shows "readBytes l (varint (of_nat (length b)) @ b @ r) = Inr (b, r)"
proof -
  let ?k = "l - length (b @ r)"
  have "length b < 2 ^ 63" "?k + length b < 2 ^ 63"
    using assms by simp_all
  note len = length_word [OF this(1)] length_word [OF this(2), unfolded of_nat_add]
  show ?thesis
    using assms(2) len by (simp add: readBytes_def readVarint_whole)
qed

lemma tag_number:
  fixes tag :: "8 word"
  assumes "tag < 0x80"
  shows "unat (ucast (drop_bit 3 (ucast tag :: uint64)) :: int32) = unat tag div 8"
    "sint (ucast (drop_bit 3 (ucast tag :: uint64)) :: int32) = int (unat tag div 8)"
proof -
  have t: "unat tag < 128"
    using assms by (simp add: word_less_nat_alt)
  have d: "(ucast (drop_bit 3 (ucast tag :: uint64)) :: int32) = of_nat (unat tag div 8)"
    using t by (subst word_unat_eq_iff) (simp add: unsigned_ucast_eq drop_bit_eq_div unat_div unat_of_nat take_bit_nat_eq_self)
  show "unat (ucast (drop_bit 3 (ucast tag :: uint64)) :: int32) = unat tag div 8"
    using t unfolding d by (simp add: unat_of_nat)
  have "signed_take_bit 31 (int (unat tag div 8)) = int (unat tag div 8)"
    using t by (intro signed_take_bit_int_eq_self) auto
  then show "sint (ucast (drop_bit 3 (ucast tag :: uint64)) :: int32) = int (unat tag div 8)"
    unfolding d by (simp add: signed_of_nat)
qed

lemma unmarshal_bytes_field:
  assumes "tag < 0x80" "(ucast tag :: uint64) AND 7 = 2" "unat tag div 8 = n" "n > 0" "kind n = BytesField"
    and "l < 2 ^ 63" "length (b @ r) \<le> l"
  shows "unmarshalFields kind onv onb l (putBytes tag b r) m =
    (case onb n b m of Inl e \<Rightarrow> Inl e | Inr m' \<Rightarrow> unmarshalFields kind onv onb l r m')"
  using assms
  by (subst unmarshalFields.simps)
    (simp add: putBytes_def encodeVarintMessage_def tag_read tag_number readBytes_putBytes Let_def)

lemma unmarshal_varint_field:
  assumes "tag < 0x80" "(ucast tag :: uint64) AND 7 = 0" "unat tag div 8 = n" "n > 0" "kind n = VarintField"
  shows "unmarshalFields kind onv onb l (putVarint tag v r) m = unmarshalFields kind onv onb l r (onv n v m)"
  using assms
  by (subst unmarshalFields.simps)
    (simp add: putVarint_def encodeVarintMessage_def tag_read tag_number readVarint_whole Let_def)

lemma unmarshal_done: "unmarshalFields kind onv onb l [] m = Inr m"
  by (subst unmarshalFields.simps) simp

lemma putVarint_one: "tag # 1 # r = putVarint tag 1 r"
  by (simp add: putVarint_def encodeVarintMessage_def varint.simps [of 1] word_le_def)

lemma length_putBytes: "length (putBytes tag b r) = sized (length b) + length r"
  by (simp add: putBytes_def encodeVarintMessage_def length_varint sized_def)

lemma length_putVarint: "length (putVarint tag v r) = 1 + sovMessage v + length r"
  by (simp add: putVarint_def encodeVarintMessage_def length_varint)

lemma length_foldr_putBytes:
  "length (foldr (\<lambda>x. putBytes tag (f x)) xs r) = sum_list (map (\<lambda>x. sized (length (f x))) xs) + length r"
  by (induction xs) (simp_all add: length_putBytes)

lemma unmarshal_repeated:
  assumes "tag < 0x80" "(ucast tag :: uint64) AND 7 = 2" "unat tag div 8 = n" "n > 0" "kind n = BytesField"
    and "l < 2 ^ 63" "length (foldr (\<lambda>x. putBytes tag (f x)) xs r) \<le> l"
    and "\<And>x m. x \<in> set xs \<Longrightarrow> onb n (f x) m = Inr (add x m)"
  shows "unmarshalFields kind onv onb l (foldr (\<lambda>x. putBytes tag (f x)) xs r) m =
    unmarshalFields kind onv onb l r (fold add xs m)"
  using assms(7,8)
proof (induction xs arbitrary: m)
  case (Cons x xs)
  let ?r = "foldr (\<lambda>x. putBytes tag (f x)) xs r"
  have "length (f x @ ?r) \<le> l"
    using Cons.prems(1) by (simp add: length_putBytes sized_def)
  from unmarshal_bytes_field [where kind = kind and onv = onv and onb = onb and m = m, OF assms(1-6) this] show ?case
    using Cons by (simp add: length_putBytes)
qed simp

section \<open>Sizes are lengths\<close>

lemma length_cid_bytes [simp]: "length (cid_bytes c) = pb_Cid_Size c"
  by (simp add: cid_bytes_def pb_Cid_Size_def)

lemma sovMessage_01 [simp]: "sovMessage 0 = 1" "sovMessage 1 = 1"
  by (simp_all add: sovMessage_small)

lemma length_entry: "length (w_entry_Marshal e) = w_entry_Size e"
  by (simp add: w_entry_Marshal_def w_entry_Size_def Let_def length_putBytes length_putVarint)

lemma length_wantlist: "length (w_wantlist_Marshal w) = w_wantlist_Size w"
  by (simp add: w_wantlist_Marshal_def w_wantlist_Size_def Let_def length_foldr_putBytes length_entry)

lemma length_block: "length (w_block_Marshal b) = w_block_Size b"
  by (simp add: w_block_Marshal_def w_block_Size_def Let_def length_putBytes)

lemma length_presence: "length (w_presence_Marshal p) = w_presence_Size p"
  by (simp add: w_presence_Marshal_def w_presence_Size_def Let_def length_putBytes length_putVarint)

lemma length_Marshal: "length (w_Marshal m) = w_Size m"
  by (simp add: w_Marshal_def w_Size_def Let_def length_putBytes length_putVarint length_foldr_putBytes
      length_foldr_putBytes [where f = "\<lambda>x. x"] length_wantlist length_block length_presence)

section \<open>Round trip of the structures\<close>

text \<open>The identifiers of the structures and what the library makes of their bytes.\<close>

definition casts :: "(bytes \<Rightarrow> cid option) \<Rightarrow> w_message \<Rightarrow> bool" where
  "casts castCid m \<longleftrightarrow>
     (\<forall>c \<in> we_Block ` set (ww_Entries (wm_Wantlist m)) \<union> wp_Cid ` set (wm_BlockPresences m). castCid (cid_bytes c) = Some c)"

lemma trunc_sign [simp]: "ucast (scast p :: uint64) = p" for p :: int32
  by (rule bit_word_eqI) (simp add: bit_simps)

lemma unmarshal_optional:
  assumes "tag < 0x80" "(ucast tag :: uint64) AND 7 = 0" "unat tag div 8 = n" "n > 0" "kind n = VarintField"
  shows "unmarshalFields kind onv onb l (if P then putVarint tag v r else r) m =
    unmarshalFields kind onv onb l r (if P then onv n v m else m)"
  using assms by (simp add: unmarshal_varint_field)

lemma unmarshal_entry:
  assumes "castCid (cid_bytes (we_Block e)) = Some (we_Block e)" "length (w_entry_Marshal e) < 2 ^ 63"
  shows "w_entry_Unmarshal castCid (w_entry_Marshal e) = Inr e"
proof -
  let ?l = "length (w_entry_Marshal e)"
  let ?b1 = "if we_SendDontHave e then putVarint 0x28 1 [] else []"
  let ?b2 = "if we_WantType e \<noteq> 0 then putVarint 0x20 (scast (we_WantType e)) ?b1 else ?b1"
  let ?b3 = "if we_Cancel e then putVarint 0x18 1 ?b2 else ?b2"
  let ?b4 = "if we_Priority e \<noteq> 0 then putVarint 0x10 (scast (we_Priority e)) ?b3 else ?b3"
  have bytes: "w_entry_Marshal e = putBytes 0x0A (cid_bytes (we_Block e)) ?b4"
    by (simp add: w_entry_Marshal_def Let_def putVarint_one)
  then have "length (cid_bytes (we_Block e) @ ?b4) \<le> ?l"
    by (simp only: bytes length_putBytes sized_def length_append)
  note block = unmarshal_bytes_field [where tag = "0x0A" and n = 1, OF _ _ _ _ _ assms(2) this]
  note varint = unmarshal_optional [where tag = "0x10" and n = 2] unmarshal_optional [where tag = "0x18" and n = 3]
    unmarshal_optional [where tag = "0x20" and n = 4] unmarshal_optional [where tag = "0x28" and n = 5]
  have "unmarshalFields entry_kind entry_varint (entry_bytes castCid) ?l (putBytes 0x0A (cid_bytes (we_Block e)) ?b4)
       \<lparr>we_Block = Undef, we_Priority = 0, we_Cancel = False, we_WantType = 0, we_SendDontHave = False\<rparr> = Inr e"
    using assms(1)
    by (subst block) (simp_all add: entry_kind_def entry_bytes_def varint unmarshal_done entry_varint_def)
  then show ?thesis
    by (simp only: w_entry_Unmarshal_def unmarshal_def bytes)
qed

lemma length_repeated: "x \<in> set xs \<Longrightarrow> length (f x) \<le> length (foldr (\<lambda>x. putBytes tag (f x)) xs r)"
  by (induction xs) (auto simp: length_putBytes sized_def)

lemma fold_entries:
  "fold (\<lambda>e w. w\<lparr>ww_Entries := ww_Entries w @ [e]\<rparr>) es w = w\<lparr>ww_Entries := ww_Entries w @ es\<rparr>"
  by (induction es arbitrary: w) simp_all

lemma unmarshal_wantlist:
  assumes "\<And>e. e \<in> set (ww_Entries w) \<Longrightarrow> castCid (cid_bytes (we_Block e)) = Some (we_Block e)"
    and "length (w_wantlist_Marshal w) < 2 ^ 63"
  shows "w_wantlist_Unmarshal castCid (w_wantlist_Marshal w) \<lparr>ww_Entries = [], ww_Full = False\<rparr> = Inr w"
proof -
  let ?l = "length (w_wantlist_Marshal w)"
  let ?b1 = "if ww_Full w then putVarint 0x10 1 [] else []"
  let ?bs = "foldr (\<lambda>e. putBytes 0x0A (w_entry_Marshal e)) (ww_Entries w) ?b1"
  have bytes: "w_wantlist_Marshal w = ?bs"
    by (simp add: w_wantlist_Marshal_def Let_def putVarint_one)
  have "wantlist_bytes castCid 1 (w_entry_Marshal e) w' = Inr (w'\<lparr>ww_Entries := ww_Entries w' @ [e]\<rparr>)"
    if "e \<in> set (ww_Entries w)" for e w'
  proof -
    have "length (w_entry_Marshal e) \<le> ?l"
      unfolding bytes by (rule length_repeated [where f = w_entry_Marshal, OF that])
    then show ?thesis
      using assms(1) [OF that] assms(2) unmarshal_entry [of castCid e] by (simp add: wantlist_bytes_def)
  qed
  moreover have "length ?bs \<le> ?l"
    by (simp add: bytes)
  ultimately have "unmarshalFields wantlist_kind (\<lambda>n v w. w\<lparr>ww_Full := v \<noteq> 0\<rparr>) (wantlist_bytes castCid) ?l ?bs \<lparr>ww_Entries = [], ww_Full = False\<rparr> =
      unmarshalFields wantlist_kind (\<lambda>n v w. w\<lparr>ww_Full := v \<noteq> 0\<rparr>) (wantlist_bytes castCid) ?l ?b1
        (fold (\<lambda>e w. w\<lparr>ww_Entries := ww_Entries w @ [e]\<rparr>) (ww_Entries w) \<lparr>ww_Entries = [], ww_Full = False\<rparr>)"
    using assms(2) by (intro unmarshal_repeated [where n = 1]) (simp_all add: wantlist_kind_def)
  also have "\<dots> = Inr w"
    by (simp add: unmarshal_optional [where n = 2] wantlist_kind_def unmarshal_done fold_entries)
  finally show ?thesis
    by (simp only: w_wantlist_Unmarshal_def unmarshal_def bytes)
qed

lemma unmarshal_block:
  assumes "length (w_block_Marshal b) < 2 ^ 63"
  shows "w_block_Unmarshal (w_block_Marshal b) = Inr b"
proof -
  let ?l = "length (w_block_Marshal b)"
  let ?run = "unmarshalFields block_kind (\<lambda>n v s. s) block_bytes ?l"
  define b1 where "b1 = (if length (pb_Data b) > 0 then putBytes 0x12 (pb_Data b) [] else [])"
  define b2 where "b2 = (if length (pb_Prefix b) > 0 then putBytes 0x0A (pb_Prefix b) b1 else b1)"
  have bytes: "w_block_Marshal b = b2"
    by (simp add: w_block_Marshal_def Let_def b1_def b2_def)
  then have len: "length b2 \<le> ?l" "length b1 \<le> ?l"
    by (simp_all add: b2_def length_putBytes)
  have data: "?run b1 \<lparr>pb_Prefix = p, pb_Data = []\<rparr> = Inr \<lparr>pb_Prefix = p, pb_Data = pb_Data b\<rparr>" for p
  proof (cases "pb_Data b = []")
    case False
    then have "length (pb_Data b @ []) \<le> ?l"
      using len(2) by (simp add: b1_def length_putBytes sized_def)
    note field = unmarshal_bytes_field [where tag = "0x12" and n = 2, OF _ _ _ _ _ assms this]
    show ?thesis
      using False by (simp add: b1_def field block_kind_def block_bytes_def unmarshal_done)
  qed (simp add: b1_def unmarshal_done)
  have "?run b2 \<lparr>pb_Prefix = [], pb_Data = []\<rparr> = Inr b"
  proof (cases "pb_Prefix b = []")
    case False
    then have "length (pb_Prefix b @ b1) \<le> ?l"
      using len(1) by (simp add: b2_def length_putBytes sized_def)
    note field = unmarshal_bytes_field [where tag = "0x0A" and n = 1, OF _ _ _ _ _ assms this]
    show ?thesis
      using False by (simp add: b2_def field data block_kind_def block_bytes_def)
  qed (use data [of "[]"] in \<open>cases b, simp add: b2_def\<close>)
  then show ?thesis
    by (simp only: w_block_Unmarshal_def unmarshal_def bytes)
qed

lemma unmarshal_presence:
  assumes "castCid (cid_bytes (wp_Cid p)) = Some (wp_Cid p)" "length (w_presence_Marshal p) < 2 ^ 63"
  shows "w_presence_Unmarshal castCid (w_presence_Marshal p) = Inr p"
proof -
  let ?l = "length (w_presence_Marshal p)"
  let ?b1 = "if wp_Type p \<noteq> 0 then putVarint 0x10 (scast (wp_Type p)) [] else []"
  have bytes: "w_presence_Marshal p = putBytes 0x0A (cid_bytes (wp_Cid p)) ?b1"
    by (simp add: w_presence_Marshal_def Let_def)
  then have "length (cid_bytes (wp_Cid p) @ ?b1) \<le> ?l"
    by (simp only: bytes length_putBytes sized_def length_append)
  note cid = unmarshal_bytes_field [where tag = "0x0A" and n = 1, OF _ _ _ _ _ assms(2) this]
  have "unmarshalFields presence_kind (\<lambda>n v p. p\<lparr>wp_Type := ucast v\<rparr>) (presence_bytes castCid) ?l
      (putBytes 0x0A (cid_bytes (wp_Cid p)) ?b1) \<lparr>wp_Cid = Undef, wp_Type = 0\<rparr> = Inr p"
    using assms(1)
    by (subst cid) (simp_all add: presence_kind_def presence_bytes_def unmarshal_optional [where n = 2] unmarshal_done)
  then show ?thesis
    by (simp only: w_presence_Unmarshal_def unmarshal_def bytes)
qed

lemma fold_blocks: "fold (\<lambda>b m. m\<lparr>wm_Blocks := wm_Blocks m @ [b]\<rparr>) bs m = m\<lparr>wm_Blocks := wm_Blocks m @ bs\<rparr>"
  by (induction bs arbitrary: m) simp_all

lemma fold_payload: "fold (\<lambda>b m. m\<lparr>wm_Payload := wm_Payload m @ [b]\<rparr>) bs m = m\<lparr>wm_Payload := wm_Payload m @ bs\<rparr>"
  by (induction bs arbitrary: m) simp_all

lemma fold_presences:
  "fold (\<lambda>p m. m\<lparr>wm_BlockPresences := wm_BlockPresences m @ [p]\<rparr>) ps m = m\<lparr>wm_BlockPresences := wm_BlockPresences m @ ps\<rparr>"
  by (induction ps arbitrary: m) simp_all

lemmas fold_message = fold_blocks fold_payload fold_presences

lemma unmarshal_message:
  assumes "casts castCid m" "length (w_Marshal m) < 2 ^ 63"
  shows "w_Unmarshal castCid (w_Marshal m) = Inr m"
proof -
  let ?l = "length (w_Marshal m)"
  let ?b1 = "if wm_PendingBytes m \<noteq> 0 then putVarint 0x28 (scast (wm_PendingBytes m)) [] else []"
  let ?b2 = "foldr (\<lambda>p. putBytes 0x22 (w_presence_Marshal p)) (wm_BlockPresences m) ?b1"
  let ?b3 = "foldr (\<lambda>b. putBytes 0x1A (w_block_Marshal b)) (wm_Payload m) ?b2"
  let ?b4 = "foldr (\<lambda>b. putBytes 0x12 b) (wm_Blocks m) ?b3"
  let ?w = "w_wantlist_Marshal (wm_Wantlist m)"
  let ?run = "unmarshalFields message_kind (\<lambda>n v m. m\<lparr>wm_PendingBytes := ucast v\<rparr>) (message_bytes castCid) ?l"
  have bytes: "w_Marshal m = putBytes 0x0A ?w ?b4"
    by (simp add: w_Marshal_def Let_def)
  then have len: "length (?w @ ?b4) \<le> ?l" "length ?w \<le> ?l" "length ?b4 \<le> ?l"
    by (simp_all only: bytes length_putBytes sized_def length_append)
  have len3: "length ?b3 \<le> ?l" "length ?b2 \<le> ?l"
    using len(3) by (simp_all add: length_foldr_putBytes length_foldr_putBytes [where f = "\<lambda>x. x"])
  have presences: "message_bytes castCid 4 (w_presence_Marshal p) m' = Inr (m'\<lparr>wm_BlockPresences := wm_BlockPresences m' @ [p]\<rparr>)"
    if "p \<in> set (wm_BlockPresences m)" for p m'
    using that assms len3(2) length_repeated [where f = w_presence_Marshal and tag = "0x22" and r = ?b1, OF that]
      unmarshal_presence [of castCid p] by (simp add: message_bytes_def casts_def)
  have blocks: "message_bytes castCid 3 (w_block_Marshal b) m' = Inr (m'\<lparr>wm_Payload := wm_Payload m' @ [b]\<rparr>)"
    if "b \<in> set (wm_Payload m)" for b m'
    using assms(2) len3(1) length_repeated [where f = w_block_Marshal and tag = "0x1A" and r = ?b2, OF that]
      unmarshal_block [of b] by (simp add: message_bytes_def)
  have wants: "message_bytes castCid 1 ?w w_empty = Inr (w_empty\<lparr>wm_Wantlist := wm_Wantlist m\<rparr>)"
    using assms len(2) unmarshal_wantlist [of "wm_Wantlist m" castCid]
    by (simp add: message_bytes_def w_empty_def casts_def)
  have "?run (putBytes 0x0A ?w ?b4) w_empty = ?run ?b4 (w_empty\<lparr>wm_Wantlist := wm_Wantlist m\<rparr>)"
    using wants by (simp add: unmarshal_bytes_field [where n = 1, OF _ _ _ _ _ assms(2) len(1)] message_kind_def)
  also have "\<dots> = ?run ?b3 (w_empty\<lparr>wm_Wantlist := wm_Wantlist m, wm_Blocks := wm_Blocks m\<rparr>)"
    using assms(2) len(3)
    by (subst unmarshal_repeated [where n = 2 and f = "\<lambda>b. b" and add = "\<lambda>b m. m\<lparr>wm_Blocks := wm_Blocks m @ [b]\<rparr>"])
      (simp_all add: message_kind_def message_bytes_def fold_message w_empty_def)
  also have "\<dots> = ?run ?b2 (w_empty\<lparr>wm_Wantlist := wm_Wantlist m, wm_Blocks := wm_Blocks m, wm_Payload := wm_Payload m\<rparr>)"
    using assms(2) len3(1) blocks
    by (subst unmarshal_repeated [where n = 3 and add = "\<lambda>b m. m\<lparr>wm_Payload := wm_Payload m @ [b]\<rparr>"])
      (simp_all add: message_kind_def fold_message w_empty_def)
  also have "\<dots> = ?run ?b1 (w_empty\<lparr>wm_Wantlist := wm_Wantlist m, wm_Blocks := wm_Blocks m, wm_Payload := wm_Payload m,
      wm_BlockPresences := wm_BlockPresences m\<rparr>)"
    using assms(2) len3(2) presences
    by (subst unmarshal_repeated [where n = 4 and add = "\<lambda>b m. m\<lparr>wm_BlockPresences := wm_BlockPresences m @ [b]\<rparr>"])
      (simp_all add: message_kind_def fold_message w_empty_def)
  also have "\<dots> = Inr m"
    by (cases m) (simp add: unmarshal_optional [where n = 5] message_kind_def unmarshal_done w_empty_def)
  finally show ?thesis
    by (simp only: w_Unmarshal_def unmarshal_def bytes)
qed

section \<open>Numbers of the enumerations\<close>

text \<open>
  The rest of the development has only the declared constants of the two enumerations; a
  structure with another number has no counterpart there.
\<close>

definition want_of_num :: "int32 \<Rightarrow> want_type option" where
  "want_of_num n = (if n = 0 then Some Wantlist_Block else if n = 1 then Some Wantlist_Have else None)"

definition presence_of_num :: "int32 \<Rightarrow> presence_type option" where
  "presence_of_num n = (if n = 0 then Some Presence_Have else if n = 1 then Some Presence_DontHave else None)"

definition w_of_entry :: "pb_entry \<Rightarrow> w_entry" where
  "w_of_entry e = \<lparr>we_Block = pb_Block e, we_Priority = pb_Priority e, we_Cancel = pb_Cancel e,
     we_WantType = ucast (wantTypeNum (pb_WantType e)), we_SendDontHave = pb_SendDontHave e\<rparr>"

definition w_of_presence :: "pb_presence \<Rightarrow> w_presence" where
  "w_of_presence p = \<lparr>wp_Cid = pb_Cid p, wp_Type = ucast (presenceNum (pb_Type p))\<rparr>"

definition w_of_pb :: "pb_message \<Rightarrow> w_message" where
  "w_of_pb m = \<lparr>wm_Wantlist = \<lparr>ww_Entries = map w_of_entry (pb_Entries m), ww_Full = pb_Full m\<rparr>,
     wm_Blocks = pb_Blocks m, wm_Payload = pb_Payload m,
     wm_BlockPresences = map w_of_presence (pb_BlockPresences m), wm_PendingBytes = pb_PendingBytes m\<rparr>"

definition entry_of_w :: "w_entry \<Rightarrow> pb_entry option" where
  "entry_of_w e = map_option (\<lambda>t. \<lparr>pb_Block = we_Block e, pb_Priority = we_Priority e, pb_Cancel = we_Cancel e,
     pb_WantType = t, pb_SendDontHave = we_SendDontHave e\<rparr>) (want_of_num (we_WantType e))"

definition presence_of_w :: "w_presence \<Rightarrow> pb_presence option" where
  "presence_of_w p = map_option (\<lambda>t. \<lparr>pb_Cid = wp_Cid p, pb_Type = t\<rparr>) (presence_of_num (wp_Type p))"

definition pb_of_w :: "w_message \<Rightarrow> pb_message option" where
  "pb_of_w m =
     (case (those (map entry_of_w (ww_Entries (wm_Wantlist m))), those (map presence_of_w (wm_BlockPresences m))) of
        (Some es, Some ps) \<Rightarrow>
          Some \<lparr>pb_Entries = es, pb_Full = ww_Full (wm_Wantlist m), pb_Blocks = wm_Blocks m,
                pb_Payload = wm_Payload m, pb_BlockPresences = ps, pb_PendingBytes = wm_PendingBytes m\<rparr>
      | _ \<Rightarrow> None)"

lemma entry_w_entry [simp]: "entry_of_w (w_of_entry e) = Some e"
  by (cases e, cases "pb_WantType e") (simp_all add: entry_of_w_def w_of_entry_def want_of_num_def)

lemma presence_w_presence [simp]: "presence_of_w (w_of_presence p) = Some p"
  by (cases p, cases "pb_Type p") (simp_all add: presence_of_w_def w_of_presence_def presence_of_num_def)

lemma those_map_Some: "(\<And>x. x \<in> set xs \<Longrightarrow> f x = Some (g x)) \<Longrightarrow> those (map f xs) = Some (map g xs)"
  by (induction xs) auto

lemma pb_w_pb [simp]: "pb_of_w (w_of_pb m) = Some m"
  by (cases m) (simp add: pb_of_w_def w_of_pb_def those_map_Some [where g = id] comp_def)

section \<open>Framing\<close>

text \<open>\<open>write\<close>: the length, then the message.\<close>

definition write_msg :: "w_message \<Rightarrow> bytes" where
  "write_msg m = varint (of_nat (w_Size m)) @ w_Marshal m"

definition ToNetV0 :: "cid order \<Rightarrow> message \<Rightarrow> bytes" where
  "ToNetV0 ord m = write_msg (w_of_pb (ToProtoV0 ord m))"

definition ToNetV1 :: "cidlib \<Rightarrow> cid order \<Rightarrow> message \<Rightarrow> bytes" where
  "ToNetV1 lib ord m = write_msg (w_of_pb (ToProtoV1 lib ord m))"

datatype wire_error =
    Read_EOF
  | Read_Error
  | Unmarshal_Error pb_error
  | Undeclared_Number
  | Message_Error msg_error

text \<open>
  \<open>readMsg\<close> is \<open>ReadMsg\<close> of the reader: it takes a message off the data that has arrived and
  leaves the rest. The parts of go-cid, go-block-format and go-msgio come together.
\<close>

record wirelib =
  wl_cids :: cidlib
  wl_castCid :: "bytes \<Rightarrow> cid option"
  wl_readMsg :: "bytes \<Rightarrow> wire_error + bytes \<times> bytes"

definition FromMsgReader :: "wirelib \<Rightarrow> bytes \<Rightarrow> wire_error + message \<times> bytes" where
  "FromMsgReader lib d =
     (case wl_readMsg lib d of
        Inl e \<Rightarrow> Inl e
      | Inr (msg, rest) \<Rightarrow>
          (case w_Unmarshal (wl_castCid lib) msg of
             Inl e \<Rightarrow> Inl (Unmarshal_Error e)
           | Inr w \<Rightarrow>
               (case pb_of_w w of
                  None \<Rightarrow> Inl Undeclared_Number
                | Some pb \<Rightarrow>
                    (case newMessageFromProto (wl_cids lib) pb of
                       Inl e \<Rightarrow> Inl (Message_Error e)
                     | Inr m \<Rightarrow> Inr (m, rest)))))"

text \<open>What the reader documents: a message of at most \<open>maxSize\<close> bytes behind its length is returned.\<close>

definition reads_frames :: "nat \<Rightarrow> wirelib \<Rightarrow> bool" where
  "reads_frames maxSize lib \<longleftrightarrow>
     (\<forall>msg rest. length msg \<le> maxSize \<longrightarrow> wl_readMsg lib (varint (of_nat (length msg)) @ msg @ rest) = Inr (msg, rest))"

text \<open>The messages that can be put on the wire with their identifiers and blocks.\<close>

definition sendable :: "wirelib \<Rightarrow> message \<Rightarrow> bool" where
  "sendable lib m \<longleftrightarrow> msg_inv m \<and>
     (\<forall>c. c |\<in>| fmdom (m_wantlist m) |\<union>| fmdom (m_presences m) \<longrightarrow> c \<noteq> Undef \<and> wl_castCid lib (cid_bytes c) = Some c) \<and>
     (\<forall>c b. fmlookup (m_blocks m) c = Some b \<longrightarrow> block_valid (wl_cids lib) b)"

lemma presence_cids:
  "go_range ord \<Longrightarrow> fst ` set (BlockPresences ord m) = fset (fmdom (m_presences m))"
  by (simp add: BlockPresences_eq image_image go_range.ord_set)

lemma wantlist_cids:
  "go_range ord \<Longrightarrow> msg_inv m \<Longrightarrow> Cid ` set (msg_Wantlist ord m) = fset (fmdom (m_wantlist m))"
  using map_key_range_values [of ord "m_wantlist m" Cid] msg_inv_entryD [of m] go_range.ord_set [of ord]
  by (metis list.set_map msg_Wantlist_def)

lemma casts_message:
  assumes "sendable lib m" "go_range ord"
  shows "casts (wl_castCid lib) (w_of_pb (ToProtoV1 (wl_cids lib) ord m))"
proof -
  have inv: "msg_inv m"
    using assms(1) by (simp add: sendable_def)
  let ?w = "w_of_pb (ToProtoV1 (wl_cids lib) ord m)"
  have "we_Block ` set (ww_Entries (wm_Wantlist ?w)) = fset (fmdom (m_wantlist m))"
    by (simp add: w_of_pb_def ToProtoV1_def image_image w_of_entry_def ToPB_def wantlist_cids [OF assms(2) inv])
  moreover have "wp_Cid ` set (wm_BlockPresences ?w) = fset (fmdom (m_presences m))"
    by (simp add: w_of_pb_def ToProtoV1_def image_image w_of_presence_def case_prod_beta presence_cids [OF assms(2)])
  ultimately show ?thesis
    using assms(1) unfolding casts_def by (auto simp: sendable_def)
qed

lemma wire_message:
  assumes "sendable lib m" "go_range ord" "reads_frames maxSize lib" "maxSize < 2 ^ 63"
    and "w_Size (w_of_pb (ToProtoV1 (wl_cids lib) ord m)) \<le> maxSize"
  shows "FromMsgReader lib (ToNetV1 (wl_cids lib) ord m @ rest) = Inr (m, rest)"
proof -
  let ?w = "w_of_pb (ToProtoV1 (wl_cids lib) ord m)"
  have "wl_readMsg lib (ToNetV1 (wl_cids lib) ord m @ rest) = Inr (w_Marshal ?w, rest)"
    using assms(3,5) by (simp add: ToNetV1_def write_msg_def reads_frames_def flip: length_Marshal)
  moreover have "w_Unmarshal (wl_castCid lib) (w_Marshal ?w) = Inr ?w"
    using assms(4,5) by (intro unmarshal_message casts_message [OF assms(1,2)]) (simp add: length_Marshal)
  moreover have "newMessageFromProto (wl_cids lib) (ToProtoV1 (wl_cids lib) ord m) = Inr m"
    using assms(1) by (intro message_proto_roundtrip [OF _ assms(2)]) (auto simp: sendable_def)
  ultimately show ?thesis
    by (simp add: FromMsgReader_def)
qed

section \<open>Properties\<close>

text \<open>
  C29. A message survives the wire. Take a well-formed message whose identifiers go-cid accepts
  and whose blocks are valid, of at most the reader's maximal size. The bytes \<open>ToNetV1\<close> writes
  for it, in whatever order the maps are visited and whatever follows on the stream, are read
  back by \<open>FromMsgReader\<close> as the same message, and what follows is left on the stream.
\<close>

theorem wire_roundtrip:
  assumes "sendable lib m" "go_range ord" "reads_frames maxSize lib" "maxSize < 2 ^ 63"
    and "w_Size (w_of_pb (ToProtoV1 (wl_cids lib) ord m)) \<le> maxSize"
  shows "FromMsgReader lib (ToNetV1 (wl_cids lib) ord m @ rest) = Inr (m, rest)"
  by (rule wire_message) (fact assms)+

text \<open>A reader as go-msgio documents it, and identifiers that are any non-empty bytes.\<close>

definition example_readMsg :: "nat \<Rightarrow> bytes \<Rightarrow> wire_error + bytes \<times> bytes" where
  "example_readMsg maxSize d =
     (if d = [] then Inl Read_EOF
      else case readVarint 0 (0 :: 64 word) d of
        Inl _ \<Rightarrow> Inl Read_Error
      | Inr (n, r) \<Rightarrow>
          if unat n > maxSize \<or> unat n > length r then Inl Read_Error else Inr (take (unat n) r, drop (unat n) r))"

definition example_wirelib :: wirelib where
  "example_wirelib = \<lparr>wl_cids = example_lib,
     wl_castCid = (\<lambda>b. if b = [] then None else Some (map (\<lambda>x. char_of (unat x)) b)),
     wl_readMsg = example_readMsg 4194304\<rparr>"

lemma example_reads: "reads_frames 4194304 example_wirelib"
proof -
  have "unat (of_nat (length msg) :: uint64) = length msg" if "length msg \<le> 4194304" for msg :: bytes
    using that length_word [of "length msg"] by simp
  moreover have "varint v \<noteq> []" for v
    by (subst varint.simps) simp
  ultimately show ?thesis
    by (simp add: reads_frames_def example_wirelib_def example_readMsg_def readVarint_whole)
qed

lemma example_casts: "c \<noteq> Undef \<Longrightarrow> wl_castCid example_wirelib (cid_bytes c) = Some c"
proof -
  have "unat (of_char x :: 8 word) = of_char x" for x
  proof -
    have "unat (of_nat (of_char x) :: 8 word) = of_char x"
      by (simp add: unat_of_nat)
    then show ?thesis
      by (simp only: of_nat_of_char)
  qed
  then show "c \<noteq> Undef \<Longrightarrow> ?thesis"
    by (simp add: example_wirelib_def cid_bytes_def comp_def)
qed

lemma example_wirelib_cids: "wl_cids example_wirelib = example_lib"
  by (simp add: example_wirelib_def)

lemma example_sendable: "sendable example_wirelib example_msg"
proof -
  have "msg_inv example_msg"
    unfolding example_msg_def AddHave_def msg_Cancel_def AddEntry_def by (intro inv_intros)
  moreover have "block_valid example_lib \<lparr>block_cid = ''A'', RawData = [65]\<rparr>"
    by code_simp
  then have "block_valid example_lib b" if "fmlookup (m_blocks example_msg) c = Some b" for c b
    using that
    by (auto simp: example_msg_def AddHave_def AddBlockPresence_def AddBlock_def msg_Cancel_def
        AddEntry_def newMsg_def split: if_splits option.splits)
  moreover have "Undef |\<notin>| fmdom (m_wantlist example_msg)" "Undef |\<notin>| fmdom (m_presences example_msg)"
    by code_simp+
  then have "c \<noteq> Undef" if "c |\<in>| fmdom (m_wantlist example_msg) |\<union>| fmdom (m_presences example_msg)" for c
    using that by blast
  ultimately show ?thesis
    using example_casts unfolding sendable_def example_wirelib_cids by blast
qed

lemma example_size: "w_Size (w_of_pb (ToProtoV1 (wl_cids example_wirelib) key_order example_msg)) \<le> 4194304"
proof -
  have "ToProtoV1 example_lib key_order example_msg =
      \<lparr>pb_Entries = [\<lparr>pb_Block = ''w'', pb_Priority = 5, pb_Cancel = False, pb_WantType = Wantlist_Have, pb_SendDontHave = True\<rparr>,
         \<lparr>pb_Block = ''x'', pb_Priority = 0, pb_Cancel = True, pb_WantType = Wantlist_Block, pb_SendDontHave = False\<rparr>],
       pb_Full = True, pb_Blocks = [], pb_Payload = [\<lparr>pb_Prefix = [], pb_Data = [65]\<rparr>],
       pb_BlockPresences = [\<lparr>pb_Cid = ''h'', pb_Type = Presence_Have\<rparr>], pb_PendingBytes = 0\<rparr>"
    by code_simp
  then show ?thesis
    by (simp add: example_wirelib_cids w_Size_def w_of_pb_def w_wantlist_Size_def w_of_entry_def w_of_presence_def w_entry_Size_def
        w_block_Size_def w_presence_Size_def sized_def pb_Cid_Size_def sovMessage_small)
qed

theorem wire_roundtrip_witness:
  "FromMsgReader example_wirelib (ToNetV1 (wl_cids example_wirelib) key_order example_msg @ [7]) = Inr (example_msg, [7])"
  by (rule wire_roundtrip [OF example_sendable go_range_key_order example_reads _ example_size]) simp

text \<open>
  The buffer a message is marshalled into is filled exactly. For the whole message and each
  of its parts, whatever the values, the bytes written are as many as \<open>Size()\<close> said, which is
  what the buffer was made for and what is written in front of the message; and the size of an
  entry that the message queue adds up is the number of bytes of that entry.
\<close>

theorem marshal_fills_buffer:
  "length (w_Marshal m) = w_Size m \<and> length (w_wantlist_Marshal w) = w_wantlist_Size w \<and>
   length (w_entry_Marshal e) = w_entry_Size e \<and> length (w_block_Marshal b) = w_block_Size b \<and>
   length (w_presence_Marshal p) = w_presence_Size p \<and> length (varint v) = sovMessage v \<and>
   Entry_Size en = length (w_entry_Marshal (w_of_entry (ToPB en)))"
proof -
  have "scast (ucast (wantTypeNum t) :: int32) = wantTypeNum t" "(ucast (wantTypeNum t) :: int32) = 0 \<longleftrightarrow> wantTypeNum t = 0" for t
    by (cases t; simp)+
  then have "Entry_Size en = w_entry_Size (w_of_entry (ToPB en))"
    by (simp add: Entry_Size_def pb_entry_Size_def w_entry_Size_def w_of_entry_def sized_def Let_def)
  then show ?thesis
    by (simp add: length_Marshal length_wantlist length_entry length_block length_presence length_varint)
qed

section \<open>Comparing keys\<close>

text \<open>\<open>Equal\<close> of the key type of the protobuf structures: it compares the receiver with itself.\<close>

definition pb_Cid_Equal :: "cid \<Rightarrow> cid \<Rightarrow> bool" where
  "pb_Cid_Equal c other \<longleftrightarrow> c = c"

theorem distinct_keys_equal: "pb_Cid_Equal ''a'' ''b''"
  by (simp add: pb_Cid_Equal_def)

end
