(* ===== verification/Network.thy ===== *)
theory Network
  imports Wire Connect_Events
begin

text \<open>
  Bitswap over libp2p (\<open>network/ipfs_impl.go\<close>, \<open>network/options.go\<close>, \<open>network/internal/default.go\<close>,
  the types of \<open>network/interface.go\<close>): protocols and their prefixes, streams, sending with
  retries, and the loop that reads messages off a stream.

  libp2p is a parameter: what its calls return, and what the clock and the contexts show, is the
  argument \<open>attempt\<close> of an operation. The calls made on it are recorded in order. A protocol list is a Go
  slice; \<open>processSettings\<close> writes into the array it shares with others, so slices are addresses in
  a store.
\<close>

section \<open>Protocols and settings\<close>

type_synonym protocol = string
type_synonym slice = nat
type_synonym slices = "slice \<Rightarrow> protocol list"

definition ProtocolBitswapNoVers :: protocol where
  "ProtocolBitswapNoVers = ''/ipfs/bitswap''"

definition ProtocolBitswapOneZero :: protocol where
  "ProtocolBitswapOneZero = ''/ipfs/bitswap/1.0.0''"

definition ProtocolBitswapOneOne :: protocol where
  "ProtocolBitswapOneOne = ''/ipfs/bitswap/1.1.0''"

definition ProtocolBitswap :: protocol where
  "ProtocolBitswap = ''/ipfs/bitswap/1.2.0''"

text \<open>The variable \<open>internal.DefaultProtocols\<close>, and the store when the program starts.\<close>

definition DefaultProtocols :: slice where
  "DefaultProtocols = 0"

definition initial_slices :: slices where
  "initial_slices a = (if a = DefaultProtocols
     then [ProtocolBitswap, ProtocolBitswapOneOne, ProtocolBitswapOneZero, ProtocolBitswapNoVers] else [])"

record settings =
  ProtocolPrefix :: protocol
  SupportedProtocols :: slice

type_synonym net_opt = "settings \<Rightarrow> settings"

definition Prefix :: "protocol \<Rightarrow> net_opt" where
  "Prefix prefix s = s\<lparr>ProtocolPrefix := prefix\<rparr>"

definition SupportedProtocols_opt :: "slice \<Rightarrow> net_opt" where
  "SupportedProtocols_opt protos s = s\<lparr>SupportedProtocols := protos\<rparr>"

definition processSettings :: "net_opt list \<Rightarrow> slices \<Rightarrow> settings \<times> slices" where
  "processSettings opts sl =
     (let s = fold (\<lambda>opt s. opt s) opts \<lparr>ProtocolPrefix = [], SupportedProtocols = DefaultProtocols\<rparr>
      in (s, sl(SupportedProtocols s := map (\<lambda>proto. ProtocolPrefix s @ proto) (sl (SupportedProtocols s)))))"

section \<open>State\<close>

record net_stats =
  MessagesSent :: uint64
  MessagesRecvd :: uint64

record bsnet =
  bn_stats :: net_stats
  bn_host :: peer
  connectEvtMgr :: cem
  protocolBitswapNoVers :: protocol
  protocolBitswapOneZero :: protocol
  protocolBitswapOneOne :: protocol
  protocolBitswap :: protocol
  supportedProtocols :: slice
  bn_receivers :: nat

definition NewFromIpfsHost :: "peer \<Rightarrow> net_opt list \<Rightarrow> slices \<Rightarrow> bsnet \<times> slices" where
  "NewFromIpfsHost host opts sl =
     (let (s, sl') = processSettings opts sl
      in (\<lparr>bn_stats = \<lparr>MessagesSent = 0, MessagesRecvd = 0\<rparr>, bn_host = host, connectEvtMgr = newConnectEventManager,
           protocolBitswapNoVers = ProtocolPrefix s @ ProtocolBitswapNoVers,
           protocolBitswapOneZero = ProtocolPrefix s @ ProtocolBitswapOneZero,
           protocolBitswapOneOne = ProtocolPrefix s @ ProtocolBitswapOneOne,
           protocolBitswap = ProtocolPrefix s @ ProtocolBitswap,
           supportedProtocols = SupportedProtocols s, bn_receivers = 0\<rparr>, sl'))"

record stream =
  st_id :: nat
  st_protocol :: protocol

record sender_opts =
  MaxRetries :: int
  SendTimeout :: int
  SendErrorBackoff :: int

record sender =
  sn_to :: peer
  sn_stream :: "stream option"
  sn_connected :: bool
  sn_opts :: sender_opts

text \<open>\<open>ErrNotSupported\<close> is any error that \<open>errors.Is\<close> takes for the one of multistream.\<close>

datatype net_error =
    ErrNotSupported
  | ErrUnrecognizedProtocol protocol
  | ErrContext
  | ErrLibp2p string

datatype net_call =
    Host_Connect peer
  | Host_NewStream peer "protocol list"
  | Host_SetStreamHandler protocol
  | Host_Notify
  | Host_StopNotify
  | Host_AddAddrs peer
  | Stream_SetWriteDeadline nat "int option"
  | Stream_Write nat bytes
  | Stream_Reset nat
  | Stream_Close nat
  | After_Backoff int
  | Receiver_Message nat peer message
  | Receiver_Error nat wire_error

text \<open>
  What one attempt to send meets: the results of connecting, of opening a stream and of
  writing, the clock at the start, after connecting and when the deadline is set, and whether
  the caller's context has ended when the attempt has failed or during the wait after it.
\<close>

record attempt =
  at_connect :: "net_error option"
  at_stream :: "net_error + stream"
  at_write :: "net_error option"
  at_start :: int
  at_since :: int
  at_now :: int
  at_ctxDone :: bool
  at_waitDone :: bool

section \<open>Sending\<close>

definition SupportsHave :: "protocol \<Rightarrow> bsnet \<Rightarrow> bool" where
  "SupportsHave proto n \<longleftrightarrow>
     \<not> (proto = protocolBitswapOneOne n \<or> proto = protocolBitswapOneZero n \<or> proto = protocolBitswapNoVers n)"

text \<open>
  The message in the format of the stream's protocol, written with a deadline; \<open>w\<close> is the result
  of the write, \<open>ctxDeadline\<close> the deadline of the context, if it has one.
\<close>

definition msgToStream ::
  "cidlib \<Rightarrow> cid order \<Rightarrow> int option \<Rightarrow> int \<Rightarrow> net_error option \<Rightarrow> stream \<Rightarrow> message \<Rightarrow> int \<Rightarrow> bsnet \<Rightarrow>
   net_error option \<times> net_call list \<times> bsnet" where
  "msgToStream lib ord ctxDeadline now w s msg timeout n =
     (let deadline = now + timeout;
          deadline1 = (case ctxDeadline of Some dl \<Rightarrow> if dl < deadline then dl else deadline | None \<Rightarrow> deadline);
          c1 = [Stream_SetWriteDeadline (st_id s) (Some deadline1)];
          n1 = n\<lparr>bn_stats := (bn_stats n)\<lparr>MessagesSent := MessagesSent (bn_stats n) + 1\<rparr>\<rparr>;
          c3 = [Stream_SetWriteDeadline (st_id s) None]
      in if st_protocol s = protocolBitswapOneOne n \<or> st_protocol s = protocolBitswap n then
           let c2 = c1 @ [Stream_Write (st_id s) (ToNetV1 lib ord msg)]
           in (case w of Some e \<Rightarrow> (Some e, c2, n) | None \<Rightarrow> (None, c2 @ c3, n1))
         else if st_protocol s = protocolBitswapOneZero n \<or> st_protocol s = protocolBitswapNoVers n then
           let c2 = c1 @ [Stream_Write (st_id s) (ToNetV0 ord msg)]
           in (case w of Some e \<Rightarrow> (Some e, c2, n) | None \<Rightarrow> (None, c2 @ c3, n1))
         else (Some (ErrUnrecognizedProtocol (st_protocol s)), c1, n))"

text \<open>
  The network, the sender and the calls made so far. A sender that is connected has a stream.
\<close>

record sending =
  sg_net :: bsnet
  sg_sender :: sender
  sg_calls :: "net_call list"

definition calls_made :: "net_call list \<Rightarrow> sending \<Rightarrow> sending" where
  "calls_made cs s = s\<lparr>sg_calls := sg_calls s @ cs\<rparr>"

definition sn_Connect :: "slices \<Rightarrow> attempt \<Rightarrow> sending \<Rightarrow> (net_error + stream) \<times> sending" where
  "sn_Connect sl a s =
     (let sn = sg_sender s;
          fresh = (let s1 = calls_made [Host_Connect (sn_to sn)] s
                   in case at_connect a of
                        Some e \<Rightarrow> (Inl e, s1)
                      | None \<Rightarrow>
                          let s2 = calls_made [Host_NewStream (sn_to sn) (sl (supportedProtocols (sg_net s)))] s1
                          in (case at_stream a of
                                Inl e \<Rightarrow> (Inl e, s2)
                              | Inr st \<Rightarrow> (Inr st, s2\<lparr>sg_sender := sn\<lparr>sn_stream := Some st, sn_connected := True\<rparr>\<rparr>)))
      in if sn_connected sn then (case sn_stream sn of Some st \<Rightarrow> (Inr st, s) | None \<Rightarrow> fresh)
         else fresh)"

definition sn_Reset :: "sending \<Rightarrow> sending" where
  "sn_Reset s =
     (case sn_stream (sg_sender s) of
        Some st \<Rightarrow> calls_made [Stream_Reset (st_id st)] (s\<lparr>sg_sender := (sg_sender s)\<lparr>sn_connected := False\<rparr>\<rparr>)
      | None \<Rightarrow> s)"

definition sn_send :: "cidlib \<Rightarrow> cid order \<Rightarrow> slices \<Rightarrow> int option \<Rightarrow> message \<Rightarrow> attempt \<Rightarrow> sending \<Rightarrow> net_error option \<times> sending" where
  "sn_send lib ord sl ctxDeadline msg a s =
     (case sn_Connect sl a s of
        (Inl e, s1) \<Rightarrow> (Some e, s1)
      | (Inr st, s1) \<Rightarrow>
          let timeout = SendTimeout (sn_opts (sg_sender s1)) - (at_since a - at_start a);
              (r, cs, n) = msgToStream lib ord ctxDeadline (at_now a) (at_write a) st msg timeout (sg_net s1)
          in (r, calls_made cs (s1\<lparr>sg_net := n\<rparr>)))"

definition markUnresponsive :: "sending \<Rightarrow> sending" where
  "markUnresponsive s =
     s\<lparr>sg_net := (sg_net s)\<lparr>connectEvtMgr := MarkUnresponsive (sn_to (sg_sender s)) (connectEvtMgr (sg_net s))\<rparr>\<rparr>"

text \<open>The loop of \<open>multiAttempt\<close> from its \<open>i\<close>-th round; \<open>envs\<close> is what the attempts meet.\<close>

function multiAttemptFrom ::
  "sender_opts \<Rightarrow> (nat \<Rightarrow> attempt) \<Rightarrow> (attempt \<Rightarrow> sending \<Rightarrow> net_error option \<times> sending) \<Rightarrow> int \<Rightarrow> net_error option \<Rightarrow> sending \<Rightarrow>
   net_error option \<times> sending" where
  "multiAttemptFrom opts envs fn i err s =
     (if i < MaxRetries opts then
        let a = envs (nat i)
        in case fn a s of
             (None, s1) \<Rightarrow> (None, s1)
           | (Some e, s1) \<Rightarrow>
               if at_ctxDone a then (Some ErrContext, s1)
               else if e = ErrNotSupported then (Some e, markUnresponsive s1)
               else
                 let s2 = sn_Reset s1
                 in if i = MaxRetries opts - 1 then (Some e, markUnresponsive s2)
                    else if at_waitDone a then (Some ErrContext, s2)
                    else multiAttemptFrom opts envs fn (i + 1) (Some e) (calls_made [After_Backoff (SendErrorBackoff opts)] s2)
      else (err, s))"
  by pat_completeness auto
termination
  by (relation "measure (\<lambda>(opts, envs, fn, i, err, s). nat (MaxRetries opts - i))") auto

declare multiAttemptFrom.simps [simp del]

definition multiAttempt ::
  "(nat \<Rightarrow> attempt) \<Rightarrow> (attempt \<Rightarrow> sending \<Rightarrow> net_error option \<times> sending) \<Rightarrow> sending \<Rightarrow> net_error option \<times> sending" where
  "multiAttempt envs fn s = multiAttemptFrom (sn_opts (sg_sender s)) envs fn 0 None s"

definition SendMsg :: "cidlib \<Rightarrow> cid order \<Rightarrow> slices \<Rightarrow> int option \<Rightarrow> (nat \<Rightarrow> attempt) \<Rightarrow> message \<Rightarrow> sending \<Rightarrow> net_error option \<times> sending" where
  "SendMsg lib ord sl ctxDeadline envs msg s = multiAttempt envs (sn_send lib ord sl ctxDeadline msg) s"

definition sn_Close :: "sending \<Rightarrow> sending" where
  "sn_Close s = (case sn_stream (sg_sender s) of Some st \<Rightarrow> calls_made [Stream_Close (st_id st)] s | None \<Rightarrow> s)"

definition maxSendTimeout :: int where
  "maxSendTimeout = 120 * 10 ^ 9"

definition minSendTimeout :: int where
  "minSendTimeout = 10 * 10 ^ 9"

definition sendLatency :: int where
  "sendLatency = 2 * 10 ^ 9"

definition minSendRate :: int where
  "minSendRate = 100 * 1000 div 8"

definition setDefaultOpts :: "sender_opts \<Rightarrow> sender_opts" where
  "setDefaultOpts opts =
     (let c1 = (if MaxRetries opts = 0 then opts\<lparr>MaxRetries := 3\<rparr> else opts);
          c2 = (if SendTimeout opts = 0 then c1\<lparr>SendTimeout := maxSendTimeout\<rparr> else c1)
      in if SendErrorBackoff opts = 0 then c2\<lparr>SendErrorBackoff := 100 * 10 ^ 6\<rparr> else c2)"

definition NewMessageSender ::
  "slices \<Rightarrow> (nat \<Rightarrow> attempt) \<Rightarrow> peer \<Rightarrow> sender_opts \<Rightarrow> bsnet \<Rightarrow> (net_error + sender) \<times> net_call list \<times> bsnet" where
  "NewMessageSender sl envs p opts n =
     (let sn = \<lparr>sn_to = p, sn_stream = None, sn_connected = False, sn_opts = setDefaultOpts opts\<rparr>;
          connect = (\<lambda>a s. case sn_Connect sl a s of (Inl e, s1) \<Rightarrow> (Some e, s1) | (Inr _, s1) \<Rightarrow> (None, s1));
          (err, s) = multiAttempt envs connect \<lparr>sg_net = n, sg_sender = sn, sg_calls = []\<rparr>
      in (case err of Some e \<Rightarrow> Inl e | None \<Rightarrow> Inr (sg_sender s), sg_calls s, sg_net s))"

text \<open>\<open>sendTimeout\<close>, with the product and the quotient in 64 bits.\<close>

definition sendTimeout :: "nat \<Rightarrow> int" where
  "sendTimeout sz =
     (let timeout = sendLatency + sint ((of_int (10 ^ 9) * of_nat sz) div (of_int minSendRate) :: uint64)
      in if timeout > maxSendTimeout then maxSendTimeout
         else if timeout < minSendTimeout then minSendTimeout
         else timeout)"

text \<open>One message on a stream of its own; \<open>closed\<close> is the result of closing the stream.\<close>

definition bn_SendMessage ::
  "cidlib \<Rightarrow> cid order \<Rightarrow> slices \<Rightarrow> int option \<Rightarrow> attempt \<Rightarrow> net_error option \<Rightarrow> peer \<Rightarrow> message \<Rightarrow> bsnet \<Rightarrow>
   net_error option \<times> net_call list \<times> bsnet" where
  "bn_SendMessage lib ord sl ctxDeadline a closed p msg n =
     (let c1 = [Host_NewStream p (sl (supportedProtocols n))]
      in case at_stream a of
           Inl e \<Rightarrow> (Some e, c1, n)
         | Inr st \<Rightarrow>
             (case msgToStream lib ord ctxDeadline (at_now a) (at_write a) st msg (sendTimeout (msg_Size ord msg)) n of
                (Some e, cs, n1) \<Rightarrow> (Some e, c1 @ cs @ [Stream_Reset (st_id st)], n1)
              | (None, cs, n1) \<Rightarrow> (closed, c1 @ cs @ [Stream_Close (st_id st)], n1)))"

section \<open>Receiving\<close>

definition OnMessage :: "peer \<Rightarrow> cem \<Rightarrow> cem" where
  "OnMessage p c = (if OnMessage_check p c then OnMessage_act p c else c)"

definition to_receivers :: "(nat \<Rightarrow> net_call) \<Rightarrow> bsnet \<Rightarrow> net_call list" where
  "to_receivers f n = map f [0..<bn_receivers n]"

text \<open>The loop that reads the messages of a stream; \<open>d\<close> is all the stream still has to bring.\<close>

partial_function (option) readStream ::
  "wirelib \<Rightarrow> stream \<Rightarrow> peer \<Rightarrow> bytes \<Rightarrow> net_call list \<Rightarrow> bsnet \<Rightarrow> (net_call list \<times> bsnet) option" where
  "readStream lib st p d cs n =
     (case FromMsgReader lib d of
        Inl err \<Rightarrow>
          Some (cs @ (if err = Read_EOF then [] else Stream_Reset (st_id st) # to_receivers (\<lambda>i. Receiver_Error i err) n), n)
      | Inr (received, rest) \<Rightarrow>
          let n1 = n\<lparr>connectEvtMgr := OnMessage p (connectEvtMgr n)\<rparr>;
              n2 = n1\<lparr>bn_stats := (bn_stats n1)\<lparr>MessagesRecvd := MessagesRecvd (bn_stats n1) + 1\<rparr>\<rparr>
          in readStream lib st p rest (cs @ to_receivers (\<lambda>i. Receiver_Message i p received) n2) n2)"

definition handleNewStream :: "wirelib \<Rightarrow> stream \<Rightarrow> peer \<Rightarrow> bytes \<Rightarrow> bsnet \<Rightarrow> (net_call list \<times> bsnet) option" where
  "handleNewStream lib st p d n =
     (if bn_receivers n = 0 then Some ([Stream_Reset (st_id st), Stream_Close (st_id st)], n)
      else map_option (\<lambda>(cs, n'). (cs @ [Stream_Close (st_id st)], n')) (readStream lib st p d [] n))"

section \<open>Starting, stopping, connections, providers\<close>

definition bn_Start :: "slices \<Rightarrow> nat \<Rightarrow> bsnet \<Rightarrow> net_call list \<times> bsnet" where
  "bn_Start sl r n =
     (map Host_SetStreamHandler (sl (supportedProtocols n)) @ [Host_Notify],
      n\<lparr>bn_receivers := r, connectEvtMgr := newConnectEventManager\<rparr>)"

definition bn_Stop :: "bsnet \<Rightarrow> net_call list \<times> bsnet" where
  "bn_Stop n = ([Host_StopNotify], n\<lparr>connectEvtMgr := ce_Stop (connectEvtMgr n)\<rparr>)"

text \<open>The notifications of libp2p; \<open>transient\<close> and \<open>connected\<close> are what it says of the connection and the peer.\<close>

definition nn_Connected :: "bool \<Rightarrow> peer \<Rightarrow> bsnet \<Rightarrow> bsnet" where
  "nn_Connected transient p n = (if transient then n else n\<lparr>connectEvtMgr := ce_Connected p (connectEvtMgr n)\<rparr>)"

definition nn_Disconnected :: "bool \<Rightarrow> peer \<Rightarrow> bsnet \<Rightarrow> bsnet" where
  "nn_Disconnected connected p n = (if connected then n else n\<lparr>connectEvtMgr := ce_Disconnected p (connectEvtMgr n)\<rparr>)"

definition bn_Stats :: "bsnet \<Rightarrow> net_stats" where
  "bn_Stats n = \<lparr>MessagesSent = MessagesSent (bn_stats n), MessagesRecvd = MessagesRecvd (bn_stats n)\<rparr>"

text \<open>
  The providers passed on, with the calls made. Each provider the router yields comes with
  whether the context ends before it is taken; the router's channel ends with the list.
\<close>

fun bn_FindProvidersAsync :: "bsnet \<Rightarrow> (peer \<times> bool) list \<Rightarrow> peer list \<times> net_call list" where
  "bn_FindProvidersAsync n [] = ([], [])"
| "bn_FindProvidersAsync n ((p, done) # ps) =
     (if p = bn_host n then bn_FindProvidersAsync n ps
      else if done then ([], [Host_AddAddrs p])
      else let (out, cs) = bn_FindProvidersAsync n ps in (p # out, Host_AddAddrs p # cs))"

section \<open>One attempt\<close>

definition sender_ok :: "sending \<Rightarrow> bool" where
  "sender_ok s \<longleftrightarrow> (sn_connected (sg_sender s) \<longrightarrow> sn_stream (sg_sender s) \<noteq> None)"

fun is_write :: "net_call \<Rightarrow> bool" where
  "is_write (Stream_Write i b) \<longleftrightarrow> True"
| "is_write _ \<longleftrightarrow> False"

definition writes :: "net_call list \<Rightarrow> nat" where
  "writes cs = length (filter is_write cs)"

lemma writes_simps [simp]:
  "writes [] = 0" "writes (cs @ ds) = writes cs + writes ds" "writes (c # cs) = (if is_write c then 1 else 0) + writes cs"
  by (simp_all add: writes_def)

text \<open>The protocols \<open>msgToStream\<close> knows.\<close>

definition recognised :: "bsnet \<Rightarrow> protocol \<Rightarrow> bool" where
  "recognised n proto \<longleftrightarrow> proto \<in> {protocolBitswapOneOne n, protocolBitswap n, protocolBitswapOneZero n, protocolBitswapNoVers n}"

definition counted :: "bsnet \<Rightarrow> bsnet" where
  "counted n = n\<lparr>bn_stats := (bn_stats n)\<lparr>MessagesSent := MessagesSent (bn_stats n) + 1\<rparr>\<rparr>"

text \<open>The bytes of the message in the format of the protocol.\<close>

definition wire_bytes :: "cidlib \<Rightarrow> cid order \<Rightarrow> message \<Rightarrow> bsnet \<Rightarrow> protocol \<Rightarrow> bytes" where
  "wire_bytes lib ord msg n proto =
     (if proto = protocolBitswapOneOne n \<or> proto = protocolBitswap n then ToNetV1 lib ord msg else ToNetV0 ord msg)"

lemma msgToStream_eq:
  "msgToStream lib ord dl now w st msg t n =
     (let c1 = Stream_SetWriteDeadline (st_id st) (Some (case dl of Some d \<Rightarrow> min d (now + t) | None \<Rightarrow> now + t));
          c2 = Stream_Write (st_id st) (wire_bytes lib ord msg n (st_protocol st))
      in if recognised n (st_protocol st) then
           (case w of Some e \<Rightarrow> (Some e, [c1, c2], n)
            | None \<Rightarrow> (None, [c1, c2, Stream_SetWriteDeadline (st_id st) None], counted n))
         else (Some (ErrUnrecognizedProtocol (st_protocol st)), [c1], n))"
  by (auto simp: msgToStream_def recognised_def wire_bytes_def counted_def Let_def min_def split: option.splits)

lemma sn_send_net:
  "sn_send lib ord sl dl msg a s = (r, s') \<Longrightarrow> sg_net s' = (if r = None then counted (sg_net s) else sg_net s)"
  by (auto simp: sn_send_def sn_Connect_def calls_made_def msgToStream_eq Let_def split: if_splits option.splits sum.splits prod.splits)

lemma sn_send_sender:
  assumes "sn_send lib ord sl dl msg a s = (r, s')" "sender_ok s"
  shows "sender_ok s'" "sn_to (sg_sender s') = sn_to (sg_sender s)" "sn_opts (sg_sender s') = sn_opts (sg_sender s)"
    "sg_sender s' = sg_sender s \<or> (\<not> sn_connected (sg_sender s) \<and> (\<exists>st. at_stream a = Inr st \<and> sn_stream (sg_sender s') = Some st))"
  using assms
  by (auto simp: sn_send_def sn_Connect_def sender_ok_def calls_made_def msgToStream_eq Let_def
      split: if_splits option.splits sum.splits prod.splits)

lemma sn_send_calls:
  assumes "sn_send lib ord sl dl msg a s = (r, s')" "sender_ok s"
  shows "\<exists>cs. sg_calls s' = sg_calls s @ cs \<and> (\<forall>i. Stream_Reset i \<notin> set cs) \<and> writes cs \<le> 1 \<and>
    (\<forall>i b. Stream_Write i b \<in> set cs \<longrightarrow> sn_connected (sg_sender s') \<and>
       (\<exists>st. sn_stream (sg_sender s') = Some st \<and> st_id st = i \<and> b = wire_bytes lib ord msg (sg_net s) (st_protocol st))) \<and>
    (r = None \<longrightarrow> (\<exists>st. sn_stream (sg_sender s') = Some st \<and> recognised (sg_net s) (st_protocol st) \<and>
       Stream_Write (st_id st) (wire_bytes lib ord msg (sg_net s) (st_protocol st)) \<in> set cs))"
  using assms
  by (auto simp: sn_send_def sn_Connect_def sender_ok_def calls_made_def msgToStream_eq Let_def
      split: if_splits option.splits sum.splits prod.splits)

lemma sn_send_succeeds:
  assumes "sender_ok s" "at_connect a = None" "at_stream a = Inr st" "at_write a = None" "recognised (sg_net s) (st_protocol st)"
    and "\<And>st'. sn_connected (sg_sender s) \<Longrightarrow> sn_stream (sg_sender s) = Some st' \<Longrightarrow> recognised (sg_net s) (st_protocol st')"
  shows "\<exists>s'. sn_send lib ord sl dl msg a s = (None, s')"
  using assms
  by (auto simp: sn_send_def sn_Connect_def sender_ok_def calls_made_def msgToStream_eq Let_def
      split: if_splits option.splits sum.splits prod.splits)

lemma sn_send_error:
  assumes "sn_send lib ord sl dl msg a s = (Some e, s')"
  shows "at_connect a = Some e \<or> at_stream a = Inl e \<or> at_write a = Some e \<or> (\<exists>p. e = ErrUnrecognizedProtocol p)"
  using assms
  by (auto simp: sn_send_def sn_Connect_def calls_made_def msgToStream_eq Let_def
      split: if_splits option.splits sum.splits prod.splits)

lemma sn_Reset_simps [simp]:
  "sg_net (sn_Reset s) = sg_net s" "sn_to (sg_sender (sn_Reset s)) = sn_to (sg_sender s)"
  "sn_opts (sg_sender (sn_Reset s)) = sn_opts (sg_sender s)" "sn_stream (sg_sender (sn_Reset s)) = sn_stream (sg_sender s)"
  by (simp_all add: sn_Reset_def calls_made_def split: option.splits)

lemma sn_Reset_disconnects: "sender_ok s \<Longrightarrow> \<not> sn_connected (sg_sender (sn_Reset s))"
  by (auto simp: sn_Reset_def calls_made_def sender_ok_def split: option.splits)

lemma calls_made_simps [simp]:
  "sg_net (calls_made cs s) = sg_net s" "sg_sender (calls_made cs s) = sg_sender s" "sg_calls (calls_made cs s) = sg_calls s @ cs"
  by (simp_all add: calls_made_def)

lemma markUnresponsive_simps [simp]:
  "sg_sender (markUnresponsive s) = sg_sender s" "sg_calls (markUnresponsive s) = sg_calls s"
  "bn_stats (sg_net (markUnresponsive s)) = bn_stats (sg_net s)"
  "connectEvtMgr (sg_net (markUnresponsive s)) = MarkUnresponsive (sn_to (sg_sender s)) (connectEvtMgr (sg_net s))"
  by (simp_all add: markUnresponsive_def)

section \<open>The attempts\<close>

lemma sender_ok_calls_made [simp]: "sender_ok (calls_made cs s) = sender_ok s"
  by (simp add: sender_ok_def)

lemma sender_ok_Reset: "sender_ok s \<Longrightarrow> sender_ok (sn_Reset s)"
  using sn_Reset_disconnects [of s] by (simp add: sender_ok_def)

text \<open>
  The round \<open>i\<close>: the attempt succeeds, or the loop ends with an error, or it goes on.
\<close>

lemma multiAttempt_cases:
  assumes "multiAttemptFrom opts envs fn i err s = (r, s')" "i < MaxRetries opts"
  obtains (sent) "fn (envs (nat i)) s = (None, s')" "r = None"
  | (ended) e s1 where "fn (envs (nat i)) s = (Some e, s1)" "r = Some ErrContext" "s' = s1" "at_ctxDone (envs (nat i))"
  | (unsupported) e s1 where "fn (envs (nat i)) s = (Some e, s1)" "r = Some e" "s' = markUnresponsive s1"
  | (last) e s1 where "fn (envs (nat i)) s = (Some e, s1)" "r = Some e" "s' = markUnresponsive (sn_Reset s1)"
  | (wait) e s1 where "fn (envs (nat i)) s = (Some e, s1)" "r = Some ErrContext" "s' = sn_Reset s1" "at_waitDone (envs (nat i))"
  | (again) e s1 where "fn (envs (nat i)) s = (Some e, s1)" "e \<noteq> ErrNotSupported" "\<not> at_ctxDone (envs (nat i))" "i + 1 < MaxRetries opts"
      "multiAttemptFrom opts envs fn (i + 1) (Some e) (calls_made [After_Backoff (SendErrorBackoff opts)] (sn_Reset s1)) = (r, s')"
proof -
  obtain r1 s1 where f: "fn (envs (nat i)) s = (r1, s1)"
    by fastforce
  show thesis
  proof (cases r1)
    case None
    then show ?thesis
      using assms f sent by (subst (asm) multiAttemptFrom.simps) (auto simp: Let_def)
  next
    case (Some e)
    let ?run = "multiAttemptFrom opts envs fn i err s" and ?a = "envs (nat i)"
    have run: "?run = (if at_ctxDone ?a then (Some ErrContext, s1)
        else if e = ErrNotSupported then (Some e, markUnresponsive s1)
        else if i = MaxRetries opts - 1 then (Some e, markUnresponsive (sn_Reset s1))
        else if at_waitDone ?a then (Some ErrContext, sn_Reset s1)
        else multiAttemptFrom opts envs fn (i + 1) (Some e) (calls_made [After_Backoff (SendErrorBackoff opts)] (sn_Reset s1)))"
      using assms(2) f Some by (subst multiAttemptFrom.simps) (simp add: Let_def)
    note fe = f [unfolded Some]
    consider "at_ctxDone ?a" | "\<not> at_ctxDone ?a" "e = ErrNotSupported"
      | "\<not> at_ctxDone ?a" "e \<noteq> ErrNotSupported" "i = MaxRetries opts - 1"
      | "\<not> at_ctxDone ?a" "e \<noteq> ErrNotSupported" "i \<noteq> MaxRetries opts - 1" "at_waitDone ?a"
      | "\<not> at_ctxDone ?a" "e \<noteq> ErrNotSupported" "i \<noteq> MaxRetries opts - 1" "\<not> at_waitDone ?a"
      by blast
    then show ?thesis
    proof cases
      case 1
      then show ?thesis
        using assms(1) run by (intro ended [OF fe]) auto
    next
      case 2
      then show ?thesis
        using assms(1) run by (intro unsupported [OF fe]) auto
    next
      case 3
      then show ?thesis
        using assms(1) run by (intro last [OF fe]) auto
    next
      case 4
      then show ?thesis
        using assms(1) run by (intro wait [OF fe]) auto
    next
      case 5
      then show ?thesis
        using assms run by (intro again [OF fe]) auto
    qed
  qed
qed

lemma attempts_net:
  assumes "multiAttemptFrom opts envs fn i err s = (r, s')" "i < MaxRetries opts" "fn = sn_send lib ord sl dl msg" "sender_ok s"
  shows "(if r = None then sg_net s' = counted (sg_net s)
     else sg_net s' = sg_net (markUnresponsive s) \<or>
       sg_net s' = sg_net s \<and> r = Some ErrContext \<and> (\<exists>j. at_ctxDone (envs j) \<or> at_waitDone (envs j)))"
  using assms
proof (induction "nat (MaxRetries opts - i)" arbitrary: i err s rule: less_induct)
  case less
  have mark: "sg_net (markUnresponsive t) = sg_net (markUnresponsive s)"
    if "sg_net t = sg_net s" "sn_to (sg_sender t) = sn_to (sg_sender s)" for t
    using that by (simp add: markUnresponsive_def)
  have send: "sg_net s1 = sg_net s" "sn_to (sg_sender s1) = sn_to (sg_sender s)" "sender_ok s1" if "fn (envs (nat i)) s = (Some e, s1)" for e s1
    using that less.prems(3,4) sn_send_net sn_send_sender(1,2) by fastforce+
  show ?case
    using less.prems(1,2)
  proof (cases rule: multiAttempt_cases)
    case sent
    then show ?thesis
      using less.prems(3) sn_send_net by fastforce
  next
    case (again e s1)
    let ?s = "calls_made [After_Backoff (SendErrorBackoff opts)] (sn_Reset s1)"
    note s1 = send [OF again(1)]
    have "sender_ok ?s"
      using s1 by (simp add: sender_ok_Reset)
    moreover have "sg_net (markUnresponsive ?s) = sg_net (markUnresponsive s)"
      using s1 by (intro mark) simp_all
    ultimately show ?thesis
      using less.hyps [OF _ again(5) again(4) less.prems(3)] again(4) s1
      by (auto split: if_splits)
  next
    case (ended e s1)
    then show ?thesis
      using send(1) [OF ended(1)] by auto
  next
    case (unsupported e s1)
    then show ?thesis
      using mark [OF send(1,2) [OF unsupported(1)]] by simp
  next
    case (last e s1)
    have "sg_net (markUnresponsive (sn_Reset s1)) = sg_net (markUnresponsive s)"
      using send(1,2) [OF last(1)] by (intro mark) simp_all
    then show ?thesis
      using last by simp
  next
    case (wait e s1)
    then show ?thesis
      using send(1) [OF wait(1)] by auto
  qed
qed

text \<open>No call writes to a stream that was reset before.\<close>

definition no_write_after_reset :: "net_call list \<Rightarrow> bool" where
  "no_write_after_reset cs \<longleftrightarrow> sorted_wrt (\<lambda>x y. \<forall>i b. x = Stream_Reset i \<longrightarrow> y \<noteq> Stream_Write i b) cs"

text \<open>The streams the attempts from the \<open>i\<close>-th on bring are new.\<close>

definition fresh_streams :: "(nat \<Rightarrow> attempt) \<Rightarrow> nat \<Rightarrow> sending \<Rightarrow> bool" where
  "fresh_streams envs i s \<longleftrightarrow>
     (\<forall>j st. i \<le> j \<longrightarrow> at_stream (envs j) = Inr st \<longrightarrow> Stream_Reset (st_id st) \<notin> set (sg_calls s) \<and>
        (\<forall>st'. sn_stream (sg_sender s) = Some st' \<longrightarrow> st_id st' \<noteq> st_id st) \<and>
        (\<forall>j' st'. j < j' \<longrightarrow> at_stream (envs j') = Inr st' \<longrightarrow> st_id st' \<noteq> st_id st)) \<and>
     (\<forall>st. sn_connected (sg_sender s) \<longrightarrow> sn_stream (sg_sender s) = Some st \<longrightarrow> Stream_Reset (st_id st) \<notin> set (sg_calls s))"

lemma set_Reset: "set (sg_calls (sn_Reset s)) = set (sg_calls s) \<union> (case sn_stream (sg_sender s) of Some st \<Rightarrow> {Stream_Reset (st_id st)} | None \<Rightarrow> {})"
  by (simp add: sn_Reset_def split: option.splits)

lemma no_write_Reset [simp]: "no_write_after_reset (sg_calls (sn_Reset s)) = no_write_after_reset (sg_calls s)"
  by (auto simp: sn_Reset_def no_write_after_reset_def sorted_wrt_append split: option.splits)

lemma no_write_backoff [simp]: "no_write_after_reset (cs @ [After_Backoff t]) = no_write_after_reset cs"
  by (auto simp: no_write_after_reset_def sorted_wrt_append)

lemma no_write_no_reset: "(\<And>i. Stream_Reset i \<notin> set cs) \<Longrightarrow> no_write_after_reset cs"
  unfolding no_write_after_reset_def by (induction cs) auto

lemma sn_send_fresh:
  assumes "sn_send lib ord sl dl msg (envs i) s = (r, s')" "sender_ok s" "fresh_streams envs i s" "no_write_after_reset (sg_calls s)"
  shows "no_write_after_reset (sg_calls s')" "fresh_streams envs (Suc i) (sn_Reset s')"
proof -
  obtain cs where cs: "sg_calls s' = sg_calls s @ cs" "\<And>i. Stream_Reset i \<notin> set cs"
      "\<And>i b. Stream_Write i b \<in> set cs \<Longrightarrow> sn_connected (sg_sender s') \<and> (\<exists>st. sn_stream (sg_sender s') = Some st \<and> st_id st = i)"
    using sn_send_calls [OF assms(1,2)] by blast
  have new: "Stream_Reset (st_id st) \<notin> set (sg_calls s)" if "sn_connected (sg_sender s')" "sn_stream (sg_sender s') = Some st" for st
    using sn_send_sender(4) [OF assms(1,2)] assms(3) that unfolding fresh_streams_def by fastforce
  then have "Stream_Reset i \<notin> set (sg_calls s)" if "Stream_Write i b \<in> set cs" for i b
    using cs(3) [OF that] by blast
  then show "no_write_after_reset (sg_calls s')"
    using assms(4) no_write_no_reset [OF cs(2)] by (auto simp: cs(1) no_write_after_reset_def sorted_wrt_append)
  have stream: "sn_stream (sg_sender s') = sn_stream (sg_sender s) \<or> (\<exists>st. at_stream (envs i) = Inr st \<and> sn_stream (sg_sender s') = Some st)"
    using sn_send_sender(4) [OF assms(1,2)] by auto
  have differ: "st_id st' \<noteq> st_id st" if "Suc i \<le> j" "at_stream (envs j) = Inr st" "sn_stream (sg_sender s') = Some st'" for j st st'
    using stream that assms(3) unfolding fresh_streams_def by (metis Suc_le_lessD less_imp_le option.inject order_refl)
  have "Stream_Reset (st_id st) \<notin> set (sg_calls (sn_Reset s'))" if "Suc i \<le> j" "at_stream (envs j) = Inr st" for j st
  proof -
    have "Stream_Reset (st_id st) \<notin> set (sg_calls s)"
      using that assms(3) unfolding fresh_streams_def by (meson Suc_leD)
    then show ?thesis
      using cs(1,2) differ [OF that] by (auto simp: set_Reset split: option.splits)
  qed
  moreover have "st_id st' \<noteq> st_id st" if "Suc i \<le> j" "j < j'" "at_stream (envs j) = Inr st" "at_stream (envs j') = Inr st'" for j j' st st'
    using that assms(3) unfolding fresh_streams_def by (meson Suc_leD)
  moreover have "\<not> sn_connected (sg_sender (sn_Reset s'))"
    by (rule sn_Reset_disconnects) (rule sn_send_sender(1) [OF assms(1,2)])
  ultimately show "fresh_streams envs (Suc i) (sn_Reset s')"
    using differ unfolding fresh_streams_def by simp
qed

lemma fresh_streams_calls_made:
  "(\<And>i. Stream_Reset i \<notin> set cs) \<Longrightarrow> fresh_streams envs i (calls_made cs s) = fresh_streams envs i s"
  by (simp add: fresh_streams_def)

lemma attempts_calls:
  assumes "multiAttemptFrom opts envs fn i err s = (r, s')" "0 \<le> i" "i < MaxRetries opts" "fn = sn_send lib ord sl dl msg" "sender_ok s"
    and "fresh_streams envs (nat i) s" "no_write_after_reset (sg_calls s)"
  shows "no_write_after_reset (sg_calls s') \<and> (\<exists>cs. sg_calls s' = sg_calls s @ cs \<and> int (writes cs) \<le> MaxRetries opts - i \<and>
    (r = None \<longrightarrow> (\<exists>st. sn_stream (sg_sender s') = Some st \<and> recognised (sg_net s) (st_protocol st) \<and>
       Stream_Write (st_id st) (wire_bytes lib ord msg (sg_net s) (st_protocol st)) \<in> set cs)))"
  using assms
proof (induction "nat (MaxRetries opts - i)" arbitrary: i err s rule: less_induct)
  case less
  have send: "sender_ok s1" "no_write_after_reset (sg_calls s1)" "fresh_streams envs (Suc (nat i)) (sn_Reset s1)"
    if "fn (envs (nat i)) s = (r1, s1)" for r1 s1
    using that [unfolded less.prems(4)] less.prems(5-7) by (auto intro: sn_send_sender(1) sn_send_fresh)
  have made: "\<exists>cs. sg_calls s1 = sg_calls s @ cs \<and> writes cs \<le> 1 \<and> (r1 = None \<longrightarrow> (\<exists>st. sn_stream (sg_sender s1) = Some st \<and>
         recognised (sg_net s) (st_protocol st) \<and> Stream_Write (st_id st) (wire_bytes lib ord msg (sg_net s) (st_protocol st)) \<in> set cs))"
    if "fn (envs (nat i)) s = (r1, s1)" for r1 s1
    using sn_send_calls [OF that [unfolded less.prems(4)] less.prems(5)] by blast
  have reset: "\<exists>cs. sg_calls (sn_Reset t) = sg_calls t @ cs \<and> writes cs = 0" for t
    by (auto simp: sn_Reset_def split: option.splits)
  have made_reset: "\<exists>cs. sg_calls (sn_Reset s1) = sg_calls s @ cs \<and> writes cs \<le> 1" if f: "fn (envs (nat i)) s = (r1, s1)" for r1 s1
  proof -
    obtain cs ds where "sg_calls s1 = sg_calls s @ cs" "writes cs \<le> 1" "sg_calls (sn_Reset s1) = sg_calls s1 @ ds" "writes ds = 0"
      using made [OF f] reset [of s1] by blast
    then show ?thesis
      by (intro exI [of _ "cs @ ds"]) simp
  qed
  have M: "writes cs \<le> 1 \<Longrightarrow> int (writes cs) \<le> MaxRetries opts - i" for cs
    using less.prems(3) by simp
  show ?case
    using less.prems(1,3)
  proof (cases rule: multiAttempt_cases)
    case sent
    then show ?thesis
      using send(2) [OF sent(1)] made [OF sent(1)] by (auto simp del: One_nat_def dest: M)
  next
    case (ended e s1)
    then show ?thesis
      using send(2) [OF ended(1)] made [OF ended(1)] by (auto simp del: One_nat_def dest: M)
  next
    case (unsupported e s1)
    then show ?thesis
      using send(2) [OF unsupported(1)] made [OF unsupported(1)] by (auto simp del: One_nat_def dest: M)
  next
    case (last e s1)
    then show ?thesis
      using send(2) [OF last(1)] made_reset [OF last(1)] by (auto simp del: One_nat_def dest: M)
  next
    case (wait e s1)
    then show ?thesis
      using send(2) [OF wait(1)] made_reset [OF wait(1)] by (auto simp del: One_nat_def dest: M)
  next
    case (again e s1)
    let ?s = "calls_made [After_Backoff (SendErrorBackoff opts)] (sn_Reset s1)"
    have net: "sg_net s1 = sg_net s"
      using sn_send_net again(1) less.prems(4) by fastforce
    have "nat (i + 1) = Suc (nat i)"
      using less.prems(2) by simp
    then have "fresh_streams envs (nat (i + 1)) ?s" "no_write_after_reset (sg_calls ?s)"
      using send(2,3) [OF again(1)] 
      by (simp_all add: fresh_streams_calls_made)
    with less.hyps [OF _ again(5) _ again(4) less.prems(4)] less.prems(2,3) send(1) [OF again(1)]
    have IH: "no_write_after_reset (sg_calls s')" "\<exists>cs. sg_calls s' = sg_calls ?s @ cs \<and> int (writes cs) \<le> MaxRetries opts - (i + 1) \<and>
        (r = None \<longrightarrow> (\<exists>st. sn_stream (sg_sender s') = Some st \<and> recognised (sg_net s) (st_protocol st) \<and>
           Stream_Write (st_id st) (wire_bytes lib ord msg (sg_net s) (st_protocol st)) \<in> set cs))"
      by (simp_all add: sender_ok_Reset net)
    from IH(2) made_reset [OF again(1)] obtain cs ds where cs: "sg_calls (sn_Reset s1) = sg_calls s @ cs" "writes cs \<le> 1"
        "sg_calls s' = sg_calls ?s @ ds" "int (writes ds) \<le> MaxRetries opts - (i + 1)"
        "r = None \<longrightarrow> (\<exists>st. sn_stream (sg_sender s') = Some st \<and> recognised (sg_net s) (st_protocol st) \<and>
           Stream_Write (st_id st) (wire_bytes lib ord msg (sg_net s) (st_protocol st)) \<in> set ds)"
      by blast
    let ?cs = "cs @ After_Backoff (SendErrorBackoff opts) # ds"
    have "sg_calls s' = sg_calls s @ ?cs" "int (writes ?cs) \<le> MaxRetries opts - i"
      using cs(1-4) by simp_all
    then show ?thesis
      using IH(1) cs(5) by (intro conjI exI [of _ ?cs]) auto
  qed
qed

lemma attempts_deliver:
  assumes "0 \<le> i" "i \<le> k" "k < MaxRetries opts" "fn = sn_send lib ord sl dl msg" "sender_ok s"
    and "\<And>j. j < nat k \<Longrightarrow> \<not> at_ctxDone (envs j) \<and> \<not> at_waitDone (envs j) \<and>
      ErrNotSupported \<notin> set_option (at_connect (envs j)) \<union> set_option (at_write (envs j)) \<and> at_stream (envs j) \<noteq> Inl ErrNotSupported"
    and "at_connect (envs (nat k)) = None" "at_stream (envs (nat k)) = Inr st" "at_write (envs (nat k)) = None"
    and "recognised (sg_net s) (st_protocol st)"
    and "\<And>st'. sn_connected (sg_sender s) \<Longrightarrow> sn_stream (sg_sender s) = Some st' \<Longrightarrow> recognised (sg_net s) (st_protocol st')"
  shows "\<exists>s'. multiAttemptFrom opts envs fn i err s = (None, s')"
  using assms
proof (induction "nat (k - i)" arbitrary: i err s rule: less_induct)
  case less
  obtain r s' where run: "multiAttemptFrom opts envs fn i err s = (r, s')"
    by fastforce
  have i: "i < MaxRetries opts"
    using less.prems(2,3) by simp
  show ?case
  proof (cases "\<exists>s1. fn (envs (nat i)) s = (None, s1)")
    case True
    then show ?thesis
      using i by (subst multiAttemptFrom.simps) (auto simp: Let_def)
  next
    case False
    then obtain e s1 where f: "fn (envs (nat i)) s = (Some e, s1)"
      by (metis not_Some_eq surj_pair)
    have "i \<noteq> k"
    proof
      assume "i = k"
      then have "\<exists>s1. fn (envs (nat i)) s = (None, s1)"
        using sn_send_succeeds [OF less.prems(5), of "envs (nat k)" st lib ord sl dl msg] less.prems(4,7-11) by simp
      then show False
        using False by blast
    qed
    then have ik: "i < k" "nat i < nat k"
      using less.prems(1,2) by simp_all
    have "e \<noteq> ErrNotSupported"
      using sn_send_error [OF f [unfolded less.prems(4)]] less.prems(6) [OF ik(2)] by auto
    let ?s = "calls_made [After_Backoff (SendErrorBackoff opts)] (sn_Reset s1)"
    have s1: "sg_net s1 = sg_net s" "sender_ok s1"
      using sn_send_net sn_send_sender(1) f less.prems(4,5) by fastforce+
    have "multiAttemptFrom opts envs fn i err s = multiAttemptFrom opts envs fn (i + 1) (Some e) ?s"
      using less.prems(6) [OF ik(2)] less.prems(3) ik(1) f \<open>e \<noteq> ErrNotSupported\<close>
      by (subst multiAttemptFrom.simps) (simp add: Let_def)
    moreover have "\<exists>s'. multiAttemptFrom opts envs fn (i + 1) (Some e) ?s = (None, s')"
      using less.prems(1-4,6-10) ik s1
      by (intro less.hyps) (auto simp: sender_ok_Reset sn_Reset_disconnects)
    ultimately show ?thesis
      by simp
  qed
qed

section \<open>Reading a stream\<close>

definition received_messages :: "peer \<Rightarrow> message list \<Rightarrow> bsnet \<Rightarrow> net_call list" where
  "received_messages p msgs n = concat (map (\<lambda>m. to_receivers (\<lambda>i. Receiver_Message i p m) n) msgs)"

definition receive_all :: "peer \<Rightarrow> message list \<Rightarrow> bsnet \<Rightarrow> bsnet" where
  "receive_all p msgs n = fold (\<lambda>_ n. n\<lparr>connectEvtMgr := OnMessage p (connectEvtMgr n),
     bn_stats := (bn_stats n)\<lparr>MessagesRecvd := MessagesRecvd (bn_stats n) + 1\<rparr>\<rparr>) msgs n"

lemma to_receivers_cong: "bn_receivers n = bn_receivers n' \<Longrightarrow> to_receivers f n = to_receivers f n'"
  by (simp add: to_receivers_def)

lemma readStream_messages:
  assumes "\<And>m rest. m \<in> set msgs \<Longrightarrow> FromMsgReader lib (enc m @ rest) = Inr (m, rest)"
  shows "readStream lib st p (concat (map enc msgs) @ rest) cs n =
    readStream lib st p rest (cs @ received_messages p msgs n) (receive_all p msgs n)"
  using assms
proof (induction msgs arbitrary: cs n)
  case (Cons m msgs)
  have "FromMsgReader lib (enc m @ concat (map enc msgs) @ rest) = Inr (m, concat (map enc msgs) @ rest)"
    by (rule Cons.prems) simp
  then show ?case
    using Cons by (subst readStream.simps)
      (simp add: Let_def received_messages_def receive_all_def to_receivers_def)
qed (simp add: received_messages_def receive_all_def)

lemma receive_all_simps [simp]:
  "bn_receivers (receive_all p msgs n) = bn_receivers n"
  "MessagesRecvd (bn_stats (receive_all p msgs n)) = MessagesRecvd (bn_stats n) + of_nat (length msgs)"
  unfolding receive_all_def by (induction msgs arbitrary: n) simp_all

lemma filter_upt: "i < r \<Longrightarrow> filter (\<lambda>k. k = i) [0..<r] = [i]"
  by (induction r) (auto simp: less_Suc_eq)

lemma received_by:
  assumes "i < bn_receivers n"
  shows "filter (\<lambda>c. \<exists>m. c = Receiver_Message i p m) (received_messages p msgs n) = map (Receiver_Message i p) msgs"
  unfolding received_messages_def to_receivers_def
  by (induction msgs) (simp_all add: filter_map comp_def filter_upt [OF assms])

lemma sint_quotient: "sint (w div 12500) = uint w div 12500" for w :: uint64
proof -
  have "uint w < 2 ^ 64"
    using uint_lt2p [of w] by simp
  then have "uint w div 12500 \<le> 2 ^ 64 div 12500"
    by (intro zdiv_mono1) simp_all
  then have q: "0 \<le> uint w div 12500" "uint w div 12500 < 2 ^ 63"
    by (simp_all add: pos_imp_zdiv_nonneg_iff)
  have "signed_take_bit 63 (uint w div 12500) = uint w div 12500"
    by (rule signed_take_bit_int_eq_self) (use q in simp_all)
  then show ?thesis
    by (simp add: sint_uint uint_div)
qed

section \<open>Properties\<close>

text \<open>
  C30. Sending with retries. Streams being new when they are opened, a message is written at
  most as often as there are retries, and never to a stream that was reset. If \<open>SendMsg\<close>
  returns no error, the message was written in the format of a protocol of the network, it is
  counted once, and nothing is said about the peer. If it returns an error nothing is counted,
  and the peer is marked unresponsive, unless it gave up because the context ended.
\<close>

theorem send_attempts:
  assumes "SendMsg lib ord sl dl envs msg s = (r, s')" "sender_ok s" "sg_calls s = []" "fresh_streams envs 0 s"
    and "0 < MaxRetries (sn_opts (sg_sender s))"
  shows "no_write_after_reset (sg_calls s') \<and> int (writes (sg_calls s')) \<le> MaxRetries (sn_opts (sg_sender s)) \<and>
    (r = None \<longrightarrow> sg_net s' = counted (sg_net s) \<and> (\<exists>st :: stream. recognised (sg_net s) (st_protocol st) \<and>
       Stream_Write (st_id st) (wire_bytes lib ord msg (sg_net s) (st_protocol st)) \<in> set (sg_calls s'))) \<and>
    (r \<noteq> None \<longrightarrow> bn_stats (sg_net s') = bn_stats (sg_net s) \<and>
       (connectEvtMgr (sg_net s') = MarkUnresponsive (sn_to (sg_sender s)) (connectEvtMgr (sg_net s)) \<or>
        r = Some ErrContext \<and> sg_net s' = sg_net s \<and> (\<exists>j. at_ctxDone (envs j) \<or> at_waitDone (envs j))))"
proof -
  note run = assms(1) [unfolded SendMsg_def multiAttempt_def]
  have "no_write_after_reset (sg_calls s)"
    by (simp add: assms(3) no_write_after_reset_def)
  then obtain cs where cs: "no_write_after_reset (sg_calls s')" "sg_calls s' = sg_calls s @ cs"
      "int (writes cs) \<le> MaxRetries (sn_opts (sg_sender s)) - 0"
      "r = None \<longrightarrow> (\<exists>st. sn_stream (sg_sender s') = Some st \<and> recognised (sg_net s) (st_protocol st) \<and>
         Stream_Write (st_id st) (wire_bytes lib ord msg (sg_net s) (st_protocol st)) \<in> set cs)"
    using attempts_calls [OF run _ assms(5) refl assms(2)] assms(4) by (metis nat_zero_as_int order_refl)
  have made: "sg_calls s' = cs"
    using cs(2) assms(3) by simp
  have calls: "r = None \<longrightarrow> (\<exists>st :: stream. recognised (sg_net s) (st_protocol st) \<and>
       Stream_Write (st_id st) (wire_bytes lib ord msg (sg_net s) (st_protocol st)) \<in> set (sg_calls s'))"
    using cs(4) unfolding made by blast
  have bounds: "no_write_after_reset (sg_calls s')" "int (writes (sg_calls s')) \<le> MaxRetries (sn_opts (sg_sender s))"
    using cs(1,3) made by simp_all
  show ?thesis
    using attempts_net [OF run assms(5) refl assms(2)] calls bounds by (auto split: if_splits)
qed

definition example_net :: bsnet where
  "example_net = fst (NewFromIpfsHost ''self'' [] initial_slices)"

definition example_sending :: sending where
  "example_sending = \<lparr>sg_net = example_net,
     sg_sender = \<lparr>sn_to = ''p'', sn_stream = None, sn_connected = False,
                  sn_opts = \<lparr>MaxRetries = 3, SendTimeout = 100, SendErrorBackoff = 1\<rparr>\<rparr>, sg_calls = []\<rparr>"

text \<open>The first attempt cannot connect, the others work.\<close>

definition example_attempts :: "nat \<Rightarrow> attempt" where
  "example_attempts j = \<lparr>at_connect = (if j = 0 then Some (ErrLibp2p ''dial'') else None),
     at_stream = Inr \<lparr>st_id = j, st_protocol = ProtocolBitswap\<rparr>, at_write = None, at_start = 0, at_since = 0, at_now = 0,
     at_ctxDone = False, at_waitDone = False\<rparr>"

lemma example_recognised: "recognised example_net ProtocolBitswap"
  by (simp add: recognised_def example_net_def NewFromIpfsHost_def processSettings_def)

theorem send_attempts_witness:
  "let (r, s') = SendMsg example_lib key_order initial_slices None example_attempts example_msg example_sending
   in no_write_after_reset (sg_calls s') \<and> int (writes (sg_calls s')) \<le> 3"
proof -
  have "fresh_streams example_attempts 0 example_sending"
    by (simp add: fresh_streams_def example_attempts_def example_sending_def)
  then show ?thesis
    using send_attempts [of example_lib key_order initial_slices None example_attempts example_msg example_sending]
    by (auto simp: example_sending_def sender_ok_def split: prod.split)
qed

text \<open>
  C39. A retry that works delivers. When some attempt within the retries can connect, open a
  stream of a known protocol and write, and the attempts before it fail only in ways that allow
  another one, \<open>SendMsg\<close> returns no error.
\<close>

theorem send_succeeds:
  assumes "sender_ok s" "k < MaxRetries (sn_opts (sg_sender s))" "0 \<le> k"
    and "\<And>j. j < nat k \<Longrightarrow> \<not> at_ctxDone (envs j) \<and> \<not> at_waitDone (envs j) \<and>
      ErrNotSupported \<notin> set_option (at_connect (envs j)) \<union> set_option (at_write (envs j)) \<and> at_stream (envs j) \<noteq> Inl ErrNotSupported"
    and "at_connect (envs (nat k)) = None" "at_stream (envs (nat k)) = Inr st" "at_write (envs (nat k)) = None"
    and "recognised (sg_net s) (st_protocol st)"
    and "\<And>st'. sn_connected (sg_sender s) \<Longrightarrow> sn_stream (sg_sender s) = Some st' \<Longrightarrow> recognised (sg_net s) (st_protocol st')"
  shows "\<exists>s'. SendMsg lib ord sl dl envs msg s = (None, s')"
  unfolding SendMsg_def multiAttempt_def
  by (rule attempts_deliver [where k = k and st = st]) (use assms in auto)

theorem send_succeeds_witness:
  "\<exists>s'. SendMsg example_lib key_order initial_slices None example_attempts example_msg example_sending = (None, s')"
  by (rule send_succeeds [where k = 1 and st = "\<lparr>st_id = 1, st_protocol = ProtocolBitswap\<rparr>"])
    (use example_recognised in \<open>simp_all add: example_sending_def sender_ok_def example_attempts_def\<close>)

text \<open>
  C31. What is written on a stream is what the other side receives. When a stream brings the
  bytes of any messages, in the current format, and then ends, each receiver is handed exactly
  these messages, in order, from the peer of the stream; they are all counted, no error is
  reported, and the stream is closed and not reset.
\<close>

theorem stream_delivers:
  assumes "\<And>m. m \<in> set msgs \<Longrightarrow> sendable lib m \<and> w_Size (w_of_pb (ToProtoV1 (wl_cids lib) ord m)) \<le> maxSize"
    and "go_range ord" "reads_frames maxSize lib" "maxSize < 2 ^ 63" "wl_readMsg lib [] = Inl Read_EOF" "bn_receivers n > 0"
  shows "\<exists>cs n'. handleNewStream lib st p (concat (map (ToNetV1 (wl_cids lib) ord) msgs)) n = Some (cs @ [Stream_Close (st_id st)], n') \<and>
    set cs \<subseteq> {Receiver_Message i p m | i m. i < bn_receivers n \<and> m \<in> set msgs} \<and>
    (\<forall>i < bn_receivers n. filter (\<lambda>c. \<exists>m. c = Receiver_Message i p m) cs = map (Receiver_Message i p) msgs) \<and>
    MessagesRecvd (bn_stats n') = MessagesRecvd (bn_stats n) + of_nat (length msgs)"
proof -
  let ?d = "concat (map (ToNetV1 (wl_cids lib) ord) msgs)"
  have "FromMsgReader lib (ToNetV1 (wl_cids lib) ord m @ rest) = Inr (m, rest)" if "m \<in> set msgs" for m rest
    using assms(1) [OF that] by (intro wire_message [OF _ assms(2-4)]) simp_all
  from readStream_messages [where enc = "ToNetV1 (wl_cids lib) ord" and rest = "[]" and cs = "[]", OF this]
  have "readStream lib st p ?d [] n = readStream lib st p [] (received_messages p msgs n) (receive_all p msgs n)"
    by simp
  also have "\<dots> = Some (received_messages p msgs n, receive_all p msgs n)"
    by (subst readStream.simps) (simp add: FromMsgReader_def assms(5))
  finally have "handleNewStream lib st p ?d n = Some (received_messages p msgs n @ [Stream_Close (st_id st)], receive_all p msgs n)"
    using assms(6) by (simp add: handleNewStream_def)
  moreover have "set (received_messages p msgs n) \<subseteq> {Receiver_Message i p m | i m. i < bn_receivers n \<and> m \<in> set msgs}"
    by (auto simp: received_messages_def to_receivers_def)
  ultimately show ?thesis
    using received_by [of _ n p msgs] by fastforce
qed

theorem stream_delivers_witness:
  "\<exists>cs n'. handleNewStream example_wirelib \<lparr>st_id = 4, st_protocol = ProtocolBitswap\<rparr> ''p''
       (concat (map (ToNetV1 (wl_cids example_wirelib) key_order) [example_msg, example_msg])) (example_net\<lparr>bn_receivers := 2\<rparr>) =
       Some (cs @ [Stream_Close 4], n') \<and>
     filter (\<lambda>c. \<exists>m. c = Receiver_Message 1 ''p'' m) cs = [Receiver_Message 1 ''p'' example_msg, Receiver_Message 1 ''p'' example_msg]"
proof -
  have "wl_readMsg example_wirelib [] = Inl Read_EOF"
    by (simp add: example_wirelib_def example_readMsg_def)
  from stream_delivers [where msgs = "[example_msg, example_msg]" and p = "''p''" and n = "example_net\<lparr>bn_receivers := 2\<rparr>"
      and st = "\<lparr>st_id = 4, st_protocol = ProtocolBitswap\<rparr>", OF _ go_range_key_order example_reads _ this] example_sendable example_size
  show ?thesis
    by (fastforce simp: less_2_cases_iff)
qed

text \<open>
  The negotiated protocol is understood. A network made with any prefix, when no other was
  made before, recognises every protocol it offers: it writes the current format for 1.1.0 and
  1.2.0 and the old one for the others, and takes exactly 1.2.0 for a protocol with HAVEs.
\<close>

theorem offered_protocols:
  assumes "NewFromIpfsHost host [Prefix prefix] initial_slices = (n, sl)" "proto \<in> set (sl (supportedProtocols n))"
  shows "recognised n proto \<and> (SupportsHave proto n \<longleftrightarrow> proto = prefix @ ProtocolBitswap) \<and>
    (wire_bytes lib ord msg n proto =
       (if proto \<in> {prefix @ ProtocolBitswap, prefix @ ProtocolBitswapOneOne} then ToNetV1 lib ord msg else ToNetV0 ord msg))"
  using assms
  by (auto simp: NewFromIpfsHost_def processSettings_def Prefix_def initial_slices_def recognised_def SupportsHave_def wire_bytes_def
      ProtocolBitswap_def ProtocolBitswapOneOne_def ProtocolBitswapOneZero_def ProtocolBitswapNoVers_def)

theorem offered_protocols_witness:
  "recognised (fst (NewFromIpfsHost ''h'' [Prefix ''/x''] initial_slices)) ''/x/ipfs/bitswap/1.1.0''"
  using offered_protocols [of "''h''" "''/x''" "fst (NewFromIpfsHost ''h'' [Prefix ''/x''] initial_slices)"
      "snd (NewFromIpfsHost ''h'' [Prefix ''/x''] initial_slices)" "''/x/ipfs/bitswap/1.1.0''"]
  by (simp add: NewFromIpfsHost_def processSettings_def Prefix_def initial_slices_def ProtocolBitswapOneOne_def)

text \<open>
  Two networks with a prefix: \<open>processSettings\<close> writes the prefixed names into the array of
  \<open>internal.DefaultProtocols\<close>, so the second network prefixes them again, and neither recognises
  any protocol it offers.
\<close>

theorem prefix_applied_twice:
  "let (n1, sl1) = NewFromIpfsHost ''h1'' [Prefix ''/x''] initial_slices;
       (n2, sl2) = NewFromIpfsHost ''h2'' [Prefix ''/x''] sl1
   in sl2 (supportedProtocols n2) \<noteq> [] \<and> hd (sl2 (supportedProtocols n2)) = ''/x/x/ipfs/bitswap/1.2.0'' \<and>
      list_all (\<lambda>proto. \<not> recognised n1 proto \<and> \<not> recognised n2 proto) (sl2 (supportedProtocols n2))"
  by code_simp

text \<open>
  The time to send a message lies between 10 seconds and 2 minutes for every size; below
  the size at which the 64-bit product overflows, about 18 gigabytes, it is the time needed at
  the minimal rate after the latency, cut to these bounds, and does not fall with the size.
\<close>

theorem sendTimeout_bounds:
  "minSendTimeout \<le> sendTimeout sz \<and> sendTimeout sz \<le> maxSendTimeout \<and>
   (sz * 10 ^ 9 < 2 ^ 64 \<longrightarrow> sendTimeout sz = max minSendTimeout (min maxSendTimeout (sendLatency + int (sz * 10 ^ 9) div minSendRate)))"
proof -
  let ?w = "of_int (10 ^ 9) * of_nat sz :: uint64"
  have t: "sendTimeout sz = max minSendTimeout (min maxSendTimeout (sendLatency + uint ?w div 12500))"
    using sint_quotient [of ?w]
    by (auto simp: sendTimeout_def Let_def minSendRate_def minSendTimeout_def maxSendTimeout_def min_def max_def)
  have "uint ?w = int (sz * 10 ^ 9)" if "sz * 10 ^ 9 < 2 ^ 64"
  proof -
    have "?w = of_nat (sz * 10 ^ 9)"
      by simp
    then show ?thesis
      using that by (simp only: uint_nat unat_of_nat) simp
  qed
  moreover have "minSendTimeout \<le> maxSendTimeout"
    by (simp add: minSendTimeout_def maxSendTimeout_def)
  ultimately show ?thesis
    by (simp add: t minSendRate_def)
qed

theorem sendTimeout_bounds_witness: "sendTimeout 1000000 = 82 * 10 ^ 9"
  using sendTimeout_bounds [of 1000000] by (simp add: minSendTimeout_def maxSendTimeout_def sendLatency_def minSendRate_def)

end
