(* ===== verification/Getter.thy ===== *)
theory Getter
  imports Message
begin

text \<open>
  Requests for blocks: the publisher (\<open>client/internal/notifications/notifications.go\<close>) and the
  getter (\<open>client/internal/getter/getter.go\<close>).

  A request runs in two goroutines. The forwarder of \<open>Subscribe\<close> takes values from the channel
  the third-party package pubsub fills and puts them on a channel of blocks; \<open>handleIncoming\<close>
  takes the blocks, hands them to the caller and finally cancels what never came. A channel is the list of its
  contents with a flag for closed; each case of a \<open>select\<close> is a step that is possible when its
  channel is ready, so the steps of both goroutines, of pubsub and of the contexts interleave
  in every way. What pubsub and the contexts do is not restricted by the model; what the
  properties need of them they assume.
\<close>

section \<open>The publisher\<close>

record publisher =
  ps_closed :: bool

datatype ps_call =
    PS_Pub block cid
  | PS_AddSubOnceEach "cid list"
  | PS_Shutdown

definition ps_New :: publisher where
  "ps_New = \<lparr>ps_closed = False\<rparr>"

definition Publish :: "block list \<Rightarrow> publisher \<Rightarrow> ps_call list" where
  "Publish blks ps = (if ps_closed ps then [] else map (\<lambda>b. PS_Pub b (block_cid b)) blks)"

definition ps_Shutdown :: "publisher \<Rightarrow> ps_call list \<times> publisher" where
  "ps_Shutdown ps = (if ps_closed ps then ([], ps) else ([PS_Shutdown], ps\<lparr>ps_closed := True\<rparr>))"

section \<open>A request\<close>

datatype forwarder = F_Loop | F_Hold block | F_Done
datatype handler = H_Loop | H_Hold block | H_Done

text \<open>
  \<open>rq_put\<close> is what pubsub has put on the channel of values so far, \<open>rq_taken\<close> what \<open>handleIncoming\<close>
  has taken. \<open>rq_out\<close> is what the caller has received, \<open>rq_cancelled\<close> the keys the request has
  cancelled when it is over.
\<close>

record request =
  rq_keys :: "cid list"
  rq_values :: "block list"
  rq_valuesClosed :: bool
  rq_put :: "block list"
  rq_fwd :: forwarder
  rq_blocks :: "block list"
  rq_blocksClosed :: bool
  rq_unsub :: bool
  rq_hnd :: handler
  rq_remaining :: "cid fset"
  rq_taken :: "block list"
  rq_out :: "block list"
  rq_outClosed :: bool
  rq_cancelled :: "cid list option"
  rq_ctxDone :: bool
  rq_sessDone :: bool
  rq_psClosed :: bool

text \<open>\<open>Subscribe\<close>: without keys, or when the publisher is closed, the channel of blocks is closed at once.\<close>

definition Subscribe :: "cid list \<Rightarrow> publisher \<Rightarrow> ps_call list \<times> request" where
  "Subscribe keys ps =
     (let r = \<lparr>rq_keys = keys, rq_values = [], rq_valuesClosed = False, rq_put = [], rq_fwd = F_Loop,
               rq_blocks = [], rq_blocksClosed = False, rq_unsub = False, rq_hnd = H_Loop, rq_remaining = {||},
               rq_taken = [], rq_out = [], rq_outClosed = False, rq_cancelled = None,
               rq_ctxDone = False, rq_sessDone = False, rq_psClosed = ps_closed ps\<rparr>;
          closed = r\<lparr>rq_fwd := F_Done, rq_blocksClosed := True\<rparr>
      in if length keys = 0 then ([], closed)
         else if ps_closed ps then ([], closed)
         else ([PS_AddSubOnceEach keys], r))"

text \<open>\<open>AsyncGetBlocks\<close>: the subscription, the keys wanted, and the request with its goroutines started.\<close>

definition AsyncGetBlocks :: "cid list \<Rightarrow> publisher \<Rightarrow> ps_call list \<times> cid list option \<times> request" where
  "AsyncGetBlocks keys ps =
     (let (calls, r) = Subscribe keys ps
      in if length keys = 0 then ([], None, r\<lparr>rq_hnd := H_Done, rq_outClosed := True\<rparr>)
         else (calls, Some keys, r\<lparr>rq_remaining := fset_of_list keys\<rparr>))"

subsection \<open>The forwarder\<close>

definition fwd_end :: "request \<Rightarrow> request" where
  "fwd_end r = r\<lparr>rq_fwd := F_Done, rq_blocksClosed := True, rq_unsub := \<not> rq_psClosed r\<rparr>"

definition fwd_value :: "request \<Rightarrow> request option" where
  "fwd_value r =
     (case (rq_fwd r, rq_values r) of
        (F_Loop, v # vs) \<Rightarrow> Some (r\<lparr>rq_values := vs, rq_fwd := F_Hold v\<rparr>)
      | (F_Loop, []) \<Rightarrow> if rq_valuesClosed r then Some (fwd_end r) else None
      | _ \<Rightarrow> None)"

definition fwd_ctx :: "request \<Rightarrow> request option" where
  "fwd_ctx r = (if rq_fwd r \<noteq> F_Done \<and> rq_ctxDone r then Some (fwd_end r) else None)"

definition fwd_send :: "request \<Rightarrow> request option" where
  "fwd_send r =
     (case rq_fwd r of
        F_Hold b \<Rightarrow> if length (rq_blocks r) < length (rq_keys r) then Some (r\<lparr>rq_blocks := rq_blocks r @ [b], rq_fwd := F_Loop\<rparr>) else None
      | _ \<Rightarrow> None)"

definition fwd_drop :: "request \<Rightarrow> request option" where
  "fwd_drop r = (case rq_fwd r of F_Hold b \<Rightarrow> if rq_psClosed r then Some (r\<lparr>rq_fwd := F_Loop\<rparr>) else None | _ \<Rightarrow> None)"

subsection \<open>The handler\<close>

definition hnd_end :: "cid order \<Rightarrow> request \<Rightarrow> request" where
  "hnd_end ord r = r\<lparr>rq_hnd := H_Done, rq_outClosed := True, rq_cancelled := Some (ord (rq_remaining r))\<rparr>"

definition hnd_in :: "cid order \<Rightarrow> request \<Rightarrow> request option" where
  "hnd_in ord r =
     (case (rq_hnd r, rq_blocks r) of
        (H_Loop, b # bs) \<Rightarrow>
          Some (r\<lparr>rq_blocks := bs, rq_hnd := H_Hold b, rq_remaining := rq_remaining r |-| {|block_cid b|}, rq_taken := rq_taken r @ [b]\<rparr>)
      | (H_Loop, []) \<Rightarrow> if rq_blocksClosed r then Some (hnd_end ord r) else None
      | _ \<Rightarrow> None)"

definition hnd_out :: "request \<Rightarrow> request option" where
  "hnd_out r = (case rq_hnd r of H_Hold b \<Rightarrow> Some (r\<lparr>rq_out := rq_out r @ [b], rq_hnd := H_Loop\<rparr>) | _ \<Rightarrow> None)"

definition hnd_ctx :: "cid order \<Rightarrow> request \<Rightarrow> request option" where
  "hnd_ctx ord r = (if rq_hnd r \<noteq> H_Done \<and> (rq_ctxDone r \<or> rq_sessDone r) then Some (hnd_end ord r) else None)"

subsection \<open>All steps\<close>

text \<open>What the goroutines do, and what pubsub and the contexts do around them.\<close>

datatype go_step = Fwd_Value | Fwd_Ctx | Fwd_Send | Fwd_Drop | Hnd_In | Hnd_Out | Hnd_Ctx

fun go_run :: "cid order \<Rightarrow> go_step \<Rightarrow> request \<Rightarrow> request option" where
  "go_run ord Fwd_Value r = fwd_value r"
| "go_run ord Fwd_Ctx r = fwd_ctx r"
| "go_run ord Fwd_Send r = fwd_send r"
| "go_run ord Fwd_Drop r = fwd_drop r"
| "go_run ord Hnd_In r = hnd_in ord r"
| "go_run ord Hnd_Out r = hnd_out r"
| "go_run ord Hnd_Ctx r = hnd_ctx ord r"

inductive rq_step :: "cid order \<Rightarrow> request \<Rightarrow> request \<Rightarrow> bool" for ord where
  goroutine: "go_run ord g r = Some r' \<Longrightarrow> rq_step ord r r'"
| put: "\<not> rq_valuesClosed r \<Longrightarrow> length (rq_values r) < length (rq_keys r) \<Longrightarrow>
     rq_step ord r (r\<lparr>rq_values := rq_values r @ [b], rq_put := rq_put r @ [b]\<rparr>)"
| close_values: "rq_step ord r (r\<lparr>rq_valuesClosed := True\<rparr>)"
| end_ctx: "rq_step ord r (r\<lparr>rq_ctxDone := True\<rparr>)"
| end_session: "rq_step ord r (r\<lparr>rq_sessDone := True\<rparr>)"
| close_publisher: "rq_step ord r (r\<lparr>rq_psClosed := True\<rparr>)"

inductive rq_reach :: "cid order \<Rightarrow> cid list \<Rightarrow> request \<Rightarrow> bool" for ord keys where
  start: "AsyncGetBlocks keys ps = (calls, want, r) \<Longrightarrow> rq_reach ord keys r"
| step: "rq_reach ord keys r \<Longrightarrow> rq_step ord r r' \<Longrightarrow> rq_reach ord keys r'"

inductive_cases rq_stepE: "rq_step ord r r'"

section \<open>One block\<close>

text \<open>
  \<open>SyncGetBlock\<close>. \<open>promise\<close> is what the select sees first: a block, the channel closed (with whether
  the context has ended), or the end of the caller's context.
\<close>

datatype promise = Got_Block block | Promise_Closed bool | Parent_Done

datatype get_error = ErrNotFound cid | ErrCtx | ErrPromiseClosed | ErrGet string

definition SyncGetBlock :: "cid \<Rightarrow> (cid list \<Rightarrow> get_error + promise) \<Rightarrow> get_error + block" where
  "SyncGetBlock k gb =
     (if k = Undef then Inl (ErrNotFound k)
      else case gb [k] of
        Inl err \<Rightarrow> Inl err
      | Inr (Got_Block b) \<Rightarrow> Inr b
      | Inr (Promise_Closed ctxDone) \<Rightarrow> Inl (if ctxDone then ErrCtx else ErrPromiseClosed)
      | Inr Parent_Done \<Rightarrow> Inl ErrCtx)"

section \<open>Invariant\<close>

definition fwd_held :: "request \<Rightarrow> block list" where
  "fwd_held r = (case rq_fwd r of F_Hold b \<Rightarrow> [b] | _ \<Rightarrow> [])"

definition hnd_held :: "request \<Rightarrow> block list" where
  "hnd_held r = (case rq_hnd r of H_Hold b \<Rightarrow> [b] | _ \<Rightarrow> [])"

definition undisturbed :: "request \<Rightarrow> bool" where
  "undisturbed r \<longleftrightarrow> \<not> rq_ctxDone r \<and> \<not> rq_sessDone r \<and> \<not> rq_psClosed r"

text \<open>
  Nothing is lost or reordered while neither a context ends nor the publisher is closed, and a
  goroutine that is over has nothing left to do.
\<close>

definition in_order :: "request \<Rightarrow> bool" where
  "in_order r \<longleftrightarrow> (undisturbed r \<longrightarrow> rq_put r = rq_taken r @ rq_blocks r @ fwd_held r @ rq_values r)"

definition ends_empty :: "request \<Rightarrow> bool" where
  "ends_empty r \<longleftrightarrow> (undisturbed r \<longrightarrow>
     (rq_fwd r = F_Done \<longrightarrow> rq_values r = [] \<and> (rq_valuesClosed r \<or> rq_keys r = [])) \<and>
     (rq_hnd r = H_Done \<longrightarrow> rq_fwd r = F_Done \<and> rq_blocks r = []))"

text \<open>The channels never hold more than pubsub put.\<close>

definition within :: "request \<Rightarrow> bool" where
  "within r \<longleftrightarrow> length (rq_blocks r) + length (fwd_held r) + length (rq_values r) \<le> length (rq_put r)"

text \<open>What was taken went out, but for a last block when a context ended; the rest remains.\<close>

definition accounted :: "request \<Rightarrow> bool" where
  "accounted r \<longleftrightarrow>
     (rq_hnd r \<noteq> H_Done \<or> undisturbed r \<longrightarrow> rq_taken r = rq_out r @ hnd_held r) \<and>
     (rq_taken r = rq_out r \<or> (\<exists>b. rq_taken r = rq_out r @ [b]))"

definition remaining_ok :: "request \<Rightarrow> bool" where
  "remaining_ok r \<longleftrightarrow> rq_remaining r = fset_of_list (rq_keys r) |-| fset_of_list (map block_cid (rq_taken r))"

definition flags_ok :: "cid order \<Rightarrow> request \<Rightarrow> bool" where
  "flags_ok ord r \<longleftrightarrow> (rq_fwd r = F_Done \<longleftrightarrow> rq_blocksClosed r) \<and> (rq_hnd r = H_Done \<longleftrightarrow> rq_outClosed r) \<and>
     (rq_keys r \<noteq> [] \<longrightarrow> rq_cancelled r = (if rq_hnd r = H_Done then Some (ord (rq_remaining r)) else None)) \<and>
     (rq_keys r = [] \<longrightarrow> rq_fwd r = F_Done \<and> rq_hnd r = H_Done \<and> rq_cancelled r = None)"

definition rq_inv :: "cid order \<Rightarrow> request \<Rightarrow> bool" where
  "rq_inv ord r \<longleftrightarrow> in_order r \<and> ends_empty r \<and> within r \<and> accounted r \<and> remaining_ok r \<and> flags_ok ord r"

lemmas step_defs = fwd_value_def fwd_ctx_def fwd_send_def fwd_drop_def hnd_in_def hnd_out_def hnd_ctx_def fwd_end_def hnd_end_def
lemmas held_defs = undisturbed_def fwd_held_def hnd_held_def
lemmas step_splits = forwarder.splits handler.splits list.splits if_splits

lemma go_run_keys: "go_run ord g r = Some r' \<Longrightarrow> rq_keys r' = rq_keys r"
  by (cases g) (auto simp: step_defs split: step_splits)

lemma in_order_go: "in_order r \<Longrightarrow> go_run ord g r = Some r' \<Longrightarrow> in_order r'"
  by (cases g) (auto simp: in_order_def step_defs held_defs split: step_splits)

lemma accounted_go: "accounted r \<Longrightarrow> go_run ord g r = Some r' \<Longrightarrow> accounted r'"
  by (cases g; cases "rq_hnd r") (auto simp: accounted_def step_defs held_defs split: forwarder.splits list.splits if_splits)

lemma remaining_go: "remaining_ok r \<Longrightarrow> go_run ord g r = Some r' \<Longrightarrow> remaining_ok r'"
  by (cases g; cases "rq_hnd r") (auto simp: remaining_ok_def step_defs split: forwarder.splits list.splits if_splits)

lemma ends_empty_go: "ends_empty r \<Longrightarrow> flags_ok ord r \<Longrightarrow> go_run ord g r = Some r' \<Longrightarrow> ends_empty r'"
  by (cases g) (auto simp: ends_empty_def flags_ok_def step_defs held_defs split: step_splits)

lemma within_go: "within r \<Longrightarrow> go_run ord g r = Some r' \<Longrightarrow> within r'"
  by (cases g) (auto simp: within_def step_defs held_defs split: step_splits)

lemma flags_go: "flags_ok ord r \<Longrightarrow> go_run ord g r = Some r' \<Longrightarrow> flags_ok ord r'"
  by (cases g) (auto simp: flags_ok_def step_defs held_defs split: step_splits)

lemma rq_inv_go: "rq_inv ord r \<Longrightarrow> go_run ord g r = Some r' \<Longrightarrow> rq_inv ord r'"
  unfolding rq_inv_def by (blast intro: in_order_go ends_empty_go within_go accounted_go remaining_go flags_go)

lemma rq_inv_put: "rq_inv ord r \<Longrightarrow> \<not> rq_valuesClosed r \<Longrightarrow> length (rq_values r) < length (rq_keys r) \<Longrightarrow>
    rq_inv ord (r\<lparr>rq_values := rq_values r @ [b], rq_put := rq_put r @ [b]\<rparr>)"
proof -
  assume inv: "rq_inv ord r" and open_: "\<not> rq_valuesClosed r" "length (rq_values r) < length (rq_keys r)"
  let ?r = "r\<lparr>rq_values := rq_values r @ [b], rq_put := rq_put r @ [b]\<rparr>"
  have "in_order ?r" "within ?r"
    using inv by (simp_all add: rq_inv_def in_order_def within_def held_defs)
  moreover have "ends_empty ?r"
    using inv open_ by (auto simp: rq_inv_def ends_empty_def undisturbed_def)
  moreover have "accounted ?r" "remaining_ok ?r" "flags_ok ord ?r"
    using inv by (simp_all add: rq_inv_def accounted_def remaining_ok_def flags_ok_def held_defs)
  ultimately show "rq_inv ord ?r"
    by (simp add: rq_inv_def)
qed

lemma rq_inv_env:
  "rq_inv ord r \<Longrightarrow> rq_inv ord (r\<lparr>rq_valuesClosed := True\<rparr>)"
  "rq_inv ord r \<Longrightarrow> rq_inv ord (r\<lparr>rq_ctxDone := True\<rparr>)"
  "rq_inv ord r \<Longrightarrow> rq_inv ord (r\<lparr>rq_sessDone := True\<rparr>)"
  "rq_inv ord r \<Longrightarrow> rq_inv ord (r\<lparr>rq_psClosed := True\<rparr>)"
  by (simp_all add: rq_inv_def in_order_def ends_empty_def within_def accounted_def remaining_ok_def flags_ok_def held_defs)

lemma rq_inv_start: "AsyncGetBlocks keys ps = (calls, want, r) \<Longrightarrow> rq_inv ord r \<and> rq_keys r = keys"
  by (auto simp: AsyncGetBlocks_def Subscribe_def rq_inv_def in_order_def ends_empty_def within_def accounted_def remaining_ok_def
      flags_ok_def held_defs Let_def split: if_splits)

lemma rq_inv_reach: "rq_reach ord keys r \<Longrightarrow> rq_inv ord r \<and> rq_keys r = keys"
proof (induction rule: rq_reach.induct)
  case (start ps calls want r)
  then show ?case by (rule rq_inv_start)
next
  case (step r r')
  from step.hyps(2) step.IH show ?case
    by (cases rule: rq_step.cases) (auto intro: rq_inv_go rq_inv_put rq_inv_env dest: go_run_keys)
qed

section \<open>Progress\<close>

text \<open>The steps the goroutines can still make.\<close>

definition rq_work :: "request \<Rightarrow> nat" where
  "rq_work r = 5 * length (rq_values r) + 4 * length (fwd_held r) + 3 * length (rq_blocks r) + length (hnd_held r) +
     (if rq_fwd r = F_Done then 0 else 1) + (if rq_hnd r = H_Done then 0 else 1)"

lemma go_run_work: "go_run ord g r = Some r' \<Longrightarrow> rq_work r' < rq_work r"
  by (cases g) (auto simp: rq_work_def step_defs held_defs split: step_splits)

definition at_rest :: "cid order \<Rightarrow> request \<Rightarrow> bool" where
  "at_rest ord r \<longleftrightarrow> (\<forall>g. go_run ord g r = None)"

lemma at_rest_done:
  assumes "at_rest ord r" "rq_inv ord r" "rq_ctxDone r \<or> rq_valuesClosed r \<and> length (rq_put r) \<le> length (rq_keys r)"
  shows "rq_fwd r = F_Done \<and> rq_hnd r = H_Done"
proof -
  have stop: "fwd_value r = None" "fwd_ctx r = None" "fwd_send r = None" "hnd_in ord r = None" "hnd_out r = None"
    using assms(1) unfolding at_rest_def by (metis go_run.simps)+
  have "rq_fwd r = F_Done"
  proof (cases "rq_fwd r")
    case F_Loop
    then show ?thesis
      using stop(1,2) assms(3) by (auto simp: fwd_value_def fwd_ctx_def split: list.splits if_splits)
  next
    case (F_Hold b)
    then have "length (rq_blocks r) < length (rq_put r)"
      using assms(2) by (simp add: rq_inv_def within_def fwd_held_def)
    then show ?thesis
      using F_Hold stop(2,3) assms(3) by (auto simp: fwd_ctx_def fwd_send_def split: if_splits)
  qed simp
  moreover have "rq_hnd r = H_Done"
  proof (cases "rq_hnd r")
    case H_Loop
    then show ?thesis
      using \<open>rq_fwd r = F_Done\<close> stop(4) assms(2) by (auto simp: hnd_in_def rq_inv_def flags_ok_def split: list.splits if_splits)
  next
    case (H_Hold b)
    then show ?thesis
      using stop(5) by (simp add: hnd_out_def)
  qed simp
  ultimately show ?thesis
    by blast
qed

text \<open>A run of the goroutines alone.\<close>

inductive go_steps :: "cid order \<Rightarrow> request \<Rightarrow> nat \<Rightarrow> request \<Rightarrow> bool" for ord where
  none: "go_steps ord r 0 r"
| one: "go_run ord g r = Some r' \<Longrightarrow> go_steps ord r' n r'' \<Longrightarrow> go_steps ord r (Suc n) r''"

lemma go_steps_work: "go_steps ord r n r' \<Longrightarrow> n + rq_work r' \<le> rq_work r"
  by (induction rule: go_steps.induct) (auto dest: go_run_work)

lemma go_steps_inv: "go_steps ord r n r' \<Longrightarrow> rq_inv ord r \<Longrightarrow> rq_inv ord r'"
  by (induction rule: go_steps.induct) (auto intro: rq_inv_go)

lemma go_run_frame:
  "go_run ord g r = Some r' \<Longrightarrow> rq_put r' = rq_put r \<and> rq_valuesClosed r' = rq_valuesClosed r \<and> rq_ctxDone r' = rq_ctxDone r \<and>
     rq_sessDone r' = rq_sessDone r \<and> rq_psClosed r' = rq_psClosed r \<and> rq_keys r' = rq_keys r"
  by (cases g) (auto simp: step_defs split: step_splits)

lemma go_steps_frame:
  "go_steps ord r n r' \<Longrightarrow> rq_put r' = rq_put r \<and> rq_valuesClosed r' = rq_valuesClosed r \<and> rq_ctxDone r' = rq_ctxDone r \<and>
     rq_sessDone r' = rq_sessDone r \<and> rq_psClosed r' = rq_psClosed r \<and> rq_keys r' = rq_keys r"
  by (induction rule: go_steps.induct) (auto dest: go_run_frame)

fun go_list :: "cid order \<Rightarrow> go_step list \<Rightarrow> request \<Rightarrow> request option" where
  "go_list ord [] r = Some r"
| "go_list ord (g # gs) r = (case go_run ord g r of None \<Rightarrow> None | Some r' \<Rightarrow> go_list ord gs r')"

lemma go_list_steps: "go_list ord gs r = Some r' \<Longrightarrow> go_steps ord r (length gs) r'"
  by (induction gs arbitrary: r) (auto intro: go_steps.intros split: option.splits)

text \<open>A request for two keys of which pubsub has put one before its channel was closed.\<close>

definition example_request :: request where
  "example_request = (snd (snd (AsyncGetBlocks [''a'', ''b''] ps_New)))
     \<lparr>rq_values := [\<lparr>block_cid = ''a'', RawData = [1]\<rparr>], rq_put := [\<lparr>block_cid = ''a'', RawData = [1]\<rparr>], rq_valuesClosed := True\<rparr>"

lemma example_request_reach: "rq_reach ord [''a'', ''b''] example_request"
proof -
  let ?r = "snd (snd (AsyncGetBlocks [''a'', ''b''] ps_New))" and ?b = "\<lparr>block_cid = ''a'', RawData = [1]\<rparr>"
  have "rq_reach ord [''a'', ''b''] ?r"
    by (rule rq_reach.start [of _ ps_New "fst (AsyncGetBlocks [''a'', ''b''] ps_New)" "fst (snd (AsyncGetBlocks [''a'', ''b''] ps_New))"]) simp
  then have "rq_reach ord [''a'', ''b''] (?r\<lparr>rq_values := rq_values ?r @ [?b], rq_put := rq_put ?r @ [?b]\<rparr>)"
    by (rule rq_reach.step, intro rq_step.put) (simp_all add: AsyncGetBlocks_def Subscribe_def ps_New_def)
  then have "rq_reach ord [''a'', ''b''] (?r\<lparr>rq_values := rq_values ?r @ [?b], rq_put := rq_put ?r @ [?b]\<rparr>\<lparr>rq_valuesClosed := True\<rparr>)"
    by (rule rq_reach.step [OF _ rq_step.close_values])
  then show ?thesis
    by (simp add: example_request_def AsyncGetBlocks_def Subscribe_def ps_New_def)
qed

section \<open>Properties\<close>

text \<open>
  C32. A request accounts for every block and every key. In every state a request reaches,
  however its goroutines, pubsub and the contexts interleave: while no context has ended and the publisher is
  open, the blocks pubsub put are, in order, those handed to the caller followed by those on
  the way; once the request is over, the keys it has cancelled are, once each, those for which it
  took no block, and every block it took was handed on, but for a last one overtaken by the
  end of a context. When pubsub puts no more values than there are keys, it never finds its channel full, nor does the
  forwarder.
\<close>

theorem request_accounts:
  assumes "rq_reach ord keys r" "go_range ord"
  shows "(undisturbed r \<longrightarrow> rq_put r = rq_out r @ hnd_held r @ rq_blocks r @ fwd_held r @ rq_values r) \<and>
    (keys \<noteq> [] \<longrightarrow> (rq_outClosed r \<longleftrightarrow> rq_cancelled r \<noteq> None)) \<and>
    (\<forall>ks. rq_cancelled r = Some ks \<longrightarrow> distinct ks \<and>
       (\<exists>taken. set ks = set keys - block_cid ` set taken \<and> (taken = rq_out r \<or> (\<exists>b. taken = rq_out r @ [b])))) \<and>
    (length (rq_put r) \<le> length keys \<longrightarrow> (\<forall>b. rq_fwd r = F_Hold b \<longrightarrow> length (rq_blocks r) < length keys)) \<and>
    (length (rq_put r) < length keys \<longrightarrow> length (rq_values r) < length keys)"
proof -
  have inv: "rq_inv ord r" and keys: "rq_keys r = keys"
    using rq_inv_reach [OF assms(1)] by auto
  have "ks = ord (rq_remaining r)" if "rq_cancelled r = Some ks" for ks
    using inv that by (auto simp: rq_inv_def flags_ok_def split: if_splits)
  then have "distinct ks \<and> set ks = set keys - block_cid ` set (rq_taken r)" if "rq_cancelled r = Some ks" for ks
    using that inv keys
    by (simp add: rq_inv_def remaining_ok_def go_range.ord_distinct [OF assms(2)] go_range.ord_set [OF assms(2)] fset_of_list.rep_eq)
  moreover have "rq_taken r = rq_out r \<or> (\<exists>b. rq_taken r = rq_out r @ [b])"
    using inv by (simp add: rq_inv_def accounted_def)
  ultimately have cancelled: "\<forall>ks. rq_cancelled r = Some ks \<longrightarrow> distinct ks \<and>
       (\<exists>taken. set ks = set keys - block_cid ` set taken \<and> (taken = rq_out r \<or> (\<exists>b. taken = rq_out r @ [b])))"
    by blast
  have "undisturbed r \<longrightarrow> rq_put r = rq_out r @ hnd_held r @ rq_blocks r @ fwd_held r @ rq_values r"
    using inv by (simp add: rq_inv_def in_order_def accounted_def)
  moreover have "keys \<noteq> [] \<longrightarrow> (rq_outClosed r \<longleftrightarrow> rq_cancelled r \<noteq> None)"
    using inv keys by (auto simp: rq_inv_def flags_ok_def)
  moreover have "length (rq_blocks r) + length (fwd_held r) + length (rq_values r) \<le> length (rq_put r)"
    using inv by (simp add: rq_inv_def within_def)
  ultimately show ?thesis
    using cancelled by (auto simp: fwd_held_def)
qed

theorem request_accounts_witness:
  "rq_put example_request = rq_out example_request @ hnd_held example_request @ rq_blocks example_request @
     fwd_held example_request @ rq_values example_request"
proof -
  have "undisturbed example_request"
    by (simp add: example_request_def AsyncGetBlocks_def Subscribe_def ps_New_def undisturbed_def)
  then show ?thesis
    using request_accounts [OF example_request_reach go_range_key_order] by blast
qed



end
