(* ===== verification/Queue_Loop.thy ===== *)
theory Queue_Loop
  imports Message_Queue_Props Network
begin

text \<open>
  The goroutine of a message queue, \<open>runQueue\<close> of
  \<open>client/internal/messagequeue/messagequeue.go\<close>: the work channel, the debounce timer, the
  rebroadcast timer, the responses channel and the sender, on top of the queue's want lists
  (theory \<open>Message_Queue\<close>) and of the network's sender (theory \<open>Network\<close>).

  The loop is a function of one event: a call of another goroutine, the passing of time, a
  timer that fires, or one iteration of the \<open>select\<close> with the case it took. An event that
  cannot happen in a state (a receive from an empty channel) gives \<open>None\<close>. \<open>outgoingWork\<close> is a
  channel of capacity one and holds the time of the signal; \<open>responses\<close> has capacity eight.
  A timer is Go's before version 1.23: \<open>Stop\<close> and \<open>Reset\<close> do not touch the channel.
\<close>

section \<open>Timers\<close>

record go_timer =
  tm_deadline :: "int option"
  tm_channel :: bool

definition tm_new :: "int \<Rightarrow> int \<Rightarrow> go_timer" where
  "tm_new now d = \<lparr>tm_deadline = Some (now + d), tm_channel = False\<rparr>"

definition tm_Reset :: "int \<Rightarrow> int \<Rightarrow> go_timer \<Rightarrow> go_timer" where
  "tm_Reset now d t = t\<lparr>tm_deadline := Some (now + d)\<rparr>"

definition tm_Stop :: "go_timer \<Rightarrow> bool \<times> go_timer" where
  "tm_Stop t = (tm_deadline t \<noteq> None, t\<lparr>tm_deadline := None\<rparr>)"

definition tm_fire :: "int \<Rightarrow> go_timer \<Rightarrow> go_timer option" where
  "tm_fire now t =
     (case tm_deadline t of
        Some d \<Rightarrow> if d \<le> now then Some (t\<lparr>tm_deadline := None, tm_channel := True\<rparr>) else None
      | None \<Rightarrow> None)"

definition tm_receive :: "go_timer \<Rightarrow> go_timer option" where
  "tm_receive t = (if tm_channel t then Some (t\<lparr>tm_channel := False\<rparr>) else None)"

definition tm_idle :: "go_timer \<Rightarrow> bool" where
  "tm_idle t \<longleftrightarrow> tm_deadline t = None \<and> \<not> tm_channel t"

section \<open>State\<close>

definition sendMessageDebounce :: int where "sendMessageDebounce = 10 ^ 6"
definition sendMessageMaxDelay :: int where "sendMessageMaxDelay = 20 * 10 ^ 6"
definition sendMessageCutoff :: nat where "sendMessageCutoff = 256"
definition defaultRebroadcastInterval :: int where "defaultRebroadcastInterval = 30 * 10 ^ 9"

definition mq_sender_opts :: sender_opts where
  "mq_sender_opts = \<lparr>MaxRetries = 3, SendTimeout = 30 * 10 ^ 9, SendErrorBackoff = 100 * 10 ^ 6\<rparr>"

datatype loop_state = Not_Started | Running | Returned

record qloop =
  lq :: mq
  outgoingWork :: "int option"
  ql_responses :: "cid list list"
  workScheduled :: "int option"
  scheduleWork :: go_timer
  rebroadcastTimer :: "go_timer option"
  rebroadcastInterval :: int
  ql_now :: int
  ql_sender :: bool
  ql_state :: loop_state

datatype loop_call =
    Mq_Call mq_call
  | Net_NewMessageSender sender_opts
  | DH_Shutdown
  | Sender_Reset

definition ql_New :: "nat \<Rightarrow> int \<Rightarrow> int \<Rightarrow> qloop" where
  "ql_New maxMsgSize maxLatency now =
     \<lparr>lq = newMessageQueue maxMsgSize maxLatency, outgoingWork = None, ql_responses = [],
      workScheduled = None, scheduleWork = \<lparr>tm_deadline = None, tm_channel = False\<rparr>,
      rebroadcastTimer = None, rebroadcastInterval = defaultRebroadcastInterval, ql_now = now,
      ql_sender = False, ql_state = Not_Started\<rparr>"

section \<open>Calls of other goroutines\<close>

definition signalWorkReady :: "int \<Rightarrow> qloop \<Rightarrow> qloop" where
  "signalWorkReady t s = (case outgoingWork s of None \<Rightarrow> s\<lparr>outgoingWork := Some t\<rparr> | Some _ \<Rightarrow> s)"

text \<open>The effect on the channels of the calls a queue operation makes, at time \<open>t\<close>.\<close>

fun loop_effect :: "int \<Rightarrow> mq_call \<Rightarrow> qloop \<Rightarrow> qloop" where
  "loop_effect t SignalWorkReady s = signalWorkReady t s"
| "loop_effect t (Responses_Put ks) s = s\<lparr>ql_responses := ql_responses s @ [ks]\<rparr>"
| "loop_effect t _ s = s"

definition loop_effects :: "int \<Rightarrow> mq_call list \<Rightarrow> qloop \<Rightarrow> qloop" where
  "loop_effects t acts s = fold (loop_effect t) acts s"

definition ql_op :: "mq_op \<Rightarrow> qloop \<Rightarrow> loop_call list \<times> qloop" where
  "ql_op x s =
     (let (acts, q') = mq_step x (lq s)
      in (map Mq_Call acts, loop_effects (ql_now s) acts (s\<lparr>lq := q'\<rparr>)))"

definition ql_ResponseReceived :: "cid list \<Rightarrow> qloop \<Rightarrow> qloop" where
  "ql_ResponseReceived ks s = loop_effects (ql_now s) (ResponseReceived (length (ql_responses s) < 8) ks) s"

definition SetRebroadcastInterval :: "int \<Rightarrow> qloop \<Rightarrow> qloop" where
  "SetRebroadcastInterval delay s =
     s\<lparr>rebroadcastInterval := delay,
       rebroadcastTimer := (case rebroadcastTimer s of None \<Rightarrow> None | Some t \<Rightarrow> Some (tm_Reset (ql_now s) delay t))\<rparr>"

text \<open>
  \<open>Startup\<close>. The debounce timer that the first lines of \<open>runQueue\<close> create, stop and drain, and the
  zero \<open>workScheduled\<close>, are in the state from the beginning.
\<close>

definition Startup :: "qloop \<Rightarrow> qloop" where
  "Startup s =
     s\<lparr>rebroadcastTimer := Some (tm_new (ql_now s) (rebroadcastInterval s)), ql_state := Running\<rparr>"

definition ql_Shutdown :: "qloop \<Rightarrow> qloop" where
  "ql_Shutdown s = s\<lparr>lq := Shutdown (lq s)\<rparr>"

definition onShutdown :: "qloop \<Rightarrow> loop_call list \<times> qloop" where
  "onShutdown s = (DH_Shutdown # (if ql_sender s then [Sender_Reset] else []), s\<lparr>ql_state := Returned\<rparr>)"

section \<open>Sending\<close>

text \<open>
  What the environment does during a send: whether a sender could be opened if there is
  none, whether the peer supports HAVE messages, the calls of other goroutines before and
  after the message is taken, whether it was delivered, when the send ended and when the
  first signal of the send was raised (the channel keeps no other).
\<close>

record send_env =
  se_opened :: bool
  se_supportsHave :: bool
  se_interim :: "mq_op list"
  se_during :: "mq_op list"
  se_delivered :: bool
  se_signalAt :: int
  se_end :: int

definition env_ok :: "send_env \<Rightarrow> qloop \<Rightarrow> bool" where
  "env_ok e s \<longleftrightarrow> ql_now s \<le> se_signalAt e \<and> se_signalAt e \<le> se_end e"

definition initializeSender :: "send_env \<Rightarrow> qloop \<Rightarrow> bool \<times> loop_call list \<times> qloop" where
  "initializeSender e s =
     (if ql_sender s then (True, [], s)
      else (se_opened e, [Net_NewMessageSender mq_sender_opts], s\<lparr>ql_sender := se_opened e\<rparr>))"

definition ql_sendMessage :: "cid order \<Rightarrow> send_env \<Rightarrow> qloop \<Rightarrow> loop_call list \<times> qloop" where
  "ql_sendMessage ord e s =
     (let (opened, calls0, s0) = initializeSender e s;
          (acts, q') = sendMessage ord opened (se_supportsHave e) (se_interim e) (se_during e) (se_delivered e) (se_end e) (lq s0)
      in (calls0 @ map Mq_Call acts, loop_effects (se_signalAt e) acts (s0\<lparr>lq := q', ql_now := se_end e\<rparr>)))"

definition ql_sendIfReady :: "cid order \<Rightarrow> send_env \<Rightarrow> qloop \<Rightarrow> loop_call list \<times> qloop" where
  "ql_sendIfReady ord e s = (if hasPendingWork (lq s) then ql_sendMessage ord e s else ([], s))"

section \<open>The cases of the select\<close>

definition case_rebroadcast :: "cid order \<Rightarrow> send_env \<Rightarrow> qloop \<Rightarrow> (loop_call list \<times> qloop) option" where
  "case_rebroadcast ord e s =
     (case rebroadcastTimer s of
        None \<Rightarrow> None
      | Some t \<Rightarrow>
          (case tm_receive t of
             None \<Rightarrow> None
           | Some t1 \<Rightarrow>
               let s1 = s\<lparr>rebroadcastTimer := Some (tm_Reset (ql_now s) (rebroadcastInterval s) t1)\<rparr>;
                   (transferred, q1) = transferRebroadcastWants ord (lq s1);
                   s2 = s1\<lparr>lq := q1\<rparr>
               in Some (if transferred then ql_sendMessage ord e s2 else ([], s2))))"

text \<open>
  New work: the time of the first signal is kept, a running timer is stopped and, if \<open>Stop\<close>
  says that it fired, drained; the drain blocks for ever on an empty channel.
\<close>

definition stop_and_drain :: "go_timer \<Rightarrow> go_timer option" where
  "stop_and_drain t = (let (running, t1) = tm_Stop t in if \<not> running then tm_receive t1 else Some t1)"

definition take_work :: "qloop \<Rightarrow> qloop option" where
  "take_work s =
     (case outgoingWork s of
        None \<Rightarrow> None
      | Some when \<Rightarrow>
          let s1 = s\<lparr>outgoingWork := None\<rparr>
          in (case workScheduled s1 of
                None \<Rightarrow> Some (s1\<lparr>workScheduled := Some when\<rparr>)
              | Some _ \<Rightarrow> map_option (\<lambda>t. s1\<lparr>scheduleWork := t\<rparr>) (stop_and_drain (scheduleWork s1))))"

definition send_or_schedule :: "cid order \<Rightarrow> send_env \<Rightarrow> qloop \<Rightarrow> loop_call list \<times> qloop" where
  "send_or_schedule ord e s =
     (if pendingWorkCount (lq s) > sendMessageCutoff \<or> ql_now s - the (workScheduled s) \<ge> sendMessageMaxDelay
      then let (acts, s1) = ql_sendIfReady ord e s in (acts, s1\<lparr>workScheduled := None\<rparr>)
      else ([], s\<lparr>scheduleWork := tm_Reset (ql_now s) sendMessageDebounce (scheduleWork s)\<rparr>))"

definition case_work :: "cid order \<Rightarrow> send_env \<Rightarrow> qloop \<Rightarrow> (loop_call list \<times> qloop) option" where
  "case_work ord e s = map_option (send_or_schedule ord e) (take_work s)"

definition case_timer :: "cid order \<Rightarrow> send_env \<Rightarrow> qloop \<Rightarrow> (loop_call list \<times> qloop) option" where
  "case_timer ord e s =
     (case tm_receive (scheduleWork s) of
        None \<Rightarrow> None
      | Some t \<Rightarrow> Some (ql_sendIfReady ord e (s\<lparr>scheduleWork := t, workScheduled := None\<rparr>)))"

definition case_response :: "qloop \<Rightarrow> (loop_call list \<times> qloop) option" where
  "case_response s =
     (case ql_responses s of
        [] \<Rightarrow> None
      | res # rest \<Rightarrow>
          let (acts, q') = handleResponse (ql_now s) res (lq s)
          in Some (map Mq_Call acts, s\<lparr>ql_responses := rest, lq := q'\<rparr>))"

definition case_done :: "qloop \<Rightarrow> (loop_call list \<times> qloop) option" where
  "case_done s = (if mq_shutdown (lq s) then Some (onShutdown s) else None)"

text \<open>The loop condition after a case: the deferred \<open>onShutdown\<close> runs when the context is done.\<close>

definition loop_check :: "(loop_call list \<times> qloop) option \<Rightarrow> (loop_call list \<times> qloop) option" where
  "loop_check r =
     (case r of
        None \<Rightarrow> None
      | Some (acts, s) \<Rightarrow>
          if mq_shutdown (lq s) then let (acts', s') = onShutdown s in Some (acts @ acts', s') else Some (acts, s))"

section \<open>Events\<close>

datatype ql_event =
    QE_Op mq_op
  | QE_Response "cid list"
  | QE_SetRebroadcastInterval int
  | QE_Startup
  | QE_Shutdown
  | QE_Wait int
  | QE_FireWork
  | QE_FireRebroadcast
  | QE_CaseRebroadcast send_env
  | QE_CaseWork send_env
  | QE_CaseTimer send_env
  | QE_CaseResponse
  | QE_CaseDone

definition in_loop :: "qloop \<Rightarrow> (loop_call list \<times> qloop) option \<Rightarrow> (loop_call list \<times> qloop) option" where
  "in_loop s r = (if ql_state s = Running then r else None)"

fun runQueue :: "cid order \<Rightarrow> ql_event \<Rightarrow> qloop \<Rightarrow> (loop_call list \<times> qloop) option" where
  "runQueue ord (QE_Op x) s = Some (ql_op x s)"
| "runQueue ord (QE_Response ks) s = Some ([], ql_ResponseReceived ks s)"
| "runQueue ord (QE_SetRebroadcastInterval d) s = Some ([], SetRebroadcastInterval d s)"
| "runQueue ord QE_Startup s = (if ql_state s = Not_Started then loop_check (Some ([], Startup s)) else None)"
| "runQueue ord QE_Shutdown s = Some ([], ql_Shutdown s)"
| "runQueue ord (QE_Wait t) s = (if ql_now s \<le> t then Some ([], s\<lparr>ql_now := t\<rparr>) else None)"
| "runQueue ord QE_FireWork s =
     map_option (\<lambda>t. ([], s\<lparr>scheduleWork := t\<rparr>)) (tm_fire (ql_now s) (scheduleWork s))"
| "runQueue ord QE_FireRebroadcast s =
     (case rebroadcastTimer s of
        None \<Rightarrow> None
      | Some t \<Rightarrow> map_option (\<lambda>t. ([], s\<lparr>rebroadcastTimer := Some t\<rparr>)) (tm_fire (ql_now s) t))"
| "runQueue ord (QE_CaseRebroadcast e) s =
     (if env_ok e s then in_loop s (loop_check (case_rebroadcast ord e s)) else None)"
| "runQueue ord (QE_CaseWork e) s = (if env_ok e s then in_loop s (loop_check (case_work ord e s)) else None)"
| "runQueue ord (QE_CaseTimer e) s = (if env_ok e s then in_loop s (loop_check (case_timer ord e s)) else None)"
| "runQueue ord QE_CaseResponse s = in_loop s (loop_check (case_response s))"
| "runQueue ord QE_CaseDone s = in_loop s (case_done s)"

fun ql_run :: "cid order \<Rightarrow> ql_event list \<Rightarrow> qloop \<Rightarrow> (loop_call list \<times> qloop) option" where
  "ql_run ord [] s = Some ([], s)"
| "ql_run ord (x # xs) s =
     (case runQueue ord x s of
        None \<Rightarrow> None
      | Some (acts, s1) \<Rightarrow> map_option (\<lambda>(acts', s2). (acts @ acts', s2)) (ql_run ord xs s1))"

section \<open>The debounce timer\<close>

definition timer_inv :: "qloop \<Rightarrow> bool" where
  "timer_inv s \<longleftrightarrow>
     (workScheduled s = None \<longleftrightarrow> tm_idle (scheduleWork s)) \<and>
     \<not> (tm_deadline (scheduleWork s) \<noteq> None \<and> tm_channel (scheduleWork s)) \<and>
     (\<forall>w d. workScheduled s = Some w \<longrightarrow> tm_deadline (scheduleWork s) = Some d \<longrightarrow>
        d < w + sendMessageMaxDelay + sendMessageDebounce)"

lemma loop_effect_frame [simp]:
  "lq (loop_effect t c s) = lq s" "workScheduled (loop_effect t c s) = workScheduled s"
  "scheduleWork (loop_effect t c s) = scheduleWork s" "ql_now (loop_effect t c s) = ql_now s"
  "ql_sender (loop_effect t c s) = ql_sender s" "ql_state (loop_effect t c s) = ql_state s"
  by (cases c; simp add: signalWorkReady_def split: option.split)+

lemma loop_effects_frame [simp]:
  "lq (loop_effects t cs s) = lq s" "workScheduled (loop_effects t cs s) = workScheduled s"
  "scheduleWork (loop_effects t cs s) = scheduleWork s" "ql_now (loop_effects t cs s) = ql_now s"
  "ql_sender (loop_effects t cs s) = ql_sender s" "ql_state (loop_effects t cs s) = ql_state s"
  unfolding loop_effects_def by (induction cs arbitrary: s) simp_all

lemma initializeSender_frame [simp]:
  "lq (snd (snd (initializeSender e s))) = lq s"
  "workScheduled (snd (snd (initializeSender e s))) = workScheduled s"
  "scheduleWork (snd (snd (initializeSender e s))) = scheduleWork s"
  "outgoingWork (snd (snd (initializeSender e s))) = outgoingWork s"
  "ql_state (snd (snd (initializeSender e s))) = ql_state s"
  by (simp_all add: initializeSender_def)

lemma ql_sendMessage_frame [simp]:
  "workScheduled (snd (ql_sendMessage ord e s)) = workScheduled s"
  "scheduleWork (snd (ql_sendMessage ord e s)) = scheduleWork s"
  "ql_state (snd (ql_sendMessage ord e s)) = ql_state s"
  by (simp_all add: ql_sendMessage_def split_beta Let_def)

lemma ql_sendIfReady_frame [simp]:
  "workScheduled (snd (ql_sendIfReady ord e s)) = workScheduled s"
  "scheduleWork (snd (ql_sendIfReady ord e s)) = scheduleWork s"
  "ql_state (snd (ql_sendIfReady ord e s)) = ql_state s"
  by (simp_all add: ql_sendIfReady_def)

text \<open>The options the queue passes need no default from the network.\<close>

lemma mq_sender_opts_complete: "setDefaultOpts mq_sender_opts = mq_sender_opts"
  by (simp add: setDefaultOpts_def mq_sender_opts_def Let_def)

text \<open>The drain of a stopped timer never blocks while work is scheduled.\<close>

lemma stop_and_drain_scheduled:
  assumes "timer_inv s" "workScheduled s \<noteq> None"
  shows "stop_and_drain (scheduleWork s) = Some \<lparr>tm_deadline = None, tm_channel = False\<rparr>"
  using assms by (auto simp: timer_inv_def tm_idle_def stop_and_drain_def tm_Stop_def tm_receive_def)

lemma take_work_facts:
  assumes "timer_inv s" "take_work s = Some s2"
  shows "workScheduled s2 \<noteq> None" "tm_idle (scheduleWork s2)" "lq s2 = lq s" "outgoingWork s2 = None"
    "ql_now s2 = ql_now s" "ql_state s2 = ql_state s"
  using assms stop_and_drain_scheduled [OF assms(1)]
  by (auto simp: take_work_def Let_def timer_inv_def tm_idle_def split: option.splits)

lemma take_work_enabled: "timer_inv s \<Longrightarrow> outgoingWork s \<noteq> None \<Longrightarrow> take_work s \<noteq> None"
  using stop_and_drain_scheduled [of s] by (auto simp: take_work_def Let_def split: option.splits)

lemma timer_inv_send_or_schedule:
  "workScheduled s \<noteq> None \<Longrightarrow> tm_idle (scheduleWork s) \<Longrightarrow> timer_inv (snd (send_or_schedule ord e s))"
  by (auto simp: send_or_schedule_def timer_inv_def tm_idle_def tm_Reset_def split_beta Let_def)

lemma timer_inv_case_work:
  "timer_inv s \<Longrightarrow> case_work ord e s = Some (acts, s') \<Longrightarrow> timer_inv s'"
  unfolding case_work_def map_option_eq_Some
  by (metis snd_conv take_work_facts(1,2) timer_inv_send_or_schedule)

lemma timer_inv_case_timer:
  assumes "timer_inv s" "case_timer ord e s = Some (acts, s')"
  shows "timer_inv s'"
proof -
  obtain t where "tm_receive (scheduleWork s) = Some t"
      "s' = snd (ql_sendIfReady ord e (s\<lparr>scheduleWork := t, workScheduled := None\<rparr>))"
    using assms(2) by (auto simp: case_timer_def split: option.splits)
  then show ?thesis
    using assms(1) by (auto simp: timer_inv_def tm_idle_def tm_receive_def split: if_splits)
qed

lemma timer_inv_fire:
  assumes "timer_inv s" "tm_fire (ql_now s) (scheduleWork s) = Some t"
  shows "timer_inv (s\<lparr>scheduleWork := t\<rparr>)"
  using assms by (auto simp: timer_inv_def tm_idle_def tm_fire_def split: option.splits if_splits)

lemma case_rebroadcast_cases:
  assumes "case_rebroadcast ord e s = Some r"
  obtains t where "r = (if fst (transferRebroadcastWants ord (lq s))
     then ql_sendMessage ord e (s\<lparr>rebroadcastTimer := t, lq := snd (transferRebroadcastWants ord (lq s))\<rparr>)
     else ([], s\<lparr>rebroadcastTimer := t, lq := lq s\<rparr>))"
proof -
  obtain t t1 where "rebroadcastTimer s = Some t" "tm_receive t = Some t1"
    using assms by (auto simp: case_rebroadcast_def split: option.splits)
  moreover have "snd (transferRebroadcastWants ord (lq s)) = lq s" if "\<not> fst (transferRebroadcastWants ord (lq s))"
    using that by (auto simp: transferRebroadcastWants_def Let_def split_beta split: if_splits)
  ultimately show thesis
    using assms that [of "Some (tm_Reset (ql_now s) (rebroadcastInterval s) t1)"]
    by (simp add: case_rebroadcast_def Let_def split_beta split: if_splits)
qed

lemma timer_inv_case_rebroadcast:
  assumes "timer_inv s" "case_rebroadcast ord e s = Some (acts, s')"
  shows "timer_inv s'"
proof -
  have "workScheduled (snd (acts, s')) = workScheduled s \<and> scheduleWork (snd (acts, s')) = scheduleWork s"
    by (rule case_rebroadcast_cases [OF assms(2)]) (simp split: if_splits)
  then show ?thesis
    using assms(1) by (simp add: timer_inv_def)
qed

lemma timer_inv_case_response:
  "timer_inv s \<Longrightarrow> case_response s = Some (acts, s') \<Longrightarrow> timer_inv s'"
  by (auto simp: case_response_def timer_inv_def Let_def split_beta split: list.splits)

lemma loop_check_Some:
  assumes "loop_check r = Some (acts, s')"
  obtains acts0 s0 where "r = Some (acts0, s0)" "s' = (if mq_shutdown (lq s0) then s0\<lparr>ql_state := Returned\<rparr> else s0)"
  using assms by (auto simp: loop_check_def onShutdown_def Let_def split: option.splits if_splits)

lemma timer_inv_check: "(\<And>a t. r = Some (a, t) \<Longrightarrow> timer_inv t) \<Longrightarrow> loop_check r = Some (acts, s') \<Longrightarrow> timer_inv s'"
  by (erule loop_check_Some) (simp add: timer_inv_def)

lemma timer_inv_runQueue:
  assumes "timer_inv s" "runQueue ord x s = Some (acts, s')"
  shows "timer_inv s'"
proof (cases x)
  case (QE_CaseRebroadcast e)
  then show ?thesis
    using assms timer_inv_check [OF timer_inv_case_rebroadcast [OF assms(1)]] by (simp add: in_loop_def split: if_splits)
next
  case (QE_CaseWork e)
  then show ?thesis
    using assms timer_inv_check [OF timer_inv_case_work [OF assms(1)]] by (simp add: in_loop_def split: if_splits)
next
  case (QE_CaseTimer e)
  then show ?thesis
    using assms timer_inv_check [OF timer_inv_case_timer [OF assms(1)]] by (simp add: in_loop_def split: if_splits)
next
  case QE_CaseResponse
  then show ?thesis
    using assms timer_inv_check [OF timer_inv_case_response [OF assms(1)]] by (simp add: in_loop_def split: if_splits)
next
  case QE_FireWork
  then show ?thesis
    using assms by (auto intro: timer_inv_fire)
next
  case QE_Startup
  then show ?thesis
    using assms by (auto split: if_splits elim!: loop_check_Some simp: Startup_def timer_inv_def)
qed (use assms in \<open>auto simp: timer_inv_def ql_op_def ql_ResponseReceived_def SetRebroadcastInterval_def ql_Shutdown_def
      in_loop_def case_done_def onShutdown_def split_beta Let_def split: option.splits if_splits\<close>)

section \<open>Work is not forgotten\<close>

definition pend_keys :: "mq \<Rightarrow> cid set" where
  "pend_keys q = wl_keys (pending (bcstWants q)) \<union> wl_keys (pending (mq_peerWants q)) \<union> fset (mq_cancels q)"

lemma hasPendingWork_keys: "hasPendingWork q \<longleftrightarrow> pend_keys q \<noteq> {}"
  by (auto simp: hasPendingWork_def pendingWorkCount_def pend_keys_def wl_Len_keys fcard.rep_eq card_gt_0_iff)

lemma fold_addCancel_pending:
  "\<not> fst (fold addCancel ks (b, q)) \<Longrightarrow> \<not> b \<and> pend_keys (snd (fold addCancel ks (b, q))) \<subseteq> pend_keys q"
proof (induction ks arbitrary: b q)
  case (Cons c ks)
  obtain b1 q1 where s: "addCancel c (b, q) = (b1, q1)"
    by (rule prod.exhaust)
  then have "\<not> b1" "pend_keys (snd (fold addCancel ks (b1, q1))) \<subseteq> pend_keys q1"
    using Cons by auto
  moreover from this(1) s have "\<not> b" "pend_keys q1 \<subseteq> pend_keys q"
    by (auto simp: addCancel_def Let_def pend_keys_def recall_Remove_def split: if_splits)
  ultimately show ?case
    using s by auto
qed simp

lemma mq_step_shutdown: "mq_shutdown (snd (mq_step x q)) = mq_shutdown q"
proof -
  have "mq_shutdown (fold addBcst ks q) = mq_shutdown q" "mq_shutdown (fold (addPeerWant t) ks q) = mq_shutdown q" for ks t q
    by (induction ks arbitrary: q) (simp_all add: addBcst_def addPeerWant_def)
  moreover have "mq_shutdown (snd (fold addCancel ks (b, q))) = mq_shutdown q" for ks b q
    by (induction ks arbitrary: b q) (simp_all add: addCancel_def Let_def split_beta)
  ultimately show ?thesis
    by (cases x) (simp_all add: AddBroadcastWantHaves_def AddWants_def AddCancels_def split_beta Let_def)
qed

fun adds_only :: "mq_op \<Rightarrow> bool" where
  "adds_only (MQ_AddCancels _) = False"
| "adds_only _ = True"

lemma mq_step_signals:
  assumes "SignalWorkReady \<notin> set (fst (mq_step x q))"
  shows "adds_only x \<Longrightarrow> mq_step x q = ([], q)" "pend_keys (snd (mq_step x q)) \<subseteq> pend_keys q"
  using assms by (cases x; auto simp: AddBroadcastWantHaves_def AddWants_def AddCancels_def split_beta Let_def
      dest!: fold_addCancel_pending split: if_splits)+

lemma mq_steps_quiet:
  assumes "\<forall>x\<in>set xs. adds_only x" "SignalWorkReady \<notin> set (fst (mq_steps xs q))"
  shows "mq_steps xs q = ([], q)"
  using assms
proof (induction xs arbitrary: q)
  case Nil
  then show ?case
    by (simp add: mq_steps_def)
next
  case (Cons x xs)
  then have "mq_step x q = ([], q)"
    by (intro mq_step_signals(1)) (auto simp: mq_steps_Cons Let_def split_beta)
  then have "mq_steps (x # xs) q = mq_steps xs q"
    by (simp add: mq_steps_Cons Let_def split_beta)
  then show ?case
    using Cons.IH [of q] Cons.prems by auto
qed

lemma extract_calls: "extractOutgoingMessage ord sh interim q = (pcs, bcs, acts, q') \<Longrightarrow>
    acts = fst (mq_steps interim (snd (extract_snapshot ord sh q)))"
  by (auto simp: extractOutgoingMessage_def Let_def split_beta)

lemma extract_quiet:
  assumes "\<forall>x\<in>set interim. adds_only x" "extractOutgoingMessage ord sh interim q = (pcs, bcs, acts, q')"
    "SignalWorkReady \<notin> set acts"
  shows "extractOutgoingMessage ord sh [] q = (pcs, bcs, acts, q')"
proof -
  have quiet: "mq_steps interim (snd (extract_snapshot ord sh q)) = ([], snd (extract_snapshot ord sh q))"
    using assms(3) mq_steps_quiet [OF assms(1)] extract_calls [OF assms(2)] by simp
  moreover have "mq_steps [] p = ([], p)" for p
    by (simp add: mq_steps_def)
  ultimately show ?thesis
    using assms(2) by (simp add: extractOutgoingMessage_def Let_def split_beta)
qed

lemma hasPendingWork_frame [simp]: "hasPendingWork (q\<lparr>mq_msg := m\<rparr>) = hasPendingWork q"
  by (simp add: hasPendingWork_def pendingWorkCount_def)

text \<open>
  A send either ends the queue, or leaves no work, or raises a signal: when other goroutines
  only add wants while the message is filled.
\<close>

lemma sendMessage_signals:
  assumes "go_range ord" "mq_inv q" "mq_msg q = newMsg False" "\<forall>x\<in>set interim. adds_only x"
    and send: "sendMessage ord opened True interim during delivered now q = (acts, q')"
    and work: "hasPendingWork q'" and live: "\<not> mq_shutdown q'"
  shows "SignalWorkReady \<in> set acts"
proof (rule ccontr)
  assume no: "SignalWorkReady \<notin> set acts"
  obtain pcs bcs as q1 where e: "extractOutgoingMessage ord True interim q = (pcs, bcs, as, q1)"
    by (rule prod_cases4)
  have opened: opened
    using send live by (cases opened) (auto simp: sendMessage_def Shutdown_def)
  have as: "SignalWorkReady \<notin> set as"
    using send opened no by (auto simp: sendMessage_def e Let_def split_beta split: if_splits)
  obtain pcs' bcs' q1' k where p: "extractOutgoingMessage ord True [] q = (pcs', bcs', [], q1')"
      "pendingWorkCount q1' + k = pendingWorkCount q" "hasPendingWork q \<longrightarrow> 0 < k \<and> \<not> msg_Empty (mq_msg q1')"
    by (rule extract_progress [OF assms(1-3)]) blast
  have "q1' = q1"
    using extract_quiet [OF assms(4) e as] p(1) by simp
  show False
  proof (cases "msg_Empty (mq_msg q1)")
    case True
    then have "\<not> hasPendingWork q1"
      using p(2,3) \<open>q1' = q1\<close> by (auto simp: hasPendingWork_def)
    then show False
      using send work opened True by (auto simp: sendMessage_def e Let_def split_beta)
  next
    case False
    then have delivered
      using send live opened by (cases delivered) (auto simp: sendMessage_def e Let_def split_beta Shutdown_def)
    then show False
      using send work opened no False by (auto simp: sendMessage_def e Let_def split_beta split: if_splits)
  qed
qed

lemma sendMessage_idle:
  assumes "go_range ord" "mq_msg q = newMsg False"
  shows "mq_msg (snd (sendMessage ord opened sh interim during delivered now q)) = newMsg False"
  using assms by (simp add: sendMessage_def Let_def split_beta Shutdown_def msg_Reset_newMsg)

definition loop_inv :: "qloop \<Rightarrow> bool" where
  "loop_inv s \<longleftrightarrow> mq_inv (lq s) \<and> mq_msg (lq s) = newMsg False"

definition awake :: "qloop \<Rightarrow> bool" where
  "awake s \<longleftrightarrow> mq_shutdown (lq s) \<or> outgoingWork s \<noteq> None \<or> workScheduled s \<noteq> None"

definition work_inv :: "qloop \<Rightarrow> bool" where
  "work_inv s \<longleftrightarrow> loop_inv s \<and> (hasPendingWork (lq s) \<longrightarrow> awake s)"

lemma loop_effects_signal:
  "outgoingWork (loop_effects t acts s) \<noteq> None \<longleftrightarrow> outgoingWork s \<noteq> None \<or> SignalWorkReady \<in> set acts"
proof -
  have "outgoingWork (loop_effect t c s) \<noteq> None \<longleftrightarrow> outgoingWork s \<noteq> None \<or> c = SignalWorkReady" for c s
    by (cases c) (auto simp: signalWorkReady_def split: option.split)
  then show ?thesis
    unfolding loop_effects_def by (induction acts arbitrary: s) auto
qed

definition env_plain :: "send_env \<Rightarrow> bool" where
  "env_plain e \<longleftrightarrow> se_supportsHave e \<and> list_all adds_only (se_interim e)"

lemma work_inv_ql_sendMessage:
  assumes "go_range ord" "loop_inv s" "env_plain e"
  shows "loop_inv (snd (ql_sendMessage ord e s))"
    "hasPendingWork (lq (snd (ql_sendMessage ord e s))) \<Longrightarrow>
       mq_shutdown (lq (snd (ql_sendMessage ord e s))) \<or> outgoingWork (snd (ql_sendMessage ord e s)) \<noteq> None"
proof -
  obtain acts q' where m: "sendMessage ord (fst (initializeSender e s)) True (se_interim e) (se_during e) (se_delivered e) (se_end e) (lq s) = (acts, q')"
    by (rule prod.exhaust)
  have inv: "mq_inv (lq s)" "mq_msg (lq s) = newMsg False" "se_supportsHave e" "\<forall>x\<in>set (se_interim e). adds_only x"
    using assms(2,3) by (auto simp: loop_inv_def env_plain_def list_all_iff)
  have s': "lq (snd (ql_sendMessage ord e s)) = q'"
    "outgoingWork (snd (ql_sendMessage ord e s)) \<noteq> None \<longleftrightarrow> outgoingWork s \<noteq> None \<or> SignalWorkReady \<in> set acts"
    using m inv(3) by (simp_all add: ql_sendMessage_def Let_def split_beta loop_effects_signal del: not_None_eq)
  show "loop_inv (snd (ql_sendMessage ord e s))"
    using mq_inv_sendMessage [OF assms(1) inv(1)] sendMessage_idle [OF assms(1) inv(2)] m
    unfolding loop_inv_def s' by (metis snd_conv)
  show "mq_shutdown (lq (snd (ql_sendMessage ord e s))) \<or> outgoingWork (snd (ql_sendMessage ord e s)) \<noteq> None"
    if "hasPendingWork (lq (snd (ql_sendMessage ord e s)))"
    using that sendMessage_signals [OF assms(1) inv(1,2,4) m] unfolding s' by blast
qed

lemma work_inv_sent:
  assumes "go_range ord" "loop_inv s" "env_plain e"
  shows "work_inv (snd (ql_sendMessage ord e s))" "work_inv ((snd (ql_sendMessage ord e s))\<lparr>workScheduled := w\<rparr>)"
    "work_inv (snd (ql_sendIfReady ord e s))" "work_inv ((snd (ql_sendIfReady ord e s))\<lparr>workScheduled := w\<rparr>)"
  using assms(2) work_inv_ql_sendMessage [OF assms]
  by (auto simp: work_inv_def awake_def ql_sendIfReady_def loop_inv_def)

lemma work_inv_case_work:
  assumes "go_range ord" "work_inv s" "timer_inv s" "env_plain e" "case_work ord e s = Some (acts, s')"
  shows "work_inv s'"
proof -
  obtain s2 where s2: "take_work s = Some s2" "(acts, s') = send_or_schedule ord e s2"
    using assms(5) by (auto simp: case_work_def)
  note f = take_work_facts [OF assms(3) s2(1)]
  have "loop_inv s2"
    using assms(2) f(3) by (simp add: work_inv_def loop_inv_def)
  moreover from this have "work_inv (s2\<lparr>scheduleWork := t\<rparr>)" for t
    using f(1) by (auto simp: work_inv_def loop_inv_def awake_def)
  ultimately show ?thesis
    using s2(2) work_inv_sent(4) [OF assms(1) _ assms(4), of s2 None]
    by (auto simp: send_or_schedule_def split_beta Let_def split: if_splits)
qed

lemma work_inv_case_timer:
  assumes "go_range ord" "work_inv s" "env_plain e" "case_timer ord e s = Some (acts, s')"
  shows "work_inv s'"
proof -
  obtain t where "(acts, s') = ql_sendIfReady ord e (s\<lparr>scheduleWork := t, workScheduled := None\<rparr>)"
    using assms(4) that by (simp add: case_timer_def split: option.splits) metis
  moreover have "loop_inv (s\<lparr>scheduleWork := t, workScheduled := None\<rparr>)"
    using assms(2) by (simp add: work_inv_def loop_inv_def)
  ultimately show ?thesis
    using work_inv_sent(3) [OF assms(1) _ assms(3)] by (metis snd_conv)
qed

lemma transfer_msg: "mq_msg (snd (transferRebroadcastWants ord q)) = mq_msg q"
  by (simp add: transferRebroadcastWants_def Let_def split_beta)

lemma work_inv_case_rebroadcast:
  assumes "go_range ord" "work_inv s" "env_plain e" "case_rebroadcast ord e s = Some (acts, s')"
  shows "work_inv s'"
proof -
  let ?q = "snd (transferRebroadcastWants ord (lq s))"
  obtain t where r: "(acts, s') = (if fst (transferRebroadcastWants ord (lq s))
     then ql_sendMessage ord e (s\<lparr>rebroadcastTimer := t, lq := ?q\<rparr>) else ([], s\<lparr>rebroadcastTimer := t, lq := lq s\<rparr>))"
    by (rule case_rebroadcast_cases [OF assms(4)])
  have "loop_inv (s\<lparr>rebroadcastTimer := t, lq := ?q\<rparr>)" "work_inv (s\<lparr>rebroadcastTimer := t, lq := lq s\<rparr>)"
    using assms(1,2) by (auto simp: work_inv_def loop_inv_def awake_def transfer_msg intro: mq_inv_transfer)
  then show ?thesis
    using r work_inv_sent(1) [OF assms(1) _ assms(3)] by (metis snd_conv)
qed

definition work_view :: "mq \<Rightarrow> message \<times> bool \<times> cid fset \<times> wantlist \<times> wantlist" where
  "work_view q = (mq_msg q, mq_shutdown q, mq_cancels q, pending (bcstWants q), pending (mq_peerWants q))"

lemma work_view_responses: "work_view (snd (fold (responseKey now) ks z)) = work_view (snd z)"
proof -
  have "pending (snd (recordLatency l now c z)) = pending (snd z)" for l c z
    by (cases z) (simp add: recordLatency_def ClearSentAt_def split: option.splits)
  then have "work_view (snd (responseKey now k z)) = work_view (snd z)" for k z
    by (cases z) (simp add: responseKey_def work_view_def Let_def split_beta)
  then show ?thesis
    by (induction ks arbitrary: z) simp_all
qed

lemma handleResponse_work:
  "mq_msg (snd (handleResponse now ks q)) = mq_msg q" "mq_shutdown (snd (handleResponse now ks q)) = mq_shutdown q"
  "hasPendingWork (snd (handleResponse now ks q)) = hasPendingWork q"
  using work_view_responses [of now ks "(None, q)"]
  by (simp_all add: work_view_def handleResponse_def hasPendingWork_def pendingWorkCount_def Let_def split_beta)

lemma work_inv_case_response:
  "work_inv s \<Longrightarrow> case_response s = Some (acts, s') \<Longrightarrow> work_inv s'"
  by (auto simp: case_response_def work_inv_def loop_inv_def awake_def handleResponse_work Let_def split_beta
      split: list.splits intro: mq_inv_handleResponse)

lemma work_inv_op:
  assumes "work_inv s"
  shows "work_inv (snd (ql_op x s))"
proof -
  obtain acts q' where m: "mq_step x (lq s) = (acts, q')"
    by (rule prod.exhaust)
  have "mq_inv q'" "mq_msg q' = mq_msg (lq s)" "mq_shutdown q' = mq_shutdown (lq s)"
    using assms mq_inv_step [of "lq s" x] mq_step_msg [of x "lq s"] mq_step_shutdown [of x "lq s"] m
    by (auto simp: work_inv_def loop_inv_def)
  moreover have "SignalWorkReady \<in> set acts \<or> (hasPendingWork q' \<longrightarrow> hasPendingWork (lq s))"
    using mq_step_signals(2) [of x "lq s"] m by (auto simp: hasPendingWork_keys)
  ultimately show ?thesis
    using assms m by (auto simp: ql_op_def work_inv_def loop_inv_def awake_def loop_effects_signal simp del: not_None_eq)
qed

lemma work_inv_check: "(\<And>a t. r = Some (a, t) \<Longrightarrow> work_inv t) \<Longrightarrow> loop_check r = Some (acts, s') \<Longrightarrow> work_inv s'"
  by (erule loop_check_Some) (auto simp: work_inv_def loop_inv_def awake_def)

fun event_plain :: "ql_event \<Rightarrow> bool" where
  "event_plain (QE_CaseRebroadcast e) = env_plain e"
| "event_plain (QE_CaseWork e) = env_plain e"
| "event_plain (QE_CaseTimer e) = env_plain e"
| "event_plain _ = True"

lemma work_inv_runQueue:
  assumes "go_range ord" "work_inv s" "timer_inv s" "event_plain x" "runQueue ord x s = Some (acts, s')"
  shows "work_inv s'"
proof (cases x)
  case (QE_CaseRebroadcast e)
  then show ?thesis
    using assms(4,5) work_inv_check [OF work_inv_case_rebroadcast [OF assms(1,2)]] by (simp add: in_loop_def split: if_splits)
next
  case (QE_CaseWork e)
  then show ?thesis
    using assms(4,5) work_inv_check [OF work_inv_case_work [OF assms(1-3)]] by (simp add: in_loop_def split: if_splits)
next
  case (QE_CaseTimer e)
  then show ?thesis
    using assms(4,5) work_inv_check [OF work_inv_case_timer [OF assms(1,2)]] by (simp add: in_loop_def split: if_splits)
next
  case QE_CaseResponse
  then show ?thesis
    using assms(5) work_inv_check [OF work_inv_case_response [OF assms(2)]] by (simp add: in_loop_def split: if_splits)
next
  case (QE_Op y)
  then show ?thesis
    using assms(5) work_inv_op [OF assms(2), of y] by simp
next
  case QE_Startup
  then show ?thesis
    using assms by (auto split: if_splits elim!: loop_check_Some simp: Startup_def work_inv_def loop_inv_def awake_def)
next
  case (QE_Response ks)
  then show ?thesis
    using assms(2,5) loop_effects_signal [of "ql_now s" "ResponseReceived (length (ql_responses s) < 8) ks" s]
    by (auto simp: ql_ResponseReceived_def work_inv_def loop_inv_def awake_def)
qed (use assms in \<open>auto simp: work_inv_def loop_inv_def awake_def ql_ResponseReceived_def SetRebroadcastInterval_def ql_Shutdown_def
      Shutdown_def in_loop_def case_done_def onShutdown_def split_beta Let_def loop_effects_signal split: option.splits if_splits\<close>)

section \<open>Runs\<close>

lemma timer_inv_run: "timer_inv s \<Longrightarrow> ql_run ord xs s = Some (acts, s') \<Longrightarrow> timer_inv s'"
  by (induction xs arbitrary: s acts) (auto split: option.splits dest: timer_inv_runQueue)

lemma work_inv_run:
  "go_range ord \<Longrightarrow> work_inv s \<Longrightarrow> timer_inv s \<Longrightarrow> list_all event_plain xs \<Longrightarrow> ql_run ord xs s = Some (acts, s') \<Longrightarrow>
     work_inv s'"
  by (induction xs arbitrary: s acts) (auto split: option.splits dest: timer_inv_runQueue work_inv_runQueue)

lemma newMessageQueue_idle: "mq_msg (newMessageQueue n l) = newMsg False" "\<not> hasPendingWork (newMessageQueue n l)"
  by (simp_all add: newMessageQueue_def hasPendingWork_keys pend_keys_def newRecallWantList_def)

lemma inv_New: "timer_inv (ql_New n l t)" "work_inv (ql_New n l t)"
  by (simp_all add: ql_New_def timer_inv_def tm_idle_def work_inv_def loop_inv_def mq_inv_new newMessageQueue_idle)

text \<open>
  C35. The loop of a message queue never blocks on its debounce timer, and debouncing never
  delays work by more than 21 milliseconds: in every state the loop reaches, work is
  scheduled exactly while the timer runs or has fired, the timer's deadline lies less than
  21 ms after the signal that scheduled the work, and a signal in the channel can be taken,
  the drain of the stopped timer included.
\<close>

theorem debounce_bounded:
  assumes "ql_run ord xs (ql_New maxSize maxLatency now) = Some (acts, s)"
  shows "(workScheduled s = None \<longleftrightarrow> tm_idle (scheduleWork s)) \<and>
    (\<forall>w d. workScheduled s = Some w \<longrightarrow> tm_deadline (scheduleWork s) = Some d \<longrightarrow> d < w + 21 * 10 ^ 6) \<and>
    (outgoingWork s \<noteq> None \<longrightarrow> case_work ord e s \<noteq> None)"
proof -
  have inv: "timer_inv s"
    by (rule timer_inv_run [OF inv_New(1) assms])
  then show ?thesis
    using take_work_enabled [OF inv]
    by (auto simp: timer_inv_def sendMessageMaxDelay_def sendMessageDebounce_def case_work_def)
qed

definition quiet_env :: "int \<Rightarrow> send_env" where
  "quiet_env t = \<lparr>se_opened = True, se_supportsHave = True, se_interim = [], se_during = [], se_delivered = True,
     se_signalAt = t, se_end = t\<rparr>"

definition example_loop_events :: "ql_event list" where
  "example_loop_events =
     [QE_Startup, QE_Op (MQ_AddWants [''a''] []), QE_CaseWork (quiet_env 5), QE_Wait 100,
      QE_Op (MQ_AddWants [''b''] []), QE_CaseWork (quiet_env 100)]"

definition example_loop_end :: qloop where
  "example_loop_end = snd (the (ql_run key_order example_loop_events (ql_New 1000 60 5)))"

theorem debounce_bounded_witness:
  "workScheduled example_loop_end = Some 5 \<and> tm_deadline (scheduleWork example_loop_end) = Some (100 + 10 ^ 6) \<and>
   (100 + 10 ^ 6 :: int) < 5 + 21 * 10 ^ 6"
proof -
  have run: "ql_run key_order example_loop_events (ql_New 1000 60 5) \<noteq> None"
    and state: "workScheduled example_loop_end = Some 5" "tm_deadline (scheduleWork example_loop_end) = Some (100 + 10 ^ 6)"
    by code_simp+
  then obtain acts where "ql_run key_order example_loop_events (ql_New 1000 60 5) = Some (acts, example_loop_end)"
    by (auto simp: example_loop_end_def)
  from debounce_bounded [OF this] state show ?thesis
    by auto
qed



definition stranded_events :: "ql_event list" where
  "stranded_events =
     [QE_Startup, QE_Op (MQ_AddWants [''a'', ''b''] []), QE_CaseWork (quiet_env 5), QE_Wait (10 ^ 7), QE_FireWork,
      QE_CaseTimer ((quiet_env (10 ^ 7))\<lparr>se_interim := [MQ_AddCancels [''a'']]\<rparr>)]"

text \<open>
  The restriction is needed: \<open>sendMessage\<close> returns without a signal when the message is empty.
  If the wants that filled a size-limited message are all cancelled before they are marked as
  sent, the wants that did not fit stay pending with nothing to wake the loop: the next
  signal, or the rebroadcast timer and a want sent earlier, are the only chance they have.
\<close>

theorem stranded_work:
  "case ql_run key_order stranded_events (ql_New 1 60 5) of
     None \<Rightarrow> False
   | Some (acts, s) \<Rightarrow> hasPendingWork (lq s) \<and> ql_state s = Running \<and> \<not> mq_shutdown (lq s) \<and>
       outgoingWork s = None \<and> workScheduled s = None \<and>
       wl_Len (r_sent (mq_peerWants (lq s))) = 0 \<and> wl_Len (r_sent (bcstWants (lq s))) = 0"
  by code_simp

end
