(* ===== verification/Go_Runs.thy ===== *)
theory Go_Runs
  imports Go_Prelude
begin

text \<open>
  Runs of goroutines. A component whose goroutines interleave is a function that gives, for an
  event (a step of one goroutine) and a state, the next state, or \<open>None\<close> when the event cannot
  happen: the channel is empty, the goroutine is elsewhere. A run is a list of events that
  all happen. The locale \<open>event_system\<close> carries an invariant along every run.
\<close>

fun run_events :: "('e \<Rightarrow> 's \<Rightarrow> 's option) \<Rightarrow> 'e list \<Rightarrow> 's \<Rightarrow> 's option" where
  "run_events step [] s = Some s"
| "run_events step (x # xs) s = (case step x s of None \<Rightarrow> None | Some s1 \<Rightarrow> run_events step xs s1)"

lemma run_events_append:
  "run_events step (xs @ ys) s = Option.bind (run_events step xs s) (run_events step ys)"
  by (induction xs arbitrary: s) (auto split: option.split)

text \<open>For runs that are evaluated.\<close>

lemma some_result: "(case x of None \<Rightarrow> False | Some n \<Rightarrow> P n) \<Longrightarrow> \<exists>n. x = Some n \<and> P n"
  by (cases x) auto

locale event_system =
  fixes step :: "'e \<Rightarrow> 's \<Rightarrow> 's option" and inv :: "'s \<Rightarrow> bool"
  assumes step_inv: "inv s \<Longrightarrow> step x s = Some s' \<Longrightarrow> inv s'"
begin

lemma run_inv: "inv s \<Longrightarrow> run_events step xs s = Some s' \<Longrightarrow> inv s'"
  by (induction xs arbitrary: s) (auto split: option.splits intro: step_inv)

end

text \<open>
  Termination: when every event of a system lowers a measure, a run from a state is no longer
  than the measure of the state.
\<close>

locale terminating_system = event_system +
  fixes weight :: "'b \<Rightarrow> nat"
  assumes step_weight: "inv s \<Longrightarrow> step x s = Some s' \<Longrightarrow> weight s' < weight s"
begin

lemma run_length: "inv s \<Longrightarrow> run_events step xs s = Some s' \<Longrightarrow> length xs + weight s' \<le> weight s"
proof (induction xs arbitrary: s)
  case (Cons x xs)
  then obtain s1 where s1: "step x s = Some s1" "run_events step xs s1 = Some s'"
    by (auto split: option.splits)
  with Cons.IH [of s1] Cons.prems(1) step_weight [of s x s1] step_inv [of s x s1] show ?case
    by simp
qed simp

end

text \<open>Counting the elements of a list after one of them has changed.\<close>

lemma length_filter_update:
  "i < length xs \<Longrightarrow>
     length (filter P (xs[i := x])) + (if P (xs ! i) then 1 else 0) = length (filter P xs) + (if P x then 1 else 0)"
proof (induction xs arbitrary: i)
  case (Cons y ys)
  then show ?case
    using Cons.IH [of "i - 1"] by (cases i) auto
qed simp

lemma sum_list_map_update:
  fixes f :: "'a \<Rightarrow> 'b :: comm_monoid_add"
  shows "i < length xs \<Longrightarrow> sum_list (map f (xs[i := x])) + f (xs ! i) = sum_list (map f xs) + f x"
proof (induction xs arbitrary: i)
  case (Cons y ys)
  then show ?case
    using Cons.IH [of "i - 1"] by (cases i) (auto simp: ac_simps)
qed simp

end
