(* ===== verification/Blockstore_Pool.thy ===== *)
theory Blockstore_Pool
  imports Ledgers Go_Runs "HOL-Library.Multiset"
begin

text \<open>
  The worker pool of the block store manager,
  \<open>server/internal/decision/blockstoremanager.go\<close>, as its goroutines interleave: the workers,
  the callers of \<open>jobPerKey\<close>, and \<open>stop\<close>. The theory \<open>Ledgers\<close> has the sequential reading of the
  same file, \<open>jobPerKey\<close>, \<open>getBlocks\<close> and \<open>getBlockSizes\<close>; the pool is shown to refine it.

  The channel \<open>jobs\<close> has no buffer: a job passes from a caller to an idle worker in one step. A
  job is the number of the call it belongs to and its key. The gauges are integers, updated by
  the goroutine that owns the step, after the hand-over on both sides.
\<close>

section \<open>State\<close>

datatype pool_worker =
    W_Idle
  | W_Got nat cid
  | W_Active nat cid
  | W_Ended
  | W_Exited

datatype job_error = Context_Done | Shutting_Down

record job_call =
  jc_keys :: "cid list"
  jc_todo :: "cid list"
  jc_wg :: nat
  jc_inc :: bool
  jc_err :: "job_error option"
  jc_done :: "cid list"
  jc_returned :: bool

record bsm =
  workerCount :: nat
  bsm_workers :: "pool_worker list"
  stopChan :: bool
  pendingGauge :: int
  activeGauge :: int
  bsm_calls :: "job_call list"

definition newBlockstoreManager :: "nat \<Rightarrow> bsm" where
  "newBlockstoreManager n =
     \<lparr>workerCount = n, bsm_workers = [], stopChan = False, pendingGauge = 0, activeGauge = 0, bsm_calls = []\<rparr>"

definition bsm_start :: "bsm \<Rightarrow> bsm" where
  "bsm_start s = s\<lparr>bsm_workers := bsm_workers s @ replicate (workerCount s) W_Idle\<rparr>"

section \<open>Steps\<close>

datatype bsm_event =
    B_Call "cid list"
  | B_AddJob nat nat
  | B_Inc nat
  | B_Refuse nat job_error
  | B_Return nat
  | B_Take nat
  | B_Run nat
  | B_Dec nat
  | B_Exit nat
  | B_Stop

definition call_jobPerKey :: "cid list \<Rightarrow> job_call" where
  "call_jobPerKey ks =
     \<lparr>jc_keys = ks, jc_todo = ks, jc_wg = 0, jc_inc = False, jc_err = None, jc_done = [], jc_returned = False\<rparr>"

text \<open>The caller is at \<open>addJob\<close>: it has a key left, no error, and has counted its last job.\<close>

definition at_addJob :: "job_call \<Rightarrow> bool" where
  "at_addJob c \<longleftrightarrow> jc_todo c \<noteq> [] \<and> jc_err c = None \<and> \<not> jc_inc c"

text \<open>\<open>addJob\<close>: the rendezvous of the caller with an idle worker, and the two ways to fail.\<close>

definition addJob :: "nat \<Rightarrow> nat \<Rightarrow> bsm \<Rightarrow> bsm option" where
  "addJob i w s =
     (if i < length (bsm_calls s) \<and> w < length (bsm_workers s) \<and> at_addJob (bsm_calls s ! i) \<and> bsm_workers s ! w = W_Idle
      then let c = bsm_calls s ! i
           in Some (s\<lparr>bsm_workers := (bsm_workers s)[w := W_Got i (hd (jc_todo c))],
                      bsm_calls := (bsm_calls s)[i := c\<lparr>jc_todo := tl (jc_todo c), jc_wg := jc_wg c + 1, jc_inc := True\<rparr>]\<rparr>)
      else None)"

definition refuseJob :: "nat \<Rightarrow> job_error \<Rightarrow> bsm \<Rightarrow> bsm option" where
  "refuseJob i e s =
     (if i < length (bsm_calls s) \<and> at_addJob (bsm_calls s ! i) \<and> (e = Shutting_Down \<longrightarrow> stopChan s)
      then Some (s\<lparr>bsm_calls := (bsm_calls s)[i := (bsm_calls s ! i)\<lparr>jc_err := Some e\<rparr>]\<rparr>)
      else None)"

definition incGauge :: "nat \<Rightarrow> bsm \<Rightarrow> bsm option" where
  "incGauge i s =
     (if i < length (bsm_calls s) \<and> jc_inc (bsm_calls s ! i)
      then Some (s\<lparr>pendingGauge := pendingGauge s + 1, bsm_calls := (bsm_calls s)[i := (bsm_calls s ! i)\<lparr>jc_inc := False\<rparr>]\<rparr>)
      else None)"

text \<open>The end of \<open>jobPerKey\<close>: the loop is over and the wait group is down to zero.\<close>

definition can_return :: "job_call \<Rightarrow> bool" where
  "can_return c \<longleftrightarrow> \<not> jc_returned c \<and> (jc_todo c = [] \<or> jc_err c \<noteq> None) \<and> \<not> jc_inc c \<and> jc_wg c = 0"

definition returnCall :: "nat \<Rightarrow> bsm \<Rightarrow> bsm option" where
  "returnCall i s =
     (if i < length (bsm_calls s) \<and> can_return (bsm_calls s ! i)
      then Some (s\<lparr>bsm_calls := (bsm_calls s)[i := (bsm_calls s ! i)\<lparr>jc_returned := True\<rparr>]\<rparr>)
      else None)"

text \<open>
  The worker: it takes the gauges along, runs the job (which notes its result and signals the
  caller's wait group), lowers the gauge, and looks at the channels again.
\<close>

definition takeJob :: "nat \<Rightarrow> bsm \<Rightarrow> bsm option" where
  "takeJob w s =
     (if w < length (bsm_workers s) then
        case bsm_workers s ! w of
          W_Got i k \<Rightarrow> Some (s\<lparr>pendingGauge := pendingGauge s - 1, activeGauge := activeGauge s + 1,
                              bsm_workers := (bsm_workers s)[w := W_Active i k]\<rparr>)
        | _ \<Rightarrow> None
      else None)"

definition runJob :: "nat \<Rightarrow> bsm \<Rightarrow> bsm option" where
  "runJob w s =
     (if w < length (bsm_workers s) then
        case bsm_workers s ! w of
          W_Active i k \<Rightarrow>
            let c = bsm_calls s ! i
            in Some (s\<lparr>bsm_workers := (bsm_workers s)[w := W_Ended],
                       bsm_calls := (bsm_calls s)[i := c\<lparr>jc_wg := jc_wg c - 1, jc_done := jc_done c @ [k]\<rparr>]\<rparr>)
        | _ \<Rightarrow> None
      else None)"

definition decGauge :: "nat \<Rightarrow> bsm \<Rightarrow> bsm option" where
  "decGauge w s =
     (if w < length (bsm_workers s) \<and> bsm_workers s ! w = W_Ended
      then Some (s\<lparr>activeGauge := activeGauge s - 1, bsm_workers := (bsm_workers s)[w := W_Idle]\<rparr>)
      else None)"

definition exitWorker :: "nat \<Rightarrow> bsm \<Rightarrow> bsm option" where
  "exitWorker w s =
     (if w < length (bsm_workers s) \<and> bsm_workers s ! w = W_Idle \<and> stopChan s
      then Some (s\<lparr>bsm_workers := (bsm_workers s)[w := W_Exited]\<rparr>)
      else None)"

text \<open>\<open>stop\<close> closes the channel once; it returns when every worker has exited.\<close>

definition bsm_stop :: "bsm \<Rightarrow> bsm" where
  "bsm_stop s = s\<lparr>stopChan := True\<rparr>"

definition stop_returns :: "bsm \<Rightarrow> bool" where
  "stop_returns s \<longleftrightarrow> stopChan s \<and> (\<forall>w\<in>set (bsm_workers s). w = W_Exited)"

fun bsm_step :: "bsm_event \<Rightarrow> bsm \<Rightarrow> bsm option" where
  "bsm_step (B_Call ks) s = Some (s\<lparr>bsm_calls := bsm_calls s @ [call_jobPerKey ks]\<rparr>)"
| "bsm_step (B_AddJob i w) s = addJob i w s"
| "bsm_step (B_Inc i) s = incGauge i s"
| "bsm_step (B_Refuse i e) s = refuseJob i e s"
| "bsm_step (B_Return i) s = returnCall i s"
| "bsm_step (B_Take w) s = takeJob w s"
| "bsm_step (B_Run w) s = runJob w s"
| "bsm_step (B_Dec w) s = decGauge w s"
| "bsm_step (B_Exit w) s = exitWorker w s"
| "bsm_step B_Stop s = Some (bsm_stop s)"

section \<open>Accounting\<close>

text \<open>The keys of call \<open>i\<close> whose jobs a worker has, and the keys a call has handed over.\<close>

fun held_by :: "nat \<Rightarrow> pool_worker \<Rightarrow> cid multiset" where
  "held_by i (W_Got j k) = (if i = j then {#k#} else {#})"
| "held_by i (W_Active j k) = (if i = j then {#k#} else {#})"
| "held_by i _ = {#}"

definition held :: "nat \<Rightarrow> pool_worker list \<Rightarrow> cid multiset" where
  "held i ws = sum_list (map (held_by i) ws)"

fun job_below :: "nat \<Rightarrow> pool_worker \<Rightarrow> bool" where
  "job_below n (W_Got j k) = (j < n)"
| "job_below n (W_Active j k) = (j < n)"
| "job_below n _ = True"

fun is_got :: "pool_worker \<Rightarrow> bool" where
  "is_got (W_Got i k) = True"
| "is_got _ = False"

fun is_active :: "pool_worker \<Rightarrow> bool" where
  "is_active (W_Active i k) = True"
| "is_active W_Ended = True"
| "is_active _ = False"

definition accepted :: "job_call \<Rightarrow> cid list" where
  "accepted c = take (length (jc_keys c) - length (jc_todo c)) (jc_keys c)"

definition call_inv :: "cid multiset \<Rightarrow> job_call \<Rightarrow> bool" where
  "call_inv h c \<longleftrightarrow> jc_keys c = accepted c @ jc_todo c \<and> mset (accepted c) = mset (jc_done c) + h \<and> jc_wg c = size h \<and>
     (jc_err c \<noteq> None \<longrightarrow> jc_todo c \<noteq> []) \<and> (jc_returned c \<longrightarrow> h = {#} \<and> (jc_todo c = [] \<or> jc_err c \<noteq> None) \<and> \<not> jc_inc c)"

definition bsm_inv :: "bsm \<Rightarrow> bool" where
  "bsm_inv s \<longleftrightarrow>
     (\<forall>i<length (bsm_calls s). call_inv (held i (bsm_workers s)) (bsm_calls s ! i)) \<and>
     list_all (job_below (length (bsm_calls s))) (bsm_workers s) \<and>
     pendingGauge s + int (length (filter jc_inc (bsm_calls s))) = int (length (filter is_got (bsm_workers s))) \<and>
     activeGauge s = int (length (filter is_active (bsm_workers s)))"

lemma held_update:
  "w < length ws \<Longrightarrow> held i (ws[w := x]) + held_by i (ws ! w) = held i ws + held_by i x"
  unfolding held_def by (rule sum_list_map_update)

lemma held_update_same: "w < length ws \<Longrightarrow> held_by i (ws ! w) = held_by i x \<Longrightarrow> held i (ws[w := x]) = held i ws"
  using held_update [of w ws i x] by simp

lemma list_all_update: "list_all P xs \<Longrightarrow> P x \<Longrightarrow> list_all P (xs[i := x])"
  using set_update_subset_insert [of xs i x] by (auto simp: list_all_iff)

lemma held_below: "list_all (job_below n) ws \<Longrightarrow> n \<le> i \<Longrightarrow> held i ws = {#}"
proof -
  have "job_below n w \<Longrightarrow> n \<le> i \<Longrightarrow> held_by i w = {#}" for w
    by (cases w) auto
  then show "list_all (job_below n) ws \<Longrightarrow> n \<le> i \<Longrightarrow> held i ws = {#}"
    by (induction ws) (auto simp: held_def)
qed

lemma accepted_add:
  assumes "jc_keys c = accepted c @ jc_todo c" "jc_todo c = k # rest"
  shows "accepted (c\<lparr>jc_todo := rest, jc_wg := n, jc_inc := b\<rparr>) = accepted c @ [k]"
proof -
  obtain A where A: "accepted c = A"
    by blast
  with assms have "jc_keys c = A @ k # rest"
    by simp
  then have "accepted (c\<lparr>jc_todo := rest, jc_wg := n, jc_inc := b\<rparr>) = A @ [k]"
    by (simp add: accepted_def)
  then show ?thesis
    by (simp add: A)
qed

lemma bsm_inv_call:
  assumes "bsm_inv s"
  shows "bsm_inv (s\<lparr>bsm_calls := bsm_calls s @ [call_jobPerKey ks]\<rparr>)"
proof -
  have mono: "job_below n w \<Longrightarrow> job_below (Suc n) w" for n w
    by (cases w) auto
  have "call_inv {#} (call_jobPerKey ks)"
    by (simp add: call_inv_def call_jobPerKey_def accepted_def)
  then show ?thesis
    using assms held_below [of "length (bsm_calls s)" "bsm_workers s" "length (bsm_calls s)"] mono
    by (auto simp: bsm_inv_def nth_append less_Suc_eq list_all_iff call_jobPerKey_def)
qed

lemma bsm_inv_addJob:
  assumes "bsm_inv s" "addJob i w s = Some s'"
  shows "bsm_inv s'"
proof -
  let ?c = "bsm_calls s ! i" and ?ws = "bsm_workers s"
  have g: "i < length (bsm_calls s)" "w < length ?ws" "at_addJob ?c" "?ws ! w = W_Idle"
    using assms(2) by (auto simp: addJob_def split: if_splits)
  obtain k rest where k: "jc_todo ?c = k # rest"
    using g(3) by (auto simp: at_addJob_def neq_Nil_conv)
  let ?c' = "?c\<lparr>jc_todo := rest, jc_wg := jc_wg ?c + 1, jc_inc := True\<rparr>"
  have s': "s' = s\<lparr>bsm_workers := ?ws[w := W_Got i k], bsm_calls := (bsm_calls s)[i := ?c']\<rparr>"
    using assms(2) g k by (simp add: addJob_def Let_def)
  have h: "held j (?ws[w := W_Got i k]) = (if j = i then add_mset k (held j ?ws) else held j ?ws)" for j
    using held_update [OF g(2), of j "W_Got i k"] g(4) by simp
  have c: "call_inv (held i ?ws) ?c"
    using assms(1) g(1) by (simp add: bsm_inv_def)
  have "call_inv (add_mset k (held i ?ws)) ?c'"
    using c g(3) k accepted_add [of ?c k rest] by (auto simp: call_inv_def at_addJob_def)
  then have "\<forall>j<length (bsm_calls s'). call_inv (held j (bsm_workers s')) (bsm_calls s' ! j)"
    using assms(1) g(1) by (simp add: s' h bsm_inv_def nth_list_update)
  moreover have "list_all (job_below (length (bsm_calls s'))) (bsm_workers s')"
    using assms(1) g(1) by (auto simp: s' bsm_inv_def intro: list_all_update)
  ultimately show ?thesis
    using assms(1) g length_filter_update [of w ?ws is_got "W_Got i k"] length_filter_update [of w ?ws is_active "W_Got i k"]
      length_filter_update [of i "bsm_calls s" jc_inc ?c']
    by (simp add: bsm_inv_def s' at_addJob_def)
qed

lemma bsm_inv_calls_only:
  assumes "bsm_inv s" "i < length (bsm_calls s)" "jc_inc c' = jc_inc (bsm_calls s ! i)"
    "call_inv (held i (bsm_workers s)) (bsm_calls s ! i) \<Longrightarrow> call_inv (held i (bsm_workers s)) c'"
  shows "bsm_inv (s\<lparr>bsm_calls := (bsm_calls s)[i := c']\<rparr>)"
  using assms length_filter_update [OF assms(2), of jc_inc c'] by (auto simp: bsm_inv_def nth_list_update)

lemma bsm_inv_refuse:
  assumes "bsm_inv s" "refuseJob i e s = Some s'"
  shows "bsm_inv s'"
  using assms bsm_inv_calls_only [of s i "(bsm_calls s ! i)\<lparr>jc_err := Some e\<rparr>"]
  by (auto simp: refuseJob_def at_addJob_def call_inv_def accepted_def split: if_splits)

lemma bsm_inv_return:
  assumes "bsm_inv s" "returnCall i s = Some s'"
  shows "bsm_inv s'"
  using assms bsm_inv_calls_only [of s i "(bsm_calls s ! i)\<lparr>jc_returned := True\<rparr>"]
  by (auto simp: returnCall_def call_inv_def can_return_def accepted_def split: if_splits)

lemma bsm_inv_inc:
  assumes "bsm_inv s" "incGauge i s = Some s'"
  shows "bsm_inv s'"
proof -
  let ?c = "(bsm_calls s ! i)\<lparr>jc_inc := False\<rparr>"
  have g: "i < length (bsm_calls s)" "jc_inc (bsm_calls s ! i)"
    "s' = s\<lparr>pendingGauge := pendingGauge s + 1, bsm_calls := (bsm_calls s)[i := ?c]\<rparr>"
    using assms(2) by (auto simp: incGauge_def split: if_splits)
  have "call_inv h (bsm_calls s ! i) \<Longrightarrow> call_inv h ?c" for h
    by (simp add: call_inv_def accepted_def)
  then show ?thesis
    using assms(1) g length_filter_update [of i "bsm_calls s" jc_inc ?c] by (auto simp: bsm_inv_def nth_list_update)
qed

text \<open>A step of a worker that keeps its job, or has none.\<close>

lemma bsm_inv_worker:
  assumes "bsm_inv s" "w < length (bsm_workers s)" "\<And>i. held_by i (bsm_workers s ! w) = held_by i x"
    "\<And>n. job_below n (bsm_workers s ! w) \<Longrightarrow> job_below n x"
    "p = pendingGauge s - (if is_got (bsm_workers s ! w) then 1 else 0) + (if is_got x then 1 else 0)"
    "a = activeGauge s - (if is_active (bsm_workers s ! w) then 1 else 0) + (if is_active x then 1 else 0)"
  shows "bsm_inv (s\<lparr>pendingGauge := p, activeGauge := a, bsm_workers := (bsm_workers s)[w := x]\<rparr>)"
proof -
  have "job_below (length (bsm_calls s)) x"
    using assms(1,2,4) by (auto simp: bsm_inv_def list_all_length)
  then show ?thesis
    using assms(1) length_filter_update [OF assms(2), of is_got x] length_filter_update [OF assms(2), of is_active x]
    by (auto simp: bsm_inv_def held_update_same [OF assms(2,3)] assms(5,6) list_all_update)
qed

lemma bsm_inv_take: "bsm_inv s \<Longrightarrow> takeJob w s = Some s' \<Longrightarrow> bsm_inv s'"
  using bsm_inv_worker [of s w _ "pendingGauge s - 1" "activeGauge s + 1"]
  by (auto simp: takeJob_def split: if_splits pool_worker.splits)

lemma bsm_inv_dec:
  assumes "bsm_inv s" "decGauge w s = Some s'"
  shows "bsm_inv s'"
proof -
  have "s\<lparr>pendingGauge := pendingGauge s, activeGauge := activeGauge s - 1, bsm_workers := (bsm_workers s)[w := W_Idle]\<rparr> = s'"
    using assms(2) by (auto simp: decGauge_def split: if_splits)
  with assms bsm_inv_worker [of s w W_Idle "pendingGauge s" "activeGauge s - 1"] show ?thesis
    by (auto simp: decGauge_def split: if_splits)
qed

lemma bsm_inv_exit:
  assumes "bsm_inv s" "exitWorker w s = Some s'"
  shows "bsm_inv s'"
proof -
  have "s\<lparr>pendingGauge := pendingGauge s, activeGauge := activeGauge s, bsm_workers := (bsm_workers s)[w := W_Exited]\<rparr> = s'"
    using assms(2) by (auto simp: exitWorker_def split: if_splits)
  with assms bsm_inv_worker [of s w W_Exited "pendingGauge s" "activeGauge s"] show ?thesis
    by (auto simp: exitWorker_def split: if_splits)
qed

lemma bsm_inv_run:
  assumes "bsm_inv s" "runJob w s = Some s'"
  shows "bsm_inv s'"
proof -
  let ?ws = "bsm_workers s"
  obtain i k where w: "w < length ?ws" "?ws ! w = W_Active i k"
    using assms(2) by (auto simp: runJob_def split: if_splits pool_worker.splits)
  then have i: "i < length (bsm_calls s)"
    using assms(1) by (auto simp: bsm_inv_def list_all_length)
  let ?c = "bsm_calls s ! i"
  let ?c' = "?c\<lparr>jc_wg := jc_wg ?c - 1, jc_done := jc_done ?c @ [k]\<rparr>"
  have s': "s' = s\<lparr>bsm_workers := ?ws[w := W_Ended], bsm_calls := (bsm_calls s)[i := ?c']\<rparr>"
    using assms(2) w by (simp add: runJob_def Let_def)
  have h: "(if j = i then add_mset k (held j (?ws[w := W_Ended])) else held j (?ws[w := W_Ended])) = held j ?ws" for j
    using held_update [OF w(1), of j W_Ended] w(2) by (auto split: if_splits)
  have "call_inv (add_mset k (held i (?ws[w := W_Ended]))) ?c"
    using assms(1) i h [of i] by (auto simp: bsm_inv_def)
  then have "call_inv (held i (?ws[w := W_Ended])) ?c'"
    by (auto simp: call_inv_def accepted_def)
  moreover have "call_inv (held j (?ws[w := W_Ended])) (bsm_calls s ! j)" if "j < length (bsm_calls s)" "j \<noteq> i" for j
    using assms(1) that h [of j] by (auto simp: bsm_inv_def)
  ultimately have "\<forall>j<length (bsm_calls s'). call_inv (held j (bsm_workers s')) (bsm_calls s' ! j)"
    using i by (simp add: s' nth_list_update)
  then show ?thesis
    using assms(1) w i length_filter_update [OF w(1), of is_got W_Ended] length_filter_update [OF w(1), of is_active W_Ended]
      length_filter_update [OF i, of jc_inc ?c']
    by (simp add: bsm_inv_def s' list_all_update)
qed

lemma bsm_inv_stop: "bsm_inv s \<Longrightarrow> bsm_inv (bsm_stop s)"
  by (simp add: bsm_inv_def bsm_stop_def)

lemma bsm_inv_start: "bsm_inv (bsm_start (newBlockstoreManager n))"
  by (simp add: bsm_inv_def bsm_start_def newBlockstoreManager_def list_all_iff)

interpretation bsm_runs: event_system bsm_step bsm_inv
proof
  show "bsm_inv s \<Longrightarrow> bsm_step x s = Some s' \<Longrightarrow> bsm_inv s'" for s x s'
    by (cases x) (auto intro: bsm_inv_call bsm_inv_addJob bsm_inv_inc bsm_inv_refuse bsm_inv_return bsm_inv_take bsm_inv_run
        bsm_inv_dec bsm_inv_exit bsm_inv_stop)
qed

lemma pool_reachable: "run_events bsm_step xs (bsm_start (newBlockstoreManager n)) = Some s \<Longrightarrow> bsm_inv s"
  by (rule bsm_runs.run_inv [OF bsm_inv_start])

section \<open>Refinement of the sequential reading\<close>

lemma jobPerKey_prefix:
  assumes "distinct (js @ rest)"
  shows "jobPerKey (\<lambda>k. k \<in> set js) (js @ rest) = (js, rest = [])"
proof -
  have "jobPerKey acc (js @ rest) = (js, rest = [])" if "\<forall>k\<in>set js. acc k" "\<forall>k\<in>set rest. \<not> acc k" for acc
    using that by (induction js) (simp_all, cases rest, simp_all)
  from this [of "\<lambda>k. k \<in> set js"] assms show ?thesis
    by auto
qed

lemma store_results_lookup: "fmlookup (store_results get js) k = (if k \<in> set js then get k else None)"
proof -
  have "fmlookup (fold (\<lambda>c res. case get c of None \<Rightarrow> res | Some v \<Rightarrow> fmupd c v res) js m) k =
      (if k \<in> set js \<and> get k \<noteq> None then get k else fmlookup m k)" for m
    by (induction js arbitrary: m) (auto split: option.splits)
  then show ?thesis
    by (auto simp: store_results_def)
qed

lemma store_results_cong: "set js = set js' \<Longrightarrow> store_results get js = store_results get js'"
  by (rule fmap_ext) (simp add: store_results_lookup)

text \<open>
  C36. The pool refines the sequential reading of the block store manager: when a call of
  \<open>jobPerKey\<close> returns, in whatever order its jobs ran and whatever other calls ran beside it,
  its results and its error are those of handing the keys over one by one until the first
  refusal, and every job handed over has run exactly once.
\<close>

theorem pool_refines_jobPerKey:
  assumes "run_events bsm_step xs (bsm_start (newBlockstoreManager n)) = Some s" "i < length (bsm_calls s)"
    "c = bsm_calls s ! i" "jc_returned c" "distinct (jc_keys c)"
  shows "getBlocks (\<lambda>k. k \<in> set (jc_done c)) get (jc_keys c) = (store_results get (jc_done c), jc_err c = None) \<and>
    distinct (jc_done c)"
proof -
  have c: "call_inv (held i (bsm_workers s)) c"
    using pool_reachable [OF assms(1)] assms(2,3) by (simp add: bsm_inv_def)
  then have k: "jc_keys c = accepted c @ jc_todo c" and m: "mset (accepted c) = mset (jc_done c)"
    and e: "jc_todo c = [] \<longleftrightarrow> jc_err c = None"
    using assms(4) by (auto simp: call_inv_def)
  then have set: "set (jc_done c) = set (accepted c)"
    by (metis set_mset_mset)
  have "distinct (accepted c)" "distinct (accepted c @ jc_todo c)"
    using assms(5) k by (metis distinct_append)+
  then have d: "distinct (jc_done c)"
    using m by (metis distinct_count_atmost_1 set_mset_mset)
  have "jobPerKey (\<lambda>k. k \<in> set (jc_done c)) (jc_keys c) = (accepted c, jc_todo c = [])"
    unfolding set by (subst k) (rule jobPerKey_prefix, fact)
  moreover have "store_results get (accepted c) = store_results get (jc_done c)"
    by (rule store_results_cong) (simp add: set)
  moreover have "jc_done c = [] \<and> jc_todo c = []" if "jc_keys c = []"
    using that k m by simp
  ultimately have "getBlocks (\<lambda>k. k \<in> set (jc_done c)) get (jc_keys c) = (store_results get (jc_done c), jc_todo c = [])"
    by (auto simp: getBlocks_def store_results_def)
  then show ?thesis
    using d by (simp add: e)
qed

definition example_pool_events :: "bsm_event list" where
  "example_pool_events =
     [B_Call [''a'', ''b'', ''c''], B_AddJob 0 1, B_Inc 0, B_AddJob 0 0, B_Take 0, B_Run 0, B_Inc 0, B_Stop, B_Refuse 0 Shutting_Down,
      B_Take 1, B_Run 1, B_Return 0]"

definition example_pool :: bsm where
  "example_pool = the (run_events bsm_step example_pool_events (bsm_start (newBlockstoreManager 2)))"

definition example_store :: "cid \<Rightarrow> block option" where
  "example_store k = (if k = ''a'' then Some \<lparr>block_cid = k, RawData = [1, 2]\<rparr> else None)"

theorem pool_refines_jobPerKey_witness:
  "jc_done (bsm_calls example_pool ! 0) = [''b'', ''a''] \<and>
   getBlocks (\<lambda>k. k \<in> set [''b'', ''a'']) example_store [''a'', ''b'', ''c''] = (store_results example_store [''b'', ''a''], False)"
proof -
  have ran: "run_events bsm_step example_pool_events (bsm_start (newBlockstoreManager 2)) \<noteq> None"
    and state: "length (bsm_calls example_pool) = 1" "jc_returned (bsm_calls example_pool ! 0)"
      "jc_done (bsm_calls example_pool ! 0) = [''b'', ''a'']" "jc_keys (bsm_calls example_pool ! 0) = [''a'', ''b'', ''c'']"
      "jc_err (bsm_calls example_pool ! 0) = Some Shutting_Down"
    by code_simp+
  then have "run_events bsm_step example_pool_events (bsm_start (newBlockstoreManager 2)) = Some example_pool"
    by (auto simp: example_pool_def)
  from pool_refines_jobPerKey [OF this _ refl, of 0 example_store] state show ?thesis
    by simp
qed

section \<open>No job waits for ever\<close>

text \<open>
  The steps the pool and its callers make by themselves: all but a new call, a stop, and the
  end of a caller's context.
\<close>

fun internal :: "bsm_event \<Rightarrow> bool" where
  "internal (B_Call _) = False"
| "internal B_Stop = False"
| "internal (B_Refuse _ Context_Done) = False"
| "internal _ = True"

definition bsm_internal :: "bsm_event \<Rightarrow> bsm \<Rightarrow> bsm option" where
  "bsm_internal x s = (if internal x then bsm_step x s else None)"

definition call_weight :: "job_call \<Rightarrow> nat" where
  "call_weight c = (if jc_err c = None then 5 * length (jc_todo c) else 0) + (if jc_inc c then 1 else 0) +
     (if jc_returned c then 0 else 1)"

fun worker_weight :: "pool_worker \<Rightarrow> nat" where
  "worker_weight W_Idle = 1"
| "worker_weight (W_Got _ _) = 4"
| "worker_weight (W_Active _ _) = 3"
| "worker_weight W_Ended = 2"
| "worker_weight W_Exited = 0"

definition bsm_weight :: "bsm \<Rightarrow> nat" where
  "bsm_weight s = sum_list (map call_weight (bsm_calls s)) + sum_list (map worker_weight (bsm_workers s))"

lemma bsm_weight_calls:
  "i < length (bsm_calls s) \<Longrightarrow> call_weight c < call_weight (bsm_calls s ! i) \<Longrightarrow>
     bsm_weight (s\<lparr>pendingGauge := p, bsm_calls := (bsm_calls s)[i := c]\<rparr>) < bsm_weight s"
  using sum_list_map_update [of i "bsm_calls s" call_weight c] by (simp add: bsm_weight_def)

lemma bsm_weight_workers:
  "w < length (bsm_workers s) \<Longrightarrow> worker_weight x < worker_weight (bsm_workers s ! w) \<Longrightarrow>
     bsm_weight (s\<lparr>pendingGauge := p, activeGauge := a, bsm_workers := (bsm_workers s)[w := x]\<rparr>) < bsm_weight s"
  using sum_list_map_update [of w "bsm_workers s" worker_weight x] by (simp add: bsm_weight_def)

definition workers_inv :: "nat \<Rightarrow> bsm \<Rightarrow> bool" where
  "workers_inv n s \<longleftrightarrow> length (bsm_workers s) = n \<and> list_all (\<lambda>w. w = W_Exited \<longrightarrow> stopChan s) (bsm_workers s)"

lemmas bsm_ops = addJob_def incGauge_def refuseJob_def returnCall_def takeJob_def runJob_def decGauge_def exitWorker_def bsm_stop_def

interpretation workers_runs: event_system bsm_step "workers_inv n"
proof
  show "workers_inv n s \<Longrightarrow> bsm_step x s = Some s' \<Longrightarrow> workers_inv n s'" for s x s'
    by (cases x) (auto simp: bsm_ops workers_inv_def Let_def list_all_update split: if_splits pool_worker.splits,
      auto simp: list_all_iff)
qed

interpretation bsm_internal_runs: terminating_system bsm_internal "workers_inv n" bsm_weight
proof
  fix s x s'
  assume a: "workers_inv n s" "bsm_internal x s = Some s'"
  then have x: "internal x" "bsm_step x s = Some s'"
    by (auto simp: bsm_internal_def split: if_splits)
  show "workers_inv n s'"
    by (rule workers_runs.step_inv [OF a(1) x(2)])
  show "bsm_weight s' < bsm_weight s"
  proof (cases x)
    case (B_AddJob i w)
    let ?c = "bsm_calls s ! i"
    let ?c' = "?c\<lparr>jc_todo := tl (jc_todo ?c), jc_wg := jc_wg ?c + 1, jc_inc := True\<rparr>"
    have g: "i < length (bsm_calls s)" "w < length (bsm_workers s)" "at_addJob ?c" "bsm_workers s ! w = W_Idle"
      "s' = s\<lparr>bsm_workers := (bsm_workers s)[w := W_Got i (hd (jc_todo ?c))], bsm_calls := (bsm_calls s)[i := ?c']\<rparr>"
      using B_AddJob x by (auto simp: addJob_def Let_def split: if_splits)
    have "call_weight ?c' + 4 = call_weight ?c"
      using g(3) by (cases "jc_todo ?c") (auto simp: at_addJob_def call_weight_def)
    then show ?thesis
      using g sum_list_map_update [OF g(1), of call_weight ?c'] sum_list_map_update [OF g(2), of worker_weight "W_Got i (hd (jc_todo ?c))"]
      by (simp add: bsm_weight_def)
  next
    case (B_Run w)
    then obtain i k where g: "w < length (bsm_workers s)" "bsm_workers s ! w = W_Active i k"
      "s' = s\<lparr>bsm_workers := (bsm_workers s)[w := W_Ended], bsm_calls := (bsm_calls s)[i := (bsm_calls s ! i)\<lparr>jc_wg := jc_wg (bsm_calls s ! i) - 1, jc_done := jc_done (bsm_calls s ! i) @ [k]\<rparr>]\<rparr>"
      using x by (auto simp: runJob_def Let_def split: if_splits pool_worker.splits)
    have c: "call_weight (bsm_calls s' ! i) = call_weight (bsm_calls s ! i)" if "i < length (bsm_calls s)"
      using that g(3) by (simp add: call_weight_def)
    have "map call_weight (bsm_calls s') = map call_weight (bsm_calls s)"
      using c g(3) by (cases "i < length (bsm_calls s)") (auto intro!: nth_equalityI simp: nth_list_update)
    then show ?thesis
      using g sum_list_map_update [OF g(1), of worker_weight W_Ended] by (simp add: bsm_weight_def)
  next
    case (B_Inc i)
    then show ?thesis
      using x bsm_weight_calls [of i s "(bsm_calls s ! i)\<lparr>jc_inc := False\<rparr>" "pendingGauge s + 1"]
      by (auto simp: incGauge_def call_weight_def split: if_splits)
  next
    case (B_Refuse i e)
    then show ?thesis
      using x bsm_weight_calls [of i s "(bsm_calls s ! i)\<lparr>jc_err := Some e\<rparr>" "pendingGauge s"]
      by (auto simp: refuseJob_def at_addJob_def call_weight_def split: if_splits)
  next
    case (B_Return i)
    then show ?thesis
      using x bsm_weight_calls [of i s "(bsm_calls s ! i)\<lparr>jc_returned := True\<rparr>" "pendingGauge s"]
      by (auto simp: returnCall_def can_return_def call_weight_def split: if_splits)
  next
    case (B_Take w)
    then show ?thesis
      using x bsm_weight_workers [of w s _ "activeGauge s + 1" "pendingGauge s - 1"]
      by (auto simp: takeJob_def split: if_splits pool_worker.splits)
  next
    case (B_Dec w)
    then show ?thesis
      using x bsm_weight_workers [of w s W_Idle "activeGauge s - 1" "pendingGauge s"]
      by (auto simp: decGauge_def split: if_splits)
  next
    case (B_Exit w)
    then show ?thesis
      using x bsm_weight_workers [of w s W_Exited "activeGauge s" "pendingGauge s"]
      by (auto simp: exitWorker_def split: if_splits)
  qed (use x in simp_all)
qed

text \<open>A state in which no internal step is possible.\<close>

definition bsm_quiet :: "bsm \<Rightarrow> bool" where
  "bsm_quiet s \<longleftrightarrow> (\<forall>x. bsm_internal x s = None)"

lemma quiet_workers:
  assumes "bsm_quiet s" "w < length (bsm_workers s)"
  shows "bsm_workers s ! w = (if stopChan s then W_Exited else bsm_workers s ! w)" "bsm_workers s ! w \<in> {W_Idle, W_Exited}"
proof -
  have "bsm_internal (B_Take w) s = None" "bsm_internal (B_Run w) s = None" "bsm_internal (B_Dec w) s = None" "bsm_internal (B_Exit w) s = None"
    using assms(1) by (simp_all add: bsm_quiet_def)
  then show "bsm_workers s ! w = (if stopChan s then W_Exited else bsm_workers s ! w)" "bsm_workers s ! w \<in> {W_Idle, W_Exited}"
    using assms(2) by (cases "bsm_workers s ! w"; auto simp: bsm_internal_def bsm_ops Let_def)+
qed

lemma quiet_held:
  assumes "bsm_quiet s"
  shows "held i (bsm_workers s) = {#}" "filter is_got (bsm_workers s) = []" "filter is_active (bsm_workers s) = []"
proof -
  have w: "w = W_Idle \<or> w = W_Exited" if "w \<in> set (bsm_workers s)" for w
    using that quiet_workers(2) [OF assms] by (auto simp: in_set_conv_nth)
  then have "map (held_by i) (bsm_workers s) = map (\<lambda>_. {#}) (bsm_workers s)"
    by fastforce
  then show "held i (bsm_workers s) = {#}"
    unfolding held_def by (metis sum_list_0)
  show "filter is_got (bsm_workers s) = []" "filter is_active (bsm_workers s) = []"
    using w by (force simp: filter_empty_conv)+
qed

lemma quiet_call:
  assumes "bsm_quiet s" "bsm_inv s" "workers_inv n s" "0 < n" "i < length (bsm_calls s)"
  shows "jc_returned (bsm_calls s ! i)" "\<not> jc_inc (bsm_calls s ! i)"
proof -
  let ?c = "bsm_calls s ! i"
  have q: "bsm_internal (B_Inc i) s = None" "bsm_internal (B_AddJob i 0) s = None" "bsm_internal (B_Return i) s = None"
      "bsm_internal (B_Refuse i Shutting_Down) s = None"
    using assms(1) by (simp_all add: bsm_quiet_def)
  have inc: "\<not> jc_inc ?c"
    using q(1) assms(5) by (auto simp: bsm_internal_def bsm_ops split: if_splits)
  have len: "0 < length (bsm_workers s)"
    using assms(3,4) by (simp add: workers_inv_def)
  have "jc_wg ?c = 0"
    using assms(2,5) quiet_held(1) [OF assms(1)] by (simp add: bsm_inv_def call_inv_def)
  moreover have "\<not> at_addJob ?c"
  proof (cases "stopChan s")
    case True
    then show ?thesis
      using q(4) assms(5) by (auto simp: bsm_internal_def bsm_ops split: if_splits)
  next
    case False
    then have "bsm_workers s ! 0 = W_Idle"
      using quiet_workers(2) [OF assms(1) len] assms(3) len by (auto simp: workers_inv_def list_all_length)
    then show ?thesis
      using q(2) assms(5) len by (auto simp: bsm_internal_def bsm_ops Let_def split: if_splits)
  qed
  ultimately show "jc_returned ?c" "\<not> jc_inc ?c"
    using q(3) assms(5) inc by (auto simp: bsm_internal_def bsm_ops can_return_def at_addJob_def split: if_splits)
qed

text \<open>
  C37. The pool never blocks: left to itself it makes a bounded number of steps, and when no
  step is left every call of \<open>jobPerKey\<close> has returned, both gauges are back at zero, and a stop
  that was asked for has returned. With at least one worker, so no job is lost and no caller
  waits for ever, a stop in the middle of its jobs included.
\<close>

theorem pool_drains:
  assumes "run_events bsm_step xs (bsm_start (newBlockstoreManager n)) = Some s" "0 < n"
    "run_events bsm_internal ys s = Some s'"
  shows "length ys \<le> bsm_weight s \<and>
    (bsm_quiet s' \<longrightarrow> list_all jc_returned (bsm_calls s') \<and> pendingGauge s' = 0 \<and> activeGauge s' = 0 \<and>
       (stopChan s' \<longrightarrow> stop_returns s'))"
proof -
  have "workers_inv n (bsm_start (newBlockstoreManager n))"
    by (simp add: workers_inv_def bsm_start_def newBlockstoreManager_def list_all_iff)
  then have w: "workers_inv n s"
    by (rule workers_runs.run_inv [OF _ assms(1)])
  have "bsm_inv s''" if "run_events bsm_internal zs t = Some s''" "bsm_inv t" for zs t s''
    using that by (induction zs arbitrary: t)
      (auto simp: bsm_internal_def split: if_splits option.splits intro: bsm_runs.step_inv)
  then have i': "bsm_inv s'"
    using assms(3) pool_reachable [OF assms(1)] by blast
  have w': "workers_inv n s'"
    by (rule bsm_internal_runs.run_inv [OF w assms(3)])
  have "length ys \<le> bsm_weight s"
    using bsm_internal_runs.run_length [OF w assms(3)] by simp
  moreover have "list_all jc_returned (bsm_calls s') \<and> pendingGauge s' = 0 \<and> activeGauge s' = 0 \<and> (stopChan s' \<longrightarrow> stop_returns s')"
    if q: "bsm_quiet s'"
  proof -
    have "list_all jc_returned (bsm_calls s')" "filter jc_inc (bsm_calls s') = []"
      using quiet_call [OF q i' w' assms(2)] by (auto simp: list_all_length filter_empty_conv in_set_conv_nth)
    moreover have "stop_returns s'" if "stopChan s'"
      using that quiet_workers(1) [OF q] by (auto simp: stop_returns_def in_set_conv_nth)
    ultimately show ?thesis
      using i' quiet_held [OF q] by (simp add: bsm_inv_def)
  qed
  ultimately show ?thesis
    by blast
qed

theorem pool_drains_witness:
  "length [B_Dec 0, B_Dec 1, B_Exit 0, B_Exit 1] \<le> bsm_weight example_pool \<and>
   stop_returns (the (run_events bsm_internal [B_Dec 0, B_Dec 1, B_Exit 0, B_Exit 1] example_pool))"
proof -
  have ran: "run_events bsm_step example_pool_events (bsm_start (newBlockstoreManager 2)) \<noteq> None"
    "run_events bsm_internal [B_Dec 0, B_Dec 1, B_Exit 0, B_Exit 1] example_pool \<noteq> None"
    "stop_returns (the (run_events bsm_internal [B_Dec 0, B_Dec 1, B_Exit 0, B_Exit 1] example_pool))"
    by code_simp+
  then have e: "run_events bsm_step example_pool_events (bsm_start (newBlockstoreManager 2)) = Some example_pool"
    by (auto simp: example_pool_def)
  obtain s' where "run_events bsm_internal [B_Dec 0, B_Dec 1, B_Exit 0, B_Exit 1] example_pool = Some s'"
    using ran(2) by blast
  from pool_drains [OF e _ this] ran(3) show ?thesis
    by simp
qed

end
