(* ===== verification/Engine_Workers.thy ===== *)
theory Engine_Workers
  imports Server Score_Ledger Go_Runs "HOL-Library.Multiset"
begin

text \<open>
  The goroutines between the decision engine and the network: the engine's task workers
  (\<open>taskWorker\<close>, \<open>taskWorkerExit\<close> and \<open>StartWorkers\<close> of \<open>server/internal/decision/engine.go\<close>), which
  offer one-time channels on the outbox and fill each with one envelope, and the server's
  task workers (\<open>taskWorker\<close> of \<open>server/server.go\<close>), which take them and send. The rest of
  \<open>engine.go\<close> that its callers see only through other parts is here too: the metrics, the tags
  of the connection manager, the wrapped task comparator and the receipts.

  The outbox has no buffer: an offer is taken in one step. A one-time channel is its content
  and the number of times it was closed. Closing a closed channel and sending on a closed one
  are panics and set \<open>wk_panic\<close>.
\<close>

section \<open>Metrics, tags and comparators\<close>

record engine_metrics =
  metricUpdateCounter :: "64 word"
  em_activeGauge :: nat
  em_pendingGauge :: nat

text \<open>\<open>numActive\<close> and \<open>numPending\<close> are the statistics of the request queue.\<close>

definition updateMetrics :: "nat \<Rightarrow> nat \<Rightarrow> engine_metrics \<Rightarrow> engine_metrics" where
  "updateMetrics numActive numPending m =
     (let c = metricUpdateCounter m;
          m1 = m\<lparr>metricUpdateCounter := metricUpdateCounter m + 1\<rparr>
      in if sint c mod 100 = 0 then m1\<lparr>em_activeGauge := numActive, em_pendingGauge := numPending\<rparr> else m1)"

datatype engine_tag_call =
    Eng_TagPeer peer string int
  | Eng_UntagPeer peer string

definition queuedTagWeight :: int where "queuedTagWeight = 10"

definition onPeerAdded :: "string \<Rightarrow> peer \<Rightarrow> engine_tag_call" where
  "onPeerAdded tagQueued p = Eng_TagPeer p tagQueued queuedTagWeight"

definition onPeerRemoved :: "string \<Rightarrow> peer \<Rightarrow> engine_tag_call" where
  "onPeerRemoved tagQueued p = Eng_UntagPeer p tagQueued"

text \<open>The callback \<open>startScoreLedger\<close> gives to the score ledger.\<close>

definition scorePeer :: "string \<Rightarrow> peer \<Rightarrow> int \<Rightarrow> engine_tag_call" where
  "scorePeer tagUseful p score = (if score = 0 then Eng_UntagPeer p tagUseful else Eng_TagPeer p tagUseful score)"

record taskInfo =
  ti_Peer :: peer
  ti_Cid :: cid
  ti_IsWantBlock :: bool
  ti_SendDontHave :: bool
  ti_BlockSize :: nat
  ti_HaveBlock :: bool

record queueTask =
  qt_Target :: peer
  qt_Task :: task

definition taskInfo_of :: "queueTask \<Rightarrow> taskInfo" where
  "taskInfo_of a =
     \<lparr>ti_Peer = qt_Target a, ti_Cid = Topic (qt_Task a), ti_IsWantBlock = IsWantBlock (Data (qt_Task a)),
      ti_SendDontHave = td_SendDontHave (Data (qt_Task a)), ti_BlockSize = BlockSize (Data (qt_Task a)),
      ti_HaveBlock = HaveBlock (Data (qt_Task a))\<rparr>"

definition wrapTaskComparator :: "(taskInfo \<Rightarrow> taskInfo \<Rightarrow> bool) \<Rightarrow> queueTask \<Rightarrow> queueTask \<Rightarrow> bool" where
  "wrapTaskComparator tc a b = tc (taskInfo_of a) (taskInfo_of b)"

definition LedgerForPeer :: "peer \<Rightarrow> dsl \<Rightarrow> receipt" where
  "LedgerForPeer p l = GetReceipt p l"

definition numBytesSentTo :: "peer \<Rightarrow> dsl \<Rightarrow> uint64" where
  "numBytesSentTo p l = rc_Sent (LedgerForPeer p l)"

definition numBytesReceivedFrom :: "peer \<Rightarrow> dsl \<Rightarrow> uint64" where
  "numBytesReceivedFrom p l = rc_Recv (LedgerForPeer p l)"

section \<open>State\<close>

datatype eng_worker = EW_Offer | EW_Prepare nat | EW_Exited

datatype srv_worker = SW_Loop | SW_Wait nat | SW_Nil | SW_Envelope envelope | SW_Returned

record one_time =
  ot_envelope :: "envelope option"
  ot_closed :: nat

record workers =
  ew :: "eng_worker list"
  wk_taskWorkerCount :: int
  outbox_closed :: bool
  workSignal :: bool
  sw :: "srv_worker list"
  one_times :: "one_time list"
  wk_server :: server
  wk_ctx_done :: bool
  wk_panic :: bool
  wk_made :: "envelope list"
  wk_sent :: "envelope list"

text \<open>\<open>StartWorkers\<close> of the engine with \<open>startWorkers\<close> of the server: \<open>n\<close> and \<open>m\<close> task workers.\<close>

definition StartWorkers :: "nat \<Rightarrow> nat \<Rightarrow> server \<Rightarrow> workers" where
  "StartWorkers n m srv =
     \<lparr>ew = replicate n EW_Offer, wk_taskWorkerCount = int n, outbox_closed = False, workSignal = False,
      sw = replicate m SW_Loop, one_times = [], wk_server = srv, wk_ctx_done = False, wk_panic = False,
      wk_made = [], wk_sent = []\<rparr>"

definition signalNewWork :: "workers \<Rightarrow> workers" where
  "signalNewWork s = s\<lparr>workSignal := True\<rparr>"

section \<open>Steps\<close>

definition taskWorkerExit :: "nat \<Rightarrow> workers \<Rightarrow> workers" where
  "taskWorkerExit w s =
     (let s1 = s\<lparr>ew := (ew s)[w := EW_Exited], wk_taskWorkerCount := wk_taskWorkerCount s - 1\<rparr>
      in if wk_taskWorkerCount s1 = 0
         then (if outbox_closed s1 then s1\<lparr>wk_panic := True\<rparr> else s1\<lparr>outbox_closed := True\<rparr>)
         else s1)"

text \<open>The select of the engine's worker: an offer a server worker takes, or the end of the context.\<close>

definition offer :: "nat \<Rightarrow> nat \<Rightarrow> workers \<Rightarrow> workers option" where
  "offer w r s =
     (if w < length (ew s) \<and> r < length (sw s) \<and> ew s ! w = EW_Offer \<and> sw s ! r = SW_Loop \<and> \<not> outbox_closed s
      then let i = length (one_times s)
           in Some (s\<lparr>ew := (ew s)[w := EW_Prepare i], sw := (sw s)[r := SW_Wait i],
                      one_times := one_times s @ [\<lparr>ot_envelope = None, ot_closed = 0\<rparr>]\<rparr>)
      else None)"

definition offer_closed :: "nat \<Rightarrow> workers \<Rightarrow> workers option" where
  "offer_closed w s =
     (if w < length (ew s) \<and> ew s ! w = EW_Offer \<and> outbox_closed s then Some (s\<lparr>wk_panic := True\<rparr>) else None)"

definition worker_done :: "nat \<Rightarrow> workers \<Rightarrow> workers option" where
  "worker_done w s =
     (if w < length (ew s) \<and> ew s ! w = EW_Offer \<and> wk_ctx_done s then Some (taskWorkerExit w s) else None)"

definition close_one_time :: "nat \<Rightarrow> envelope option \<Rightarrow> workers \<Rightarrow> workers" where
  "close_one_time i env s =
     (let c = one_times s ! i
      in (s\<lparr>one_times := (one_times s)[i := \<lparr>ot_envelope = env, ot_closed = ot_closed c + 1\<rparr>],
            wk_panic := (wk_panic s \<or> ot_closed c > 0)\<rparr>))"

text \<open>The rest of the worker's loop, once \<open>nextEnvelope\<close> has come back.\<close>

definition prepare ::
  "cid order \<Rightarrow> (cid \<Rightarrow> bool) \<Rightarrow> (cid \<Rightarrow> block option) \<Rightarrow> nat \<Rightarrow> (pop \<times> wake list) list \<Rightarrow> workers \<Rightarrow> workers option" where
  "prepare ord accept get w rounds s =
     (if w < length (ew s) then
        case ew s ! w of
          EW_Prepare i \<Rightarrow>
            (case snd (nextEnvelope ord accept get rounds) of
               Env_Waiting \<Rightarrow> None
             | Env_Error \<Rightarrow> Some (taskWorkerExit w (close_one_time i None s))
             | Env_Ready env \<Rightarrow>
                 let s1 = close_one_time i (Some env) s
                 in Some (s1\<lparr>ew := (ew s1)[w := EW_Offer], wk_made := wk_made s1 @ [env]\<rparr>))
        | _ \<Rightarrow> None
      else None)"

text \<open>
  The server's worker: the receive from the one-time channel, the receive from the closed
  outbox (a nil channel, from which nothing ever comes), the send, and the end of the context.
\<close>

definition receive :: "nat \<Rightarrow> workers \<Rightarrow> workers option" where
  "receive r s =
     (if r < length (sw s) then
        case sw s ! r of
          SW_Wait i \<Rightarrow>
            (case ot_envelope (one_times s ! i) of
               Some env \<Rightarrow> Some (s\<lparr>sw := (sw s)[r := SW_Envelope env], one_times := (one_times s)[i := (one_times s ! i)\<lparr>ot_envelope := None\<rparr>]\<rparr>)
             | None \<Rightarrow> if ot_closed (one_times s ! i) > 0 then Some (s\<lparr>sw := (sw s)[r := SW_Loop]\<rparr>) else None)
        | _ \<Rightarrow> None
      else None)"

definition receive_closed :: "nat \<Rightarrow> workers \<Rightarrow> workers option" where
  "receive_closed r s =
     (if r < length (sw s) \<and> sw s ! r = SW_Loop \<and> outbox_closed s then Some (s\<lparr>sw := (sw s)[r := SW_Nil]\<rparr>) else None)"

definition send_envelope :: "cid order \<Rightarrow> nat \<Rightarrow> bool \<Rightarrow> workers \<Rightarrow> workers option" where
  "send_envelope ord r sent s =
     (if r < length (sw s) then
        case sw s ! r of
          SW_Envelope env \<Rightarrow>
            let (calls, srv) = taskWorker ord sent env (wk_server s);
                s1 = s\<lparr>sw := (sw s)[r := SW_Loop], wk_server := srv, wk_sent := wk_sent s @ [env]\<rparr>
            in Some (if SRV_Engine SignalNewWork \<in> set calls then signalNewWork s1 else s1)
        | _ \<Rightarrow> None
      else None)"

fun stops_on_done :: "srv_worker \<Rightarrow> bool" where
  "stops_on_done (SW_Envelope env) = False"
| "stops_on_done SW_Returned = False"
| "stops_on_done _ = True"

definition server_done :: "nat \<Rightarrow> workers \<Rightarrow> workers option" where
  "server_done r s =
     (if r < length (sw s) \<and> stops_on_done (sw s ! r) \<and> wk_ctx_done s then Some (s\<lparr>sw := (sw s)[r := SW_Returned]\<rparr>) else None)"

datatype wk_event =
    WE_Offer nat nat
  | WE_OfferClosed nat
  | WE_WorkerDone nat
  | WE_Prepare "cid \<Rightarrow> bool" "cid \<Rightarrow> block option" nat "(pop \<times> wake list) list"
  | WE_Receive nat
  | WE_ReceiveClosed nat
  | WE_Send nat bool
  | WE_ServerDone nat
  | WE_CancelContext

fun wk_step :: "cid order \<Rightarrow> wk_event \<Rightarrow> workers \<Rightarrow> workers option" where
  "wk_step ord (WE_Offer w r) s = offer w r s"
| "wk_step ord (WE_OfferClosed w) s = offer_closed w s"
| "wk_step ord (WE_WorkerDone w) s = worker_done w s"
| "wk_step ord (WE_Prepare accept get w rounds) s = prepare ord accept get w rounds s"
| "wk_step ord (WE_Receive r) s = receive r s"
| "wk_step ord (WE_ReceiveClosed r) s = receive_closed r s"
| "wk_step ord (WE_Send r sent) s = send_envelope ord r sent s"
| "wk_step ord (WE_ServerDone r) s = server_done r s"
| "wk_step ord WE_CancelContext s = Some (s\<lparr>wk_ctx_done := True\<rparr>)"

section \<open>Closing\<close>

definition live :: "eng_worker list \<Rightarrow> nat" where
  "live ws = length (filter (\<lambda>w. w \<noteq> EW_Exited) ws)"

definition preparing :: "nat \<Rightarrow> eng_worker list \<Rightarrow> nat" where
  "preparing i ws = length (filter (\<lambda>w. w = EW_Prepare i) ws)"

text \<open>
  The outbox is closed exactly when the last worker has exited; a one-time channel is being
  filled by one worker, empty and open, or is closed once.
\<close>

definition outbox_inv :: "workers \<Rightarrow> bool" where
  "outbox_inv s \<longleftrightarrow> wk_taskWorkerCount s = int (live (ew s)) \<and> (outbox_closed s \<longleftrightarrow> live (ew s) = 0) \<and> \<not> wk_panic s"

definition chan_ok :: "nat \<Rightarrow> one_time \<Rightarrow> bool" where
  "chan_ok n c \<longleftrightarrow> ot_closed c + n = 1 \<and> (ot_closed c = 0 \<longrightarrow> ot_envelope c = None)"

definition chan_inv :: "workers \<Rightarrow> bool" where
  "chan_inv s \<longleftrightarrow> (\<forall>i<length (one_times s). chan_ok (preparing i (ew s)) (one_times s ! i)) \<and>
     (\<forall>i\<ge>length (one_times s). preparing i (ew s) = 0)"

lemma live_update:
  "w < length ws \<Longrightarrow> live (ws[w := x]) + (if ws ! w \<noteq> EW_Exited then 1 else 0) = live ws + (if x \<noteq> EW_Exited then 1 else 0)"
  unfolding live_def by (rule length_filter_update)

lemma preparing_update:
  "w < length ws \<Longrightarrow> preparing i (ws[w := x]) + (if ws ! w = EW_Prepare i then 1 else 0) = preparing i ws + (if x = EW_Prepare i then 1 else 0)"
  unfolding preparing_def by (rule length_filter_update)

lemma outbox_inv_exit:
  assumes "outbox_inv s" "w < length (ew s)" "ew s ! w \<noteq> EW_Exited"
  shows "outbox_inv (taskWorkerExit w s)"
proof -
  have "live (ew s) = Suc (live ((ew s)[w := EW_Exited]))"
    using live_update [OF assms(2), of EW_Exited] assms(3) by simp
  then show ?thesis
    using assms(1) by (simp add: outbox_inv_def taskWorkerExit_def Let_def)
qed

lemma taskWorkerExit_frame [simp]:
  "ew (taskWorkerExit w s) = (ew s)[w := EW_Exited]" "one_times (taskWorkerExit w s) = one_times s"
  "sw (taskWorkerExit w s) = sw s" "wk_made (taskWorkerExit w s) = wk_made s" "wk_sent (taskWorkerExit w s) = wk_sent s"
  "wk_ctx_done (taskWorkerExit w s) = wk_ctx_done s"
  by (simp_all add: taskWorkerExit_def Let_def)

lemma close_one_time_frame [simp]:
  "ew (close_one_time i e s) = ew s" "sw (close_one_time i e s) = sw s" "wk_made (close_one_time i e s) = wk_made s"
  "wk_sent (close_one_time i e s) = wk_sent s" "wk_ctx_done (close_one_time i e s) = wk_ctx_done s"
  "one_times (close_one_time i e s) = (one_times s)[i := \<lparr>ot_envelope = e, ot_closed = ot_closed (one_times s ! i) + 1\<rparr>]"
  by (simp_all add: close_one_time_def Let_def)

text \<open>A worker at \<open>EW_Prepare i\<close> is the only one, and its channel is open.\<close>

lemma preparing_worker:
  assumes "chan_inv s" "w < length (ew s)" "ew s ! w = EW_Prepare i"
  shows "i < length (one_times s)" "preparing i (ew s) = 1" "ot_closed (one_times s ! i) = 0" "ot_envelope (one_times s ! i) = None"
proof -
  have "0 < preparing i (ew s)"
    using assms(2,3) by (auto simp: preparing_def filter_empty_conv in_set_conv_nth)
  then show "i < length (one_times s)"
    using assms(1) by (metis chan_inv_def leI neq0_conv)
  with \<open>0 < preparing i (ew s)\<close> show "preparing i (ew s) = 1" "ot_closed (one_times s ! i) = 0" "ot_envelope (one_times s ! i) = None"
    using assms(1) by (auto simp: chan_inv_def chan_ok_def)
qed

lemma outbox_inv_close:
  assumes "outbox_inv s" "ot_closed (one_times s ! i) = 0"
  shows "outbox_inv (close_one_time i e s)"
  using assms by (simp add: outbox_inv_def close_one_time_def)

lemma chan_inv_close:
  assumes "chan_inv s" "w < length (ew s)" "ew s ! w = EW_Prepare i" "\<forall>j. x \<noteq> EW_Prepare j"
    "ew s' = (ew s)[w := x]" "one_times s' = (one_times s)[i := \<lparr>ot_envelope = e, ot_closed = ot_closed (one_times s ! i) + 1\<rparr>]"
  shows "chan_inv s'"
proof -
  note p = preparing_worker [OF assms(1-3)]
  have "preparing j (ew s') = (if j = i then 0 else preparing j (ew s))" for j
    using preparing_update [OF assms(2), of j x] assms(3,4,5) p(2) by auto
  then show ?thesis
    using assms(1) p by (auto simp: chan_inv_def chan_ok_def assms(6) nth_list_update)
qed

lemma chan_inv_idle:
  assumes "chan_inv s" "w < length (ew s)" "\<forall>j. ew s ! w \<noteq> EW_Prepare j" "\<forall>j. x \<noteq> EW_Prepare j"
    "ew s' = (ew s)[w := x]" "one_times s' = one_times s"
  shows "chan_inv s'"
proof -
  have "preparing j (ew s') = preparing j (ew s)" for j
    using preparing_update [OF assms(2), of j x] assms(3,4,5) by simp
  then show ?thesis
    using assms(1,6) by (simp add: chan_inv_def)
qed

definition close_inv :: "workers \<Rightarrow> bool" where
  "close_inv s \<longleftrightarrow> outbox_inv s \<and> chan_inv s"

lemma close_inv_prepare:
  assumes "close_inv s" "prepare ord accept get w rounds s = Some s'"
  shows "close_inv s'"
proof -
  obtain i where w: "w < length (ew s)" "ew s ! w = EW_Prepare i"
    using assms(2) by (auto simp: prepare_def split: if_splits eng_worker.splits)
  have inv: "outbox_inv s" "chan_inv s"
    using assms(1) by (simp_all add: close_inv_def)
  note p = preparing_worker [OF inv(2) w]
  show ?thesis
  proof (cases "snd (nextEnvelope ord accept get rounds)")
    case (Env_Ready env)
    let ?s1 = "close_one_time i (Some env) s"
    let ?s' = "?s1\<lparr>ew := (ew s)[w := EW_Offer], wk_made := wk_made s @ [env]\<rparr>"
    have "s' = ?s'"
      using assms(2) w Env_Ready by (simp add: prepare_def Let_def)
    moreover have "live ((ew s)[w := EW_Offer]) = live (ew s)"
      using live_update [OF w(1), of EW_Offer] w(2) by simp
    moreover have "chan_inv ?s'"
      by (rule chan_inv_close [OF inv(2) w]) simp_all
    ultimately show ?thesis
      using outbox_inv_close [OF inv(1) p(3)] by (simp add: close_inv_def outbox_inv_def)
  next
    case Env_Error
    then have s': "s' = taskWorkerExit w (close_one_time i None s)"
      using assms(2) w by (simp add: prepare_def)
    then show ?thesis
      using outbox_inv_exit [OF outbox_inv_close [OF inv(1) p(3)]] w
      by (auto simp: close_inv_def intro: chan_inv_close [OF inv(2) w])
  next
    case Env_Waiting
    then show ?thesis
      using assms(2) w by (simp add: prepare_def)
  qed
qed

lemma close_inv_offer:
  assumes "close_inv s" "offer w r s = Some s'"
  shows "close_inv s'"
proof -
  let ?n = "length (one_times s)"
  have g: "w < length (ew s)" "ew s ! w = EW_Offer"
    "ew s' = (ew s)[w := EW_Prepare ?n]" "one_times s' = one_times s @ [\<lparr>ot_envelope = None, ot_closed = 0\<rparr>]"
    "wk_panic s' = wk_panic s" "wk_taskWorkerCount s' = wk_taskWorkerCount s" "outbox_closed s' = outbox_closed s"
    using assms(2) by (auto simp: offer_def Let_def split: if_splits)
  have "live (ew s') = live (ew s)"
    using live_update [OF g(1), of "EW_Prepare ?n"] g(2,3) by simp
  moreover have p: "preparing j (ew s') = preparing j (ew s) + (if j = ?n then 1 else 0)" for j
    using preparing_update [OF g(1), of j "EW_Prepare ?n"] g(2,3) by simp
  moreover have "chan_inv s'"
    using assms(1) p by (auto simp: close_inv_def chan_inv_def g(4) nth_append chan_ok_def less_Suc_eq)
  ultimately show ?thesis
    using assms(1) g by (simp add: close_inv_def outbox_inv_def)
qed

lemma close_inv_frame:
  "close_inv s \<Longrightarrow> ew s' = ew s \<Longrightarrow> one_times s' = one_times s \<Longrightarrow> wk_panic s' = wk_panic s \<Longrightarrow>
     wk_taskWorkerCount s' = wk_taskWorkerCount s \<Longrightarrow> outbox_closed s' = outbox_closed s \<Longrightarrow> close_inv s'"
  by (simp add: close_inv_def outbox_inv_def chan_inv_def)

lemma receive_cases:
  assumes "receive r s = Some s'"
  obtains (envelope) i env where "r < length (sw s)" "sw s ! r = SW_Wait i" "ot_envelope (one_times s ! i) = Some env"
      "s' = s\<lparr>sw := (sw s)[r := SW_Envelope env], one_times := (one_times s)[i := (one_times s ! i)\<lparr>ot_envelope := None\<rparr>]\<rparr>"
    | (closed) i where "r < length (sw s)" "sw s ! r = SW_Wait i" "ot_envelope (one_times s ! i) = None"
      "ot_closed (one_times s ! i) \<noteq> 0" "s' = s\<lparr>sw := (sw s)[r := SW_Loop]\<rparr>"
  using assms by (auto simp: receive_def split: if_splits srv_worker.splits option.splits)

lemma send_cases:
  assumes "send_envelope ord r sent s = Some s'"
  obtains env srv b where "r < length (sw s)" "sw s ! r = SW_Envelope env"
    "s' = s\<lparr>sw := (sw s)[r := SW_Loop], wk_server := srv, wk_sent := wk_sent s @ [env], workSignal := b\<rparr>"
proof -
  obtain env where r: "r < length (sw s)" "sw s ! r = SW_Envelope env"
    using assms by (auto simp: send_envelope_def split: if_splits srv_worker.splits)
  let ?t = "taskWorker ord sent env (wk_server s)"
  have "s' = s\<lparr>sw := (sw s)[r := SW_Loop], wk_server := snd ?t, wk_sent := wk_sent s @ [env],
      workSignal := (SRV_Engine SignalNewWork \<in> set (fst ?t) \<or> workSignal s)\<rparr>"
    using assms r by (auto simp: send_envelope_def signalNewWork_def Let_def split_beta split: if_splits)
  with r that show thesis
    by blast
qed

lemma close_inv_receive:
  assumes "close_inv s" "receive r s = Some s'"
  shows "close_inv s'"
  using assms(2)
proof (cases rule: receive_cases)
  case (envelope i env)
  have "chan_inv s'"
    using assms(1) by (cases "i < length (one_times s)")
      (auto simp: close_inv_def chan_inv_def chan_ok_def nth_list_update envelope(4))
  then show ?thesis
    using assms(1) by (simp add: close_inv_def outbox_inv_def envelope(4))
next
  case (closed i)
  then show ?thesis
    using close_inv_frame [OF assms(1)] by simp
qed

interpretation close_runs: event_system "wk_step ord" close_inv
proof
  fix s x s'
  assume a: "close_inv s" "wk_step ord x s = Some s'"
  note frame = close_inv_frame [OF a(1)]
  show "close_inv s'"
  proof (cases x)
    case (WE_WorkerDone w)
    then have "w < length (ew s)" "ew s ! w = EW_Offer" "s' = taskWorkerExit w s"
      using a(2) by (auto simp: worker_done_def split: if_splits)
    then show ?thesis
      using a(1) outbox_inv_exit [of s w] chan_inv_idle [of s w EW_Exited] by (simp add: close_inv_def)
  next
    case (WE_OfferClosed w)
    then have g: "w < length (ew s)" "ew s ! w = EW_Offer" "outbox_closed s"
      using a(2) by (auto simp: offer_closed_def split: if_splits)
    then have "live (ew s) \<noteq> 0"
      using live_update [of w "ew s" EW_Exited] by simp
    then show ?thesis
      using a(1) g(3) by (simp add: close_inv_def outbox_inv_def)
  next
    case (WE_Send r sent)
    then have "send_envelope ord r sent s = Some s'"
      using a(2) by simp
    then show ?thesis
      by (rule send_cases) (simp add: frame)
  next
    case (WE_Prepare accept get w rounds)
    then show ?thesis
      using a close_inv_prepare by simp
  next
    case (WE_Offer w r)
    then show ?thesis
      using a close_inv_offer by simp
  next
    case (WE_Receive r)
    then show ?thesis
      using a close_inv_receive by simp
  next
    case (WE_ReceiveClosed r)
    then show ?thesis
      using a(2) by (intro frame) (auto simp: receive_closed_def split: if_splits)
  next
    case (WE_ServerDone r)
    then show ?thesis
      using a(2) by (intro frame) (auto simp: server_done_def split: if_splits)
  next
    case WE_CancelContext
    then show ?thesis
      using a(2) by (intro frame) auto
  qed
qed

section \<open>Envelopes\<close>

fun in_hand :: "srv_worker \<Rightarrow> envelope multiset" where
  "in_hand (SW_Envelope env) = {#env#}"
| "in_hand _ = {#}"

definition in_channel :: "one_time \<Rightarrow> envelope multiset" where
  "in_channel c = (case ot_envelope c of None \<Rightarrow> {#} | Some env \<Rightarrow> {#env#})"

definition made_inv :: "workers \<Rightarrow> bool" where
  "made_inv s \<longleftrightarrow>
     mset (wk_made s) = sum_list (map in_channel (one_times s)) + sum_list (map in_hand (sw s)) + mset (wk_sent s)"

text \<open>A one-time channel that is open or full has a worker that waits for it, until the context ends.\<close>

definition wait_inv :: "workers \<Rightarrow> bool" where
  "wait_inv s \<longleftrightarrow> wk_ctx_done s \<or>
     (\<forall>i<length (one_times s). ot_closed (one_times s ! i) = 0 \<or> ot_envelope (one_times s ! i) \<noteq> None \<longrightarrow> SW_Wait i \<in> set (sw s))"

lemma made_inv_sw:
  assumes "made_inv s" "r < length (sw s)" "in_hand x = in_hand (sw s ! r)"
  shows "made_inv (s\<lparr>sw := (sw s)[r := x]\<rparr>)"
  using assms(1,3) sum_list_map_update [OF assms(2), of in_hand x] by (simp add: made_inv_def)

lemma wait_keeps: "r < length ws \<Longrightarrow> y \<in> set ws \<Longrightarrow> ws ! r \<noteq> y \<Longrightarrow> y \<in> set (ws[r := x])"
  by (metis in_set_conv_nth length_list_update nth_list_update_neq)

lemma wait_inv_sw:
  assumes "wait_inv s" "r < length (sw s)"
    "\<And>i. sw s ! r = SW_Wait i \<Longrightarrow> i < length (one_times s) \<Longrightarrow> ot_closed (one_times s ! i) \<noteq> 0 \<and> ot_envelope (one_times s ! i) = None"
  shows "wait_inv (s\<lparr>sw := (sw s)[r := x]\<rparr>)"
  using assms(1,3) wait_keeps [OF assms(2)] by (fastforce simp: wait_inv_def)

text \<open>A worker waits only for a channel that exists.\<close>

definition wait_bound :: "workers \<Rightarrow> bool" where
  "wait_bound s \<longleftrightarrow> (\<forall>i. SW_Wait i \<in> set (sw s) \<longrightarrow> i < length (one_times s))"

definition workers_ok :: "workers \<Rightarrow> bool" where
  "workers_ok s \<longleftrightarrow> close_inv s \<and> made_inv s \<and> wait_inv s \<and> wait_bound s"

lemma workers_ok_start: "0 < n \<Longrightarrow> workers_ok (StartWorkers n m srv)"
proof -
  have "sum_list (replicate m ({#} :: envelope multiset)) = {#}" for m
    by (induction m) simp_all
  then show "0 < n \<Longrightarrow> workers_ok (StartWorkers n m srv)"
    by (simp add: workers_ok_def wait_bound_def close_inv_def outbox_inv_def chan_inv_def live_def preparing_def made_inv_def wait_inv_def
      StartWorkers_def)
qed

lemma envelopes_prepare:
  assumes "workers_ok s" "prepare ord accept get w rounds s = Some s'"
  shows "made_inv s'" "wait_inv s'"
proof -
  obtain i where w: "w < length (ew s)" "ew s ! w = EW_Prepare i"
    using assms(2) by (auto simp: prepare_def split: if_splits eng_worker.splits)
  have inv: "chan_inv s" "made_inv s" "wait_inv s"
    using assms(1) by (simp_all add: workers_ok_def close_inv_def)
  note p = preparing_worker [OF inv(1) w]
  obtain env where env: "one_times s' = (one_times s)[i := \<lparr>ot_envelope = env, ot_closed = 1\<rparr>]"
    "wk_made s' = wk_made s @ (case env of None \<Rightarrow> [] | Some e \<Rightarrow> [e])" "sw s' = sw s" "wk_sent s' = wk_sent s"
    "wk_ctx_done s' = wk_ctx_done s"
    using assms(2) w p(3) that [of None] that [of "Some _"]
    by (auto simp: prepare_def Let_def split: envelope_result.splits)
  show "made_inv s'"
    using inv(2) sum_list_map_update [OF p(1), of in_channel "\<lparr>ot_envelope = env, ot_closed = 1\<rparr>"] p(4)
    by (auto simp: made_inv_def env in_channel_def split: option.splits)
  show "wait_inv s'"
    using inv(3) p(1,3) by (auto simp: wait_inv_def env nth_list_update)
qed

lemma envelopes_offer:
  assumes "workers_ok s" "offer w r s = Some s'"
  shows "made_inv s'" "wait_inv s'"
proof -
  let ?i = "length (one_times s)"
  have g: "r < length (sw s)" "sw s ! r = SW_Loop" "sw s' = (sw s)[r := SW_Wait ?i]"
    "one_times s' = one_times s @ [\<lparr>ot_envelope = None, ot_closed = 0\<rparr>]" "wk_made s' = wk_made s" "wk_sent s' = wk_sent s"
    "wk_ctx_done s' = wk_ctx_done s"
    using assms(2) by (auto simp: offer_def Let_def split: if_splits)
  show "made_inv s'"
    using assms(1) sum_list_map_update [OF g(1), of in_hand "SW_Wait ?i"] g
    by (simp add: workers_ok_def made_inv_def in_channel_def)
  have "SW_Wait ?i \<in> set (sw s')"
    using g(1,3) by (simp add: set_update_memI)
  then show "wait_inv s'"
    using assms(1) wait_keeps [OF g(1), of _ "SW_Wait ?i"] g
    by (fastforce simp: workers_ok_def wait_inv_def nth_append less_Suc_eq)
qed

lemma envelopes_receive:
  assumes "workers_ok s" "receive r s = Some s'"
  shows "made_inv s' \<and> wait_inv s'"
proof -
  have inv: "chan_inv s" "made_inv s" "wait_inv s" "wait_bound s"
    using assms(1) by (simp_all add: workers_ok_def close_inv_def)
  show ?thesis
    using assms(2)
  proof (cases rule: receive_cases)
    case (envelope i env)
    let ?c = "(one_times s ! i)\<lparr>ot_envelope := None\<rparr>"
    let ?s1 = "s\<lparr>one_times := (one_times s)[i := ?c]\<rparr>"
    have i: "i < length (one_times s)"
      using inv(4) envelope(1,2) by (auto simp: wait_bound_def in_set_conv_nth)
    then have open_: "ot_closed (one_times s ! i) \<noteq> 0"
      using inv(1) envelope(3) by (auto simp: chan_inv_def chan_ok_def)
    then have "wait_inv ?s1"
      using inv(3) i by (auto simp: wait_inv_def nth_list_update)
    then have "wait_inv (?s1\<lparr>sw := (sw ?s1)[r := SW_Envelope env]\<rparr>)"
      using envelope i open_ by (intro wait_inv_sw) auto
    moreover have "?s1\<lparr>sw := (sw ?s1)[r := SW_Envelope env]\<rparr> = s'"
      by (simp add: envelope(4))
    moreover have "made_inv s'"
      using inv(2) sum_list_map_update [OF i, of in_channel ?c] sum_list_map_update [OF envelope(1), of in_hand "SW_Envelope env"] envelope
      by (simp add: made_inv_def in_channel_def)
    ultimately show ?thesis
      by simp
  next
    case (closed i)
    then show ?thesis
      using inv made_inv_sw [of s r SW_Loop] wait_inv_sw [of s r SW_Loop] by auto
  qed
qed

lemma envelopes_send:
  assumes "workers_ok s" "send_envelope ord r sent s = Some s'"
  shows "made_inv s' \<and> wait_inv s'"
  using assms(2)
proof (cases rule: send_cases)
  case (1 env srv b)
  then show ?thesis
    using assms(1) sum_list_map_update [OF 1(1), of in_hand SW_Loop] wait_inv_sw [of s r SW_Loop]
    by (auto simp: workers_ok_def made_inv_def wait_inv_def)
qed

lemmas wk_ops = offer_def offer_closed_def worker_done_def prepare_def receive_def receive_closed_def
  send_envelope_def server_done_def signalNewWork_def Let_def split_beta

lemma wait_bound_step:
  assumes "wait_bound s" "wk_step ord x s = Some s'"
  shows "wait_bound s'"
proof -
  have len: "length (one_times s) \<le> length (one_times s')"
    using assms(2) by (cases x) (auto simp: wk_ops split: if_splits eng_worker.splits envelope_result.splits
        srv_worker.splits option.splits)
  have "y \<in> set (sw s) \<or> i < length (one_times s')" if "y \<in> set (sw s')" "y = SW_Wait i" for y i
    using assms(2) that by (cases x) (auto simp: wk_ops split: if_splits eng_worker.splits envelope_result.splits
        srv_worker.splits option.splits dest!: subsetD [OF set_update_subset_insert])
  with len assms(1) show ?thesis
    unfolding wait_bound_def by (metis less_le_trans)
qed

interpretation worker_runs: event_system "wk_step ord" workers_ok
proof
  fix s x s'
  assume a: "workers_ok s" "wk_step ord x s = Some s'"
  then have inv: "close_inv s" "made_inv s" "wait_inv s" "wait_bound s"
    by (simp_all add: workers_ok_def)
  have "made_inv s' \<and> wait_inv s'"
  proof (cases x)
    case (WE_Offer w r)
    then show ?thesis
      using a envelopes_offer by simp
  next
    case (WE_Prepare accept get w rounds)
    then show ?thesis
      using a envelopes_prepare by simp
  next
    case (WE_Receive r)
    then show ?thesis
      using a envelopes_receive by simp
  next
    case (WE_Send r sent)
    then show ?thesis
      using a envelopes_send by simp
  next
    case (WE_ReceiveClosed r)
    then show ?thesis
      using a(2) inv made_inv_sw [of s r SW_Nil] wait_inv_sw [of s r SW_Nil]
      by (auto simp: receive_closed_def split: if_splits)
  next
    case (WE_ServerDone r)
    then have g: "r < length (sw s)" "stops_on_done (sw s ! r)" "wk_ctx_done s" "s' = s\<lparr>sw := (sw s)[r := SW_Returned]\<rparr>"
      using a(2) by (auto simp: server_done_def split: if_splits)
    moreover have "in_hand (sw s ! r) = {#}"
      using g(2) by (cases "sw s ! r") auto
    ultimately show ?thesis
      using made_inv_sw [OF inv(2) g(1), of SW_Returned] by (auto simp: wait_inv_def)
  qed (use a(2) inv in \<open>auto simp: offer_closed_def worker_done_def made_inv_def wait_inv_def split: if_splits\<close>)
  then show "workers_ok s'"
    using close_runs.step_inv [OF inv(1) a(2)] wait_bound_step [OF inv(4) a(2)] by (simp add: workers_ok_def)
qed

section \<open>Properties\<close>

text \<open>
  C38. Envelopes reach the network exactly once, and the goroutines close their channels
  properly. However the engine's and the server's workers interleave: nothing is sent on or
  closes a closed channel; the outbox is closed exactly when the last of the engine's workers
  has left; an envelope the engine made is in its one-time channel, in the hands of one server
  worker, or sent, never twice and never lost; and while the context lasts, an envelope that
  waits in its channel has a server worker waiting for it.
\<close>

theorem envelopes_exactly_once:
  assumes "0 < n" "run_events (wk_step ord) xs (StartWorkers n m srv) = Some s"
  shows "\<not> wk_panic s \<and> (outbox_closed s \<longleftrightarrow> (\<forall>w\<in>set (ew s). w = EW_Exited)) \<and>
    mset (wk_made s) = sum_list (map in_channel (one_times s)) + sum_list (map in_hand (sw s)) + mset (wk_sent s) \<and>
    (\<forall>i<length (one_times s). ot_closed (one_times s ! i) \<le> 1 \<and>
       (ot_envelope (one_times s ! i) \<noteq> None \<longrightarrow> SW_Wait i \<in> set (sw s) \<or> wk_ctx_done s))"
proof -
  have ok: "workers_ok s"
    by (rule worker_runs.run_inv [OF workers_ok_start [OF assms(1)] assms(2)])
  then have "\<not> wk_panic s \<and> (outbox_closed s \<longleftrightarrow> (\<forall>w\<in>set (ew s). w = EW_Exited))"
    by (auto simp: workers_ok_def close_inv_def outbox_inv_def live_def filter_empty_conv)
  moreover have "\<forall>i<length (one_times s). ot_closed (one_times s ! i) \<le> 1 \<and>
       (ot_envelope (one_times s ! i) \<noteq> None \<longrightarrow> SW_Wait i \<in> set (sw s) \<or> wk_ctx_done s)"
    using ok by (fastforce simp: workers_ok_def close_inv_def chan_inv_def chan_ok_def wait_inv_def)
  ultimately show ?thesis
    using ok by (simp add: workers_ok_def made_inv_def)
qed

definition example_pop :: pop where
  "example_pop = (''p'', [\<lparr>Topic = ''a'', task_Priority = 1, Work = 2,
     Data = \<lparr>IsWantBlock = False, td_SendDontHave = False, BlockSize = 0, HaveBlock = True\<rparr>\<rparr>], 0)"

definition example_workers :: "workers option" where
  "example_workers = run_events (wk_step key_order)
     [WE_Offer 0 0, WE_Prepare (\<lambda>_. True) (\<lambda>_. None) 0 [(example_pop, [])], WE_Receive 0, WE_Offer 0 1]
     (StartWorkers 1 2 (srv_New (newEngine 1024 None)))"

theorem envelopes_exactly_once_witness:
  "\<exists>s. example_workers = Some s \<and> \<not> wk_panic s \<and> length (wk_made s) = 1 \<and>
     mset (wk_made s) = sum_list (map in_channel (one_times s)) + sum_list (map in_hand (sw s)) + mset (wk_sent s)"
proof -
  have "example_workers \<noteq> None"
    by code_simp
  then obtain s where s: "example_workers = Some s"
    by blast
  have "length (wk_made (the example_workers)) = 1"
    by code_simp
  then have "length (wk_made s) = 1"
    by (simp add: s)
  moreover have "\<not> wk_panic s \<and> mset (wk_made s) =
      sum_list (map in_channel (one_times s)) + sum_list (map in_hand (sw s)) + mset (wk_sent s)"
    using envelopes_exactly_once [OF _ s [unfolded example_workers_def]] by simp
  ultimately show ?thesis
    using s by (intro exI [of _ s]) simp
qed

end
