(* ===== verification/Options.thy ===== *)
theory Options
  imports Client Peer_Manager Engine_Workers Blockstore_Pool Getter
begin

text \<open>
  How a node is configured and built: the options of the engine
  (\<open>server/internal/decision/engine.go\<close>), of the server (\<open>server/server.go\<close>) and of the client
  (\<open>client/client.go\<close>), their constructors, the defaults (\<open>internal/defaults/defaults.go\<close>) and the
  tracers (\<open>tracer/tracer.go\<close>, \<open>sendOnlyTracer.go\<close>).

  An option is what it is in Go, a function on the thing it configures; a constructor of an
  option that panics gives \<open>Inl\<close>. What is configured is a record of the fields that options set;
  Go's \<open>nil\<close> is \<open>None\<close>. Comparators, filters and score ledgers are the user's; a score ledger is
  known by a number.
\<close>

section \<open>Tracers\<close>

text \<open>A tracer the user gave, by number, or the wrapper that drops what was received.\<close>

datatype tracer = Tracer nat | NopReceiveTracer tracer

datatype trace =
    Trace_Received nat peer message
  | Trace_Sent nat peer message

fun tr_MessageReceived :: "tracer \<Rightarrow> peer \<Rightarrow> message \<Rightarrow> trace list" where
  "tr_MessageReceived (Tracer n) p m = [Trace_Received n p m]"
| "tr_MessageReceived (NopReceiveTracer t) p m = []"

fun tr_MessageSent :: "tracer \<Rightarrow> peer \<Rightarrow> message \<Rightarrow> trace list" where
  "tr_MessageSent (Tracer n) p m = [Trace_Sent n p m]"
| "tr_MessageSent (NopReceiveTracer t) p m = tr_MessageSent t p m"

section \<open>Options of the engine\<close>

datatype go_panic = Bad_Count int | Unknown_Option

definition BitswapEngineBlockstoreWorkerCount :: int where "BitswapEngineBlockstoreWorkerCount = 128"
definition BitswapTaskWorkerCount :: int where "BitswapTaskWorkerCount = 8"
definition BitswapEngineTaskWorkerCount :: int where "BitswapEngineTaskWorkerCount = 8"
definition BitswapMaxOutstandingBytesPerPeer :: int where "BitswapMaxOutstandingBytesPerPeer = 2 ^ 20"
definition defaultTargetMessageSize :: int where "defaultTargetMessageSize = 16 * 1024"
definition defaults_HasBlockBufferSize :: int where "defaults_HasBlockBufferSize = 256"
definition defaults_ProvSearchDelay :: int where "defaults_ProvSearchDelay = 10 ^ 9"

record engine_config =
  ec_taskComparator :: "(taskInfo \<Rightarrow> taskInfo \<Rightarrow> bool) option"
  ec_peerBlockRequestFilter :: "(peer \<Rightarrow> cid \<Rightarrow> bool) option"
  ec_targetMessageSize :: int
  ec_scoreLedger :: "nat option"
  ec_bstoreWorkerCount :: int
  ec_taskWorkerCount :: int
  ec_maxOutstandingBytesPerPeer :: int
  ec_sendDontHaves :: bool

type_synonym engine_option = "engine_config \<Rightarrow> engine_config"

definition eo_WithTaskComparator :: "(taskInfo \<Rightarrow> taskInfo \<Rightarrow> bool) \<Rightarrow> engine_option" where
  "eo_WithTaskComparator comparator e = e\<lparr>ec_taskComparator := Some comparator\<rparr>"

definition eo_WithPeerBlockRequestFilter :: "(peer \<Rightarrow> cid \<Rightarrow> bool) \<Rightarrow> engine_option" where
  "eo_WithPeerBlockRequestFilter pbrf e = e\<lparr>ec_peerBlockRequestFilter := Some pbrf\<rparr>"

definition eo_WithTargetMessageSize :: "int \<Rightarrow> engine_option" where
  "eo_WithTargetMessageSize sz e = e\<lparr>ec_targetMessageSize := sz\<rparr>"

definition eo_WithScoreLedger :: "nat \<Rightarrow> engine_option" where
  "eo_WithScoreLedger scoreledger e = e\<lparr>ec_scoreLedger := Some scoreledger\<rparr>"

definition eo_WithBlockstoreWorkerCount :: "int \<Rightarrow> go_panic + engine_option" where
  "eo_WithBlockstoreWorkerCount n =
     (if n \<le> 0 then Inl (Bad_Count n) else Inr (\<lambda>e. e\<lparr>ec_bstoreWorkerCount := n\<rparr>))"

definition eo_WithTaskWorkerCount :: "int \<Rightarrow> go_panic + engine_option" where
  "eo_WithTaskWorkerCount n =
     (if n \<le> 0 then Inl (Bad_Count n) else Inr (\<lambda>e. e\<lparr>ec_taskWorkerCount := n\<rparr>))"

definition eo_WithMaxOutstandingBytesPerPeer :: "int \<Rightarrow> go_panic + engine_option" where
  "eo_WithMaxOutstandingBytesPerPeer n =
     (if n < 0 then Inl (Bad_Count n) else Inr (\<lambda>e. e\<lparr>ec_maxOutstandingBytesPerPeer := n\<rparr>))"

definition eo_WithSetSendDontHave :: "bool \<Rightarrow> engine_option" where
  "eo_WithSetSendDontHave send e = e\<lparr>ec_sendDontHaves := send\<rparr>"

definition engine_defaults :: engine_config where
  "engine_defaults =
     \<lparr>ec_taskComparator = None, ec_peerBlockRequestFilter = None, ec_targetMessageSize = defaultTargetMessageSize,
      ec_scoreLedger = None, ec_bstoreWorkerCount = BitswapEngineBlockstoreWorkerCount,
      ec_taskWorkerCount = BitswapEngineTaskWorkerCount,
      ec_maxOutstandingBytesPerPeer = BitswapMaxOutstandingBytesPerPeer, ec_sendDontHaves = True\<rparr>"

text \<open>\<open>NewEngine\<close>: the options are applied in order; the engine, the pool and the comparator of the request queue follow.\<close>

definition NewEngine :: "engine_option list \<Rightarrow> engine_config \<times> engine \<times> bsm \<times> (queueTask \<Rightarrow> queueTask \<Rightarrow> bool) option" where
  "NewEngine opts =
     (let c = fold (\<lambda>opt. opt) opts engine_defaults
      in (c, SetSendDontHaves (ec_sendDontHaves c) (newEngine 1024 (ec_peerBlockRequestFilter c)),
          newBlockstoreManager (nat (ec_bstoreWorkerCount c)), map_option wrapTaskComparator (ec_taskComparator c)))"

section \<open>Options of the server\<close>

record server_config =
  sc_taskWorkerCount :: int
  sc_tracer :: "tracer option"
  sc_provideEnabled :: bool
  sc_engineOptions :: "engine_option list"
  sc_hasBlockBufferSize :: int

type_synonym server_option = "server_config \<Rightarrow> server_config"

definition so_TaskWorkerCount :: "int \<Rightarrow> go_panic + server_option" where
  "so_TaskWorkerCount n =
     (if n \<le> 0 then Inl (Bad_Count n) else Inr (\<lambda>bs. bs\<lparr>sc_taskWorkerCount := n\<rparr>))"

definition so_WithTracer :: "tracer \<Rightarrow> server_option" where
  "so_WithTracer tap bs = bs\<lparr>sc_tracer := Some tap\<rparr>"

definition so_ProvideEnabled :: "bool \<Rightarrow> server_option" where
  "so_ProvideEnabled enabled bs = bs\<lparr>sc_provideEnabled := enabled\<rparr>"

text \<open>The options that the server passes on: each appends an option of the engine.\<close>

definition append_engine_option :: "engine_option \<Rightarrow> server_option" where
  "append_engine_option opt bs = bs\<lparr>sc_engineOptions := sc_engineOptions bs @ [opt]\<rparr>"

definition so_WithPeerBlockRequestFilter :: "(peer \<Rightarrow> cid \<Rightarrow> bool) \<Rightarrow> server_option" where
  "so_WithPeerBlockRequestFilter pbrf = append_engine_option (eo_WithPeerBlockRequestFilter pbrf)"

definition so_WithTaskComparator :: "(taskInfo \<Rightarrow> taskInfo \<Rightarrow> bool) \<Rightarrow> server_option" where
  "so_WithTaskComparator comparator = append_engine_option (eo_WithTaskComparator comparator)"

definition so_WithScoreLedger :: "nat \<Rightarrow> server_option" where
  "so_WithScoreLedger scoreLedger = append_engine_option (eo_WithScoreLedger scoreLedger)"

definition so_EngineTaskWorkerCount :: "int \<Rightarrow> go_panic + server_option" where
  "so_EngineTaskWorkerCount n = map_sum id append_engine_option (eo_WithTaskWorkerCount n)"

definition so_SetSendDontHaves :: "bool \<Rightarrow> server_option" where
  "so_SetSendDontHaves send = append_engine_option (eo_WithSetSendDontHave send)"

definition so_EngineBlockstoreWorkerCount :: "int \<Rightarrow> go_panic + server_option" where
  "so_EngineBlockstoreWorkerCount n = map_sum id append_engine_option (eo_WithBlockstoreWorkerCount n)"

definition so_WithTargetMessageSize :: "int \<Rightarrow> server_option" where
  "so_WithTargetMessageSize tms = append_engine_option (eo_WithTargetMessageSize tms)"

definition so_MaxOutstandingBytesPerPeer :: "int \<Rightarrow> go_panic + server_option" where
  "so_MaxOutstandingBytesPerPeer n = map_sum id append_engine_option (eo_WithMaxOutstandingBytesPerPeer n)"

definition so_HasBlockBufferSize :: "int \<Rightarrow> go_panic + server_option" where
  "so_HasBlockBufferSize n =
     (if n < 0 then Inl (Bad_Count n) else Inr (\<lambda>bs. bs\<lparr>sc_hasBlockBufferSize := n\<rparr>))"

definition server_defaults :: server_config where
  "server_defaults =
     \<lparr>sc_taskWorkerCount = BitswapTaskWorkerCount, sc_tracer = None, sc_provideEnabled = True, sc_engineOptions = [],
      sc_hasBlockBufferSize = defaults_HasBlockBufferSize\<rparr>"

text \<open>
  \<open>New\<close> of the server. The channel \<open>newBlocks\<close> is made before the options are applied;
  \<open>ns_newBlocksCap\<close> is its capacity.
\<close>

record new_server =
  ns_config :: server_config
  ns_engine_config :: engine_config
  ns_bsm :: bsm
  ns_comparator :: "(queueTask \<Rightarrow> queueTask \<Rightarrow> bool) option"
  ns_newBlocksCap :: int
  ns_workers :: workers

definition server_New :: "server_option list \<Rightarrow> new_server" where
  "server_New options =
     (let c0 = server_defaults;
          newBlocksCap = sc_hasBlockBufferSize c0;
          c = fold (\<lambda>opt. opt) options c0;
          (ec, e, pool, comparator) = NewEngine (sc_engineOptions c);
          srv = (srv_New e)\<lparr>provideEnabled := sc_provideEnabled c\<rparr>
      in \<lparr>ns_config = c\<lparr>sc_engineOptions := []\<rparr>, ns_engine_config = ec, ns_bsm = bsm_start pool, ns_comparator = comparator,
          ns_newBlocksCap = newBlocksCap, ns_workers = StartWorkers (nat (ec_taskWorkerCount ec)) (nat (sc_taskWorkerCount c)) srv\<rparr>)"

section \<open>Options of the client\<close>

record client_config =
  cc_provSearchDelay :: int
  cc_rebroadcastDelay :: int
  cc_simulateDontHavesOnTimeout :: bool
  cc_tracer :: "tracer option"
  cc_blockReceivedNotifier :: bool

type_synonym client_option = "client_config \<Rightarrow> client_config"

definition co_ProviderSearchDelay :: "int \<Rightarrow> client_option" where
  "co_ProviderSearchDelay newProvSearchDelay bs = bs\<lparr>cc_provSearchDelay := newProvSearchDelay\<rparr>"

definition co_RebroadcastDelay :: "int \<Rightarrow> client_option" where
  "co_RebroadcastDelay newRebroadcastDelay bs = bs\<lparr>cc_rebroadcastDelay := newRebroadcastDelay\<rparr>"

definition co_SetSimulateDontHavesOnTimeout :: "bool \<Rightarrow> client_option" where
  "co_SetSimulateDontHavesOnTimeout send bs = bs\<lparr>cc_simulateDontHavesOnTimeout := send\<rparr>"

definition co_WithTracer :: "tracer \<Rightarrow> client_option" where
  "co_WithTracer tap bs = bs\<lparr>cc_tracer := Some tap\<rparr>"

definition co_WithBlockReceivedNotifier :: client_option where
  "co_WithBlockReceivedNotifier bs = bs\<lparr>cc_blockReceivedNotifier := True\<rparr>"

definition client_New :: "client_option list \<Rightarrow> client_config \<times> client" where
  "client_New options =
     (let c = fold (\<lambda>opt. opt) options
            \<lparr>cc_provSearchDelay = defaults_ProvSearchDelay, cc_rebroadcastDelay = 60 * 10 ^ 9,
             cc_simulateDontHavesOnTimeout = True, cc_tracer = None, cc_blockReceivedNotifier = False\<rparr>
      in (c, cl_New\<lparr>blockReceivedNotifier := cc_blockReceivedNotifier c,
                    simulateDontHavesOnTimeout := cc_simulateDontHavesOnTimeout c, provSearchDelay := cc_provSearchDelay c\<rparr>))"


end
