(* ===== verification/Facade.thy ===== *)
theory Facade
  imports Options
begin

text \<open>
  A whole node: \<open>bitswap.go\<close> and \<open>options.go\<close>. The facade builds a server and a client on one
  network, gives the client the server as the one to tell of useful blocks, and passes what
  the network reports to both.

  The state of a node is that of its parts: the client with its session manager, the peer
  manager with its message queues, the publisher, and the server with its engine. The calls a
  part makes on another, which the theories of the parts return in lists, are carried out here in order, on the state of
  the part they are made on; only calls on what is outside the node are left: the network,
  the request queue, the score ledger, the connection manager, the provider finder, pubsub and
  the tracer. A turn of a session's loop, of a message queue or of a task worker is an
  event of its own.
\<close>

section \<open>Options\<close>

text \<open>\<open>Option\<close> holds an option of the server, of the client or of the node itself, or anything else.\<close>

datatype bs_option =
    Server_Option server_option
  | Client_Option client_option
  | Own_Option "tracer option \<Rightarrow> tracer option"
  | Other_Option

definition bs_EngineBlockstoreWorkerCount :: "int \<Rightarrow> go_panic + bs_option" where
  "bs_EngineBlockstoreWorkerCount n = map_sum id Server_Option (so_EngineBlockstoreWorkerCount n)"

definition bs_EngineTaskWorkerCount :: "int \<Rightarrow> go_panic + bs_option" where
  "bs_EngineTaskWorkerCount n = map_sum id Server_Option (so_EngineTaskWorkerCount n)"

definition bs_MaxOutstandingBytesPerPeer :: "int \<Rightarrow> go_panic + bs_option" where
  "bs_MaxOutstandingBytesPerPeer n = map_sum id Server_Option (so_MaxOutstandingBytesPerPeer n)"

definition bs_TaskWorkerCount :: "int \<Rightarrow> go_panic + bs_option" where
  "bs_TaskWorkerCount n = map_sum id Server_Option (so_TaskWorkerCount n)"

definition bs_ProvideEnabled :: "bool \<Rightarrow> bs_option" where
  "bs_ProvideEnabled enabled = Server_Option (so_ProvideEnabled enabled)"

definition bs_SetSendDontHaves :: "bool \<Rightarrow> bs_option" where
  "bs_SetSendDontHaves send = Server_Option (so_SetSendDontHaves send)"

definition bs_WithPeerBlockRequestFilter :: "(peer \<Rightarrow> cid \<Rightarrow> bool) \<Rightarrow> bs_option" where
  "bs_WithPeerBlockRequestFilter pbrf = Server_Option (so_WithPeerBlockRequestFilter pbrf)"

definition bs_WithScoreLedger :: "nat \<Rightarrow> bs_option" where
  "bs_WithScoreLedger scoreLedger = Server_Option (so_WithScoreLedger scoreLedger)"

definition bs_WithTargetMessageSize :: "int \<Rightarrow> bs_option" where
  "bs_WithTargetMessageSize tms = Server_Option (so_WithTargetMessageSize tms)"

definition bs_WithTaskComparator :: "(taskInfo \<Rightarrow> taskInfo \<Rightarrow> bool) \<Rightarrow> bs_option" where
  "bs_WithTaskComparator comparator = Server_Option (so_WithTaskComparator comparator)"

definition bs_ProviderSearchDelay :: "int \<Rightarrow> bs_option" where
  "bs_ProviderSearchDelay newProvSearchDelay = Client_Option (co_ProviderSearchDelay newProvSearchDelay)"

definition bs_RebroadcastDelay :: "int \<Rightarrow> bs_option" where
  "bs_RebroadcastDelay newRebroadcastDelay = Client_Option (co_RebroadcastDelay newRebroadcastDelay)"

definition bs_SetSimulateDontHavesOnTimeout :: "bool \<Rightarrow> bs_option" where
  "bs_SetSimulateDontHavesOnTimeout send = Client_Option (co_SetSimulateDontHavesOnTimeout send)"

definition bs_WithTracer :: "tracer \<Rightarrow> bs_option" where
  "bs_WithTracer tap = Own_Option (\<lambda>_. Some tap)"

section \<open>The node\<close>

record node =
  nd_client :: client
  nd_client_tracer :: "tracer option"
  nd_pm :: pm
  nd_notif :: publisher
  nd_server :: server
  nd_server_tracer :: "tracer option"
  nd_tracer :: "tracer option"
  nd_self :: peer
  nd_running :: bool

text \<open>The loop over the options in \<open>New\<close>.\<close>

fun sort_options ::
  "bs_option list \<Rightarrow> server_option list \<times> client_option list \<times> tracer option \<Rightarrow>
     go_panic + server_option list \<times> client_option list \<times> tracer option" where
  "sort_options [] acc = Inr acc"
| "sort_options (Server_Option opt # os) (ss, cs, t) = sort_options os (ss @ [opt], cs, t)"
| "sort_options (Client_Option opt # os) (ss, cs, t) = sort_options os (ss, cs @ [opt], t)"
| "sort_options (Own_Option opt # os) (ss, cs, t) = sort_options os (ss, cs, opt t)"
| "sort_options (Other_Option # os) (ss, cs, t) = Inl Unknown_Option"

definition wrapTracer ::
  "tracer option \<Rightarrow> server_option list \<Rightarrow> client_option list \<Rightarrow> server_option list \<times> client_option list" where
  "wrapTracer tr ss cs =
     (case tr of
        None \<Rightarrow> (ss, cs)
      | Some t \<Rightarrow> (ss @ [so_WithTracer (NopReceiveTracer t)], cs @ [co_WithTracer (NopReceiveTracer t)]))"

definition bufferOption :: "int \<Rightarrow> server_option list \<Rightarrow> go_panic + server_option list" where
  "bufferOption size1 ss =
     (if size1 \<noteq> defaults_HasBlockBufferSize
      then map_sum id (\<lambda>opt. ss @ [opt]) (so_HasBlockBufferSize size1) else Inr ss)"

text \<open>\<open>hasBlockBufferSize\<close> is the package's variable \<open>HasBlockBufferSize\<close>; \<open>self\<close> is the network's own identifier.\<close>

definition bs_New :: "int \<Rightarrow> peer \<Rightarrow> bs_option list \<Rightarrow> go_panic + new_server \<times> client_config \<times> node" where
  "bs_New hasBlockBufferSize self options =
     (case sort_options options ([], [], None) of
        Inl e \<Rightarrow> Inl e
      | Inr (ss, cs, tr) \<Rightarrow>
          let (ss1, cs1) = wrapTracer tr ss cs
          in case bufferOption hasBlockBufferSize ss1 of
               Inl e \<Rightarrow> Inl e
             | Inr ss2 \<Rightarrow>
                 let ns = server_New ss2;
                     (cc, cl) = client_New (cs1 @ [co_WithBlockReceivedNotifier])
                 in Inr (ns, cc,
                      \<lparr>nd_client = cl, nd_client_tracer = cc_tracer cc, nd_pm = newPeerManager, nd_notif = ps_New,
                       nd_server = wk_server (ns_workers ns), nd_server_tracer = sc_tracer (ns_config ns),
                       nd_tracer = tr, nd_self = self, nd_running = True\<rparr>))"

section \<open>Calls between the parts\<close>

text \<open>
  What the node reads from outside during one event: the orders of the maps, the block store,
  the limits of a new message queue.
\<close>

record node_env =
  ne_ord :: "string order"
  ne_ids :: "uint64 order"
  ne_has :: "cid \<Rightarrow> bool option"
  ne_accept :: "cid \<Rightarrow> bool"
  ne_getSize :: "cid \<Rightarrow> nat option"
  ne_maxSize :: nat
  ne_maxLatency :: int

datatype node_call =
    ND_Trace trace
  | ND_Server srv_call
  | ND_Peers pm_call
  | ND_PubSub ps_call
  | ND_Session uint64 ses_call
  | ND_ShutdownSession uint64

definition on_sm :: "(sm \<Rightarrow> sm) \<Rightarrow> node \<Rightarrow> node" where
  "on_sm f nd = nd\<lparr>nd_client := (nd_client nd)\<lparr>cl_sm := f (cl_sm (nd_client nd))\<rparr>\<rparr>"

definition on_pm :: "(pm \<Rightarrow> pm) \<Rightarrow> node \<Rightarrow> node" where
  "on_pm f nd = nd\<lparr>nd_pm := f (nd_pm nd)\<rparr>"

definition on_server :: "(server \<Rightarrow> srv_call list \<times> server) \<Rightarrow> node \<Rightarrow> node_call list \<times> node" where
  "on_server f nd = (let (acts, srv) = f (nd_server nd) in (map ND_Server acts, nd\<lparr>nd_server := srv\<rparr>))"

primrec each :: "('c \<Rightarrow> node \<Rightarrow> node_call list \<times> node) \<Rightarrow> 'c list \<Rightarrow> node \<Rightarrow> node_call list \<times> node" where
  "each f [] nd = ([], nd)"
| "each f (c # cs) nd = (let (out, nd1) = f c nd; (out', nd2) = each f cs nd1 in (out @ out', nd2))"

text \<open>The peer manager tells sessions about connections.\<close>

fun onPeersCall :: "pm_call \<Rightarrow> node \<Rightarrow> node_call list \<times> node" where
  "onPeersCall (SignalAvailability i p b) nd = ([], on_sm (sm_exec (SM_SignalAvailability i p b)) nd)"
| "onPeersCall c nd = ([ND_Peers c], nd)"

text \<open>The client and its session manager call the peer manager, the server and the publisher.\<close>

fun onClientCall :: "node_env \<Rightarrow> cl_call \<Rightarrow> node \<Rightarrow> node_call list \<times> node" where
  "onClientCall env (CL_ResponseReceived p ks) nd = (map ND_Peers (pm_ResponseReceived p ks (nd_pm nd)), nd)"
| "onClientCall env (CL_SessionManager (SM_SendCancels ks)) nd = ([], on_pm (pm_SendCancels (ne_ord env) ks) nd)"
| "onClientCall env (CL_SessionManager (SM_ShutdownSession i)) nd = ([ND_ShutdownSession i], nd)"
| "onClientCall env (CL_ReceivedBlocks p blks) nd = on_server (srv_ReceivedBlocks p blks) nd"
| "onClientCall env (CL_Publish blks) nd = (map ND_PubSub (Publish blks (nd_notif nd)), nd)"

text \<open>A session calls the peer manager and the session manager.\<close>

definition onManagerCalls :: "node_env \<Rightarrow> sm_call list \<times> sm \<Rightarrow> node \<Rightarrow> node_call list \<times> node" where
  "onManagerCalls env r nd = each (onClientCall env) (map CL_SessionManager (fst r)) (on_sm (\<lambda>_. snd r) nd)"

fun onSessionCall :: "node_env \<Rightarrow> uint64 \<Rightarrow> ses_call \<Rightarrow> node \<Rightarrow> node_call list \<times> node" where
  "onSessionCall env i (SES_BroadcastWantHaves ks) nd = ([], on_pm (pm_BroadcastWantHaves (ne_ord env) ks) nd)"
| "onSessionCall env i (SES_SendWants p bs hs) nd = ([], on_pm (pm_SendWants p bs hs) nd)"
| "onSessionCall env i (SES_RegisterSession p) nd = ([], on_pm (RegisterSession p i) nd)"
| "onSessionCall env i SES_UnregisterSession nd = ([], on_pm (UnregisterSession (ne_ord env) i) nd)"
| "onSessionCall env i (SES_CancelSessionWants ks) nd =
     onManagerCalls env (sm_CancelSessionWants i ks (cl_sm (nd_client nd))) nd"
| "onSessionCall env i SES_RemoveSession nd =
     onManagerCalls env (sm_RemoveSession (ne_ord env) i (cl_sm (nd_client nd))) nd"
| "onSessionCall env i c nd = ([ND_Session i c], nd)"

section \<open>Operations\<close>

definition trace_received :: "tracer option \<Rightarrow> peer \<Rightarrow> message \<Rightarrow> node_call list" where
  "trace_received t p m = (case t of None \<Rightarrow> [] | Some tr \<Rightarrow> map ND_Trace (tr_MessageReceived tr p m))"

definition trace_sent :: "tracer option \<Rightarrow> peer \<Rightarrow> message \<Rightarrow> node_call list" where
  "trace_sent t p m = (case t of None \<Rightarrow> [] | Some tr \<Rightarrow> map ND_Trace (tr_MessageSent tr p m))"

definition nd_client_ReceiveMessage :: "node_env \<Rightarrow> peer \<Rightarrow> message \<Rightarrow> node \<Rightarrow> node_call list \<times> node" where
  "nd_client_ReceiveMessage env p incoming nd =
     (let (acts, cl) = ReceiveMessage (ne_has env) (ne_ids env) (ne_ord env) p incoming (nd_client nd);
          (out, nd1) = each (onClientCall env) acts (nd\<lparr>nd_client := cl\<rparr>)
      in (trace_received (nd_client_tracer nd) p incoming @ out, nd1))"

definition nd_server_ReceiveMessage :: "node_env \<Rightarrow> peer \<Rightarrow> message \<Rightarrow> node \<Rightarrow> node_call list \<times> node" where
  "nd_server_ReceiveMessage env p incoming nd =
     (let (out, nd1) = on_server (srv_ReceiveMessage (ne_ord env) (ne_accept env) (ne_getSize env) p incoming) nd
      in (out @ trace_received (nd_server_tracer nd) p incoming, nd1))"

definition bs_ReceiveMessage :: "node_env \<Rightarrow> peer \<Rightarrow> message \<Rightarrow> node \<Rightarrow> node_call list \<times> node" where
  "bs_ReceiveMessage env p incoming nd =
     (let (out1, nd1) = nd_client_ReceiveMessage env p incoming nd;
          (out2, nd2) = nd_server_ReceiveMessage env p incoming nd1
      in (trace_received (nd_tracer nd) p incoming @ out1 @ out2, nd2))"

text \<open>The errors of both halves are combined: the list of those that are not nil.\<close>

datatype node_error = Client_Closed | Server_Closed

definition nd_client_NotifyNewBlocks :: "node_env \<Rightarrow> block list \<Rightarrow> node \<Rightarrow> node_error list \<times> node_call list \<times> node" where
  "nd_client_NotifyNewBlocks env blks nd =
     (case cl_NotifyNewBlocks (ne_ids env) blks (nd_client nd) of
        Inl _ \<Rightarrow> ([Client_Closed], [], nd)
      | Inr (acts, cl) \<Rightarrow> ([], each (onClientCall env) acts (nd\<lparr>nd_client := cl\<rparr>)))"

definition nd_server_NotifyNewBlocks :: "node_env \<Rightarrow> block list \<Rightarrow> node \<Rightarrow> node_error list \<times> node_call list \<times> node" where
  "nd_server_NotifyNewBlocks env blks nd =
     (case srv_NotifyNewBlocks (ne_ord env) blks (nd_server nd) of
        Inl _ \<Rightarrow> ([Server_Closed], [], nd)
      | Inr (acts, srv) \<Rightarrow> ([], map ND_Server acts, nd\<lparr>nd_server := srv\<rparr>))"

definition bs_NotifyNewBlocks :: "node_env \<Rightarrow> block list \<Rightarrow> node \<Rightarrow> node_error list \<times> node_call list \<times> node" where
  "bs_NotifyNewBlocks env blks nd =
     (let (errs1, out1, nd1) = nd_client_NotifyNewBlocks env blks nd;
          (errs2, out2, nd2) = nd_server_NotifyNewBlocks env blks nd1
      in (errs1 @ errs2, out1 @ out2, nd2))"

definition bs_PeerConnected :: "node_env \<Rightarrow> peer \<Rightarrow> node \<Rightarrow> node_call list \<times> node" where
  "bs_PeerConnected env p nd =
     (let (acts, s) = Connected (ne_ord env) (ne_ids env) (ne_maxSize env) (ne_maxLatency env) p (nd_pm nd);
          (out1, nd1) = each onPeersCall acts (nd\<lparr>nd_pm := s\<rparr>);
          (out2, nd2) = on_server (srv_PeerConnected p) nd1
      in (out1 @ out2, nd2))"

definition bs_PeerDisconnected :: "node_env \<Rightarrow> peer \<Rightarrow> node \<Rightarrow> node_call list \<times> node" where
  "bs_PeerDisconnected env p nd =
     (let (acts, s) = Disconnected (ne_ord env) (ne_ids env) p (nd_pm nd);
          (out1, nd1) = each onPeersCall acts (nd\<lparr>nd_pm := s\<rparr>);
          (out2, nd2) = on_server (srv_PeerDisconnected (ne_ord env) p) nd1
      in (out1 @ out2, nd2))"

definition GetWantlist :: "cid order \<Rightarrow> node \<Rightarrow> cid list" where
  "GetWantlist ord nd = getWants ord (pm_pwm (nd_pm nd))"

definition bs_WantlistForPeer :: "node_env \<Rightarrow> peer \<Rightarrow> node \<Rightarrow> cid list \<times> node" where
  "bs_WantlistForPeer env p nd =
     (if p = nd_self nd then (GetWantlist (ne_ord env) nd, nd)
      else let (ks, srv) = srv_WantlistForPeer (ne_ord env) p (nd_server nd) in (ks, nd\<lparr>nd_server := srv\<rparr>))"

text \<open>
  \<open>Close\<close> stops the network and closes both processes; the goroutine that waits for the
  client's process then shuts the session manager and the publisher down.
\<close>

definition bs_Close :: "node \<Rightarrow> node" where
  "bs_Close nd =
     nd\<lparr>nd_running := False, nd_client := (nd_client nd)\<lparr>cl_closing := True\<rparr>,
        nd_server := (nd_server nd)\<lparr>srv_closing := True\<rparr>\<rparr>"

definition nd_teardown :: "node_env \<Rightarrow> node \<Rightarrow> node_call list \<times> node" where
  "nd_teardown env nd =
     (if cl_closing (nd_client nd) then
        let (out, nd1) = onManagerCalls env (sm_Shutdown (ne_ids env) (cl_sm (nd_client nd))) nd;
            (acts, ps) = ps_Shutdown (nd_notif nd1)
        in (out @ map ND_PubSub acts, nd1\<lparr>nd_notif := ps\<rparr>)
      else ([], nd))"

text \<open>Statistics. \<open>pretty\<close> prints a peer; the printed names are sorted.\<close>

record cl_stat =
  cs_Wantlist :: "cid list"
  cs_BlocksReceived :: uint64
  cs_DataReceived :: uint64
  cs_DupBlksReceived :: uint64
  cs_DupDataReceived :: uint64
  cs_MessagesReceived :: uint64

definition cl_Stat :: "cid order \<Rightarrow> node \<Rightarrow> cl_stat" where
  "cl_Stat ord nd =
     (let c = cl_counters (nd_client nd)
      in \<lparr>cs_Wantlist = GetWantlist ord nd, cs_BlocksReceived = blocksRecvd c, cs_DataReceived = dataRecvd c,
          cs_DupBlksReceived = dupBlocksRecvd c, cs_DupDataReceived = dupDataRecvd c, cs_MessagesReceived = messagesRecvd c\<rparr>)"

record sv_stat =
  ss_Peers :: "string list"
  ss_ProvideBufLen :: nat
  ss_BlocksSent :: uint64
  ss_DataSent :: uint64

definition srv_Stat :: "(peer \<Rightarrow> string) \<Rightarrow> peer order \<Rightarrow> server \<Rightarrow> sv_stat" where
  "srv_Stat pretty ord s =
     \<lparr>ss_Peers = sort (map pretty (Peers ord (srv_engine s))), ss_ProvideBufLen = length (pv_newBlocks (srv_provider s)),
      ss_BlocksSent = BlocksSent (srv_counters s), ss_DataSent = DataSent (srv_counters s)\<rparr>"

record bs_stat =
  st_Wantlist :: "cid list"
  st_Peers :: "string list"
  st_BlocksReceived :: uint64
  st_DataReceived :: uint64
  st_DupBlksReceived :: uint64
  st_DupDataReceived :: uint64
  st_MessagesReceived :: uint64
  st_BlocksSent :: uint64
  st_DataSent :: uint64
  st_ProvideBufLen :: nat

definition bs_Stat :: "(peer \<Rightarrow> string) \<Rightarrow> string order \<Rightarrow> node \<Rightarrow> bs_stat" where
  "bs_Stat pretty ord nd =
     (let cs = cl_Stat ord nd; ss = srv_Stat pretty ord (nd_server nd)
      in \<lparr>st_Wantlist = cs_Wantlist cs, st_Peers = ss_Peers ss, st_BlocksReceived = cs_BlocksReceived cs,
          st_DataReceived = cs_DataReceived cs, st_DupBlksReceived = cs_DupBlksReceived cs,
          st_DupDataReceived = cs_DupDataReceived cs, st_MessagesReceived = cs_MessagesReceived cs,
          st_BlocksSent = ss_BlocksSent ss, st_DataSent = ss_DataSent ss, st_ProvideBufLen = ss_ProvideBufLen ss\<rparr>)"

section \<open>Turns of the goroutines\<close>

text \<open>What a session's caller and its two loops do next.\<close>

datatype turn =
    T_GetBlocks "cid list"
  | T_CancelBlocks "cid list"
  | T_Next int
  | T_IdleTick int
  | T_PeriodicSearch nat
  | T_SenderRound sws_env
  | T_ProviderFound peer cid
  | T_Shutdown

fun sessionTurn :: "string order \<Rightarrow> turn \<Rightarrow> sm \<Rightarrow> ses \<Rightarrow> ses_call list \<times> sim \<times> ses" where
  "sessionTurn ord (T_GetBlocks ks) s x = ([], sm_sim s, if length ks = 0 then x else ses_GetBlocks ks x)"
| "sessionTurn ord (T_CancelBlocks ks) s x = ([], sm_sim s, ses_CancelBlocks ks x)"
| "sessionTurn ord (T_Next now) s x = ses_next now (sm_sim s) x"
| "sessionTurn ord (T_IdleTick now) s x = (let (acts, x') = ses_broadcast now None x in (acts, sm_sim s, x'))"
| "sessionTurn ord (T_PeriodicSearch n) s x = (handlePeriodicSearch ord n x, sm_sim s, x)"
| "sessionTurn ord (T_SenderRound env) s x =
     (let (acts, x') = ses_senderRound (env\<lparr>env_bpm := sm_bpm s\<rparr>) x in (acts, sm_sim s, x'))"
| "sessionTurn ord (T_ProviderFound p c) s x = ([], sm_sim s, ses_providerFound p c x)"
| "sessionTurn ord T_Shutdown s x = (let (acts, x') = handleShutdown ord x in (acts, sm_sim s, x'))"

definition nd_turn :: "node_env \<Rightarrow> uint64 \<Rightarrow> turn \<Rightarrow> node \<Rightarrow> node_call list \<times> node" where
  "nd_turn env i t nd =
     (let s = cl_sm (nd_client nd);
          (acts, s1) = withSession i (sessionTurn (ne_ord env) t s) s
      in each (onSessionCall env i) acts (on_sm (\<lambda>_. s1) nd))"

definition nd_DontHaveTimeout :: "node_env \<Rightarrow> peer \<Rightarrow> cid list \<Rightarrow> node \<Rightarrow> node_call list \<times> node" where
  "nd_DontHaveTimeout env p dontHaves nd =
     (let (acts, cl) = onDontHaveTimeout (ne_ids env) p dontHaves (nd_client nd)
      in each (onClientCall env) acts (nd\<lparr>nd_client := cl\<rparr>))"

definition nd_taskWorker :: "node_env \<Rightarrow> bool \<Rightarrow> envelope \<Rightarrow> node \<Rightarrow> node_call list \<times> node" where
  "nd_taskWorker env ok en nd =
     (let (out, nd1) = on_server (taskWorker (ne_ord env) ok en) nd
      in (trace_sent (nd_server_tracer nd) (env_Peer en) (env_Message en) @ out, nd1))"

section \<open>Runs\<close>

datatype node_event =
    NE_Message peer message
  | NE_NewBlocks "block list"
  | NE_Connected peer
  | NE_Disconnected peer
  | NE_GetBlocks "cid list"
  | NE_NewSession
  | NE_Turn uint64 turn
  | NE_QueueSend int peer
  | NE_DontHaveTimeout peer "cid list"
  | NE_TaskWorker bool envelope
  | NE_Wantlist peer
  | NE_Close
  | NE_Teardown

fun node_step :: "node_env \<times> node_event \<Rightarrow> node \<Rightarrow> node_call list \<times> node" where
  "node_step (env, NE_Message p m) nd = bs_ReceiveMessage env p m nd"
| "node_step (env, NE_NewBlocks blks) nd = snd (bs_NotifyNewBlocks env blks nd)"
| "node_step (env, NE_Connected p) nd = bs_PeerConnected env p nd"
| "node_step (env, NE_Disconnected p) nd = bs_PeerDisconnected env p nd"
| "node_step (env, NE_GetBlocks ks) nd = ([], nd\<lparr>nd_client := cl_GetBlocks ks (nd_client nd)\<rparr>)"
| "node_step (env, NE_NewSession) nd = ([], on_sm (\<lambda>s. snd (NewSession (provSearchDelay (nd_client nd)) s)) nd)"
| "node_step (env, NE_Turn i t) nd = nd_turn env i t nd"
| "node_step (env, NE_QueueSend now p) nd = ([], on_pm (pm_QueueSend (ne_ord env) now p) nd)"
| "node_step (env, NE_DontHaveTimeout p ks) nd = nd_DontHaveTimeout env p ks nd"
| "node_step (env, NE_TaskWorker ok en) nd = nd_taskWorker env ok en nd"
| "node_step (env, NE_Wantlist p) nd = ([], snd (bs_WantlistForPeer env p nd))"
| "node_step (env, NE_Close) nd = ([], bs_Close nd)"
| "node_step (env, NE_Teardown) nd = nd_teardown env nd"

definition node_exec :: "node_env \<times> node_event \<Rightarrow> node \<Rightarrow> node" where
  "node_exec x nd = snd (node_step x nd)"

text \<open>
  Events as they happen: maps are ranged over in some order, received messages are
  well-formed (as every decoded message is), and new blocks have keys of their own.
\<close>

definition env_ranges :: "node_env \<Rightarrow> bool" where
  "env_ranges env \<longleftrightarrow> go_range (ne_ord env) \<and> go_range (ne_ids env)"

fun event_ok :: "node_event \<Rightarrow> bool" where
  "event_ok (NE_Message p m) \<longleftrightarrow> msg_inv m"
| "event_ok (NE_NewBlocks blks) \<longleftrightarrow> distinct (map block_cid blks)"
| "event_ok _ \<longleftrightarrow> True"

text \<open>The caller of session \<open>i\<close> cancels key \<open>c\<close>.\<close>

fun cancelling :: "uint64 \<Rightarrow> cid \<Rightarrow> node_event \<Rightarrow> bool" where
  "cancelling i c (NE_Turn j (T_CancelBlocks ks)) \<longleftrightarrow> j = i \<and> c \<in> set ks"
| "cancelling i c _ \<longleftrightarrow> False"

text \<open>
  The invariant of a node, for a session and a key that is not cancelled in it: the engine's
  ledgers and their index, the peer manager with its queues, the sessions with the interest
  manager, and across the two halves, every peer that has a message queue has a ledger.
\<close>

definition queues_have_ledgers :: "node \<Rightarrow> bool" where
  "queues_have_ledgers nd \<longleftrightarrow> fmdom (peerQueues (nd_pm nd)) |\<subseteq>| fmdom (ledgerMap (srv_engine (nd_server nd)))"

definition node_inv :: "uint64 \<Rightarrow> cid \<Rightarrow> node \<Rightarrow> bool" where
  "node_inv i c nd \<longleftrightarrow> engine_inv (srv_engine (nd_server nd)) \<and> pm_inv (nd_pm nd) \<and> waits i c (cl_sm (nd_client nd)) \<and>
     queues_have_ledgers nd"

section \<open>Invariants\<close>

lemma each_preserves:
  assumes "P nd" "\<And>c nd. c \<in> set cs \<Longrightarrow> P nd \<Longrightarrow> P (snd (f c nd))"
  shows "P (snd (each f cs nd))"
  using assms by (induction cs arbitrary: nd) (simp_all add: split_beta Let_def)

lemma node_invD:
  assumes "node_inv i c nd"
  shows "engine_inv (srv_engine (nd_server nd))" "pm_inv (nd_pm nd)" "waits i c (cl_sm (nd_client nd))" "queues_have_ledgers nd"
  using assms by (simp_all add: node_inv_def)

lemma node_inv_on_sm [intro]: "node_inv i c nd \<Longrightarrow> waits i c (f (cl_sm (nd_client nd))) \<Longrightarrow> node_inv i c (on_sm f nd)"
  by (simp add: node_inv_def on_sm_def queues_have_ledgers_def)

lemma node_inv_client: "node_inv i c nd \<Longrightarrow> waits i c (cl_sm cl) \<Longrightarrow> node_inv i c (nd\<lparr>nd_client := cl\<rparr>)"
  by (simp add: node_inv_def queues_have_ledgers_def)

lemma node_inv_on_pm [intro]:
  "node_inv i c nd \<Longrightarrow> pm_inv (f (nd_pm nd)) \<Longrightarrow> peerQueues (f (nd_pm nd)) = peerQueues (nd_pm nd) \<Longrightarrow>
    node_inv i c (on_pm f nd)"
  by (simp add: node_inv_def on_pm_def queues_have_ledgers_def)

lemma node_inv_server:
  "node_inv i c nd \<Longrightarrow> engine_inv (srv_engine srv) \<Longrightarrow>
    fmdom (ledgerMap (srv_engine (nd_server nd))) |\<subseteq>| fmdom (ledgerMap (srv_engine srv)) \<Longrightarrow>
    node_inv i c (nd\<lparr>nd_server := srv\<rparr>)"
  by (auto simp: node_inv_def queues_have_ledgers_def)

lemma peerQueues_simps [simp]:
  "peerQueues (pm_SendCancels ord ks s) = peerQueues s" "peerQueues (pm_BroadcastWantHaves ord ks s) = peerQueues s"
  "peerQueues (pm_SendWants p bs hs s) = peerQueues s" "peerQueues (RegisterSession p i s) = peerQueues s"
  "peerQueues (UnregisterSession ord i s) = peerQueues s" "peerQueues (pm_QueueSend ord now p s) = peerQueues s"
  by (simp_all add: pm_SendCancels_def pm_BroadcastWantHaves_def pm_SendWants_def pm_apply_def RegisterSession_def
      UnregisterSession_def pm_QueueSend_def Let_def split: option.splits)

lemma ledgers_kept [simp]:
  "fmdom (ledgerMap e) |\<subseteq>| fmdom (ledgerMap (fst (ReceivedBlocks p bs e)))"
  "fmdom (ledgerMap e) |\<subseteq>| fmdom (ledgerMap (fst (MessageReceived ord accept getSize p m e)))"
  "fmdom (ledgerMap e) |\<subseteq>| fmdom (ledgerMap (fst (MessageSent ord p m e)))"
  "fmdom (ledgerMap e) |\<subseteq>| fmdom (ledgerMap (fst (PeerConnected p e)))"
  "fmdom (ledgerMap e) |\<subseteq>| fmdom (ledgerMap (fst (NotifyNewBlocks ord bs e)))"
  "fmdom (ledgerMap e) |\<subseteq>| fmdom (ledgerMap (snd (WantlistForPeer ord p e)))"
  by (auto simp: ReceivedBlocks_def findOrCreate_eq MessageReceived_state MessageSent_state PeerConnected_def
      NotifyNewBlocks_ledgers WantlistForPeer_def split_beta Let_def split: option.splits)

lemma node_inv_on_server:
  "node_inv i c nd \<Longrightarrow> engine_inv (srv_engine (snd (f (nd_server nd)))) \<Longrightarrow>
    fmdom (ledgerMap (srv_engine (nd_server nd))) |\<subseteq>| fmdom (ledgerMap (srv_engine (snd (f (nd_server nd))))) \<Longrightarrow>
    node_inv i c (snd (on_server f nd))"
  by (simp add: on_server_def split_beta node_inv_server)

text \<open>The calls of the client: only cancels of repeated keys could spoil the peer manager.\<close>

fun cl_call_ok :: "cl_call \<Rightarrow> bool" where
  "cl_call_ok (CL_SessionManager (SM_SendCancels ks)) \<longleftrightarrow> distinct ks"
| "cl_call_ok _ \<longleftrightarrow> True"

lemma node_inv_onClientCall:
  assumes "env_ranges env" "cl_call_ok x" "node_inv i c nd"
  shows "node_inv i c (snd (onClientCall env x nd))"
proof (cases x)
  case (CL_SessionManager y)
  then show ?thesis
    using assms by (cases y) (auto simp: env_ranges_def node_invD pm_inv_sendCancels)
next
  case (CL_ReceivedBlocks p blks)
  then show ?thesis
    using assms(3) by (simp add: node_inv_on_server srv_ReceivedBlocks_def split_beta engine_inv_ReceivedBlocks node_invD)
qed (use assms in auto)

lemma node_inv_client_calls:
  "env_ranges env \<Longrightarrow> list_all cl_call_ok acts \<Longrightarrow> node_inv i c nd \<Longrightarrow>
    node_inv i c (snd (each (onClientCall env) acts nd))"
  by (rule each_preserves) (auto simp: list_all_iff intro: node_inv_onClientCall)

lemma sm_ReceiveFrom_calls:
  "distinct blks \<Longrightarrow> list_all cl_call_ok (map CL_SessionManager (fst (sm_ReceiveFrom ords p blks haves dontHaves s)))"
  by (simp add: sm_ReceiveFrom_def Let_def split: option.splits)

lemma Blocks_cids:
  assumes "go_range ord" "msg_inv m"
  shows "distinct (map block_cid (Blocks ord m))"
proof -
  have "map block_cid (Blocks ord m) = ord (fmdom (m_blocks m))"
    using map_key_range_values [OF assms(1), of "m_blocks m" block_cid] msg_inv_blockD [OF assms(2)] by (simp add: Blocks_def)
  then show ?thesis
    by (simp add: go_range.ord_distinct [OF assms(1)])
qed

lemma ReceiveMessage_calls_ok:
  assumes "go_range ordc" "msg_inv m"
  shows "list_all cl_call_ok (fst (ReceiveMessage has ords ordc p m cl))"
  using sm_ReceiveFrom_calls [OF Blocks_cids [OF assms]]
  by (auto simp: ReceiveMessage_def receiveBlocksFrom_def Let_def list_all_iff split_beta)

lemma ReceiveMessage_waits:
  assumes "waits i c (cl_sm cl)" "go_range ords"
  shows "waits i c (cl_sm (snd (ReceiveMessage has ords ordc p m cl)))"
  using assms sm_ReceiveFrom_waits [OF assms]
  by (simp add: ReceiveMessage_def receiveBlocksFrom_def Let_def split_beta)

lemma node_inv_ReceiveMessage:
  assumes env: "env_ranges env" and m: "msg_inv m" and nd: "node_inv i c nd"
  shows "node_inv i c (snd (bs_ReceiveMessage env p m nd))"
proof -
  note ords = env [unfolded env_ranges_def, THEN conjunct1] env [unfolded env_ranges_def, THEN conjunct2]
  have "node_inv i c (snd (nd_client_ReceiveMessage env p m nd))"
    using node_inv_client_calls [OF env ReceiveMessage_calls_ok [OF ords(1) m] node_inv_client [OF nd ReceiveMessage_waits]]
      node_invD(3) [OF nd] ords(2)
    by (simp add: nd_client_ReceiveMessage_def split_beta Let_def)
  moreover have "node_inv i c (snd (nd_server_ReceiveMessage env p m nd'))" if "node_inv i c nd'" for nd'
    using that ords(1) m
    by (simp add: nd_server_ReceiveMessage_def split_beta Let_def node_inv_on_server srv_ReceiveMessage_def
        engine_inv_MessageReceived node_invD)
  ultimately show ?thesis
    by (simp add: bs_ReceiveMessage_def split_beta Let_def)
qed

lemma node_inv_NotifyNewBlocks:
  assumes env: "env_ranges env" and blks: "distinct (map block_cid blks)" and nd: "node_inv i c nd"
  shows "node_inv i c (snd (snd (bs_NotifyNewBlocks env blks nd)))"
proof -
  note ords = env [unfolded env_ranges_def, THEN conjunct1] env [unfolded env_ranges_def, THEN conjunct2]
  have "node_inv i c (snd (snd (nd_client_NotifyNewBlocks env blks nd)))"
  proof (cases "cl_NotifyNewBlocks (ne_ids env) blks (nd_client nd)")
    case (Inr r)
    then have "waits i c (cl_sm (snd r))" "list_all cl_call_ok (fst r)"
      using sm_ReceiveFrom_waits [OF node_invD(3) [OF nd] ords(2)] sm_ReceiveFrom_calls [OF blks]
      by (auto simp: cl_NotifyNewBlocks_def Let_def split_beta split: if_splits)
    then show ?thesis
      using node_inv_client_calls [OF env _ node_inv_client [OF nd]] Inr
      by (simp add: nd_client_NotifyNewBlocks_def split_beta)
  qed (simp add: nd_client_NotifyNewBlocks_def nd)
  moreover have "node_inv i c (snd (snd (nd_server_NotifyNewBlocks env blks nd')))" if "node_inv i c nd'" for nd'
    using that node_invD(1) [OF that] ords(1)
    by (auto simp: nd_server_NotifyNewBlocks_def srv_NotifyNewBlocks_def Let_def split_beta engine_inv_NotifyNewBlocks
        NotifyNewBlocks_ledgers split: sum.splits if_splits intro!: node_inv_server)
  ultimately show ?thesis
    by (simp add: bs_NotifyNewBlocks_def split_beta Let_def)
qed

lemma onPeersCall_frame:
  "nd_pm (snd (onPeersCall x nd)) = nd_pm nd" "nd_server (snd (onPeersCall x nd)) = nd_server nd"
  by (cases x; simp add: on_sm_def)+

lemma onPeersCall_waits: "waits i c (cl_sm (nd_client nd)) \<Longrightarrow> waits i c (cl_sm (nd_client (snd (onPeersCall x nd))))"
  by (cases x) (simp_all add: on_sm_def sm_runs.step_inv)

lemma each_onPeersCall:
  assumes "waits i c (cl_sm (nd_client nd))"
  shows "waits i c (cl_sm (nd_client (snd (each onPeersCall acts nd))))"
    "nd_pm (snd (each onPeersCall acts nd)) = nd_pm nd" "nd_server (snd (each onPeersCall acts nd)) = nd_server nd"
  by (rule each_preserves [where P = "\<lambda>nd. waits i c (cl_sm (nd_client nd))"], rule assms, erule onPeersCall_waits)
    (rule each_preserves; simp add: onPeersCall_frame)+

lemma peerQueues_Connected:
  "fmdom (peerQueues (snd (Connected ordc ords n l p s))) = finsert p (fmdom (peerQueues s))"
  by (auto simp: Connected_def getOrCreate_def split_beta Let_def fmdomI split: option.splits)

lemma peerQueues_Disconnected:
  "peerQueues (snd (Disconnected ordc ords p s)) = fmdrop p (peerQueues s)"
  by (auto simp: Disconnected_def fmap_eqI split: option.splits intro!: fmap_eqI)

lemma node_inv_PeerConnected:
  assumes env: "env_ranges env" and nd: "node_inv i c nd"
  shows "node_inv i c (snd (bs_PeerConnected env p nd))"
proof -
  let ?r = "Connected (ne_ord env) (ne_ids env) (ne_maxSize env) (ne_maxLatency env) p (nd_pm nd)"
  let ?nd = "snd (each onPeersCall (fst ?r) (nd\<lparr>nd_pm := snd ?r\<rparr>))"
  have w: "waits i c (cl_sm (nd_client (nd\<lparr>nd_pm := snd ?r\<rparr>)))"
    using node_invD(3) [OF nd] by simp
  note N = each_onPeersCall [OF w, of "fst ?r"]
  have "pm_inv (snd ?r)"
    using env node_invD(2) [OF nd] by (simp add: env_ranges_def pm_inv_Connected)
  moreover have "fmdom (peerQueues (snd ?r)) |\<subseteq>| fmdom (ledgerMap (fst (PeerConnected p (srv_engine (nd_server nd)))))"
    using node_invD(4) [OF nd]
    by (auto simp: peerQueues_Connected queues_have_ledgers_def PeerConnected_def findOrCreate_eq fmdomI split_beta split: option.splits)
  moreover have "nd_pm (nd'\<lparr>nd_server := srv\<rparr>) = nd_pm nd'" "nd_client (nd'\<lparr>nd_server := srv\<rparr>) = nd_client nd'" for nd' srv
    by simp_all
  ultimately show ?thesis
    using N node_invD(1) [OF nd]
    by (simp add: bs_PeerConnected_def on_server_def srv_PeerConnected_def split_beta Let_def node_inv_def
        queues_have_ledgers_def engine_inv_PeerConnected)
qed

lemma node_inv_PeerDisconnected:
  assumes env: "env_ranges env" and nd: "node_inv i c nd"
  shows "node_inv i c (snd (bs_PeerDisconnected env p nd))"
proof -
  let ?r = "Disconnected (ne_ord env) (ne_ids env) p (nd_pm nd)"
  have w: "waits i c (cl_sm (nd_client (nd\<lparr>nd_pm := snd ?r\<rparr>)))"
    using node_invD(3) [OF nd] by simp
  note N = each_onPeersCall [OF w, of "fst ?r"]
  have ord: "go_range (ne_ord env)"
    using env by (simp add: env_ranges_def)
  have "pm_inv (snd ?r)"
    using ord node_invD(2) [OF nd] by (simp add: pm_inv_Disconnected)
  moreover have "fmdom (peerQueues (snd ?r)) |\<subseteq>| fmdom (ledgerMap (fst (PeerDisconnected (ne_ord env) p (srv_engine (nd_server nd)))))"
    using node_invD(4) [OF nd] by (auto simp: peerQueues_Disconnected queues_have_ledgers_def PeerDisconnected_def Let_def)
  ultimately show ?thesis
    using N node_invD(1) [OF nd] ord
    by (simp add: bs_PeerDisconnected_def on_server_def srv_PeerDisconnected_def split_beta Let_def node_inv_def
        queues_have_ledgers_def engine_inv_PeerDisconnected)
qed

text \<open>The calls of a session that does not cancel the key.\<close>

lemma node_inv_managerCalls:
  "env_ranges env \<Longrightarrow> list_all cl_call_ok (map CL_SessionManager (fst r)) \<Longrightarrow> waits i c (snd r) \<Longrightarrow> node_inv i c nd \<Longrightarrow>
    node_inv i c (snd (onManagerCalls env r nd))"
  unfolding onManagerCalls_def by (intro node_inv_client_calls node_inv_on_sm)

lemma cancelled_calls_ok:
  assumes "sim_inv (sm_sim s)"
  shows "list_all cl_call_ok (map CL_SessionManager (fst (sm_CancelSessionWants i ks s)))"
    "go_range ord \<Longrightarrow> list_all cl_call_ok (map CL_SessionManager (fst (sm_RemoveSession ord i s)))"
  using RemoveSessionInterested_effect(2) [OF assms, of i ks] RemoveSession_effect(2) [OF _ assms, of ord i]
  by (simp_all add: sm_CancelSessionWants_def sm_RemoveSession_def cancelWants_def split_beta Let_def prod_eq_iff)

lemma node_inv_onSessionCall:
  assumes env: "env_ranges env" and nd: "node_inv i c nd" and x: "\<And>ks. j = i \<Longrightarrow> x = SES_CancelSessionWants ks \<Longrightarrow> c \<notin> set ks"
  shows "node_inv i c (snd (onSessionCall env j x nd))"
proof -
  note ords = env [unfolded env_ranges_def, THEN conjunct1] env [unfolded env_ranges_def, THEN conjunct2]
  note N = node_invD [OF nd]
  have sim: "sim_inv (sm_sim (cl_sm (nd_client nd)))"
    using N(3) by (simp add: waits_def sm_inv_def)
  show ?thesis
  proof (cases x)
    case (SES_CancelSessionWants ks)
    then show ?thesis
      using x by (simp add: node_inv_managerCalls [OF env cancelled_calls_ok(1) [OF sim] sm_CancelSessionWants_waits [OF N(3)] nd])
  next
    case SES_RemoveSession
    then show ?thesis
      by (simp add: node_inv_managerCalls [OF env cancelled_calls_ok(2) [OF sim ords(1)] sm_RemoveSession_waits [OF N(3) ords(1)] nd])
  qed (use nd N(2) ords(1) in \<open>simp_all add: node_inv_on_pm pm_inv_broadcast pm_inv_sendWants pm_inv_sessions\<close>)
qed

text \<open>A turn of session \<open>j\<close> keeps what session \<open>i\<close> expects, unless it is the caller of \<open>i\<close> who cancels.\<close>

lemma ses_broadcast_calls: "SES_CancelSessionWants ks \<notin> set (fst (ses_broadcast now wants x))"
  by (simp add: ses_broadcast_def split_beta Let_def)

lemma ses_run_calls: "SES_CancelSessionWants ks \<notin> set (fst (ses_run now oper m x))"
  by (cases oper) (simp_all add: ses_wantBlocks_def ses_broadcast_calls handleReceive_def split_beta Let_def)

lemma ses_next_effect:
  assumes "ses_next now m x = (acts, m', x')" "sw_inv (ses_sw x)" "sim_inv m"
  shows "ses_id x' = ses_id x \<and> sw_inv (ses_sw x') \<and> sim_inv m' \<and> others_keep (ses_id x) m m' \<and>
    (expected c m x \<longrightarrow> expected c m' x') \<and> SES_CancelSessionWants ks \<notin> set acts"
proof (cases "ses_incoming x")
  case (Cons oper rest)
  then have r: "ses_run now oper m (x\<lparr>ses_incoming := rest\<rparr>) = (acts, m', x')"
    using assms(1) by (simp add: ses_next_def)
  have "expected c m x \<Longrightarrow> expected c m (x\<lparr>ses_incoming := rest\<rparr>) \<and> (\<forall>ks. oper = opCancel ks \<longrightarrow> c \<notin> set ks)"
    using Cons by (auto simp: expected_def uncancelled_def)
  then show ?thesis
    using ses_run_effect [OF _ assms(3) r, of c] ses_run_calls [of ks now oper m "x\<lparr>ses_incoming := rest\<rparr>"] assms(2) r by auto
qed (use assms in \<open>simp add: ses_next_def\<close>)

lemma sessionTurn_effect:
  assumes r: "sessionTurn ord t s x = (acts, m', x')" and x: "sw_inv (ses_sw x)" "sim_inv (sm_sim s)"
  shows "ses_id x' = ses_id x \<and> sw_inv (ses_sw x') \<and> sim_inv m' \<and> others_keep (ses_id x) (sm_sim s) m' \<and>
    (expected c (sm_sim s) x \<longrightarrow> \<not> cancelling (ses_id x) c (NE_Turn (ses_id x) t) \<longrightarrow>
       expected c m' x' \<and> (\<forall>ks. SES_CancelSessionWants ks \<in> set acts \<longrightarrow> c \<notin> set ks))"
proof (cases t)
  case (T_Next now)
  then show ?thesis
    using ses_next_effect [of now "sm_sim s" x acts m' x' c] r x by auto
next
  case (T_IdleTick now)
  then have "ses_broadcast now None x = (acts, x')" "m' = sm_sim s"
    using r by (simp_all split: prod.splits)
  then show ?thesis
    using ses_broadcast_effect [OF x(1), of now None acts x'] ses_broadcast_calls [of _ now None x] x
    by (simp add: expected_def uncancelled_def)
next
  case (T_SenderRound env)
  then have "ses_senderRound (env\<lparr>env_bpm := sm_bpm s\<rparr>) x = (acts, x')" "m' = sm_sim s"
    using r by (simp_all split: prod.splits)
  note S = ses_senderRound_frame [OF this(1)] ses_senderRound_effect [OF this(1), of c] this(2)
  then show ?thesis
    using x unfolding expected_def by simp
next
  case (T_PeriodicSearch n)
  then show ?thesis
    using r x by (auto simp: handlePeriodicSearch_def Let_def split: if_splits)
next
  case T_Shutdown
  then show ?thesis
    using r x by (auto simp: handleShutdown_def expected_def uncancelled_def)
qed (use r x in \<open>auto simp: ses_GetBlocks_def ses_CancelBlocks_def ses_providerFound_def expected_def uncancelled_def split: if_splits\<close>)

lemma node_inv_turn:
  assumes env: "env_ranges env" and nd: "node_inv i c nd" and t: "\<not> cancelling i c (NE_Turn j t)"
  shows "node_inv i c (snd (nd_turn env j t nd))"
proof -
  let ?s = "cl_sm (nd_client nd)"
  let ?r = "withSession j (sessionTurn (ne_ord env) t ?s) ?s"
  note w = node_invD(3) [OF nd]
  have "waits i c (snd ?r)"
    using w by (rule withSession_waits) (use sessionTurn_effect t in blast)
  then have "node_inv i c (on_sm (\<lambda>_. snd ?r) nd)"
    using nd by (rule node_inv_on_sm [rotated])
  moreover have "c \<notin> set ks" if "j = i" "SES_CancelSessionWants ks \<in> set (fst ?r)" for ks
  proof (cases "getSession j ?s")
    case (Some x)
    obtain acts m' x' where r: "sessionTurn (ne_ord env) t ?s x = (acts, m', x')"
      by (rule prod_cases3)
    have "ses_id x = j" "sw_inv (ses_sw x)" "sim_inv (sm_sim ?s)" "expected c (sm_sim ?s) x"
      using w Some that(1) by (auto simp: waits_def sm_inv_def)
    then show ?thesis
      using sessionTurn_effect [OF r, of c] t that Some r by (auto simp: withSession_def)
  qed (use that in \<open>simp add: withSession_def\<close>)
  ultimately show ?thesis
    unfolding nd_turn_def split_beta Let_def
    by (intro each_preserves [where P = "node_inv i c"] node_inv_onSessionCall [OF env]) auto
qed

lemma sm_Shutdown_waits: "waits i c s \<Longrightarrow> waits i c (snd (sm_Shutdown ord s))"
  by (auto simp: sm_Shutdown_def waits_def sm_inv_def getSession_def split: option.splits)

lemma node_inv_teardown:
  assumes env: "env_ranges env" and nd: "node_inv i c nd"
  shows "node_inv i c (snd (nd_teardown env nd))"
proof -
  have "list_all cl_call_ok (map CL_SessionManager (fst (sm_Shutdown (ne_ids env) (cl_sm (nd_client nd)))))"
    by (auto simp: sm_Shutdown_def list_all_iff split: option.splits)
  from node_inv_managerCalls [OF env this sm_Shutdown_waits [OF node_invD(3) [OF nd]] nd] nd show ?thesis
    by (simp add: nd_teardown_def split_beta Let_def node_inv_def queues_have_ledgers_def)
qed

lemma node_inv_DontHaveTimeout:
  assumes env: "env_ranges env" and nd: "node_inv i c nd"
  shows "node_inv i c (snd (nd_DontHaveTimeout env p ks nd))"
proof -
  let ?r = "onDontHaveTimeout (ne_ids env) p ks (nd_client nd)"
  have "waits i c (cl_sm (snd ?r))" "list_all cl_call_ok (fst ?r)"
    using sm_ReceiveFrom_waits [OF node_invD(3) [OF nd]] sm_ReceiveFrom_calls [of "[]"] node_invD(3) [OF nd] env
    by (simp_all add: onDontHaveTimeout_def split_beta env_ranges_def)
  then show ?thesis
    using node_inv_client_calls [OF env _ node_inv_client [OF nd]] by (simp add: nd_DontHaveTimeout_def split_beta Let_def)
qed

lemma cl_GetBlocks_waits: "waits i c (cl_sm cl) \<Longrightarrow> waits i c (cl_sm (cl_GetBlocks ks cl))"
  unfolding cl_GetBlocks_def
  by (auto simp: split_beta Let_def NewSession_waits intro!: onSession_waits simp: ses_GetBlocks_def uncancelled_def)

lemma node_inv_taskWorker:
  assumes env: "env_ranges env" and nd: "node_inv i c nd"
  shows "node_inv i c (snd (nd_taskWorker env ok en nd))"
  using assms node_invD(1) [OF nd]
  by (simp add: nd_taskWorker_def split_beta Let_def node_inv_on_server taskWorker_def sendBlocks_def engine_inv_MessageSent
      node_invD env_ranges_def)

lemma node_inv_step:
  assumes "env_ranges env" "event_ok x" "\<not> cancelling i c x" "node_inv i c nd"
  shows "node_inv i c (node_exec (env, x) nd)"
proof (cases x)
  case (NE_Wantlist p)
  then show ?thesis
    using assms(1,4) node_invD(1) [OF assms(4)]
    by (simp add: node_exec_def bs_WantlistForPeer_def srv_WantlistForPeer_def split_beta Let_def env_ranges_def
        node_inv_server engine_inv_WantlistForPeer)
next
  case (NE_QueueSend now p)
  then show ?thesis
    using assms(1,4) node_invD(2) [OF assms(4)] by (simp add: node_exec_def env_ranges_def node_inv_on_pm pm_inv_QueueSend)
next
  case NE_Close
  then show ?thesis
    using assms(4) by (simp add: node_exec_def bs_Close_def node_inv_def queues_have_ledgers_def)
next
  case NE_NewSession
  then show ?thesis
    using assms(4) by (simp add: node_exec_def node_inv_on_sm NewSession_waits node_invD)
next
  case (NE_GetBlocks ks)
  then show ?thesis
    using assms(4) by (simp add: node_exec_def node_inv_client cl_GetBlocks_waits node_invD)
qed (use assms in \<open>simp_all add: node_exec_def node_inv_ReceiveMessage node_inv_NotifyNewBlocks node_inv_PeerConnected
    node_inv_PeerDisconnected node_inv_turn node_inv_DontHaveTimeout node_inv_taskWorker node_inv_teardown
    del: cancelling.simps\<close>)

interpretation node_runs: step_invariant node_exec
  "\<lambda>(env, x). env_ranges env \<and> event_ok x \<and> \<not> cancelling i c x" "node_inv i c" for i c
  by unfold_locales (auto intro: node_inv_step)

end
