(* ===== verification/Facade_Props.thy ===== *)
theory Facade_Props
  imports Facade
begin

text \<open>
  What holds of a whole node: how it is built from options, the invariant of all its runs, what
  a received message does in both halves, and what is left after it is closed.
\<close>

section \<open>Construction\<close>

text \<open>The options a user of the package can make: the field of \<open>Option\<close> is not exported.\<close>

inductive facade_option :: "bs_option \<Rightarrow> bool" where
  "bs_EngineBlockstoreWorkerCount n = Inr opt \<Longrightarrow> facade_option opt"
| "bs_EngineTaskWorkerCount n = Inr opt \<Longrightarrow> facade_option opt"
| "bs_MaxOutstandingBytesPerPeer n = Inr opt \<Longrightarrow> facade_option opt"
| "bs_TaskWorkerCount n = Inr opt \<Longrightarrow> facade_option opt"
| "facade_option (bs_ProvideEnabled b)"
| "facade_option (bs_SetSendDontHaves b)"
| "facade_option (bs_WithPeerBlockRequestFilter f)"
| "facade_option (bs_WithScoreLedger l)"
| "facade_option (bs_WithTargetMessageSize n)"
| "facade_option (bs_WithTaskComparator cmp)"
| "facade_option (bs_ProviderSearchDelay d)"
| "facade_option (bs_RebroadcastDelay d)"
| "facade_option (bs_SetSimulateDontHavesOnTimeout b)"
| "facade_option (bs_WithTracer (Tracer k))"

text \<open>Configurations that can run, and options that keep them so.\<close>

definition ec_wf :: "engine_config \<Rightarrow> bool" where
  "ec_wf e \<longleftrightarrow> 0 < ec_bstoreWorkerCount e \<and> 0 < ec_taskWorkerCount e \<and> 0 \<le> ec_maxOutstandingBytesPerPeer e"

definition eo_keeps :: "engine_option \<Rightarrow> bool" where
  "eo_keeps opt \<longleftrightarrow> (\<forall>e. ec_wf e \<longrightarrow> ec_wf (opt e))"

definition sc_wf :: "server_config \<Rightarrow> bool" where
  "sc_wf c \<longleftrightarrow> 0 < sc_taskWorkerCount c \<and> 0 \<le> sc_hasBlockBufferSize c \<and> list_all eo_keeps (sc_engineOptions c)"

definition so_keeps :: "server_option \<Rightarrow> bool" where
  "so_keeps opt \<longleftrightarrow> (\<forall>c. sc_wf c \<longrightarrow> sc_wf (opt c)) \<and> (\<forall>c. sc_tracer (opt c) = sc_tracer c)"

definition co_keeps :: "client_option \<Rightarrow> bool" where
  "co_keeps opt \<longleftrightarrow> (\<forall>c. cc_tracer (opt c) = cc_tracer c)"

fun bs_option_ok :: "bs_option \<Rightarrow> bool" where
  "bs_option_ok (Server_Option opt) \<longleftrightarrow> so_keeps opt"
| "bs_option_ok (Client_Option opt) \<longleftrightarrow> co_keeps opt"
| "bs_option_ok (Own_Option opt) \<longleftrightarrow> (\<exists>k. \<forall>t. opt t = Some (Tracer k))"
| "bs_option_ok Other_Option \<longleftrightarrow> False"

lemmas engine_option_defs = eo_WithBlockstoreWorkerCount_def eo_WithTaskWorkerCount_def eo_WithMaxOutstandingBytesPerPeer_def
  eo_WithSetSendDontHave_def eo_WithPeerBlockRequestFilter_def eo_WithScoreLedger_def eo_WithTargetMessageSize_def
  eo_WithTaskComparator_def

lemmas server_option_defs = so_EngineBlockstoreWorkerCount_def so_EngineTaskWorkerCount_def so_MaxOutstandingBytesPerPeer_def
  so_TaskWorkerCount_def so_ProvideEnabled_def so_SetSendDontHaves_def so_WithPeerBlockRequestFilter_def so_WithScoreLedger_def
  so_WithTargetMessageSize_def so_WithTaskComparator_def

lemmas client_option_defs = co_ProviderSearchDelay_def co_RebroadcastDelay_def co_SetSimulateDontHavesOnTimeout_def

lemmas bs_option_defs = bs_EngineBlockstoreWorkerCount_def bs_EngineTaskWorkerCount_def bs_MaxOutstandingBytesPerPeer_def
  bs_TaskWorkerCount_def bs_ProvideEnabled_def bs_SetSendDontHaves_def bs_WithPeerBlockRequestFilter_def bs_WithScoreLedger_def
  bs_WithTargetMessageSize_def bs_WithTaskComparator_def bs_ProviderSearchDelay_def bs_RebroadcastDelay_def
  bs_SetSimulateDontHavesOnTimeout_def bs_WithTracer_def

lemma facade_option_ok: "facade_option opt \<Longrightarrow> bs_option_ok opt"
  by (induction rule: facade_option.induct)
    (auto simp: bs_option_defs server_option_defs client_option_defs engine_option_defs co_keeps_def eo_keeps_def ec_wf_def
      so_keeps_def sc_wf_def append_engine_option_def split: if_splits)

lemma sort_options_ok:
  assumes "list_all bs_option_ok opts" "list_all so_keeps ss" "list_all co_keeps cs" "tr = None \<or> (\<exists>k. tr = Some (Tracer k))"
  shows "\<exists>ss' cs' tr'. sort_options opts (ss, cs, tr) = Inr (ss', cs', tr') \<and> list_all so_keeps ss' \<and> list_all co_keeps cs' \<and>
    (tr' = None \<or> (\<exists>k. tr' = Some (Tracer k)))"
  using assms
proof (induction opts "(ss, cs, tr)" arbitrary: ss cs tr rule: sort_options.induct)
  case (4 opt os ss cs t)
  then show ?case
    by fastforce
qed auto

lemma fold_keeps:
  assumes "list_all (\<lambda>opt. \<forall>c. P c \<longrightarrow> P (opt c)) opts" "P c"
  shows "P (fold (\<lambda>opt. opt) opts c)"
  using assms by (induction opts arbitrary: c) simp_all

lemma fold_so_keeps: "list_all so_keeps ss \<Longrightarrow> sc_tracer (fold (\<lambda>opt. opt) ss c) = sc_tracer c"
  by (induction ss arbitrary: c) (simp_all add: so_keeps_def)

lemma fold_co_keeps: "list_all co_keeps cs \<Longrightarrow> cc_tracer (fold (\<lambda>opt. opt) cs c) = cc_tracer c"
  by (induction cs arbitrary: c) (simp_all add: co_keeps_def)

lemma NewEngine_wf:
  assumes "list_all eo_keeps opts"
  shows "ec_wf (fst (NewEngine opts))"
proof -
  have "ec_wf engine_defaults"
    by (simp add: ec_wf_def engine_defaults_def BitswapEngineBlockstoreWorkerCount_def
        BitswapEngineTaskWorkerCount_def BitswapMaxOutstandingBytesPerPeer_def)
  then have "ec_wf (fold (\<lambda>opt. opt) opts engine_defaults)"
    using assms fold_keeps [of ec_wf opts] by (simp add: eo_keeps_def [abs_def])
  then show ?thesis
    by (simp add: NewEngine_def Let_def)
qed

lemma server_New_wf:
  assumes "list_all (\<lambda>opt. \<forall>c. sc_wf c \<longrightarrow> sc_wf (opt c)) ss"
  shows "sc_wf (ns_config (server_New ss))" "ec_wf (ns_engine_config (server_New ss))"
proof -
  let ?c = "fold (\<lambda>opt. opt) ss server_defaults"
  have "sc_wf server_defaults"
    by (simp add: sc_wf_def server_defaults_def BitswapTaskWorkerCount_def defaults_HasBlockBufferSize_def)
  then have c: "sc_wf ?c"
    using assms by (rule fold_keeps [rotated])
  then have "ec_wf (fst (NewEngine (sc_engineOptions ?c)))"
    by (intro NewEngine_wf) (simp add: sc_wf_def)
  then show "ec_wf (ns_engine_config (server_New ss))"
    by (simp add: server_New_def Let_def split_beta)
  show "sc_wf (ns_config (server_New ss))"
    using c by (simp add: server_New_def Let_def split_beta sc_wf_def)
qed

lemma server_New_fields [simp]:
  "engine_inv (srv_engine (wk_server (ns_workers (server_New ss))))"
  "length (bsm_workers (ns_bsm (server_New ss))) = nat (ec_bstoreWorkerCount (ns_engine_config (server_New ss)))"
  "length (ew (ns_workers (server_New ss))) = nat (ec_taskWorkerCount (ns_engine_config (server_New ss)))"
  "length (sw (ns_workers (server_New ss))) = nat (sc_taskWorkerCount (ns_config (server_New ss)))"
  "srv_closing (wk_server (ns_workers (server_New ss))) = False"
  "sc_tracer (ns_config (server_New ss)) = sc_tracer (fold (\<lambda>opt. opt) ss server_defaults)"
  "ns_newBlocksCap (server_New ss) = 256"
  by (simp_all add: server_New_def NewEngine_def Let_def split_beta StartWorkers_def bsm_start_def newBlockstoreManager_def
      srv_New_def engine_inv_SetSendDontHaves engine_inv_newEngine server_defaults_def defaults_HasBlockBufferSize_def)

lemma client_New_fields:
  assumes "list_all co_keeps cs"
  shows "cc_tracer (fst (client_New (cs @ [co_WithBlockReceivedNotifier]))) = None"
    "cc_tracer (fst (client_New (cs @ [co_WithTracer t, co_WithBlockReceivedNotifier]))) = Some t"
    "blockReceivedNotifier (snd (client_New (cs' @ [co_WithBlockReceivedNotifier])))"
    "cl_sm (snd (client_New cs')) = sm_New" "\<not> cl_closing (snd (client_New cs'))"
  using fold_co_keeps [OF assms]
  by (simp_all add: client_New_def Let_def co_WithBlockReceivedNotifier_def co_WithTracer_def cl_New_def)

text \<open>A node made of the package's options.\<close>

definition fresh_node :: "new_server \<Rightarrow> client_config \<Rightarrow> node \<Rightarrow> bool" where
  "fresh_node ns cc nd \<longleftrightarrow>
     sc_wf (ns_config ns) \<and> ec_wf (ns_engine_config ns) \<and> (\<exists>ss. ns = server_New ss) \<and>
     nd_server nd = wk_server (ns_workers ns) \<and> cl_sm (nd_client nd) = sm_New \<and> nd_pm nd = newPeerManager \<and>
     nd_notif nd = ps_New \<and> blockReceivedNotifier (nd_client nd) \<and> \<not> cl_closing (nd_client nd) \<and> nd_running nd \<and>
     (nd_tracer nd = None \<or> (\<exists>k. nd_tracer nd = Some (Tracer k))) \<and>
     nd_client_tracer nd = map_option NopReceiveTracer (nd_tracer nd) \<and>
     nd_server_tracer nd = map_option NopReceiveTracer (nd_tracer nd)"

lemma so_keepsD: "list_all so_keeps ss \<Longrightarrow> list_all (\<lambda>opt. \<forall>c. sc_wf c \<longrightarrow> sc_wf (opt c)) ss"
  by (simp add: list_all_iff so_keeps_def)

lemma bs_New_fresh:
  assumes opts: "list_all facade_option opts" and H: "0 \<le> H"
  shows "\<exists>ns cc nd. bs_New H self opts = Inr (ns, cc, nd) \<and> fresh_node ns cc nd"
proof -
  have "list_all bs_option_ok opts"
    using opts by (simp add: list_all_iff facade_option_ok)
  from sort_options_ok [OF this, of "[]" "[]" None]
  obtain ss cs tr where s: "sort_options opts ([], [], None) = Inr (ss, cs, tr)" "list_all so_keeps ss" "list_all co_keeps cs"
      "tr = None \<or> (\<exists>k. tr = Some (Tracer k))"
    by auto
  define bo :: "server_option list" where "bo = (if H \<noteq> defaults_HasBlockBufferSize then [\<lambda>bs. bs\<lparr>sc_hasBlockBufferSize := H\<rparr>] else [])"
  define to :: "server_option list" where "to = (case tr of None \<Rightarrow> [] | Some t \<Rightarrow> [so_WithTracer (NopReceiveTracer t)])"
  define co :: "client_option list" where "co = (case tr of None \<Rightarrow> [] | Some t \<Rightarrow> [co_WithTracer (NopReceiveTracer t)])"
  have keeps: "list_all (\<lambda>opt. \<forall>c. sc_wf c \<longrightarrow> sc_wf (opt c)) (ss @ to @ bo)"
    using so_keepsD [OF s(2)] H by (auto simp: to_def bo_def sc_wf_def so_WithTracer_def split: option.splits)
  have tracer: "sc_tracer (fold (\<lambda>opt. opt) (ss @ to @ bo) server_defaults) = map_option NopReceiveTracer tr"
    using fold_so_keeps [OF s(2), of server_defaults]
    by (auto simp: to_def bo_def so_WithTracer_def server_defaults_def split: option.splits)
  have "cc_tracer (fst (client_New (cs @ co @ [co_WithBlockReceivedNotifier]))) = map_option NopReceiveTracer tr"
    using client_New_fields(1,2) [OF s(3)] by (auto simp: co_def split: option.splits)
  then show ?thesis
    using s(1,4) H server_New_wf [OF keeps] tracer client_New_fields(3) [OF s(3), of "cs @ co"]
    by (auto simp: bs_New_def wrapTracer_def bufferOption_def so_HasBlockBufferSize_def fresh_node_def split_beta Let_def
        to_def co_def bo_def client_New_fields(4,5) [OF s(3)] split: option.splits)
qed

section \<open>Runs\<close>

lemma fresh_node_inv: "fresh_node ns cc nd \<Longrightarrow> node_inv i c nd"
  using pm_inv_new by (auto simp: fresh_node_def node_inv_def waits_New queues_have_ledgers_def newPeerManager_def)

definition run_ok :: "(node_env \<times> node_event) list \<Rightarrow> bool" where
  "run_ok xs \<longleftrightarrow> list_all (\<lambda>(env, x). env_ranges env \<and> event_ok x) xs"

lemma node_run_inv:
  assumes "fresh_node ns cc nd" "run_ok xs" "list_all (\<lambda>(env, x). \<not> cancelling i c x) xs"
  shows "node_inv i c (fold node_exec xs nd)"
  by (rule node_runs.run_inv [OF fresh_node_inv [OF assms(1)]]) (use assms(2,3) in \<open>auto simp: run_ok_def list_all_iff\<close>)

text \<open>Some key is never cancelled: keys are unbounded.\<close>

fun cancelled_keys :: "node_event \<Rightarrow> cid set" where
  "cancelled_keys (NE_Turn i (T_CancelBlocks ks)) = set ks"
| "cancelled_keys _ = {}"

lemma cancelling_keys: "cancelling i c x \<Longrightarrow> c \<in> cancelled_keys x"
  by (cases "(i, c, x)" rule: cancelling.cases) auto

lemma finite_cancelled: "finite (cancelled_keys x)"
  by (cases x rule: cancelled_keys.cases) simp_all

lemma some_uncancelled: "\<exists>c. list_all (\<lambda>(env, x). \<not> cancelling i c x) xs"
proof -
  have "finite (\<Union>(env, x)\<in>set xs. cancelled_keys x)"
    by (auto simp: finite_cancelled)
  from ex_new_if_finite [OF infinite_UNIV_listI this] obtain c where "c \<notin> (\<Union>(env, x)\<in>set xs. cancelled_keys x)"
    by blast
  then show ?thesis
    by (intro exI [of _ c]) (auto simp: list_all_iff dest: cancelling_keys)
qed

text \<open>What only closing the node changes.\<close>

definition sm_shut :: "sm \<Rightarrow> bool" where
  "sm_shut s \<longleftrightarrow> sm_sessions s = None"

lemma sm_shut_simps [simp]:
  "sm_shut (s\<lparr>sm_sim := m\<rparr>) = sm_shut s" "sm_shut (snd (withSession i f s)) = sm_shut s" "sm_shut (snd (onSession i h s)) = sm_shut s"
  "sm_shut (snd (NewSession d s)) = sm_shut s" "sm_shut (snd (sm_ReceiveFrom ords p bs hs ds s)) = sm_shut s"
  "sm_shut (snd (sm_CancelSessionWants i ks s)) = sm_shut s" "sm_shut (snd (sm_RemoveSession ord i s)) = sm_shut s"
  by (auto simp: sm_shut_def withSession_def onSession_def putSession_def NewSession_def GetNextSessionID_def sm_ReceiveFrom_def
      sm_CancelSessionWants_def sm_RemoveSession_def cancelWants_def split_beta Let_def split: option.splits)

definition fixed :: "node \<Rightarrow> (tracer option \<times> tracer option \<times> tracer option \<times> peer) \<times> bool \<times> bool \<times> bool \<times> publisher \<times> bool" where
  "fixed nd = ((nd_tracer nd, nd_client_tracer nd, nd_server_tracer nd, nd_self nd), blockReceivedNotifier (nd_client nd),
     cl_closing (nd_client nd), srv_closing (nd_server nd), nd_notif nd, sm_shut (cl_sm (nd_client nd)))"

lemma fixed_simps [simp]:
  "sm_shut (f (cl_sm (nd_client nd))) = sm_shut (cl_sm (nd_client nd)) \<Longrightarrow> fixed (on_sm f nd) = fixed nd"
  "fixed (on_pm h nd) = fixed nd" "fixed (nd\<lparr>nd_pm := s\<rparr>) = fixed nd"
  "srv_closing srv = srv_closing (nd_server nd) \<Longrightarrow> fixed (nd\<lparr>nd_server := srv\<rparr>) = fixed nd"
  "srv_closing (snd (g (nd_server nd))) = srv_closing (nd_server nd) \<Longrightarrow> fixed (snd (on_server g nd)) = fixed nd"
  "blockReceivedNotifier cl = blockReceivedNotifier (nd_client nd) \<Longrightarrow> cl_closing cl = cl_closing (nd_client nd) \<Longrightarrow>
    sm_shut (cl_sm cl) = sm_shut (cl_sm (nd_client nd)) \<Longrightarrow> fixed (nd\<lparr>nd_client := cl\<rparr>) = fixed nd"
  by (simp_all add: fixed_def on_sm_def on_pm_def on_server_def split_beta Let_def)

lemma srv_closing_simps [simp]:
  "srv_closing (snd (srv_ReceivedBlocks p bs s)) = srv_closing s"
  "srv_closing (snd (srv_ReceiveMessage ord accept getSize p m s)) = srv_closing s"
  "srv_closing (snd (srv_PeerConnected p s)) = srv_closing s" "srv_closing (snd (srv_PeerDisconnected ord p s)) = srv_closing s"
  "srv_closing (snd (srv_WantlistForPeer ord p s)) = srv_closing s" "srv_closing (snd (taskWorker ord ok en s)) = srv_closing s"
  by (simp_all add: srv_ReceivedBlocks_def srv_ReceiveMessage_def srv_PeerConnected_def srv_PeerDisconnected_def
      srv_WantlistForPeer_def taskWorker_def sendBlocks_def split_beta Let_def)

lemma client_simps [simp]:
  "blockReceivedNotifier (snd (ReceiveMessage has ords ordc p m cl)) = blockReceivedNotifier cl"
  "blockReceivedNotifier (snd (onDontHaveTimeout ords p ks cl)) = blockReceivedNotifier cl"
  "blockReceivedNotifier (cl_GetBlocks ks cl) = blockReceivedNotifier cl"
  "cl_closing (snd (ReceiveMessage has ords ordc p m cl)) = cl_closing cl"
  "cl_closing (snd (onDontHaveTimeout ords p ks cl)) = cl_closing cl"
  "cl_closing (cl_GetBlocks ks cl) = cl_closing cl"
  "sm_shut (cl_sm (snd (ReceiveMessage has ords ordc p m cl))) = sm_shut (cl_sm cl)"
  "sm_shut (cl_sm (snd (onDontHaveTimeout ords p ks cl))) = sm_shut (cl_sm cl)"
  "sm_shut (cl_sm (cl_GetBlocks ks cl)) = sm_shut (cl_sm cl)"
  by (simp_all add: ReceiveMessage_def receiveBlocksFrom_def updateReceiveCounters_def onDontHaveTimeout_def cl_GetBlocks_def
      split_beta Let_def)

lemma fixed_each: "(\<And>c nd. fixed (snd (f c nd)) = fixed nd) \<Longrightarrow> fixed (snd (each f cs nd)) = fixed nd"
  by (rule each_preserves [where P = "\<lambda>nd'. fixed nd' = fixed nd"]) simp_all

lemma fixed_calls [simp]:
  "fixed (snd (onPeersCall x nd)) = fixed nd" "fixed (snd (onClientCall env y nd)) = fixed nd"
  "fixed (snd (onManagerCalls env r nd)) = fixed (on_sm (\<lambda>_. snd r) nd)"
proof -
  show "fixed (snd (onPeersCall x nd)) = fixed nd"
    by (cases x) (simp_all add: sm_exec_def)
  show client: "fixed (snd (onClientCall env y nd)) = fixed nd" for y nd
    by (cases "(env, y, nd)" rule: onClientCall.cases) simp_all
  show "fixed (snd (onManagerCalls env r nd)) = fixed (on_sm (\<lambda>_. snd r) nd)"
    by (simp add: onManagerCalls_def fixed_each client)
qed

lemma fixed_session_calls [simp]: "fixed (snd (onSessionCall env i x nd)) = fixed nd"
  by (cases x) simp_all

lemma fixed_NotifyNewBlocks: "fixed (snd (snd (bs_NotifyNewBlocks env blks nd))) = fixed nd"
proof -
  have "cl_NotifyNewBlocks ids blks cl = Inr r \<Longrightarrow>
      blockReceivedNotifier (snd r) = blockReceivedNotifier cl \<and> cl_closing (snd r) = cl_closing cl \<and>
      sm_shut (cl_sm (snd r)) = sm_shut (cl_sm cl)" for ids cl r
    by (auto simp: cl_NotifyNewBlocks_def Let_def split_beta split: if_splits)
  then have "fixed (snd (snd (nd_client_NotifyNewBlocks env blks nd'))) = fixed nd'" for nd'
    by (fastforce simp: nd_client_NotifyNewBlocks_def fixed_each split_beta split: sum.splits)
  moreover have "srv_NotifyNewBlocks ord blks s = Inr r \<Longrightarrow> srv_closing (snd r) = srv_closing s" for ord s r
    by (auto simp: srv_NotifyNewBlocks_def Let_def split_beta split: if_splits)
  then have "fixed (snd (snd (nd_server_NotifyNewBlocks env blks nd'))) = fixed nd'" for nd'
    by (fastforce simp: nd_server_NotifyNewBlocks_def split_beta split: sum.splits)
  ultimately show ?thesis
    by (simp add: bs_NotifyNewBlocks_def split_beta Let_def)
qed

lemma fixed_step: "x \<noteq> NE_Close \<Longrightarrow> x \<noteq> NE_Teardown \<Longrightarrow> fixed (node_exec (env, x) nd) = fixed nd"
  by (cases x) (simp_all add: node_exec_def bs_ReceiveMessage_def nd_client_ReceiveMessage_def nd_server_ReceiveMessage_def
      bs_PeerConnected_def bs_PeerDisconnected_def nd_turn_def nd_DontHaveTimeout_def nd_taskWorker_def bs_WantlistForPeer_def
      fixed_NotifyNewBlocks fixed_each split_beta Let_def)

text \<open>The gates: publisher and session manager are shut only behind a closed client, and what is closed stays closed.\<close>

definition behind :: "node \<Rightarrow> bool" where
  "behind nd \<longleftrightarrow> (ps_closed (nd_notif nd) \<or> sm_shut (cl_sm (nd_client nd)) \<longrightarrow> cl_closing (nd_client nd))"

definition gates_ok :: "node \<Rightarrow> node \<Rightarrow> bool" where
  "gates_ok nd nd' \<longleftrightarrow> fst (fixed nd') = fst (fixed nd) \<and> blockReceivedNotifier (nd_client nd') = blockReceivedNotifier (nd_client nd) \<and>
     (cl_closing (nd_client nd) \<longrightarrow> cl_closing (nd_client nd')) \<and> (srv_closing (nd_server nd) \<longrightarrow> srv_closing (nd_server nd')) \<and>
     (behind nd \<longrightarrow> behind nd')"

lemma gates_step: "gates_ok nd (node_exec x nd)"
proof (cases x)
  case (Pair env y)
  have "gates_ok nd (bs_Close nd)"
    by (simp add: gates_ok_def bs_Close_def fixed_def behind_def)
  moreover have "gates_ok nd (snd (nd_teardown env nd))"
    using fixed_calls(3) [of env "sm_Shutdown (ne_ids env) (cl_sm (nd_client nd))" nd]
    by (auto simp: gates_ok_def nd_teardown_def fixed_def behind_def on_sm_def split_beta Let_def)
  moreover have "gates_ok nd (node_exec (env, y) nd)" if "y \<noteq> NE_Close" "y \<noteq> NE_Teardown"
    using fixed_step [OF that, of env nd] by (simp add: gates_ok_def fixed_def behind_def)
  ultimately show ?thesis
    by (cases "y = NE_Close \<or> y = NE_Teardown") (auto simp: Pair node_exec_def)
qed

lemma gates_run: "gates_ok nd (fold node_exec xs nd)"
proof (induction xs arbitrary: nd)
  case (Cons x xs)
  show ?case
    using Cons [of "node_exec x nd"] gates_step [of nd x] by (simp add: gates_ok_def)
qed (simp add: gates_ok_def)

section \<open>A received message\<close>

text \<open>What is seen of a node from outside: traces, published blocks, bytes credited to a peer.\<close>

definition traced :: "node_call list \<Rightarrow> trace list" where
  "traced out = concat (map (\<lambda>x. case x of ND_Trace t \<Rightarrow> [t] | _ \<Rightarrow> []) out)"

definition published :: "node_call list \<Rightarrow> block list" where
  "published out = concat (map (\<lambda>x. case x of ND_PubSub (PS_Pub b k) \<Rightarrow> [b] | _ \<Rightarrow> []) out)"

definition credited :: "node_call list \<Rightarrow> (peer \<times> nat) list" where
  "credited out = concat (map (\<lambda>x. case x of ND_Server (SRV_Engine (Score_AddToReceivedBytes p n)) \<Rightarrow> [(p, n)] | _ \<Rightarrow> []) out)"

lemma observed_append [simp]:
  "traced (xs @ ys) = traced xs @ traced ys" "published (xs @ ys) = published xs @ published ys"
  "credited (xs @ ys) = credited xs @ credited ys" "traced [] = []" "published [] = []" "credited [] = []"
  by (simp_all add: traced_def published_def credited_def)

lemma observed_trace [simp]:
  "traced (trace_received t p m) = (case t of None \<Rightarrow> [] | Some tr \<Rightarrow> tr_MessageReceived tr p m)"
  "published (trace_received t p m) = []" "credited (trace_received t p m) = []"
  by (auto simp: trace_received_def traced_def published_def credited_def concat_map_singleton comp_def split: option.splits)

lemma observed_pm [simp]:
  "traced (map ND_Peers cs) = []" "published (map ND_Peers cs) = []" "credited (map ND_Peers cs) = []"
  by (simp_all add: traced_def published_def credited_def comp_def)

lemma observed_pubsub [simp]:
  "traced (map ND_PubSub (Publish bs ps)) = []" "credited (map ND_PubSub (Publish bs ps)) = []"
  "published (map ND_PubSub (Publish bs ps)) = (if ps_closed ps then [] else bs)"
  by (simp_all add: traced_def published_def credited_def comp_def Publish_def)

lemma observed_server [simp]: "traced (map ND_Server cs) = []" "published (map ND_Server cs) = []"
  by (simp_all add: traced_def published_def comp_def)

lemma credited_received [simp]:
  assumes "engine_inv (srv_engine s)"
  shows "credited (map ND_Server (fst (srv_ReceivedBlocks p bs s))) = map (\<lambda>b. (p, length (RawData b))) bs"
proof -
  have "Partner (ledger_of p (srv_engine s)) = p"
    using ledger_of_ok [OF assms, of p] by (simp add: ledger_ok_def)
  then show ?thesis
    by (simp add: srv_ReceivedBlocks_def ReceivedBlocks_def findOrCreate_eq split_beta Let_def credited_def comp_def)
qed

lemma credited_message [simp]:
  assumes "go_range ord" "msg_inv m"
  shows "credited (map ND_Server (fst (srv_ReceiveMessage ord accept getSize p m s))) = []"
  by (auto simp: srv_ReceiveMessage_def split_beta Let_def MessageReceived_calls [OF assms] credited_def comp_def)

text \<open>The publishing of the wanted blocks, one at a time.\<close>

lemma each_publish:
  "each (onClientCall env) (map (\<lambda>b. CL_Publish [b]) bs) nd = (map ND_PubSub (Publish bs (nd_notif nd)), nd)"
  by (induction bs) (simp_all add: Publish_def)

definition wanted_of :: "string order \<Rightarrow> message \<Rightarrow> node \<Rightarrow> block list" where
  "wanted_of ord m nd =
     filter (\<lambda>b. \<exists>i. interest (sm_sim (cl_sm (nd_client nd))) (block_cid b) i = Some True) (Blocks ord m)"

lemma SplitWantedUnwanted_wanted:
  "fst (SplitWantedUnwanted blks m) = filter (\<lambda>b. \<exists>i. interest m (block_cid b) i = Some True) blks"
  by (auto simp: SplitWantedUnwanted_def wantedKs_iff intro!: filter_cong)

text \<open>The calls an open client makes for a message.\<close>

lemma ReceiveMessage_acts:
  assumes "\<not> cl_closing cl" "blockReceivedNotifier cl" "\<not> sm_shut (cl_sm cl)"
    "ws = fst (SplitWantedUnwanted (Blocks ordc m) (sm_sim (cl_sm cl)))"
  shows "fst (ReceiveMessage has ords ordc p m cl) =
    (if Blocks ordc m = [] \<and> Haves ordc m = [] \<and> DontHaves ordc m = [] then []
     else [CL_ResponseReceived p (map block_cid (Blocks ordc m) @ Haves ordc m @ DontHaves ordc m),
           CL_SessionManager (SM_SendCancels (map block_cid (Blocks ordc m))), CL_ReceivedBlocks p ws] @
          map (\<lambda>b. CL_Publish [b]) ws)"
  using assms
  by (auto simp: ReceiveMessage_def receiveBlocksFrom_def updateReceiveCounters_def sm_ReceiveFrom_def sm_shut_def
      split_beta Let_def split: option.splits)

lemma client_receives:
  assumes nd: "node_inv i c nd"
    and op: "\<not> cl_closing (nd_client nd)" "\<not> ps_closed (nd_notif nd)" "blockReceivedNotifier (nd_client nd)"
      "\<not> sm_shut (cl_sm (nd_client nd))"
    and r: "nd_client_ReceiveMessage env p m nd = (out, nd1)"
  shows "traced out = (case nd_client_tracer nd of None \<Rightarrow> [] | Some tr \<Rightarrow> tr_MessageReceived tr p m)"
    "published out = wanted_of (ne_ord env) m nd"
    "credited out = map (\<lambda>b. (p, length (RawData b))) (wanted_of (ne_ord env) m nd)"
    "Blocks (ne_ord env) m \<noteq> [] \<Longrightarrow> nd_pm nd1 = pm_SendCancels (ne_ord env) (map block_cid (Blocks (ne_ord env) m)) (nd_pm nd)"
  using r op node_invD(1) [OF nd]
  by (auto simp: nd_client_ReceiveMessage_def ReceiveMessage_acts [OF _ _ _ refl] each_publish on_server_def on_pm_def split_beta Let_def
      SplitWantedUnwanted_wanted wanted_of_def split: option.splits)

lemma cancelled_everywhere:
  assumes "go_range ord" "pm_inv s" "distinct ks" "k \<in> set ks"
  shows "k \<notin> peer_keys (pm_pwm (pm_SendCancels ord ks s)) q"
proof -
  have "ks \<noteq> []"
    using assms(4) by auto
  from sendCancels_state [OF assms(1) pm_invD(1) [OF assms(2)] assms(3) this] assms(4) show ?thesis
    by (auto simp: pm_SendCancels_def pm_apply_def peer_keys_def sent_sets fset_of_list_elem)
qed

lemma node_inv_client_receives:
  assumes "env_ranges env" "msg_inv m" "node_inv i c nd"
  shows "node_inv i c (snd (nd_client_ReceiveMessage env p m nd))"
  using node_inv_client_calls [OF assms(1) ReceiveMessage_calls_ok [OF _ assms(2)] node_inv_client [OF assms(3) ReceiveMessage_waits]]
    node_invD(3) [OF assms(3)] assms(1)
  by (simp add: nd_client_ReceiveMessage_def split_beta Let_def env_ranges_def)

lemma fixed_client_receives: "fixed (snd (nd_client_ReceiveMessage env p m nd)) = fixed nd"
  by (simp add: nd_client_ReceiveMessage_def fixed_each split_beta Let_def)

section \<open>Properties\<close>



text \<open>
  C2. A received message reaches both halves, once. On a node that is not closed, in any state
  it reaches: the user's tracer sees the message exactly once; exactly the blocks some session
  expects are published, each once and in order, and their sizes are credited to the
  sender; afterwards no peer is asked for any block of the message, neither
  by the want manager nor by what is in any message queue.
\<close>

theorem message_reaches_both_halves:
  assumes "list_all facade_option opts" "0 \<le> H" "bs_New H self opts = Inr (ns, cc, nd0)" "run_ok xs"
    and nd: "nd = fold node_exec xs nd0" "\<not> cl_closing (nd_client nd)"
    and msg: "env_ranges env" "msg_inv m" "bs_ReceiveMessage env p m nd = (out, nd')"
  shows "traced out = (case nd_tracer nd of None \<Rightarrow> [] | Some tr \<Rightarrow> tr_MessageReceived tr p m) \<and>
    published out = wanted_of (ne_ord env) m nd \<and>
    credited out = map (\<lambda>b. (p, length (RawData b))) (wanted_of (ne_ord env) m nd) \<and>
    (\<forall>b\<in>set (Blocks (ne_ord env) m). \<forall>q. block_cid b \<notin> peer_keys (pm_pwm (nd_pm nd')) q \<and>
       (\<forall>h. fmlookup (peerQueues (nd_pm nd')) q = Some h \<longrightarrow> block_cid b \<notin> mq_keys (pm_store (nd_pm nd') h)))"
proof -
  have fresh: "fresh_node ns cc nd0"
    using bs_New_fresh [OF assms(1,2), of self] assms(3) by auto
  obtain c where "list_all (\<lambda>(env, x). \<not> cancelling 0 c x) xs"
    using some_uncancelled by blast
  from node_run_inv [OF fresh assms(4) this] have inv: "node_inv 0 c nd"
    by (simp add: nd(1))
  have gates: "\<not> ps_closed (nd_notif nd)" "\<not> sm_shut (cl_sm (nd_client nd))" "blockReceivedNotifier (nd_client nd)"
      "nd_client_tracer nd = map_option NopReceiveTracer (nd_tracer nd)" "nd_server_tracer nd = map_option NopReceiveTracer (nd_tracer nd)"
    using gates_run [of nd0 xs] fresh nd
    by (auto simp: gates_ok_def fresh_node_def behind_def fixed_def ps_New_def sm_shut_def sm_New_def)
  obtain out1 nd1 where c: "nd_client_ReceiveMessage env p m nd = (out1, nd1)"
    by fastforce
  note C = client_receives [OF inv nd(2) gates(1,3,2) c]
  have inv1: "node_inv 0 c nd1"
    using node_inv_client_receives [OF msg(1,2) inv, of p] c by simp
  have tr1: "nd_server_tracer nd1 = nd_server_tracer nd"
    using fixed_client_receives [of env p m nd] c by (simp add: fixed_def)
  have out: "out = trace_received (nd_tracer nd) p m @ out1 @ fst (nd_server_ReceiveMessage env p m nd1)"
    and pm: "nd_pm nd' = nd_pm nd1"
    using msg(3) c by (auto simp: bs_ReceiveMessage_def nd_server_ReceiveMessage_def on_server_def split_beta Let_def)
  have "traced out1 = [] \<and> traced (fst (nd_server_ReceiveMessage env p m nd1)) = []"
    by (simp add: C(1) gates(4) nd_server_ReceiveMessage_def on_server_def split_beta Let_def tr1 gates(5) split: option.splits)
  moreover have "published (fst (nd_server_ReceiveMessage env p m nd1)) = [] \<and> credited (fst (nd_server_ReceiveMessage env p m nd1)) = []"
    using msg(1,2) by (simp add: nd_server_ReceiveMessage_def on_server_def split_beta Let_def env_ranges_def)
  moreover have "block_cid b \<notin> peer_keys (pm_pwm (nd_pm nd1)) q" if "b \<in> set (Blocks (ne_ord env) m)" for b q
  proof -
    have ord: "go_range (ne_ord env)" and "Blocks (ne_ord env) m \<noteq> []" "block_cid b \<in> set (map block_cid (Blocks (ne_ord env) m))"
      using that msg(1) by (auto simp: env_ranges_def)
    then show ?thesis
      using C(4) cancelled_everywhere [OF ord node_invD(2) [OF inv] Blocks_cids [OF ord msg(2)]] by simp
  qed
  ultimately show ?thesis
    using C(2,3) pm_invD(6) [OF node_invD(2) [OF inv1]] by (simp add: out pm)
qed

text \<open>
  C26. A closed node is quiet. Whatever happens to a node after it was closed, announcing new
  blocks gives the errors of both halves and changes nothing; a message that still arrives
  publishes nothing, credits nobody and leaves the sessions alone.
\<close>

theorem closed_node_refuses:
  assumes "nd = fold node_exec (xs @ (envc, NE_Close) # ys) old" "env_ranges env" "msg_inv m"
  shows "bs_NotifyNewBlocks env blks nd = ([Client_Closed, Server_Closed], [], nd) \<and>
    published (fst (bs_ReceiveMessage env p m nd)) = [] \<and> credited (fst (bs_ReceiveMessage env p m nd)) = [] \<and>
    cl_sm (nd_client (snd (bs_ReceiveMessage env p m nd))) = cl_sm (nd_client nd)"
proof -
  have closed: "cl_closing (nd_client nd)" "srv_closing (nd_server nd)"
    using gates_run [of "bs_Close (fold node_exec xs old)" ys] assms(1)
    by (simp_all add: gates_ok_def node_exec_def bs_Close_def)
  have "bs_NotifyNewBlocks env blks nd = ([Client_Closed, Server_Closed], [], nd)"
    using closed by (simp add: bs_NotifyNewBlocks_def nd_client_NotifyNewBlocks_def nd_server_NotifyNewBlocks_def
        cl_NotifyNewBlocks_def srv_NotifyNewBlocks_def)
  moreover have "fst (ReceiveMessage has ords ordc p m (nd_client nd)) = []"
      "cl_sm (snd (ReceiveMessage has ords ordc p m (nd_client nd))) = cl_sm (nd_client nd)" for has ords ordc
    using closed by (simp_all add: ReceiveMessage_def receiveBlocksFrom_def updateReceiveCounters_def Let_def)
  ultimately show ?thesis
    using assms(2,3) by (simp add: bs_ReceiveMessage_def nd_client_ReceiveMessage_def nd_server_ReceiveMessage_def on_server_def
        env_ranges_def split_beta Let_def)
qed

text \<open>
  The option \<open>HasBlockBufferSize\<close> has no effect: the channel for new blocks is made, with the
  default capacity, before the options are applied.
\<close>

theorem buffer_size_ignored:
  "\<exists>opt. so_HasBlockBufferSize 1000 = Inr opt \<and> sc_hasBlockBufferSize (ns_config (server_New [opt])) = 1000 \<and>
     ns_newBlocksCap (server_New [opt]) = 256"
  by (simp add: so_HasBlockBufferSize_def) (simp add: server_New_def server_defaults_def NewEngine_def split_beta Let_def)

section \<open>A node at work\<close>

definition example_options :: "bs_option list" where
  "example_options = [bs_ProvideEnabled False, bs_WithTracer (Tracer 7), bs_SetSendDontHaves True]"

definition example_node :: node where
  "example_node = (case bs_New 256 ''me'' example_options of Inr (ns, cc, nd) \<Rightarrow> nd)"

definition example_node_env :: node_env where
  "example_node_env = \<lparr>ne_ord = key_order, ne_ids = key_order, ne_has = (\<lambda>_. Some False), ne_accept = (\<lambda>_. True),
     ne_getSize = (\<lambda>_. None), ne_maxSize = 1000, ne_maxLatency = 60\<rparr>"

definition example_node_run :: "(node_env \<times> node_event) list" where
  "example_node_run = map (Pair example_node_env)
     [NE_Connected ''p'', NE_GetBlocks [''a''], NE_Turn 1 (T_Next 10), NE_QueueSend 11 ''p'']"

definition answer_msg :: message where
  "answer_msg = AddBlock \<lparr>block_cid = ''a'', RawData = [1, 2]\<rparr> (newMsg False)"

lemma example_options_facade: "list_all facade_option example_options"
  by (simp add: example_options_def facade_option.intros)

lemma example_node_New: "\<exists>ns cc. bs_New 256 ''me'' example_options = Inr (ns, cc, example_node)"
  using bs_New_fresh [OF example_options_facade, of 256 "''me''"] by (auto simp: example_node_def)

lemma example_run_ok: "run_ok example_node_run"
  by (simp add: run_ok_def example_node_run_def env_ranges_def example_node_env_def)

lemma answer_msg_inv: "msg_inv answer_msg"
  unfolding answer_msg_def by (intro inv_intros)



theorem message_reaches_both_halves_witness:
  "\<exists>out nd'. bs_ReceiveMessage example_node_env ''p'' answer_msg (fold node_exec example_node_run example_node) = (out, nd') \<and>
     traced out = [Trace_Received 7 ''p'' answer_msg] \<and> published out = [\<lparr>block_cid = ''a'', RawData = [1, 2]\<rparr>] \<and>
     credited out = [(''p'', 2)] \<and> ''a'' \<notin> peer_keys (pm_pwm (nd_pm nd')) ''p''"
proof -
  let ?nd = "fold node_exec example_node_run example_node" and ?b = "\<lparr>block_cid = ''a'', RawData = [1, 2]\<rparr> :: block"
  obtain ns cc where n: "bs_New 256 ''me'' example_options = Inr (ns, cc, example_node)"
    using example_node_New by blast
  obtain out nd' where r: "bs_ReceiveMessage example_node_env ''p'' answer_msg ?nd = (out, nd')"
    by fastforce
  have op: "\<not> cl_closing (nd_client ?nd)"
    by code_simp
  have "nd_tracer ?nd = Some (Tracer 7)"
    by code_simp
  moreover have "Blocks key_order answer_msg = [?b]"
    by code_simp
  moreover have "interest (sm_sim (cl_sm (nd_client ?nd))) ''a'' 1 = Some True"
    by code_simp
  then have "wanted_of key_order answer_msg ?nd = [?b]"
    using \<open>Blocks key_order answer_msg = [?b]\<close> by (auto simp: wanted_of_def)
  moreover have "ne_ord example_node_env = key_order"
    by (simp add: example_node_env_def)
  ultimately show ?thesis
    using message_reaches_both_halves [OF example_options_facade _ n example_run_ok refl op _ answer_msg_inv r] r
    by (auto simp: env_ranges_def example_node_env_def)
qed

theorem closed_node_refuses_witness:
  "published (fst (bs_ReceiveMessage example_node_env ''p'' answer_msg
     (fold node_exec (example_node_run @ [(example_node_env, NE_Close), (example_node_env, NE_Teardown)]) example_node))) = []"
  using closed_node_refuses [OF refl _ answer_msg_inv, where env = example_node_env and xs = example_node_run
      and envc = example_node_env and ys = "[(example_node_env, NE_Teardown)]" and old = example_node and p = "''p''"]
  by (simp add: env_ranges_def example_node_env_def)

end
