(* ===== verification/Virtual_Net.thy ===== *)
theory Virtual_Net
  imports Network Go_Runs "HOL-Library.Multiset"
begin

text \<open>
  The virtual network on which nodes are tested together (\<open>testnet/virtual.go\<close>, with the
  generators of delays and rate limits of \<open>testnet/\<close>). Every client has a receiver queue; a sent message
  waits in the queue of its addressee until its time has come, and one goroutine per queue
  that is not empty delivers.

  Times are nanoseconds. The delay generator and the rate limiters are third-party code: the
  latency drawn for a new pair, the limiter made for it and the delay a limiter
  imposes are arguments. \<open>sort.Sort\<close> is not stable: the order it gives is a parameter \<open>srt\<close> of which
  the locale \<open>go_sort\<close> says what is known. A goroutine that has taken a message
  off the queue and sleeps holds it in \<open>rq_held\<close>.
\<close>

section \<open>Sorting\<close>

locale go_sort =
  fixes key :: "'a \<Rightarrow> int" and srt :: "'a list \<Rightarrow> 'a list"
  assumes srt_mset: "mset (srt xs) = mset xs" and srt_sorted: "sorted (map key (srt xs))"
begin

lemma srt_length [simp]: "length (srt xs) = length xs"
  using srt_mset by (rule mset_eq_length)

lemma srt_empty [simp]: "srt xs = [] \<longleftrightarrow> xs = []"
  using srt_length [of xs] by (metis length_0_conv)

lemma srt_Nil [simp]: "srt [] = []"
  by simp

lemma srt_first:
  assumes "srt xs = x # ys"
  shows "mset xs = add_mset x (mset ys)" "y \<in> set xs \<Longrightarrow> key x \<le> key y" "sorted (map key ys)"
proof -
  show m: "mset xs = add_mset x (mset ys)"
    using srt_mset [of xs] assms by simp
  have "set xs = insert x (set ys)"
    using arg_cong [OF m, of set_mset] by simp
  then show "y \<in> set xs \<Longrightarrow> key x \<le> key y"
    using srt_sorted [of xs] assms by auto
  show "sorted (map key ys)"
    using srt_sorted [of xs] assms by simp
qed

end

section \<open>Copying a message\<close>

text \<open>Entries of the want list are pointers in Go and shared by the copy; here they are values.\<close>

definition copy_entries :: "'k order \<Rightarrow> ('k, 'v) fmap \<Rightarrow> ('k, 'v) fmap \<Rightarrow> ('k, 'v) fmap" where
  "copy_entries ord m target =
     fold (\<lambda>k t. case fmlookup m k of None \<Rightarrow> t | Some v \<Rightarrow> fmupd k v t) (ord (fmdom m)) target"

definition msg_Clone :: "cid order \<Rightarrow> message \<Rightarrow> message" where
  "msg_Clone ord m =
     (let msg = newMsg (m_full m);
          msg1 = msg\<lparr>m_wantlist := copy_entries ord (m_wantlist m) (m_wantlist msg)\<rparr>;
          msg2 = msg1\<lparr>m_blocks := copy_entries ord (m_blocks m) (m_blocks msg1)\<rparr>;
          msg3 = msg2\<lparr>m_presences := copy_entries ord (m_presences m) (m_presences msg2)\<rparr>
      in SetPendingBytes (m_pendingBytes m) msg3)"

lemma copy_entries_empty:
  assumes "go_range ord"
  shows "copy_entries ord m fmempty = m"
proof -
  have "fmlookup (fold (\<lambda>k t. case fmlookup m k of None \<Rightarrow> t | Some v \<Rightarrow> fmupd k v t) ks t) x =
      (if x \<in> set ks \<and> fmlookup m x \<noteq> None then fmlookup m x else fmlookup t x)" for ks t x
    by (induction ks arbitrary: t) (auto split: option.splits)
  then show ?thesis
    unfolding copy_entries_def by (intro fmap_eqI) (auto simp: go_range.ord_set [OF assms] fmlookup_dom_iff)
qed

text \<open>A copy is equal to the message it was made from, whatever the order in which the maps are copied.\<close>

theorem Clone_same: "go_range ord \<Longrightarrow> msg_Clone ord m = m"
  by (simp add: msg_Clone_def copy_entries_empty newMsg_def SetPendingBytes_def Let_def)

section \<open>State\<close>

record vmessage =
  vm_from :: peer
  vm_msg :: message
  shouldSend :: int

record vclient =
  rq_queue :: "vmessage list"
  rq_active :: bool
  rq_held :: "vmessage option"
  nc_supported :: "protocol list"
  nc_started :: bool
  nc_sent :: uint64
  nc_recvd :: uint64

datatype vn_call =
    VN_Receive peer vmessage
  | VN_PeerConnected peer peer
  | VN_PeerDisconnected peer peer

text \<open>
  \<open>vn_calls\<close> records what the receivers are told, in order; the first peer is the one that is told.
  \<open>vn_accepted\<close> and \<open>vn_delivered\<close> record the messages accepted for a peer and the messages delivered
  to it, with the time.
\<close>

record vnet =
  vn_latencies :: "(peer, (peer, int) fmap) fmap"
  vn_rateLimiters :: "(peer, (peer, nat) fmap) fmap"
  vn_clients :: "(peer, vclient) fmap"
  vn_isRateLimited :: bool
  vn_conns :: "string fset"
  vn_calls :: "vn_call list"
  vn_accepted :: "(peer \<times> vmessage) list"
  vn_delivered :: "(peer \<times> vmessage \<times> int) list"

definition VirtualNetwork :: vnet where
  "VirtualNetwork = \<lparr>vn_latencies = fmempty, vn_rateLimiters = fmempty, vn_clients = fmempty, vn_isRateLimited = False,
     vn_conns = {||}, vn_calls = [], vn_accepted = [], vn_delivered = []\<rparr>"

definition RateLimitedVirtualNetwork :: vnet where
  "RateLimitedVirtualNetwork = VirtualNetwork\<lparr>vn_isRateLimited := True\<rparr>"

datatype vn_error = Cannot_Locate_Peer | No_Such_Peer

section \<open>Clients\<close>

text \<open>
  The options are applied to settings with a slice of their own, at the address \<open>fresh\<close>. A prefix
  has no effect here. \<open>protos\<close> are the protocols the options leave.
\<close>

definition adapterProtocols :: "slice \<Rightarrow> net_opt list \<Rightarrow> slices \<Rightarrow> protocol list" where
  "adapterProtocols fresh opts sl =
     (let s = fold (\<lambda>opt s. opt s) opts \<lparr>ProtocolPrefix = [], SupportedProtocols = fresh\<rparr>;
          sl1 = sl(fresh := [ProtocolBitswap, ProtocolBitswapOneOne, ProtocolBitswapOneZero, ProtocolBitswapNoVers])
      in sl1 (SupportedProtocols s))"

definition Adapter :: "peer \<Rightarrow> protocol list \<Rightarrow> vnet \<Rightarrow> vnet" where
  "Adapter p protos n =
     n\<lparr>vn_clients := fmupd p \<lparr>rq_queue = [], rq_active = False, rq_held = None, nc_supported = protos, nc_started = False,
        nc_sent = 0, nc_recvd = 0\<rparr> (vn_clients n)\<rparr>"

definition net_HasPeer :: "peer \<Rightarrow> vnet \<Rightarrow> bool" where
  "net_HasPeer p n \<longleftrightarrow> fmlookup (vn_clients n) p \<noteq> None"

definition nc_Start :: "peer \<Rightarrow> vnet \<Rightarrow> vnet" where
  "nc_Start p n =
     (case fmlookup (vn_clients n) p of
        None \<Rightarrow> n
      | Some c \<Rightarrow> n\<lparr>vn_clients := fmupd p (c\<lparr>nc_started := True\<rparr>) (vn_clients n)\<rparr>)"

text \<open>What a client tells its receivers; before \<open>Start\<close> there are none.\<close>

definition tell :: "peer \<Rightarrow> vn_call \<Rightarrow> vnet \<Rightarrow> vnet" where
  "tell p call n =
     (case fmlookup (vn_clients n) p of
        None \<Rightarrow> n
      | Some c \<Rightarrow> if nc_started c then n\<lparr>vn_calls := vn_calls n @ [call]\<rparr> else n)"

definition oldProtos :: "protocol list" where
  "oldProtos = [ProtocolBitswapNoVers, ProtocolBitswapOneZero, ProtocolBitswapOneOne]"

text \<open>\<open>None\<close> is the dereference of a client that does not exist.\<close>

definition mp_SupportsHave :: "peer \<Rightarrow> vnet \<Rightarrow> bool option" where
  "mp_SupportsHave target n =
     map_option (\<lambda>c. list_ex (\<lambda>proto. proto \<notin> set oldProtos) (nc_supported c)) (fmlookup (vn_clients n) target)"

definition nc_Latency :: "peer \<Rightarrow> peer \<Rightarrow> vnet \<Rightarrow> int" where
  "nc_Latency local p n =
     (case fmlookup (vn_latencies n) local of
        None \<Rightarrow> 0
      | Some ls \<Rightarrow> (case fmlookup ls p of None \<Rightarrow> 0 | Some l \<Rightarrow> l))"

section \<open>Sending\<close>

definition enqueue :: "vmessage \<Rightarrow> vclient \<Rightarrow> vclient" where
  "enqueue m c = c\<lparr>rq_queue := rq_queue c @ [m], rq_active := True\<rparr>"

text \<open>The two look-ups with creation: the latency of a pair is drawn once, as is its rate limiter.\<close>

definition pairValue :: "peer \<Rightarrow> peer \<Rightarrow> 'v \<Rightarrow> (peer, (peer, 'v) fmap) fmap \<Rightarrow> 'v \<times> (peer, (peer, 'v) fmap) fmap" where
  "pairValue from to new m =
     (let (inner, m1) = (case fmlookup m from of None \<Rightarrow> (fmempty, fmupd from fmempty m) | Some i \<Rightarrow> (i, m))
      in case fmlookup inner to of
           Some v \<Rightarrow> (v, m1)
         | None \<Rightarrow> (new, fmupd from (fmupd to new inner) m1))"

text \<open>What the environment gives a send: the time, a fresh latency and limiter, and the delays of the limiters
  (which they compute from the size of the message), the encoding of keys and the orders of the maps.\<close>

record send_env =
  se_now :: int
  se_latency :: int
  se_limiter :: nat
  se_limit :: "nat \<Rightarrow> nat \<Rightarrow> int"
  se_lib :: cidlib
  se_ord :: "cid order"

definition net_SendMessage :: "send_env \<Rightarrow> peer \<Rightarrow> peer \<Rightarrow> message \<Rightarrow> vnet \<Rightarrow> vn_error option \<times> vnet" where
  "net_SendMessage env from to mes0 n =
     (let mes = msg_Clone (se_ord env) mes0;
          (latency, ls) = pairValue from to (se_latency env) (vn_latencies n);
          n1 = n\<lparr>vn_latencies := ls\<rparr>;
          (bandwidthDelay, n2) =
            (if vn_isRateLimited n1
             then let (rateLimiter, rl) = pairValue from to (se_limiter env) (vn_rateLimiters n1)
                  in (se_limit env rateLimiter (w_Size (w_of_pb (ToProtoV1 (se_lib env) (se_ord env) mes))), n1\<lparr>vn_rateLimiters := rl\<rparr>)
             else (0, n1))
      in case fmlookup (vn_clients n2) to of
           None \<Rightarrow> (Some Cannot_Locate_Peer, n2)
         | Some receiver \<Rightarrow>
             let m = \<lparr>vm_from = from, vm_msg = mes, shouldSend = se_now env + latency + bandwidthDelay\<rparr>
             in (None, n2\<lparr>vn_clients := fmupd to (enqueue m receiver) (vn_clients n2), vn_accepted := vn_accepted n2 @ [(to, m)]\<rparr>))"

definition nc_SendMessage :: "send_env \<Rightarrow> peer \<Rightarrow> peer \<Rightarrow> message \<Rightarrow> vnet \<Rightarrow> vn_error option \<times> vnet" where
  "nc_SendMessage env local to mes n =
     (case net_SendMessage env local to mes n of
        (Some err, n1) \<Rightarrow> (Some err, n1)
      | (None, n1) \<Rightarrow>
          (None, case fmlookup (vn_clients n1) local of
                   None \<Rightarrow> n1
                 | Some c \<Rightarrow> n1\<lparr>vn_clients := fmupd local (c\<lparr>nc_sent := nc_sent c + 1\<rparr>) (vn_clients n1)\<rparr>))"

section \<open>Delivering\<close>

text \<open>The goroutine of a queue: it takes the first message when it is almost due, else sleeps a while; a queue that is empty ends it.\<close>

definition rq_take :: "(vmessage list \<Rightarrow> vmessage list) \<Rightarrow> int \<Rightarrow> vclient \<Rightarrow> vclient option" where
  "rq_take srt now c =
     (if rq_active c \<and> rq_held c = None then
        case srt (rq_queue c) of
          [] \<Rightarrow> Some (c\<lparr>rq_active := False\<rparr>)
        | m # rest \<Rightarrow>
            if shouldSend m - now < 100000000 then Some (c\<lparr>rq_queue := rest, rq_held := Some m\<rparr>)
            else Some (c\<lparr>rq_queue := m # rest\<rparr>)
      else None)"

definition process_take :: "(vmessage list \<Rightarrow> vmessage list) \<Rightarrow> int \<Rightarrow> peer \<Rightarrow> vnet \<Rightarrow> vnet option" where
  "process_take srt now p n =
     (case fmlookup (vn_clients n) p of
        None \<Rightarrow> None
      | Some c \<Rightarrow> map_option (\<lambda>c'. n\<lparr>vn_clients := fmupd p c' (vn_clients n)\<rparr>) (rq_take srt now c))"

definition process_deliver :: "int \<Rightarrow> peer \<Rightarrow> vnet \<Rightarrow> vnet option" where
  "process_deliver now p n =
     (case fmlookup (vn_clients n) p of
        None \<Rightarrow> None
      | Some c \<Rightarrow>
          (case rq_held c of
             None \<Rightarrow> None
           | Some m \<Rightarrow>
               if now < shouldSend m then None
               else Some (tell p (VN_Receive p m)
                      (n\<lparr>vn_clients := fmupd p (c\<lparr>rq_held := None, nc_recvd := nc_recvd c + 1\<rparr>) (vn_clients n),
                         vn_delivered := vn_delivered n @ [(p, m, now)]\<rparr>))))"

section \<open>Connections\<close>

definition tagForPeers :: "peer \<Rightarrow> peer \<Rightarrow> string" where
  "tagForPeers a b = (if a < b then a @ b else b @ a)"

definition ConnectTo :: "peer \<Rightarrow> peer \<Rightarrow> vnet \<Rightarrow> vn_error option \<times> vnet" where
  "ConnectTo local p n =
     (if fmlookup (vn_clients n) p = None then (Some No_Such_Peer, n)
      else
        let tag = tagForPeers local p
        in if tag |\<in>| vn_conns n then (None, n)
           else (None, tell local (VN_PeerConnected local p) (tell p (VN_PeerConnected p local)
                   (n\<lparr>vn_conns := finsert tag (vn_conns n)\<rparr>))))"

definition DisconnectFrom :: "peer \<Rightarrow> peer \<Rightarrow> vnet \<Rightarrow> vn_error option \<times> vnet" where
  "DisconnectFrom local p n =
     (if fmlookup (vn_clients n) p = None then (Some No_Such_Peer, n)
      else
        let tag = tagForPeers local p
        in if tag |\<notin>| vn_conns n then (None, n)
           else (None, tell local (VN_PeerDisconnected local p) (tell p (VN_PeerDisconnected p local)
                   (n\<lparr>vn_conns := vn_conns n |-| {|tag|}\<rparr>))))"

section \<open>Generators\<close>

text \<open>The random numbers are arguments; floating-point numbers are exact fractions, and a conversion to a duration truncates.\<close>

definition fixed_NextRateLimit :: "rat \<Rightarrow> rat" where
  "fixed_NextRateLimit rateLimit = rateLimit"

definition variable_NextRateLimit :: "rat \<Rightarrow> rat \<Rightarrow> rat \<Rightarrow> rat" where
  "variable_NextRateLimit rateLimit std normFloat64 = normFloat64 * std + rateLimit"

record internetLatencyDelayGenerator =
  mediumDelay :: int
  largeDelay :: int
  percentLarge :: rat
  percentMedium :: rat
  ildg_std :: int

definition truncate_rat :: "rat \<Rightarrow> int" where
  "truncate_rat x = (if x < 0 then - \<lfloor>- x\<rfloor> else \<lfloor>x\<rfloor>)"

definition NextWaitTime :: "rat \<Rightarrow> rat \<Rightarrow> int \<Rightarrow> internetLatencyDelayGenerator \<Rightarrow> int" where
  "NextWaitTime clusterDistribution normFloat64 t d =
     (let baseDelay = truncate_rat (normFloat64 * of_int (ildg_std d)) + t
      in if clusterDistribution < percentLarge d then baseDelay + largeDelay d
         else if clusterDistribution < percentMedium d + percentLarge d then baseDelay + mediumDelay d
         else baseDelay)"

section \<open>Runs\<close>

text \<open>
  A test adds peers, each with an identifier of its own and started at once (as
  \<open>NewInstance\<close> of \<open>testinstance/testinstance.go\<close> does), and its peers connect, disconnect and send; the
  goroutines of the queues take and deliver.
\<close>

datatype vn_event =
    VE_Join peer "protocol list"
  | VE_Send send_env peer peer message
  | VE_Take int peer
  | VE_Deliver int peer
  | VE_Connect peer peer
  | VE_Disconnect peer peer

fun vn_step :: "(vmessage list \<Rightarrow> vmessage list) \<Rightarrow> vn_event \<Rightarrow> vnet \<Rightarrow> vnet option" where
  "vn_step srt (VE_Join p protos) n = (if net_HasPeer p n then None else Some (nc_Start p (Adapter p protos n)))"
| "vn_step srt (VE_Send env a b m) n = (if net_HasPeer a n then Some (snd (nc_SendMessage env a b m n)) else None)"
| "vn_step srt (VE_Take now p) n = process_take srt now p n"
| "vn_step srt (VE_Deliver now p) n = process_deliver now p n"
| "vn_step srt (VE_Connect a b) n = (if net_HasPeer a n then Some (snd (ConnectTo a b n)) else None)"
| "vn_step srt (VE_Disconnect a b) n = (if net_HasPeer a n then Some (snd (DisconnectFrom a b n)) else None)"

definition accepted_for :: "peer \<Rightarrow> vnet \<Rightarrow> vmessage list" where
  "accepted_for p n = map snd (filter (\<lambda>(q, m). q = p) (vn_accepted n))"

definition delivered_to :: "peer \<Rightarrow> vnet \<Rightarrow> vmessage list" where
  "delivered_to p n = map (\<lambda>(q, m, t). m) (filter (\<lambda>(q, m, t). q = p) (vn_delivered n))"

definition on_the_way :: "vclient \<Rightarrow> vmessage multiset" where
  "on_the_way c = mset (rq_queue c) + (case rq_held c of None \<Rightarrow> {#} | Some m \<Rightarrow> {#m#})"

text \<open>The messages of a client: every accepted one is on the way or delivered; a goroutine runs while any is on the way.\<close>

definition client_ok :: "vnet \<Rightarrow> peer \<Rightarrow> vclient \<Rightarrow> bool" where
  "client_ok n p c \<longleftrightarrow> mset (accepted_for p n) = on_the_way c + mset (delivered_to p n) \<and>
     (on_the_way c \<noteq> {#} \<longrightarrow> rq_active c) \<and> nc_recvd c = word_of_nat (length (delivered_to p n)) \<and> nc_started c"

definition received_calls :: "vn_call list \<Rightarrow> (peer \<times> vmessage) list" where
  "received_calls cs = concat (map (\<lambda>x. case x of VN_Receive p m \<Rightarrow> [(p, m)] | _ \<Rightarrow> []) cs)"

definition vn_inv :: "vnet \<Rightarrow> bool" where
  "vn_inv n \<longleftrightarrow> (\<forall>p c. fmlookup (vn_clients n) p = Some c \<longrightarrow> client_ok n p c) \<and>
     (\<forall>p. fmlookup (vn_clients n) p = None \<longrightarrow> accepted_for p n = [] \<and> delivered_to p n = []) \<and>
     (\<forall>(p, m, t)\<in>set (vn_delivered n). shouldSend m \<le> t) \<and>
     received_calls (vn_calls n) = map (\<lambda>(p, m, t). (p, m)) (vn_delivered n)"

section \<open>Lemmas\<close>

lemma tell_simps [simp]:
  "vn_clients (tell p x n) = vn_clients n" "vn_conns (tell p x n) = vn_conns n" "vn_accepted (tell p x n) = vn_accepted n"
  "vn_delivered (tell p x n) = vn_delivered n" "vn_latencies (tell p x n) = vn_latencies n"
  "vn_isRateLimited (tell p x n) = vn_isRateLimited n"
  by (simp_all add: tell_def split: option.splits)

lemma tell_calls:
  "fmlookup (vn_clients n) p = Some c \<Longrightarrow> nc_started c \<Longrightarrow> vn_calls (tell p x n) = vn_calls n @ [x]"
  by (simp add: tell_def)

lemma received_calls_append [simp]:
  "received_calls (xs @ ys) = received_calls xs @ received_calls ys" "received_calls [] = []"
  "received_calls [VN_Receive p m] = [(p, m)]" "received_calls [VN_PeerConnected a b] = []"
  "received_calls [VN_PeerDisconnected a b] = []"
  by (simp_all add: received_calls_def)

text \<open>A step that only changes the record of client \<open>p\<close>, and not what was accepted or delivered.\<close>

lemma vn_inv_client:
  assumes inv: "vn_inv n" and c: "fmlookup (vn_clients n) p = Some c"
    and c': "on_the_way c' = on_the_way c" "on_the_way c' \<noteq> {#} \<Longrightarrow> rq_active c'" "nc_recvd c' = nc_recvd c" "nc_started c' = nc_started c"
    and n': "vn_clients n' = fmupd p c' (vn_clients n)" "vn_accepted n' = vn_accepted n" "vn_delivered n' = vn_delivered n"
      "vn_calls n' = vn_calls n"
  shows "vn_inv n'"
  using inv c c' unfolding vn_inv_def client_ok_def accepted_for_def delivered_to_def n' by (auto split: if_splits)

lemma vn_inv_frame:
  assumes "vn_inv n" "vn_clients n' = vn_clients n" "vn_accepted n' = vn_accepted n" "vn_delivered n' = vn_delivered n"
    "received_calls (vn_calls n') = received_calls (vn_calls n)"
  shows "vn_inv n'"
  using assms by (simp add: vn_inv_def client_ok_def accepted_for_def delivered_to_def)

lemma vn_inv_start: "vn_inv VirtualNetwork" "vn_inv RateLimitedVirtualNetwork"
  by (simp_all add: vn_inv_def VirtualNetwork_def RateLimitedVirtualNetwork_def accepted_for_def delivered_to_def)

lemma vn_inv_join:
  assumes inv: "vn_inv n" and p: "\<not> net_HasPeer p n"
  shows "vn_inv (nc_Start p (Adapter p protos n))"
proof -
  let ?n = "nc_Start p (Adapter p protos n)"
  have frame: "accepted_for q ?n = accepted_for q n" "delivered_to q ?n = delivered_to q n" for q
    by (simp_all add: nc_Start_def Adapter_def accepted_for_def delivered_to_def)
  have "accepted_for p n = []" "delivered_to p n = []"
    using inv p by (auto simp: vn_inv_def net_HasPeer_def)
  then show ?thesis
    using inv unfolding vn_inv_def client_ok_def frame
    by (auto simp: nc_Start_def Adapter_def on_the_way_def split: if_splits)
qed

lemma vn_inv_accept:
  assumes inv: "vn_inv n" and c: "fmlookup (vn_clients n) p = Some c"
    and n': "vn_clients n' = fmupd p (enqueue m c) (vn_clients n)" "vn_accepted n' = vn_accepted n @ [(p, m)]"
      "vn_delivered n' = vn_delivered n" "vn_calls n' = vn_calls n"
  shows "vn_inv n'"
proof -
  have "on_the_way (enqueue m c) = add_mset m (on_the_way c)"
    by (simp add: on_the_way_def enqueue_def)
  then show ?thesis
    using inv c unfolding vn_inv_def client_ok_def accepted_for_def delivered_to_def n'
    by (auto simp: enqueue_def split: if_splits)
qed

lemma net_SendMessage_cases:
  obtains l ls rl where "net_SendMessage env a b m n =
      (case fmlookup (vn_clients n) b of
         None \<Rightarrow> (Some Cannot_Locate_Peer, n\<lparr>vn_latencies := ls, vn_rateLimiters := rl\<rparr>)
       | Some c \<Rightarrow> (None, n\<lparr>vn_latencies := ls, vn_rateLimiters := rl,
           vn_clients := fmupd b (enqueue \<lparr>vm_from = a, vm_msg = msg_Clone (se_ord env) m, shouldSend = l\<rparr> c) (vn_clients n),
           vn_accepted := vn_accepted n @ [(b, \<lparr>vm_from = a, vm_msg = msg_Clone (se_ord env) m, shouldSend = l\<rparr>)]\<rparr>))"
    "ls = snd (pairValue a b (se_latency env) (vn_latencies n))"
    "\<not> vn_isRateLimited n \<Longrightarrow> l = se_now env + fst (pairValue a b (se_latency env) (vn_latencies n))"
proof (cases "vn_isRateLimited n")
  case True
  show ?thesis
    by (rule that [where rl = "snd (pairValue a b (se_limiter env) (vn_rateLimiters n))" and l = "se_now env +
        fst (pairValue a b (se_latency env) (vn_latencies n)) + se_limit env (fst (pairValue a b (se_limiter env) (vn_rateLimiters n)))
        (w_Size (w_of_pb (ToProtoV1 (se_lib env) (se_ord env) (msg_Clone (se_ord env) m))))"])
      (use True in \<open>simp_all add: net_SendMessage_def split_beta Let_def split: option.splits\<close>)
next
  case False
  show ?thesis
    by (rule that [where rl = "vn_rateLimiters n" and l = "se_now env + fst (pairValue a b (se_latency env) (vn_latencies n))"])
      (use False in \<open>simp_all add: net_SendMessage_def split_beta Let_def split: option.splits\<close>)
qed

lemma vn_inv_counted:
  assumes "vn_inv n" "fmlookup (vn_clients n) p = Some c"
  shows "vn_inv (n\<lparr>vn_clients := fmupd p (c\<lparr>nc_sent := k\<rparr>) (vn_clients n)\<rparr>)"
  using assms by (intro vn_inv_client [OF assms]) (auto simp: vn_inv_def client_ok_def on_the_way_def)

lemma vn_inv_send:
  assumes inv: "vn_inv n"
  shows "vn_inv (snd (nc_SendMessage env a b m n))"
proof -
  obtain l ls rl where s: "net_SendMessage env a b m n =
      (case fmlookup (vn_clients n) b of
         None \<Rightarrow> (Some Cannot_Locate_Peer, n\<lparr>vn_latencies := ls, vn_rateLimiters := rl\<rparr>)
       | Some c \<Rightarrow> (None, n\<lparr>vn_latencies := ls, vn_rateLimiters := rl,
           vn_clients := fmupd b (enqueue \<lparr>vm_from = a, vm_msg = msg_Clone (se_ord env) m, shouldSend = l\<rparr> c) (vn_clients n),
           vn_accepted := vn_accepted n @ [(b, \<lparr>vm_from = a, vm_msg = msg_Clone (se_ord env) m, shouldSend = l\<rparr>)]\<rparr>))"
    by (rule net_SendMessage_cases)
  show ?thesis
  proof (cases "fmlookup (vn_clients n) b")
    case None
    then show ?thesis
      using inv by (auto simp: nc_SendMessage_def s intro: vn_inv_frame)
  next
    case (Some c)
    let ?n = "snd (net_SendMessage env a b m n)"
    have "vn_inv ?n"
      by (rule vn_inv_accept [OF inv Some]) (simp_all add: s Some)
    then show ?thesis
      using vn_inv_counted [of ?n a] by (auto simp: nc_SendMessage_def s Some split: option.splits)
  qed
qed

lemma vn_inv_connect:
  assumes inv: "vn_inv n" and a: "net_HasPeer a n"
  shows "vn_inv (snd (ConnectTo a b n))" "vn_inv (snd (DisconnectFrom a b n))"
proof -
  have started: "nc_started c" if "fmlookup (vn_clients n) p = Some c" for p c
    using that inv by (auto simp: vn_inv_def client_ok_def)
  have "received_calls (vn_calls (tell a x (tell b y (n\<lparr>vn_conns := cs\<rparr>)))) = received_calls (vn_calls n)"
    if "received_calls [x] = []" "received_calls [y] = []" for x y cs
    using that by (auto simp: tell_def split: option.splits)
  then show "vn_inv (snd (ConnectTo a b n))" "vn_inv (snd (DisconnectFrom a b n))"
    using inv by (auto simp: ConnectTo_def DisconnectFrom_def Let_def intro!: vn_inv_frame [OF inv])
qed

lemma vn_inv_deliver:
  assumes inv: "vn_inv n" and d: "process_deliver now p n = Some n'"
  shows "vn_inv n'"
proof -
  obtain c m where c: "fmlookup (vn_clients n) p = Some c" "rq_held c = Some m" "shouldSend m \<le> now"
      and n': "n' = tell p (VN_Receive p m) (n\<lparr>vn_clients := fmupd p (c\<lparr>rq_held := None, nc_recvd := nc_recvd c + 1\<rparr>) (vn_clients n),
         vn_delivered := vn_delivered n @ [(p, m, now)]\<rparr>)"
    using d by (auto simp: process_deliver_def split: option.splits if_splits)
  have ok: "client_ok n p c"
    using inv c(1) by (simp add: vn_inv_def)
  then have calls: "vn_calls n' = vn_calls n @ [VN_Receive p m]"
    unfolding n' by (subst tell_calls) (auto simp: client_ok_def)
  have way: "on_the_way c = add_mset m (on_the_way (c\<lparr>rq_held := None, nc_recvd := k\<rparr>))" for k
    using c(2) by (simp add: on_the_way_def)
  have D: "delivered_to q n' = delivered_to q n @ (if q = p then [m] else [])" "accepted_for q n' = accepted_for q n" for q
    by (simp_all add: n' delivered_to_def accepted_for_def)
  have "client_ok n' p (c\<lparr>rq_held := None, nc_recvd := nc_recvd c + 1\<rparr>)"
    using ok way c(2) by (auto simp: client_ok_def D)
  moreover have "client_ok n' q x" if "q \<noteq> p" "fmlookup (vn_clients n) q = Some x" for q x
    using inv that by (simp add: vn_inv_def client_ok_def D)
  ultimately show ?thesis
    using inv c calls by (auto simp: vn_inv_def D) (auto simp: n' split: if_splits)
qed


section \<open>The network with some way of sorting\<close>

locale virtual_net = go_sort shouldSend srt for srt :: "vmessage list \<Rightarrow> vmessage list"
begin

lemma take_client:
  assumes "rq_take srt now c = Some c'"
  shows "on_the_way c' = on_the_way c" "on_the_way c' \<noteq> {#} \<Longrightarrow> rq_active c'" "nc_recvd c' = nc_recvd c" "nc_started c' = nc_started c"
proof -
  have r: "rq_active c" "rq_held c = None"
    using assms by (auto simp: rq_take_def split: if_splits)
  have "on_the_way c' = on_the_way c \<and> (on_the_way c' \<noteq> {#} \<longrightarrow> rq_active c') \<and> nc_recvd c' = nc_recvd c \<and> nc_started c' = nc_started c"
  proof (cases "srt (rq_queue c)")
    case Nil
    then show ?thesis
      using assms r by (auto simp: rq_take_def on_the_way_def)
  next
    case (Cons m rest)
    then show ?thesis
      using assms r srt_first(1) [OF Cons] by (auto simp: rq_take_def on_the_way_def split: if_splits)
  qed
  then show "on_the_way c' = on_the_way c" "on_the_way c' \<noteq> {#} \<Longrightarrow> rq_active c'" "nc_recvd c' = nc_recvd c" "nc_started c' = nc_started c"
    by simp_all
qed

lemma vn_inv_take:
  assumes "vn_inv n" "process_take srt now p n = Some n'"
  shows "vn_inv n'"
proof -
  obtain c c' where c: "fmlookup (vn_clients n) p = Some c" "rq_take srt now c = Some c'" "n' = n\<lparr>vn_clients := fmupd p c' (vn_clients n)\<rparr>"
    using assms(2) by (auto simp: process_take_def split: option.splits)
  show ?thesis
    by (rule vn_inv_client [OF assms(1) c(1) take_client [OF c(2)]]) (simp_all add: c(3))
qed

lemma vn_inv_step: "vn_inv n \<Longrightarrow> vn_step srt x n = Some n' \<Longrightarrow> vn_inv n'"
  by (cases x) (auto simp: vn_inv_join vn_inv_send vn_inv_connect split: if_splits dest: vn_inv_take vn_inv_deliver)

end

sublocale virtual_net \<subseteq> runs: event_system "vn_step srt" vn_inv
  by unfold_locales (rule vn_inv_step)

interpretation time_sort: virtual_net "sort_key shouldSend"
  by unfold_locales simp_all

text \<open>The goroutine of a queue that nobody sends to any more, late enough: every message in turn, by its time.\<close>

definition drain :: "int \<Rightarrow> peer \<Rightarrow> vclient \<Rightarrow> vn_event list" where
  "drain now p c = (if rq_held c = None then [] else [VE_Deliver now p]) @
     concat (replicate (length (rq_queue c)) [VE_Take now p, VE_Deliver now p]) @ [VE_Take now p]"

context virtual_net
begin

lemma drain_queue:
  assumes "fmlookup (vn_clients n) p = Some c" "rq_active c" "rq_held c = None" "\<forall>m\<in>set (rq_queue c). shouldSend m \<le> now"
    "length (rq_queue c) = k"
  shows "\<exists>n' c' ms. run_events (vn_step srt) (concat (replicate k [VE_Take now p, VE_Deliver now p]) @ [VE_Take now p]) n = Some n' \<and>
    fmlookup (vn_clients n') p = Some c' \<and> on_the_way c' = {#} \<and> \<not> rq_active c' \<and>
    delivered_to p n' = delivered_to p n @ ms \<and> mset ms = mset (rq_queue c) \<and> sorted (map shouldSend ms)"
  using assms
proof (induction k arbitrary: n c)
  case 0
  then have "process_take srt now p n = Some (n\<lparr>vn_clients := fmupd p (c\<lparr>rq_active := False\<rparr>) (vn_clients n)\<rparr>)"
    by (simp add: process_take_def rq_take_def)
  then show ?case
    using 0 by (intro exI [of _ "n\<lparr>vn_clients := fmupd p (c\<lparr>rq_active := False\<rparr>) (vn_clients n)\<rparr>"] exI [of _ "c\<lparr>rq_active := False\<rparr>"] exI [of _ "[]"])
      (simp add: on_the_way_def delivered_to_def)
next
  case (Suc k)
  then obtain m rest where s: "srt (rq_queue c) = m # rest"
    by (cases "srt (rq_queue c)") auto
  note F = srt_first [OF s]
  have "m \<in> set (rq_queue c)"
    using arg_cong [OF F(1), of set_mset] by simp
  then have m: "shouldSend m \<le> now"
    using Suc.prems(4) by simp
  let ?c1 = "c\<lparr>rq_queue := rest, rq_held := Some m\<rparr>"
  let ?n1 = "n\<lparr>vn_clients := fmupd p ?c1 (vn_clients n)\<rparr>"
  let ?c2 = "?c1\<lparr>rq_held := None, nc_recvd := nc_recvd c + 1\<rparr>"
  have step1: "process_take srt now p n = Some ?n1"
    using Suc.prems s m by (simp add: process_take_def rq_take_def)
  obtain n2 where step2: "process_deliver now p ?n1 = Some n2" and n2: "fmlookup (vn_clients n2) p = Some ?c2"
      "delivered_to p n2 = delivered_to p n @ [m]"
    using m by (auto simp: process_deliver_def delivered_to_def)
  have rest: "set rest \<subseteq> set (rq_queue c)" "length rest = k"
    using arg_cong [OF F(1), of set_mset] arg_cong [OF F(1), of size] Suc.prems(5) by auto
  have "\<forall>m\<in>set (rq_queue ?c2). shouldSend m \<le> now"
    using Suc.prems(4) rest(1) by auto
  from Suc.IH [OF n2(1) _ _ this] obtain n' c' ms where ih: "run_events (vn_step srt) (concat (replicate k [VE_Take now p, VE_Deliver now p]) @ [VE_Take now p]) n2 = Some n'"
      "fmlookup (vn_clients n') p = Some c'" "on_the_way c' = {#}" "\<not> rq_active c'"
      "delivered_to p n' = delivered_to p n2 @ ms" "mset ms = mset rest" "sorted (map shouldSend ms)"
    using Suc.prems(2) rest(2) by auto
  have "set ms \<subseteq> set (rq_queue c)"
    using rest(1) ih(6) by (metis set_mset_mset)
  then have "sorted (map shouldSend (m # ms))"
    using ih(7) F(2) by auto
  then show ?case
    using ih step1 step2 n2(2) F(1)
    by (intro exI [of _ n'] exI [of _ c'] exI [of _ "m # ms"]) simp
qed

end

section \<open>Order\<close>

definition from_peer :: "peer \<Rightarrow> vmessage list \<Rightarrow> vmessage list" where
  "from_peer f ms = filter (\<lambda>m. vm_from m = f) ms"

definition lookup2 :: "(peer, (peer, 'v) fmap) fmap \<Rightarrow> peer \<Rightarrow> peer \<Rightarrow> 'v option" where
  "lookup2 m a b = (case fmlookup m a of None \<Rightarrow> None | Some i \<Rightarrow> fmlookup i b)"

lemma pairValue_lookup:
  "fst (pairValue a b v m) = (case lookup2 m a b of None \<Rightarrow> v | Some w \<Rightarrow> w)"
  "lookup2 (snd (pairValue a b v m)) x y = (if x = a \<and> y = b then Some (fst (pairValue a b v m)) else lookup2 m x y)"
  by (auto simp: pairValue_def lookup2_def Let_def split: option.splits prod.splits)

text \<open>
  One pair of peers. \<open>T\<close> is the time of the last send: no message of the pair is due later than
  its latency after \<open>T\<close>.
\<close>

definition pair_ok :: "int \<Rightarrow> vnet \<Rightarrow> peer \<Rightarrow> vclient \<Rightarrow> peer \<Rightarrow> bool" where
  "pair_ok T n p c f \<longleftrightarrow>
     sorted (map shouldSend (from_peer f (delivered_to p n))) \<and> sorted (map shouldSend (from_peer f (accepted_for p n))) \<and>
     (\<forall>d\<in>set (from_peer f (delivered_to p n)). \<forall>w\<in>#on_the_way c. vm_from w = f \<longrightarrow> shouldSend d \<le> shouldSend w) \<and>
     (\<forall>h. rq_held c = Some h \<and> vm_from h = f \<longrightarrow> (\<forall>q\<in>set (rq_queue c). vm_from q = f \<longrightarrow> shouldSend h \<le> shouldSend q)) \<and>
     (\<forall>m\<in>set (accepted_for p n). vm_from m = f \<longrightarrow> (\<exists>l. lookup2 (vn_latencies n) f p = Some l \<and> shouldSend m \<le> T + l))"

definition fifo :: "int \<Rightarrow> vnet \<Rightarrow> bool" where
  "fifo T n \<longleftrightarrow> vn_inv n \<and> \<not> vn_isRateLimited n \<and> (\<forall>p c f. fmlookup (vn_clients n) p = Some c \<longrightarrow> pair_ok T n p c f)"

lemma fifoD: "fifo T n \<Longrightarrow> fmlookup (vn_clients n) p = Some c \<Longrightarrow> pair_ok T n p c f"
  by (simp add: fifo_def)

text \<open>All of a pair is due by its bound, whether delivered or on the way.\<close>

lemma pair_bound:
  assumes "vn_inv n" "fmlookup (vn_clients n) p = Some c" "pair_ok T n p c f" "m \<in># on_the_way c + mset (delivered_to p n)" "vm_from m = f"
  shows "\<exists>l. lookup2 (vn_latencies n) f p = Some l \<and> shouldSend m \<le> T + l"
proof -
  have "mset (accepted_for p n) = on_the_way c + mset (delivered_to p n)"
    using assms(1,2) by (auto simp: vn_inv_def client_ok_def)
  then have "m \<in> set (accepted_for p n)"
    using assms(4) by (metis set_mset_mset)
  then show ?thesis
    using assms(3,5) by (auto simp: pair_ok_def)
qed

lemma pair_ok_frame:
  assumes "pair_ok T n p c f" "T \<le> T'" "accepted_for p n' = accepted_for p n" "delivered_to p n' = delivered_to p n"
    and "\<And>l. lookup2 (vn_latencies n) f p = Some l \<Longrightarrow> lookup2 (vn_latencies n') f p = Some l"
    and "rq_queue c' = rq_queue c" "rq_held c' = rq_held c"
  shows "pair_ok T' n' p c' f"
  using assms by (fastforce simp: pair_ok_def on_the_way_def)

lemma pair_ok_deliver:
  assumes "pair_ok T n p c f" "rq_held c = Some m" "accepted_for p n' = accepted_for p n" "delivered_to p n' = delivered_to p n @ [m]"
    "vn_latencies n' = vn_latencies n"
  shows "pair_ok T n' p (c\<lparr>rq_held := None, nc_recvd := k\<rparr>) f"
  using assms by (auto simp: pair_ok_def on_the_way_def from_peer_def sorted_append)

context virtual_net
begin

lemma pair_ok_take:
  assumes ok: "pair_ok T n p c f" and t: "rq_take srt now c = Some c'"
    and n': "accepted_for p n' = accepted_for p n" "delivered_to p n' = delivered_to p n" "vn_latencies n' = vn_latencies n"
  shows "pair_ok T n' p c' f"
proof -
  have "shouldSend h \<le> shouldSend q" if "rq_held c' = Some h" "q \<in> set (rq_queue c')" for h q
  proof (cases "srt (rq_queue c)")
    case (Cons m rest)
    then have "h = m" "rq_queue c' = rest"
      using t that(1) by (auto simp: rq_take_def split: if_splits)
    moreover have "set rest \<subseteq> set (rq_queue c)"
      by (metis srt_first(1) [OF Cons] set_mset_mset set_mset_add_mset_insert subset_insertI)
    ultimately show ?thesis
      using that(2) srt_first(2) [OF Cons, of q] by auto
  qed (use t that in \<open>auto simp: rq_take_def split: if_splits\<close>)
  then show ?thesis
    using ok take_client(1) [OF t] by (auto simp: pair_ok_def n')
qed

end

lemma pair_ok_accept:
  assumes inv: "vn_inv n" "fmlookup (vn_clients n) p = Some c" and ok: "pair_ok T n p c f" and T: "T \<le> now"
    and lat: "\<And>l. lookup2 (vn_latencies n) f p = Some l \<Longrightarrow> lookup2 (vn_latencies n') f p = Some l"
      "lookup2 (vn_latencies n') (vm_from m) p = Some k" "shouldSend m = now + k"
    and n': "accepted_for p n' = accepted_for p n @ [m]" "delivered_to p n' = delivered_to p n"
    and c': "rq_queue c' = rq_queue c @ [m]" "rq_held c' = rq_held c"
  shows "pair_ok now n' p c' f"
proof -
  have late: "shouldSend w \<le> shouldSend m" if "w \<in># on_the_way c + mset (delivered_to p n)" "vm_from w = f" "vm_from m = f" for w
    using pair_bound [OF inv ok that(1,2)] lat T that(3) by fastforce
  have acc: "set (accepted_for p n) = set_mset (on_the_way c + mset (delivered_to p n))"
    using inv by (metis (no_types, lifting) vn_inv_def client_ok_def set_mset_mset)
  have "sorted (map shouldSend (from_peer f (accepted_for p n @ [m])))"
    using ok late acc by (auto simp: pair_ok_def from_peer_def sorted_append)
  moreover have "shouldSend d \<le> shouldSend w" if "d \<in> set (from_peer f (delivered_to p n))" "w \<in># on_the_way c'" "vm_from w = f" for d w
    using that ok late c' by (auto simp: pair_ok_def from_peer_def on_the_way_def split: option.splits)
  moreover have "shouldSend h \<le> shouldSend q" if "rq_held c' = Some h" "vm_from h = f" "q \<in> set (rq_queue c')" "vm_from q = f" for h q
    using that ok late c' by (auto simp: pair_ok_def on_the_way_def)
  moreover have "\<exists>l. lookup2 (vn_latencies n') f p = Some l \<and> shouldSend x \<le> now + l" if "x \<in> set (accepted_for p n @ [m])" "vm_from x = f" for x
    using that ok lat T by (fastforce simp: pair_ok_def)
  ultimately show ?thesis
    using ok by (simp add: pair_ok_def n')
qed

lemma fifo_send:
  assumes fifo: "fifo T n" and T: "T \<le> se_now env"
  shows "fifo (se_now env) (snd (nc_SendMessage env a b m n))"
proof -
  have inv: "vn_inv n" and lim: "\<not> vn_isRateLimited n"
    using fifo by (simp_all add: fifo_def)
  let ?n = "snd (nc_SendMessage env a b m n)"
  obtain l ls rl where s: "net_SendMessage env a b m n =
      (case fmlookup (vn_clients n) b of
         None \<Rightarrow> (Some Cannot_Locate_Peer, n\<lparr>vn_latencies := ls, vn_rateLimiters := rl\<rparr>)
       | Some c \<Rightarrow> (None, n\<lparr>vn_latencies := ls, vn_rateLimiters := rl,
           vn_clients := fmupd b (enqueue \<lparr>vm_from = a, vm_msg = msg_Clone (se_ord env) m, shouldSend = l\<rparr> c) (vn_clients n),
           vn_accepted := vn_accepted n @ [(b, \<lparr>vm_from = a, vm_msg = msg_Clone (se_ord env) m, shouldSend = l\<rparr>)]\<rparr>))"
      and ls: "ls = snd (pairValue a b (se_latency env) (vn_latencies n))"
        "l = se_now env + fst (pairValue a b (se_latency env) (vn_latencies n))"
    by (rule net_SendMessage_cases) (use lim in blast)
  let ?m = "\<lparr>vm_from = a, vm_msg = msg_Clone (se_ord env) m, shouldSend = l\<rparr>"
  have lats: "vn_latencies ?n = ls" "vn_isRateLimited ?n = vn_isRateLimited n"
    by (auto simp: nc_SendMessage_def s split: option.splits)
  have keep: "lookup2 ls x y = Some k" if "lookup2 (vn_latencies n) x y = Some k" for x y k
    using that by (auto simp: ls pairValue_lookup)
  have "pair_ok (se_now env) ?n p c f" if c: "fmlookup (vn_clients ?n) p = Some c" for p c f
  proof (cases "p = b \<and> net_HasPeer b n")
    case True
    then obtain c0 where c0: "fmlookup (vn_clients n) p = Some c0"
      by (auto simp: net_HasPeer_def)
    have "rq_queue c = rq_queue c0 @ [?m]" "rq_held c = rq_held c0"
      using c c0 True by (auto simp: nc_SendMessage_def s enqueue_def split: option.splits if_splits)
    moreover have "accepted_for p ?n = accepted_for p n @ [?m]" "delivered_to p ?n = delivered_to p n"
      using c0 True by (auto simp: nc_SendMessage_def s accepted_for_def delivered_to_def split: option.splits)
    moreover have "lookup2 ls a p = Some (fst (pairValue a b (se_latency env) (vn_latencies n)))"
      using True by (simp add: ls pairValue_lookup)
    ultimately show ?thesis
      using pair_ok_accept [OF inv c0 fifoD [OF fifo c0, of f] T, where m = ?m and n' = ?n and c' = c] keep by (simp add: lats ls(2))
  next
    case False
    then obtain c0 where c0: "fmlookup (vn_clients n) p = Some c0" "rq_queue c = rq_queue c0" "rq_held c = rq_held c0"
      using c by (auto simp: nc_SendMessage_def s net_HasPeer_def enqueue_def split: option.splits if_splits)
    have "accepted_for p ?n = accepted_for p n" "delivered_to p ?n = delivered_to p n"
      using False by (auto simp: nc_SendMessage_def s accepted_for_def delivered_to_def net_HasPeer_def split: option.splits)
    then show ?thesis
      using pair_ok_frame [OF fifoD [OF fifo c0(1), of f] T, of ?n c] keep c0 by (simp add: lats)
  qed
  then show ?thesis
    using vn_inv_send [OF inv] lim by (simp add: fifo_def lats)
qed

fun send_times :: "vn_event list \<Rightarrow> int list" where
  "send_times [] = []"
| "send_times (VE_Send env a b m # xs) = se_now env # send_times xs"
| "send_times (_ # xs) = send_times xs"

lemma fifo_start: "fifo T VirtualNetwork"
  using vn_inv_start(1) by (simp add: fifo_def VirtualNetwork_def)

lemma fifo_join:
  assumes "fifo T n" "\<not> net_HasPeer p n"
  shows "fifo T (nc_Start p (Adapter p protos n))"
proof -
  let ?n = "nc_Start p (Adapter p protos n)"
  have frame: "accepted_for q ?n = accepted_for q n" "delivered_to q ?n = delivered_to q n" "vn_latencies ?n = vn_latencies n"
      "vn_isRateLimited ?n = vn_isRateLimited n" for q
    by (simp_all add: nc_Start_def Adapter_def accepted_for_def delivered_to_def)
  have empty: "accepted_for p n = []" "delivered_to p n = []"
    using assms by (auto simp: fifo_def vn_inv_def net_HasPeer_def)
  have "pair_ok T ?n q c f" if "fmlookup (vn_clients ?n) q = Some c" for q c f
  proof (cases "q = p")
    case True
    then have "rq_queue c = []" "rq_held c = None"
      using that by (auto simp: nc_Start_def Adapter_def)
    then show ?thesis
      using True empty by (simp add: pair_ok_def frame from_peer_def)
  next
    case False
    then have "fmlookup (vn_clients n) q = Some c"
      using that by (simp add: nc_Start_def Adapter_def)
    then show ?thesis
      using pair_ok_frame [where n' = ?n and c' = c, OF fifoD [OF assms(1)]] by (simp add: frame)
  qed
  then show ?thesis
    using vn_inv_join assms frame by (simp add: fifo_def)
qed

lemma fifo_same:
  assumes "fifo T n" "vn_inv n'" "vn_clients n' = vn_clients n" "vn_accepted n' = vn_accepted n" "vn_delivered n' = vn_delivered n"
    "vn_latencies n' = vn_latencies n" "vn_isRateLimited n' = vn_isRateLimited n"
  shows "fifo T n'"
  using assms by (simp add: fifo_def pair_ok_def accepted_for_def delivered_to_def)

lemma fifo_deliver:
  assumes fifo: "fifo T n" and d: "process_deliver now p n = Some n'"
  shows "fifo T n'"
proof -
  obtain c m where c: "fmlookup (vn_clients n) p = Some c" "rq_held c = Some m"
      and n': "n' = tell p (VN_Receive p m) (n\<lparr>vn_clients := fmupd p (c\<lparr>rq_held := None, nc_recvd := nc_recvd c + 1\<rparr>) (vn_clients n),
         vn_delivered := vn_delivered n @ [(p, m, now)]\<rparr>)"
    using d by (auto simp: process_deliver_def split: option.splits if_splits)
  have D: "delivered_to q n' = delivered_to q n @ (if q = p then [m] else [])" "accepted_for q n' = accepted_for q n"
      "vn_latencies n' = vn_latencies n" for q
    by (simp_all add: n' delivered_to_def accepted_for_def)
  have "pair_ok T n' q x f" if "fmlookup (vn_clients n') q = Some x" for q x f
  proof (cases "q = p")
    case True
    then show ?thesis
      using that pair_ok_deliver [where k = "nc_recvd c + 1", OF fifoD [OF fifo c(1), of f] c(2), of n'] D by (simp add: n')
  next
    case False
    then show ?thesis
      using that pair_ok_frame [OF fifoD [OF fifo, of q x f], of T n' x] D by (simp add: n')
  qed
  then show ?thesis
    using fifo vn_inv_deliver [OF _ d] by (simp add: fifo_def) (simp add: n')
qed

lemma connect_frame [simp]:
  "vn_clients (snd (ConnectTo a b n)) = vn_clients n" "vn_clients (snd (DisconnectFrom a b n)) = vn_clients n"
  "vn_accepted (snd (ConnectTo a b n)) = vn_accepted n" "vn_accepted (snd (DisconnectFrom a b n)) = vn_accepted n"
  "vn_delivered (snd (ConnectTo a b n)) = vn_delivered n" "vn_delivered (snd (DisconnectFrom a b n)) = vn_delivered n"
  "vn_latencies (snd (ConnectTo a b n)) = vn_latencies n" "vn_latencies (snd (DisconnectFrom a b n)) = vn_latencies n"
  "vn_isRateLimited (snd (ConnectTo a b n)) = vn_isRateLimited n" "vn_isRateLimited (snd (DisconnectFrom a b n)) = vn_isRateLimited n"
  by (simp_all add: ConnectTo_def DisconnectFrom_def Let_def)

context virtual_net
begin

lemma fifo_take:
  assumes fifo: "fifo T n" and t: "process_take srt now p n = Some n'"
  shows "fifo T n'"
proof -
  obtain c c' where c: "fmlookup (vn_clients n) p = Some c" "rq_take srt now c = Some c'" "n' = n\<lparr>vn_clients := fmupd p c' (vn_clients n)\<rparr>"
    using t by (auto simp: process_take_def split: option.splits)
  have D: "delivered_to q n' = delivered_to q n" "accepted_for q n' = accepted_for q n" "vn_latencies n' = vn_latencies n" for q
    by (simp_all add: c(3) delivered_to_def accepted_for_def)
  have "pair_ok T n' q x f" if "fmlookup (vn_clients n') q = Some x" for q x f
  proof (cases "q = p")
    case True
    then show ?thesis
      using that pair_ok_take [OF fifoD [OF fifo c(1), of f] c(2), of n'] D by (simp add: c(3))
  next
    case False
    then show ?thesis
      using that pair_ok_frame [OF fifoD [OF fifo, of q x f], of T n' x] D by (simp add: c(3))
  qed
  then show ?thesis
    using fifo vn_inv_take [OF _ t] by (simp add: fifo_def) (simp add: c(3))
qed

lemma fifo_run:
  "run_events (vn_step srt) xs n = Some n' \<Longrightarrow> fifo T n \<Longrightarrow> sorted (T # send_times xs) \<Longrightarrow> \<exists>T'. fifo T' n'"
proof (induction xs arbitrary: n T)
  case (Cons x xs)
  then obtain n1 where n1: "vn_step srt x n = Some n1" "run_events (vn_step srt) xs n1 = Some n'"
    by (auto split: option.splits)
  have inv: "vn_inv n"
    using Cons.prems(2) by (simp add: fifo_def)
  have "\<exists>T1. fifo T1 n1 \<and> sorted (T1 # send_times xs)"
  proof (cases x)
    case (VE_Send env a b m)
    then show ?thesis
      using n1(1) Cons.prems(2,3) fifo_send [OF Cons.prems(2)] by (intro exI [of _ "se_now env"]) (auto split: if_splits)
  next
    case (VE_Connect a b)
    then have "fifo T n1"
      using n1(1) Cons.prems(2) vn_inv_connect(1) [OF inv]
      by (auto split: if_splits intro!: fifo_same [OF Cons.prems(2)])
    then show ?thesis
      using Cons.prems(3) VE_Connect by auto
  next
    case (VE_Disconnect a b)
    then have "fifo T n1"
      using n1(1) Cons.prems(2) vn_inv_connect(2) [OF inv]
      by (auto split: if_splits intro!: fifo_same [OF Cons.prems(2)])
    then show ?thesis
      using Cons.prems(3) VE_Disconnect by auto
  qed (use n1(1) Cons.prems in \<open>auto split: if_splits intro: fifo_join dest: fifo_take fifo_deliver\<close>)
  then show ?case
    using Cons.IH [OF n1(2)] by blast
qed auto

end

section \<open>Connections\<close>

text \<open>What \<open>a\<close> was told about \<open>b\<close>, in order.\<close>

definition heard_of :: "peer \<Rightarrow> peer \<Rightarrow> vn_call list \<Rightarrow> bool list" where
  "heard_of a b cs = concat (map (\<lambda>x. case x of
     VN_PeerConnected p q \<Rightarrow> if p = a \<and> q = b then [True] else []
   | VN_PeerDisconnected p q \<Rightarrow> if p = a \<and> q = b then [False] else []
   | VN_Receive p m \<Rightarrow> []) cs)"

fun alternating :: "bool \<Rightarrow> bool list \<Rightarrow> bool" where
  "alternating s [] \<longleftrightarrow> True"
| "alternating s (x # xs) \<longleftrightarrow> x \<noteq> s \<and> alternating x xs"

definition told :: "bool list \<Rightarrow> bool" where
  "told bs = (if bs = [] then False else last bs)"

lemma alternating_append: "alternating s (xs @ [x]) \<longleftrightarrow> alternating s xs \<and> x \<noteq> (if xs = [] then s else last xs)"
  by (induction xs arbitrary: s) auto

lemma alternating_told: "alternating False (xs @ [x]) \<longleftrightarrow> alternating False xs \<and> x \<noteq> told xs"
  by (simp add: alternating_append told_def)

lemma heard_of_append [simp]: "heard_of a b (xs @ ys) = heard_of a b xs @ heard_of a b ys" "heard_of a b [] = []"
  by (simp_all add: heard_of_def)

lemma heard_of_call [simp]:
  "heard_of a b [VN_PeerConnected p q] = (if a = p \<and> b = q then [True] else [])"
  "heard_of a b [VN_PeerDisconnected p q] = (if a = p \<and> b = q then [False] else [])" "heard_of a b [VN_Receive p m] = []"
  by (auto simp: heard_of_def)

lemma told_append [simp]: "told (xs @ [v]) = v"
  by (simp add: told_def)

lemma tag_pairs:
  assumes "length a = L" "length b = L" "length c = L" "length d = L"
  shows "tagForPeers a b = tagForPeers c d \<longleftrightarrow> {a, b} = {c, d}"
proof -
  have "tagForPeers x y = (if x < y then x @ y else y @ x)" for x y
    by (simp add: tagForPeers_def)
  then show ?thesis
    using assms by (auto simp: doubleton_eq_iff not_less)
qed

text \<open>Peers all have identifiers of the same length.\<close>

definition conns_ok :: "nat \<Rightarrow> vnet \<Rightarrow> bool" where
  "conns_ok L n \<longleftrightarrow> (\<forall>p. net_HasPeer p n \<longrightarrow> length p = L) \<and>
     (\<forall>t\<in>fset (vn_conns n). \<exists>a b. net_HasPeer a n \<and> net_HasPeer b n \<and> t = tagForPeers a b) \<and>
     (\<forall>a b. \<not> (net_HasPeer a n \<and> net_HasPeer b n) \<longrightarrow> heard_of a b (vn_calls n) = []) \<and>
     (\<forall>a b. a \<noteq> b \<and> net_HasPeer a n \<and> net_HasPeer b n \<longrightarrow>
        (tagForPeers a b |\<in>| vn_conns n \<longleftrightarrow> told (heard_of a b (vn_calls n))) \<and> alternating False (heard_of a b (vn_calls n)))"

fun join_len :: "nat \<Rightarrow> vn_event \<Rightarrow> bool" where
  "join_len L (VE_Join p protos) \<longleftrightarrow> length p = L"
| "join_len L _ \<longleftrightarrow> True"

lemma conns_ok_start: "conns_ok L VirtualNetwork" "conns_ok L RateLimitedVirtualNetwork"
  by (simp_all add: conns_ok_def VirtualNetwork_def RateLimitedVirtualNetwork_def net_HasPeer_def)

lemma conns_ok_same:
  assumes "conns_ok L n" "\<And>p. net_HasPeer p n' = net_HasPeer p n" "vn_conns n' = vn_conns n" "\<And>a b. heard_of a b (vn_calls n') = heard_of a b (vn_calls n)"
  shows "conns_ok L n'"
  using assms by (simp add: conns_ok_def)

lemma conns_ok_join:
  assumes ok: "conns_ok L n" and p: "\<not> net_HasPeer p n" "length p = L"
  shows "conns_ok L (nc_Start p (Adapter p protos n))"
proof -
  let ?n = "nc_Start p (Adapter p protos n)"
  have frame: "net_HasPeer q ?n \<longleftrightarrow> q = p \<or> net_HasPeer q n" "vn_conns ?n = vn_conns n" "vn_calls ?n = vn_calls n" for q
    by (simp_all add: nc_Start_def Adapter_def net_HasPeer_def)
  have new: "tagForPeers a b |\<notin>| vn_conns n" "heard_of a b (vn_calls n) = []" if "a = p \<or> b = p" "length a = L" "length b = L" for a b
  proof -
    show "heard_of a b (vn_calls n) = []"
      using ok p that by (auto simp: conns_ok_def)
    show "tagForPeers a b |\<notin>| vn_conns n"
    proof
      assume "tagForPeers a b |\<in>| vn_conns n"
      then obtain c d where "net_HasPeer c n" "net_HasPeer d n" "tagForPeers a b = tagForPeers c d"
        using ok by (auto simp: conns_ok_def)
      moreover from this have "length c = L" "length d = L"
        using ok by (auto simp: conns_ok_def)
      ultimately have "{a, b} = {c, d}"
        using tag_pairs that by blast
      then show False
        using that(1) p(1) \<open>net_HasPeer c n\<close> \<open>net_HasPeer d n\<close> by (auto simp: doubleton_eq_iff)
    qed
  qed
  have len: "length q = L" if "q = p \<or> net_HasPeer q n" for q
    using that ok p(2) by (auto simp: conns_ok_def)
  have "(tagForPeers a b |\<in>| vn_conns n \<longleftrightarrow> told (heard_of a b (vn_calls n))) \<and> alternating False (heard_of a b (vn_calls n))"
    if ab: "a \<noteq> b" "a = p \<or> net_HasPeer a n" "b = p \<or> net_HasPeer b n" for a b
  proof (cases "a = p \<or> b = p")
    case True
    then show ?thesis
      using new [OF True len [OF ab(2)] len [OF ab(3)]] by (simp add: told_def)
  next
    case False
    then show ?thesis
      using ok ab unfolding conns_ok_def by blast
  qed
  moreover have "heard_of a b (vn_calls n) = []" if "\<not> ((a = p \<or> net_HasPeer a n) \<and> (b = p \<or> net_HasPeer b n))" for a b
    using ok that unfolding conns_ok_def by blast
  moreover have "\<exists>a b. (a = p \<or> net_HasPeer a n) \<and> (b = p \<or> net_HasPeer b n) \<and> t = tagForPeers a b" if "t |\<in>| vn_conns n" for t
    using ok that unfolding conns_ok_def by blast
  ultimately show ?thesis
    using len unfolding conns_ok_def frame by simp
qed

text \<open>Both peers of a pair are told that their connection is there, or gone.\<close>

lemma conns_ok_toggle:
  assumes ok: "conns_ok L n" and ab: "net_HasPeer a n" "net_HasPeer b n"
    and n': "\<And>p. net_HasPeer p n' = net_HasPeer p n" "\<And>t. t |\<in>| vn_conns n' \<longleftrightarrow> (if t = tagForPeers a b then v else t |\<in>| vn_conns n)"
      "\<And>x y. heard_of x y (vn_calls n') = heard_of x y (vn_calls n) @ (if x = b \<and> y = a then [v] else []) @ (if x = a \<and> y = b then [v] else [])"
    and old: "(tagForPeers a b |\<in>| vn_conns n) = (\<not> v)"
  shows "conns_ok L n'"
proof -
  have len: "net_HasPeer q n \<Longrightarrow> length q = L" for q
    using ok by (auto simp: conns_ok_def)
  have "(tagForPeers x y |\<in>| vn_conns n' \<longleftrightarrow> told (heard_of x y (vn_calls n'))) \<and> alternating False (heard_of x y (vn_calls n'))"
    if xy: "x \<noteq> y" "net_HasPeer x n" "net_HasPeer y n" for x y
  proof -
    have was: "tagForPeers x y |\<in>| vn_conns n \<longleftrightarrow> told (heard_of x y (vn_calls n))" "alternating False (heard_of x y (vn_calls n))"
      using ok xy unfolding conns_ok_def by blast+
    show ?thesis
    proof (cases "{x, y} = {a, b}")
      case True
      then have "tagForPeers x y = tagForPeers a b"
        using tag_pairs [of x L y a b] xy len ab by simp
      moreover from True have "x = a \<and> y = b \<or> x = b \<and> y = a"
        by (simp add: doubleton_eq_iff)
      then have "heard_of x y (vn_calls n') = heard_of x y (vn_calls n) @ [v]"
        using xy(1) n'(3) [of x y] by (elim disjE) simp_all
      ultimately show ?thesis
        using was old by (auto simp: n'(2) alternating_told)
    next
      case False
      then have "tagForPeers x y \<noteq> tagForPeers a b"
        using tag_pairs [of x L y a b] xy len ab by simp
      moreover from False have "\<not> (x = b \<and> y = a)" "\<not> (x = a \<and> y = b)"
        by (auto simp: insert_commute)
      then have "heard_of x y (vn_calls n') = heard_of x y (vn_calls n)"
        using n'(3) [of x y] by (simp only: if_False append_Nil2)
      ultimately show ?thesis
        using was by (simp add: n'(2))
    qed
  qed
  moreover have "heard_of x y (vn_calls n') = []" if "\<not> (net_HasPeer x n \<and> net_HasPeer y n)" for x y
    using ok that ab by (auto simp: conns_ok_def n'(3))
  moreover have "\<exists>x y. net_HasPeer x n \<and> net_HasPeer y n \<and> t = tagForPeers x y" if "t |\<in>| vn_conns n'" for t
    using ok that ab unfolding conns_ok_def n'(2) by (cases "t = tagForPeers a b") auto
  ultimately show ?thesis
    using len unfolding conns_ok_def n'(1) by simp
qed

lemma tell_both:
  assumes "vn_inv n" "net_HasPeer a n" "net_HasPeer b n"
  shows "vn_calls (tell a x (tell b y (n\<lparr>vn_conns := cs\<rparr>))) = vn_calls n @ [y, x]"
  using assms by (auto simp: vn_inv_def client_ok_def net_HasPeer_def tell_def)

lemma conns_ok_connect:
  assumes "vn_inv n" "conns_ok L n" "net_HasPeer a n"
  shows "conns_ok L (snd (ConnectTo a b n))" "conns_ok L (snd (DisconnectFrom a b n))"
proof -
  have same: "net_HasPeer p (snd (ConnectTo a b n)) = net_HasPeer p n" "net_HasPeer p (snd (DisconnectFrom a b n)) = net_HasPeer p n" for p
    by (simp_all add: net_HasPeer_def)
  show "conns_ok L (snd (ConnectTo a b n))"
  proof (cases "net_HasPeer b n \<and> tagForPeers a b |\<notin>| vn_conns n")
    case True
    have "heard_of x y [VN_PeerConnected b a, VN_PeerConnected a b] =
        (if x = b \<and> y = a then [True] else []) @ (if x = a \<and> y = b then [True] else [])" for x y
      using heard_of_append(1) [of x y "[_]" "[_]"] by (simp only: append.simps heard_of_call)
    moreover have "vn_calls (snd (ConnectTo a b n)) = vn_calls n @ [VN_PeerConnected b a, VN_PeerConnected a b]"
      using True tell_both [OF assms(1,3)] by (auto simp: ConnectTo_def net_HasPeer_def Let_def)
    moreover have "vn_conns (snd (ConnectTo a b n)) = finsert (tagForPeers a b) (vn_conns n)"
      using True by (auto simp: ConnectTo_def net_HasPeer_def Let_def)
    ultimately show ?thesis
      using True by (intro conns_ok_toggle [where v = True and a = a and b = b, OF assms(2,3)]) (simp_all add: same)
  qed (use assms in \<open>auto simp: ConnectTo_def net_HasPeer_def Let_def\<close>)
  show "conns_ok L (snd (DisconnectFrom a b n))"
  proof (cases "net_HasPeer b n \<and> tagForPeers a b |\<in>| vn_conns n")
    case True
    have "heard_of x y [VN_PeerDisconnected b a, VN_PeerDisconnected a b] =
        (if x = b \<and> y = a then [False] else []) @ (if x = a \<and> y = b then [False] else [])" for x y
      using heard_of_append(1) [of x y "[_]" "[_]"] by (simp only: append.simps heard_of_call)
    moreover have "vn_calls (snd (DisconnectFrom a b n)) = vn_calls n @ [VN_PeerDisconnected b a, VN_PeerDisconnected a b]"
      using True tell_both [OF assms(1,3)] by (auto simp: DisconnectFrom_def net_HasPeer_def Let_def)
    moreover have "vn_conns (snd (DisconnectFrom a b n)) = vn_conns n |-| {|tagForPeers a b|}"
      using True by (auto simp: DisconnectFrom_def net_HasPeer_def Let_def)
    ultimately show ?thesis
      using True by (intro conns_ok_toggle [where v = False and a = a and b = b, OF assms(2,3)]) (simp_all add: same)
  qed (use assms in \<open>auto simp: DisconnectFrom_def net_HasPeer_def Let_def\<close>)
qed

lemma conns_ok_send: "conns_ok L n \<Longrightarrow> conns_ok L (snd (nc_SendMessage env a b m n))"
proof (erule conns_ok_same)
  obtain l ls rl where s: "net_SendMessage env a b m n =
      (case fmlookup (vn_clients n) b of
         None \<Rightarrow> (Some Cannot_Locate_Peer, n\<lparr>vn_latencies := ls, vn_rateLimiters := rl\<rparr>)
       | Some c \<Rightarrow> (None, n\<lparr>vn_latencies := ls, vn_rateLimiters := rl,
           vn_clients := fmupd b (enqueue \<lparr>vm_from = a, vm_msg = msg_Clone (se_ord env) m, shouldSend = l\<rparr> c) (vn_clients n),
           vn_accepted := vn_accepted n @ [(b, \<lparr>vm_from = a, vm_msg = msg_Clone (se_ord env) m, shouldSend = l\<rparr>)]\<rparr>))"
    by (rule net_SendMessage_cases)
  show "net_HasPeer p (snd (nc_SendMessage env a b m n)) = net_HasPeer p n" "vn_conns (snd (nc_SendMessage env a b m n)) = vn_conns n"
    "heard_of x y (vn_calls (snd (nc_SendMessage env a b m n))) = heard_of x y (vn_calls n)" for p x y
    by (auto simp: nc_SendMessage_def s net_HasPeer_def split: option.splits)
qed

context virtual_net
begin

lemma conns_ok_step:
  assumes "vn_inv n \<and> conns_ok L n" "join_len L x" "vn_step srt x n = Some n'"
  shows "vn_inv n' \<and> conns_ok L n'"
proof -
  have "conns_ok L n'"
  proof (cases x)
    case (VE_Take now p)
    then obtain c c' where "fmlookup (vn_clients n) p = Some c" "n' = n\<lparr>vn_clients := fmupd p c' (vn_clients n)\<rparr>"
      using assms(3) by (auto simp: process_take_def split: option.splits)
    then show ?thesis
      using assms(1) by (intro conns_ok_same [of L n n']) (auto simp: net_HasPeer_def)
  next
    case (VE_Deliver now p)
    then obtain c c' m where "fmlookup (vn_clients n) p = Some c" "n' = tell p (VN_Receive p m)
        (n\<lparr>vn_clients := fmupd p c' (vn_clients n), vn_delivered := vn_delivered n @ [(p, m, now)]\<rparr>)"
      using assms(3) by (auto simp: process_deliver_def split: option.splits if_splits)
    then show ?thesis
      using assms(1) by (intro conns_ok_same [of L n n']) (auto simp: net_HasPeer_def tell_def)
  qed (use assms in \<open>auto simp: conns_ok_join conns_ok_send conns_ok_connect split: if_splits\<close>)
  then show ?thesis
    using assms vn_inv_step by blast
qed

lemma conns_ok_run:
  "run_events (vn_step srt) xs n = Some n' \<Longrightarrow> vn_inv n \<and> conns_ok L n \<Longrightarrow> list_all (join_len L) xs \<Longrightarrow> vn_inv n' \<and> conns_ok L n'"
proof (induction xs arbitrary: n)
  case (Cons x xs)
  then obtain n1 where n1: "vn_step srt x n = Some n1" "run_events (vn_step srt) xs n1 = Some n'"
    by (auto split: option.splits)
  have "vn_inv n1 \<and> conns_ok L n1"
    by (rule conns_ok_step [OF Cons.prems(2) _ n1(1)]) (use Cons.prems(3) in simp)
  then show ?case
    using Cons.IH [OF n1(2)] Cons.prems(3) by simp
qed simp

end

lemma sorted_prefix:
  fixes xs ds :: "int list"
  assumes "sorted xs" "sorted ds" "mset xs = M + mset ds" "\<And>d w. d \<in> set ds \<Longrightarrow> w \<in># M \<Longrightarrow> d \<le> w"
  shows "ds = take (length ds) xs"
proof -
  have "sorted (ds @ sorted_list_of_multiset M)"
    using assms(2,4) by (simp add: sorted_append)
  moreover have "mset (ds @ sorted_list_of_multiset M) = mset xs"
    using assms(3) by simp
  ultimately have "xs = ds @ sorted_list_of_multiset M"
    using assms(1) by (metis properties_for_sort sorted_sort_id)
  then show ?thesis
    by simp
qed

lemma fifo_prefix:
  assumes "fifo T n" "fmlookup (vn_clients n) p = Some c"
  shows "map shouldSend (from_peer f (delivered_to p n)) =
    take (length (from_peer f (delivered_to p n))) (map shouldSend (from_peer f (accepted_for p n)))"
proof -
  have ok: "pair_ok T n p c f" and acc: "mset (accepted_for p n) = on_the_way c + mset (delivered_to p n)"
    using assms by (auto simp: fifo_def vn_inv_def client_ok_def)
  let ?W = "image_mset shouldSend (filter_mset (\<lambda>m. vm_from m = f) (on_the_way c))"
  have "mset (map shouldSend (from_peer f (accepted_for p n))) = ?W + mset (map shouldSend (from_peer f (delivered_to p n)))"
    using acc by (simp add: from_peer_def)
  moreover have "d \<le> w" if "d \<in> set (map shouldSend (from_peer f (delivered_to p n)))" "w \<in># ?W" for d w
    using that ok by (auto simp: pair_ok_def)
  ultimately show ?thesis
    using sorted_prefix [of "map shouldSend (from_peer f (accepted_for p n))" "map shouldSend (from_peer f (delivered_to p n))" ?W] ok
    by (simp add: pair_ok_def)
qed

section \<open>Properties\<close>

text \<open>
  C40. The virtual network delivers every message once, not early, and in order. In every state
  it reaches, however the goroutines of the queues run and the sort orders messages of equal
  time: the messages accepted for a peer are those delivered to it and those on the way, and
  while one is on the way a goroutine is running; nothing is delivered before its time;
  the receivers are told of exactly the deliveries; and when the clock does not go back between
  sends, the times of what was delivered from one peer to another are the first of the times of
  what was sent.
\<close>

theorem virtual_delivery:
  assumes "virtual_net srt" "run_events (vn_step srt) xs VirtualNetwork = Some n" "sorted (send_times xs)"
  shows "(\<forall>(p, m, t)\<in>set (vn_delivered n). shouldSend m \<le> t) \<and>
    received_calls (vn_calls n) = map (\<lambda>(p, m, t). (p, m)) (vn_delivered n) \<and>
    (\<forall>p c. fmlookup (vn_clients n) p = Some c \<longrightarrow>
       mset (accepted_for p n) = on_the_way c + mset (delivered_to p n) \<and> (on_the_way c \<noteq> {#} \<longrightarrow> rq_active c) \<and>
       (\<forall>f. map shouldSend (from_peer f (delivered_to p n)) =
          take (length (from_peer f (delivered_to p n))) (map shouldSend (from_peer f (accepted_for p n)))))"
proof -
  let ?T = "if send_times xs = [] then 0 else hd (send_times xs)"
  have "sorted (?T # send_times xs)"
    using assms(3) by (cases "send_times xs") auto
  then obtain T where T: "fifo T n"
    using virtual_net.fifo_run [OF assms(1,2) fifo_start] by blast
  then show ?thesis
    using fifo_prefix [OF T] by (auto simp: fifo_def vn_inv_def client_ok_def)
qed

text \<open>
  A queue empties. In any state the network reaches, limited in its rates or not, the goroutine of a
  queue that is left alone, at a time when all its messages are due, delivers each of them by
  twice as many steps as there are messages and one, the ones still queued in the order of
  their times, and then ends.
\<close>

theorem queue_empties:
  assumes "virtual_net srt" "run_events (vn_step srt) xs s = Some n" "s = VirtualNetwork \<or> s = RateLimitedVirtualNetwork"
    and c: "fmlookup (vn_clients n) p = Some c" "on_the_way c \<noteq> {#}" "\<forall>m\<in>#on_the_way c. shouldSend m \<le> now"
  shows "\<exists>n' c' ms. run_events (vn_step srt) (drain now p c) n = Some n' \<and> length (drain now p c) \<le> 2 * size (on_the_way c) + 1 \<and>
    fmlookup (vn_clients n') p = Some c' \<and> on_the_way c' = {#} \<and> \<not> rq_active c' \<and>
    delivered_to p n' = delivered_to p n @ (case rq_held c of None \<Rightarrow> [] | Some m \<Rightarrow> [m]) @ ms \<and>
    mset ms = mset (rq_queue c) \<and> sorted (map shouldSend ms)"
proof -
  have inv: "vn_inv n"
    using virtual_net.axioms assms(1-3) vn_inv_start event_system.run_inv
    by (metis virtual_net.vn_inv_step event_system.intro)
  then have act: "rq_active c"
    using c by (auto simp: vn_inv_def client_ok_def)
  have queue: "\<forall>m\<in>set (rq_queue c). shouldSend m \<le> now"
    using c(3) by (simp add: on_the_way_def)
  have len: "length (concat (replicate k [x, y])) = 2 * k" for k and x y :: vn_event
    by (induction k) simp_all
  show ?thesis
  proof (cases "rq_held c")
    case None
    from virtual_net.drain_queue [OF assms(1) c(1) act None queue refl] show ?thesis
      using None by (auto simp: drain_def len on_the_way_def)
  next
    case (Some m)
    then have m: "shouldSend m \<le> now"
      using c(3) by (simp add: on_the_way_def)
    let ?c = "c\<lparr>rq_held := None, nc_recvd := nc_recvd c + 1\<rparr>"
    obtain n1 where step: "process_deliver now p n = Some n1" and n1: "fmlookup (vn_clients n1) p = Some ?c"
        "delivered_to p n1 = delivered_to p n @ [m]"
      using m Some c(1) by (auto simp: process_deliver_def delivered_to_def)
    have "rq_active ?c" "rq_held ?c = None" "\<forall>m\<in>set (rq_queue ?c). shouldSend m \<le> now"
      using act queue by simp_all
    from virtual_net.drain_queue [OF assms(1) n1(1) this refl] show ?thesis
      using Some step n1(2) by (auto simp: drain_def len on_the_way_def)
  qed
qed

text \<open>
  The two ends of a connection agree. With peer identifiers of one length, in every state the network
  reaches: two peers have both last been told that the other is there exactly while
  the network records their connection, and what each is told of the other alternates, beginning with a
  connection.
\<close>

theorem connections_agree:
  assumes "virtual_net srt" "run_events (vn_step srt) xs VirtualNetwork = Some n" "list_all (join_len L) xs"
    "a \<noteq> b" "net_HasPeer a n" "net_HasPeer b n"
  shows "(tagForPeers a b |\<in>| vn_conns n \<longleftrightarrow> told (heard_of a b (vn_calls n))) \<and> told (heard_of a b (vn_calls n)) = told (heard_of b a (vn_calls n)) \<and>
    alternating False (heard_of a b (vn_calls n))"
proof -
  have "conns_ok L n"
    using virtual_net.conns_ok_run [OF assms(1,2) _ assms(3)] vn_inv_start(1) conns_ok_start(1) by blast
  moreover have "tagForPeers b a = tagForPeers a b"
    using assms(4) by (auto simp: tagForPeers_def)
  ultimately show ?thesis
    using assms(4-6) unfolding conns_ok_def by metis
qed

section \<open>A small network\<close>

definition send_at :: "int \<Rightarrow> send_env" where
  "send_at t = \<lparr>se_now = t, se_latency = 50, se_limiter = 0, se_limit = (\<lambda>_ _. 0),
     se_lib = example_lib, se_ord = key_order\<rparr>"

definition example_net_run :: "vn_event list" where
  "example_net_run = [VE_Join ''p'' [ProtocolBitswap], VE_Join ''q'' [ProtocolBitswap], VE_Connect ''p'' ''q'',
     VE_Send (send_at 10) ''p'' ''q'' (newMsg False), VE_Send (send_at 20) ''p'' ''q'' (newMsg True), VE_Take 55 ''q'', VE_Deliver 60 ''q'']"

lemma example_net_run_ends: "\<exists>n. run_events (vn_step (sort_key shouldSend)) example_net_run VirtualNetwork = Some n \<and>
    net_HasPeer ''p'' n \<and> net_HasPeer ''q'' n \<and> vn_delivered n = [(''q'', \<lparr>vm_from = ''p'', vm_msg = newMsg False, shouldSend = 60\<rparr>, 60)] \<and>
    map_option on_the_way (fmlookup (vn_clients n) ''q'') = Some {#\<lparr>vm_from = ''p'', vm_msg = newMsg True, shouldSend = 70\<rparr>#} \<and>
    heard_of ''p'' ''q'' (vn_calls n) = [True]"
proof -
  have "case run_events (vn_step (sort_key shouldSend)) example_net_run VirtualNetwork of None \<Rightarrow> False | Some n \<Rightarrow>
    net_HasPeer ''p'' n \<and> net_HasPeer ''q'' n \<and> vn_delivered n = [(''q'', \<lparr>vm_from = ''p'', vm_msg = newMsg False, shouldSend = 60\<rparr>, 60)] \<and>
    map_option (\<lambda>c. (rq_queue c, rq_held c)) (fmlookup (vn_clients n) ''q'') = Some ([\<lparr>vm_from = ''p'', vm_msg = newMsg True, shouldSend = 70\<rparr>], None) \<and>
    heard_of ''p'' ''q'' (vn_calls n) = [True]"
    by code_simp
  then show ?thesis
    by (auto simp: on_the_way_def split: option.splits)
qed

theorem virtual_delivery_witness:
  "\<exists>n c. run_events (vn_step (sort_key shouldSend)) example_net_run VirtualNetwork = Some n \<and> fmlookup (vn_clients n) ''q'' = Some c \<and>
     mset (accepted_for ''q'' n) = on_the_way c + mset (delivered_to ''q'' n) \<and> length (delivered_to ''q'' n) = 1"
proof -
  from example_net_run_ends obtain n where n: "run_events (vn_step (sort_key shouldSend)) example_net_run VirtualNetwork = Some n"
      "net_HasPeer ''q'' n" "vn_delivered n = [(''q'', \<lparr>vm_from = ''p'', vm_msg = newMsg False, shouldSend = 60\<rparr>, 60)]"
    by blast
  then obtain c where "fmlookup (vn_clients n) ''q'' = Some c"
    by (auto simp: net_HasPeer_def)
  moreover have "sorted (send_times example_net_run)"
    by (simp add: example_net_run_def send_at_def)
  ultimately show ?thesis
    using virtual_delivery [OF time_sort.virtual_net_axioms n(1)] n(1,3) by (auto simp: delivered_to_def)
qed

theorem queue_empties_witness:
  "\<exists>n c n'. run_events (vn_step (sort_key shouldSend)) example_net_run VirtualNetwork = Some n \<and> fmlookup (vn_clients n) ''q'' = Some c \<and>
     run_events (vn_step (sort_key shouldSend)) (drain 100 ''q'' c) n = Some n' \<and>
     map shouldSend (delivered_to ''q'' n') = [60, 70]"
proof -
  from example_net_run_ends obtain n c where n: "run_events (vn_step (sort_key shouldSend)) example_net_run VirtualNetwork = Some n"
      "vn_delivered n = [(''q'', \<lparr>vm_from = ''p'', vm_msg = newMsg False, shouldSend = 60\<rparr>, 60)]"
      "fmlookup (vn_clients n) ''q'' = Some c" "on_the_way c = {#\<lparr>vm_from = ''p'', vm_msg = newMsg True, shouldSend = 70\<rparr>#}"
    by auto
  obtain n' ms where d: "run_events (vn_step (sort_key shouldSend)) (drain 100 ''q'' c) n = Some n'"
      "delivered_to ''q'' n' = delivered_to ''q'' n @ (case rq_held c of None \<Rightarrow> [] | Some m \<Rightarrow> [m]) @ ms" "mset ms = mset (rq_queue c)"
    using queue_empties [OF time_sort.virtual_net_axioms n(1) _ n(3), of 100] n(4) by auto
  have "mset ((case rq_held c of None \<Rightarrow> [] | Some m \<Rightarrow> [m]) @ ms) = {#\<lparr>vm_from = ''p'', vm_msg = newMsg True, shouldSend = 70\<rparr>#}"
    using n(4) d(3) by (auto simp: on_the_way_def split: option.splits)
  then have "(case rq_held c of None \<Rightarrow> [] | Some m \<Rightarrow> [m]) @ ms = [\<lparr>vm_from = ''p'', vm_msg = newMsg True, shouldSend = 70\<rparr>]"
    by (simp only: mset_single_iff)
  then show ?thesis
    using n(1,3) d(1,2) n(2) by (auto simp: delivered_to_def)
qed

theorem connections_agree_witness:
  "\<exists>n. run_events (vn_step (sort_key shouldSend)) example_net_run VirtualNetwork = Some n \<and> told (heard_of ''q'' ''p'' (vn_calls n)) \<and>
     tagForPeers ''p'' ''q'' |\<in>| vn_conns n"
proof -
  from example_net_run_ends obtain n where n: "run_events (vn_step (sort_key shouldSend)) example_net_run VirtualNetwork = Some n"
      "net_HasPeer ''p'' n" "net_HasPeer ''q'' n" "heard_of ''p'' ''q'' (vn_calls n) = [True]"
    by blast
  have "list_all (join_len 1) example_net_run"
    by (simp add: example_net_run_def)
  from connections_agree [OF time_sort.virtual_net_axioms n(1) this _ n(2,3)] show ?thesis
    using n(1,4) by (auto simp: told_def)
qed

text \<open>
  Tags of connections are ambiguous: with identifiers of different lengths two pairs can share
  one, and a connection that was never made is taken for made.
\<close>

theorem tags_collide:
  "\<exists>n. run_events (vn_step (sort_key shouldSend)) [VE_Join ''a'' [], VE_Join ''bc'' [], VE_Join ''ab'' [], VE_Join ''c'' [],
       VE_Connect ''a'' ''bc'', VE_Connect ''ab'' ''c''] VirtualNetwork = Some n \<and>
     tagForPeers ''ab'' ''c'' |\<in>| vn_conns n \<and> heard_of ''ab'' ''c'' (vn_calls n) = []"
proof -
  have "case run_events (vn_step (sort_key shouldSend)) [VE_Join ''a'' [], VE_Join ''bc'' [], VE_Join ''ab'' [], VE_Join ''c'' [],
       VE_Connect ''a'' ''bc'', VE_Connect ''ab'' ''c''] VirtualNetwork of None \<Rightarrow> False | Some n \<Rightarrow>
     tagForPeers ''ab'' ''c'' |\<in>| vn_conns n \<and> heard_of ''ab'' ''c'' (vn_calls n) = []"
    by code_simp
  then show ?thesis
    by (rule some_result)
qed

text \<open>Messages of equal time may be delivered in another order than they were sent: nothing more is promised of \<open>sort.Sort\<close>.\<close>

definition unstable_sort :: "vmessage list \<Rightarrow> vmessage list" where
  "unstable_sort ms = sort_key shouldSend (rev ms)"

interpretation unstable: virtual_net unstable_sort
  by unfold_locales (simp_all add: unstable_sort_def)

theorem equal_times_reordered:
  "\<exists>n. run_events (vn_step unstable_sort) [VE_Join ''p'' [], VE_Join ''q'' [], VE_Send (send_at 10) ''p'' ''q'' (newMsg False),
       VE_Send (send_at 10) ''p'' ''q'' (newMsg True), VE_Take 60 ''q'', VE_Deliver 60 ''q'', VE_Take 60 ''q'', VE_Deliver 60 ''q''] VirtualNetwork = Some n \<and>
     map (m_full \<circ> vm_msg) (accepted_for ''q'' n) = [False, True] \<and> map (m_full \<circ> vm_msg) (delivered_to ''q'' n) = [True, False]"
proof -
  have "case run_events (vn_step unstable_sort) [VE_Join ''p'' [], VE_Join ''q'' [], VE_Send (send_at 10) ''p'' ''q'' (newMsg False),
       VE_Send (send_at 10) ''p'' ''q'' (newMsg True), VE_Take 60 ''q'', VE_Deliver 60 ''q'', VE_Take 60 ''q'', VE_Deliver 60 ''q''] VirtualNetwork of
     None \<Rightarrow> False | Some n \<Rightarrow>
     map (m_full \<circ> vm_msg) (accepted_for ''q'' n) = [False, True] \<and> map (m_full \<circ> vm_msg) (delivered_to ''q'' n) = [True, False]"
    by code_simp
  then show ?thesis
    by (rule some_result)
qed
end
