(* ===== verification/Test_Support.thy ===== *)
theory Test_Support
  imports Virtual_Net Facade
begin

text \<open>
  What the tests of the repository are built from besides the virtual network: the helpers of
  \<open>internal/testutil/testutil.go\<close> and the instances of \<open>testinstance/testinstance.go\<close>.

  Random bytes, the block generator and fresh identities come from third-party code and are
  arguments. The counters of the helpers are package variables and are passed along.
\<close>

section \<open>Helpers\<close>

text \<open>\<open>randRead i sz\<close> are the bytes \<open>rand.Read\<close> puts into the \<open>i\<close>th buffer; \<open>hashOf\<close> is \<open>blocks.NewBlock\<close>'s key.\<close>

definition GenerateBlocksOfSize :: "(bytes \<Rightarrow> cid) \<Rightarrow> (nat \<Rightarrow> nat \<Rightarrow> bytes) \<Rightarrow> nat \<Rightarrow> nat \<Rightarrow> block list" where
  "GenerateBlocksOfSize hashOf randRead n sz =
     map (\<lambda>i. let buf = randRead i sz in \<lparr>block_cid = hashOf buf, RawData = buf\<rparr>) [0..<n]"

definition GenerateCids :: "(nat \<Rightarrow> cid) \<Rightarrow> nat \<Rightarrow> cid list" where
  "GenerateCids generated n = map generated [0..<n]"

text \<open>\<open>prioritySeq\<close> wraps at 32 bits.\<close>

primrec GenerateMessageEntries :: "(nat \<Rightarrow> cid) \<Rightarrow> nat \<Rightarrow> bool \<Rightarrow> int32 \<Rightarrow> msg_entry list \<times> int32" where
  "GenerateMessageEntries generated 0 isCancel prioritySeq = ([], prioritySeq)"
| "GenerateMessageEntries generated (Suc n) isCancel prioritySeq =
     (let (es, s) = GenerateMessageEntries generated n isCancel prioritySeq; s1 = s + 1
      in (es @ [\<lparr>Cid = generated n, Priority = s1, WantType = Wantlist_Block, Cancel = isCancel, SendDontHave = False\<rparr>], s1))"

fun digits :: "nat \<Rightarrow> string" where
  "digits n = (if n < 10 then [char_of (48 + n)] else digits (n div 10) @ [char_of (48 + n mod 10)])"

definition GeneratePeers :: "nat \<Rightarrow> 64 word \<Rightarrow> peer list \<times> 64 word" where
  "GeneratePeers n peerSeq = (map digits [0..<n], peerSeq + of_nat n)"

definition GenerateSessionID :: "uint64 \<Rightarrow> uint64 \<times> uint64" where
  "GenerateSessionID nextSession = (nextSession + 1, nextSession + 1)"

fun ContainsPeer :: "peer list \<Rightarrow> peer \<Rightarrow> bool" where
  "ContainsPeer [] p = False"
| "ContainsPeer (n # peers) p = (if p = n then True else ContainsPeer peers p)"

fun IndexOf_from :: "int \<Rightarrow> block list \<Rightarrow> cid \<Rightarrow> int" where
  "IndexOf_from i [] c = - 1"
| "IndexOf_from i (n # blks) c = (if block_cid n = c then i else IndexOf_from (i + 1) blks c)"

definition IndexOf :: "block list \<Rightarrow> cid \<Rightarrow> int" where
  "IndexOf blks c = IndexOf_from 0 blks c"

definition ContainsBlock :: "block list \<Rightarrow> block \<Rightarrow> bool" where
  "ContainsBlock blks b \<longleftrightarrow> IndexOf blks (block_cid b) \<noteq> - 1"

fun ContainsKey :: "cid list \<Rightarrow> cid \<Rightarrow> bool" where
  "ContainsKey [] c = False"
| "ContainsKey (k # ks) c = (if c = k then True else ContainsKey ks c)"

definition MatchKeysIgnoreOrder :: "cid list \<Rightarrow> cid list \<Rightarrow> bool" where
  "MatchKeysIgnoreOrder ks1 ks2 = (if length ks1 \<noteq> length ks2 then False else list_all (ContainsKey ks2) ks1)"

definition MatchPeersIgnoreOrder :: "peer list \<Rightarrow> peer list \<Rightarrow> bool" where
  "MatchPeersIgnoreOrder ps1 ps2 = (if length ps1 \<noteq> length ps2 then False else list_all (ContainsPeer ps2) ps1)"

lemma ContainsKey_iff [simp]: "ContainsKey ks c \<longleftrightarrow> c \<in> set ks"
  by (induction ks) auto

lemma ContainsPeer_iff [simp]: "ContainsPeer ps p \<longleftrightarrow> p \<in> set ps"
  by (induction ps) auto

lemma IndexOf_from_cases: "0 \<le> i \<Longrightarrow> IndexOf_from i blks c = - 1 \<longleftrightarrow> c \<notin> block_cid ` set blks"
proof (induction blks arbitrary: i)
  case (Cons b blks)
  then show ?case
    using Cons.IH [of "i + 1"] by auto
qed simp

lemma ContainsBlock_iff: "ContainsBlock blks b \<longleftrightarrow> block_cid b \<in> block_cid ` set blks"
  by (simp add: ContainsBlock_def IndexOf_def IndexOf_from_cases)

text \<open>Lists without repetitions match exactly when one is a permutation of the other.\<close>

theorem match_distinct:
  assumes "distinct ks1" "distinct ks2"
  shows "MatchKeysIgnoreOrder ks1 ks2 \<longleftrightarrow> mset ks1 = mset ks2"
proof
  assume m: "MatchKeysIgnoreOrder ks1 ks2"
  then have "set ks1 \<subseteq> set ks2" "card (set ks1) = card (set ks2)"
    using assms by (auto simp: MatchKeysIgnoreOrder_def list_all_iff distinct_card split: if_splits)
  then have "set ks1 = set ks2"
    by (simp add: card_subset_eq)
  then show "mset ks1 = mset ks2"
    using assms by (simp add: set_eq_iff_mset_eq_distinct)
next
  assume "mset ks1 = mset ks2"
  then show "MatchKeysIgnoreOrder ks1 ks2"
    by (auto simp: MatchKeysIgnoreOrder_def list_all_iff dest: mset_eq_setD mset_eq_length)
qed

text \<open>With repetitions lists can match that are no permutations of each other.\<close>

theorem match_counts_ignored:
  "MatchKeysIgnoreOrder [''a'', ''a''] [''a'', ''b''] \<and> \<not> MatchKeysIgnoreOrder [''a'', ''b''] [''a'', ''a'']"
  by (simp add: MatchKeysIgnoreOrder_def)

text \<open>Two calls give the same peers: the counter is raised but not used.\<close>

theorem generated_peers_repeat: "fst (GeneratePeers n s) = fst (GeneratePeers n (snd (GeneratePeers n s)))"
  by (simp add: GeneratePeers_def)

section \<open>Instances\<close>

text \<open>
  An instance is a node on the virtual network. What can panic: no identity, no block store (both
  made by third-party code, whose results are arguments), an option of the wrong kind, a peer
  that is not on the network.
\<close>

datatype inst_panic = No_Identity | No_Blockstore string | Bad_Option go_panic | Not_Connected vn_error

record test_instance =
  in_Peer :: peer
  in_Exchange :: node

record generator =
  ig_seq :: int
  ig_net :: vnet
  ig_running :: bool
  ig_bsOptions :: "bs_option list"
  ig_netOptions :: "protocol list"

definition NewTestInstanceGenerator :: "vnet \<Rightarrow> protocol list \<Rightarrow> bs_option list \<Rightarrow> generator" where
  "NewTestInstanceGenerator net netOptions bsOptions =
     \<lparr>ig_seq = 0, ig_net = net, ig_running = True, ig_bsOptions = bsOptions, ig_netOptions = netOptions\<rparr>"

definition ig_Close :: "generator \<Rightarrow> generator" where
  "ig_Close g = g\<lparr>ig_running := False\<rparr>"

definition NewInstance ::
    "string option \<Rightarrow> vnet \<Rightarrow> peer \<Rightarrow> protocol list \<Rightarrow> bs_option list \<Rightarrow> inst_panic + test_instance \<times> vnet" where
  "NewInstance bstoreErr n p netOptions bsOptions =
     (let n1 = Adapter p netOptions n
      in case bstoreErr of
           Some err \<Rightarrow> Inl (No_Blockstore err)
         | None \<Rightarrow>
             (case bs_New defaults_HasBlockBufferSize p bsOptions of
                Inl e \<Rightarrow> Inl (Bad_Option e)
              | Inr (ns, cc, nd) \<Rightarrow> Inr (\<lparr>in_Peer = p, in_Exchange = nd\<rparr>, nc_Start p n1)))"

definition gen_Next :: "string option \<Rightarrow> peer option \<Rightarrow> generator \<Rightarrow> inst_panic + test_instance \<times> generator" where
  "gen_Next bstoreErr identity g =
     (let g1 = g\<lparr>ig_seq := ig_seq g + 1\<rparr>
      in case identity of
           None \<Rightarrow> Inl No_Identity
         | Some p \<Rightarrow>
             (case NewInstance bstoreErr (ig_net g1) p (ig_netOptions g1) (ig_bsOptions g1) of
                Inl e \<Rightarrow> Inl e
              | Inr (inst, n1) \<Rightarrow> Inr (inst, g1\<lparr>ig_net := n1\<rparr>)))"

text \<open>The inner loop of \<open>ConnectInstances\<close>, and the outer one; a failing \<open>ConnectTo\<close> panics.\<close>

fun connectAll :: "peer \<Rightarrow> peer list \<Rightarrow> vnet \<Rightarrow> vn_error + vnet" where
  "connectAll inst [] n = Inr n"
| "connectAll inst (oinst # os) n =
     (case ConnectTo inst oinst n of
        (Some err, _) \<Rightarrow> Inl err
      | (None, n1) \<Rightarrow> connectAll inst os n1)"

fun ConnectInstances :: "peer list \<Rightarrow> vnet \<Rightarrow> vn_error + vnet" where
  "ConnectInstances [] n = Inr n"
| "ConnectInstances (inst # insts) n =
     (case connectAll inst insts n of
        Inl err \<Rightarrow> Inl err
      | Inr n1 \<Rightarrow> ConnectInstances insts n1)"

text \<open>The loop of \<open>Instances\<close>: one identity and one outcome of the block store for each round.\<close>

fun nextInstances :: "(string option \<times> peer option) list \<Rightarrow> generator \<Rightarrow> inst_panic + test_instance list \<times> generator" where
  "nextInstances [] g = Inr ([], g)"
| "nextInstances ((bstoreErr, identity) # ins) g =
     (case gen_Next bstoreErr identity g of
        Inl e \<Rightarrow> Inl e
      | Inr (inst, g1) \<Rightarrow>
          (case nextInstances ins g1 of
             Inl e \<Rightarrow> Inl e
           | Inr (instances, g2) \<Rightarrow> Inr (inst # instances, g2)))"

definition Instances :: "(string option \<times> peer option) list \<Rightarrow> generator \<Rightarrow> inst_panic + test_instance list \<times> generator" where
  "Instances ins g =
     (case nextInstances ins g of
        Inl e \<Rightarrow> Inl e
      | Inr (instances, g1) \<Rightarrow>
          (case ConnectInstances (map in_Peer instances) (ig_net g1) of
             Inl err \<Rightarrow> Inl (Not_Connected err)
           | Inr n1 \<Rightarrow> Inr (instances, g1\<lparr>ig_net := n1\<rparr>)))"

lemma ConnectTo_ok:
  assumes "net_HasPeer b n" "ConnectTo a b n = r"
  shows "fst r = None" "net_HasPeer p (snd r) = net_HasPeer p n" "vn_conns (snd r) = finsert (tagForPeers a b) (vn_conns n)"
  using assms(1) unfolding assms(2) [symmetric]
  by (cases "tagForPeers a b |\<in>| vn_conns n"; auto simp: ConnectTo_def net_HasPeer_def)+

lemma connectAll_ok:
  assumes "\<forall>b\<in>set bs. net_HasPeer b n"
  shows "\<exists>n'. connectAll a bs n = Inr n' \<and> (\<forall>p. net_HasPeer p n' = net_HasPeer p n) \<and>
    vn_conns n' = vn_conns n |\<union>| fset_of_list (map (tagForPeers a) bs)"
  using assms
proof (induction bs arbitrary: n)
  case (Cons b bs)
  obtain e n1 where r: "ConnectTo a b n = (e, n1)"
    by fastforce
  note R = ConnectTo_ok [OF _ r]
  have b: "net_HasPeer b n" "\<forall>b\<in>set bs. net_HasPeer b n1"
    using Cons.prems R(2) by auto
  from Cons.IH [OF b(2)] show ?case
    using r R b(1) by fastforce
qed simp

text \<open>Instances that all are on the network are connected, each with each.\<close>

lemma instances_connected:
  assumes "\<forall>p\<in>set ps. net_HasPeer p n" "distinct ps"
  shows "\<exists>n'. ConnectInstances ps n = Inr n' \<and> (\<forall>a b. a \<in> set ps \<and> b \<in> set ps \<and> a \<noteq> b \<longrightarrow> tagForPeers a b |\<in>| vn_conns n')"
proof -
  have "\<exists>n'. ConnectInstances ps n = Inr n' \<and> vn_conns n |\<subseteq>| vn_conns n' \<and>
      (\<forall>a b. a \<in> set ps \<and> b \<in> set ps \<and> a \<noteq> b \<longrightarrow> tagForPeers a b |\<in>| vn_conns n')"
    using assms
  proof (induction ps arbitrary: n)
    case (Cons p ps)
    obtain n1 where n1: "connectAll p ps n = Inr n1" "\<forall>q. net_HasPeer q n1 = net_HasPeer q n"
        "vn_conns n1 = vn_conns n |\<union>| fset_of_list (map (tagForPeers p) ps)"
      using connectAll_ok [of ps n p] Cons.prems(1) by auto
    obtain n' where n': "ConnectInstances ps n1 = Inr n'" "vn_conns n1 |\<subseteq>| vn_conns n'"
        "\<forall>a b. a \<in> set ps \<and> b \<in> set ps \<and> a \<noteq> b \<longrightarrow> tagForPeers a b |\<in>| vn_conns n'"
      using Cons.IH [of n1] Cons.prems n1(2) by auto
    have "tagForPeers p b |\<in>| vn_conns n'" if "b \<in> set ps" for b
      using n'(2) n1(3) that by (auto simp: fset_of_list_elem)
    moreover have "tagForPeers b p = tagForPeers p b" if "b \<in> set ps" for b
      using Cons.prems(2) that by (auto simp: tagForPeers_def)
    ultimately show ?case
      using n1(1,3) n' by auto
  qed simp
  then show ?thesis
    by blast
qed

lemma NewInstance_ok:
  assumes "bs_New defaults_HasBlockBufferSize p opts = Inr r"
  shows "\<exists>inst n'. NewInstance None n p protos opts = Inr (inst, n') \<and> in_Peer inst = p \<and>
    net_HasPeer p n' \<and> (\<forall>q. net_HasPeer q n \<longrightarrow> net_HasPeer q n')"
  using assms by (cases r) (auto simp: NewInstance_def Adapter_def nc_Start_def net_HasPeer_def)

lemma nextInstances_ok:
  assumes "\<forall>p\<in>set ps. \<exists>r. bs_New defaults_HasBlockBufferSize p (ig_bsOptions g) = Inr r"
  shows "\<exists>insts g'. nextInstances (map (\<lambda>p. (None, Some p)) ps) g = Inr (insts, g') \<and> map in_Peer insts = ps \<and>
    ig_seq g' = ig_seq g + int (length ps) \<and> (\<forall>q. q \<in> set ps \<or> net_HasPeer q (ig_net g) \<longrightarrow> net_HasPeer q (ig_net g'))"
  using assms
proof (induction ps arbitrary: g)
  case (Cons p ps)
  then obtain r where "bs_New defaults_HasBlockBufferSize p (ig_bsOptions g) = Inr r"
    by auto
  from NewInstance_ok [OF this, of "ig_net g" "ig_netOptions g"] obtain inst n' where
    n': "NewInstance None (ig_net g) p (ig_netOptions g) (ig_bsOptions g) = Inr (inst, n')" "in_Peer inst = p"
      "net_HasPeer p n'" "\<forall>q. net_HasPeer q (ig_net g) \<longrightarrow> net_HasPeer q n'"
    by blast
  let ?g = "g\<lparr>ig_seq := ig_seq g + 1, ig_net := n'\<rparr>"
  from Cons.IH [of ?g] Cons.prems obtain insts g' where
    "nextInstances (map (\<lambda>p. (None, Some p)) ps) ?g = Inr (insts, g')" "map in_Peer insts = ps"
    "ig_seq g' = ig_seq g + 1 + int (length ps)" "\<forall>q. q \<in> set ps \<or> net_HasPeer q n' \<longrightarrow> net_HasPeer q (ig_net g')"
    by auto
  then show ?case
    using n' by (auto simp: gen_Next_def)
qed simp

text \<open>With distinct identities and options that make a node, all instances asked for are made and connected, each with each.\<close>

theorem Instances_connected:
  assumes "distinct ps" "\<forall>p\<in>set ps. \<exists>r. bs_New defaults_HasBlockBufferSize p (ig_bsOptions g) = Inr r"
  shows "\<exists>insts g'. Instances (map (\<lambda>p. (None, Some p)) ps) g = Inr (insts, g') \<and> map in_Peer insts = ps \<and>
    (\<forall>a b. a \<in> set ps \<and> b \<in> set ps \<and> a \<noteq> b \<longrightarrow> tagForPeers a b |\<in>| vn_conns (ig_net g'))"
proof -
  from nextInstances_ok [OF assms(2)] obtain insts g1 where
    g1: "nextInstances (map (\<lambda>p. (None, Some p)) ps) g = Inr (insts, g1)" "map in_Peer insts = ps"
      "\<forall>q\<in>set ps. net_HasPeer q (ig_net g1)"
    by blast
  from instances_connected [OF g1(3) assms(1)] obtain n' where
    "ConnectInstances ps (ig_net g1) = Inr n'" "\<forall>a b. a \<in> set ps \<and> b \<in> set ps \<and> a \<noteq> b \<longrightarrow> tagForPeers a b |\<in>| vn_conns n'"
    by blast
  then show ?thesis
    using g1(1,2) by (auto simp: Instances_def)
qed

end
