(* ===== verification/Session_Loop.thy ===== *)
theory Session_Loop
  imports Sessions_Props Go_Runs
begin

text \<open>
  The run loop of a session (\<open>run\<close> of \<open>client/internal/session/session.go\<close>) with its two timers, its
  channels and its end. The handlers are those of \<open>Sessions\<close>; each case of the \<open>select\<close> is an event,
  and so is every step of the others: the clock, the timers, callers and the want sender that
  offer operations, the other users of the interest manager.

  A timer is the time at which it fires, when it is set, and a channel with room for one tick. As in
  the Go releases the module is written for, neither \<open>Stop\<close> nor \<open>Reset\<close> takes a tick out of the
  channel. The channel \<open>incoming\<close> holds 128 operations; who cannot send waits, in a goroutine of its
  own or the caller's.
\<close>

section \<open>State\<close>

record ses_loop =
  lp_ses :: ses
  lp_sim :: sim
  lp_now :: int
  lp_idleAt :: "int option"
  lp_idleC :: bool
  lp_searchAt :: "int option"
  lp_searchC :: bool
  lp_waiting :: "ses_op list"
  lp_tickDelayReqs :: "int list"
  lp_cancelled :: bool
  lp_stopped :: bool
  lp_calls :: "ses_call list"

definition incomingSize :: nat where
  "incomingSize = 128"

definition lp_start :: "uint64 \<Rightarrow> int \<Rightarrow> int \<Rightarrow> int \<Rightarrow> sim \<Rightarrow> ses_loop" where
  "lp_start i searchDelay periodicDelay now m =
     \<lparr>lp_ses = ses_New i searchDelay, lp_sim = m, lp_now = now, lp_idleAt = Some (now + searchDelay), lp_idleC = False,
      lp_searchAt = Some (now + periodicDelay), lp_searchC = False, lp_waiting = [], lp_tickDelayReqs = [],
      lp_cancelled = False, lp_stopped = False, lp_calls = []\<rparr>"

definition nonBlockingEnqueue :: "ses_op \<Rightarrow> ses_loop \<Rightarrow> ses_loop" where
  "nonBlockingEnqueue oper l =
     (if length (ses_incoming (lp_ses l)) < incomingSize
      then l\<lparr>lp_ses := (lp_ses l)\<lparr>ses_incoming := ses_incoming (lp_ses l) @ [oper]\<rparr>\<rparr>
      else l\<lparr>lp_waiting := lp_waiting l @ [oper]\<rparr>)"

text \<open>
  A handler runs on the session with \<open>idleTick\<close> cleared, so that afterwards \<open>idleTick\<close> tells whether
  it has reset the timer, and to which delay.
\<close>

definition untouched :: "ses_loop \<Rightarrow> ses" where
  "untouched l = (lp_ses l)\<lparr>idleTick := None\<rparr>"

definition handled :: "ses_call list \<Rightarrow> ses \<Rightarrow> ses_loop \<Rightarrow> ses_loop" where
  "handled calls s l =
     l\<lparr>lp_ses := s, lp_calls := lp_calls l @ calls,
       lp_idleAt := (case idleTick s of None \<Rightarrow> lp_idleAt l | Some d \<Rightarrow> Some (lp_now l + d))\<rparr>"

section \<open>The cases of the loop\<close>

definition run_incoming :: "ses_loop \<Rightarrow> ses_loop option" where
  "run_incoming l =
     (if lp_stopped l \<or> ses_incoming (lp_ses l) = [] then None
      else let (calls, m, s) = ses_next (lp_now l) (lp_sim l) (untouched l)
           in Some (handled calls s (l\<lparr>lp_sim := m\<rparr>)))"

definition run_idleTick :: "ses_loop \<Rightarrow> ses_loop option" where
  "run_idleTick l =
     (if lp_stopped l \<or> \<not> lp_idleC l then None
      else let (calls, s) = ses_broadcast (lp_now l) None (untouched l)
           in Some (handled calls s (l\<lparr>lp_idleC := False\<rparr>)))"

text \<open>\<open>i\<close> is the random index and \<open>d\<close> the next delay of the periodic search.\<close>

definition run_periodicSearch :: "cid order \<Rightarrow> nat \<Rightarrow> int \<Rightarrow> ses_loop \<Rightarrow> ses_loop option" where
  "run_periodicSearch ord i d l =
     (if lp_stopped l \<or> \<not> lp_searchC l then None
      else let calls = handlePeriodicSearch ord i (lp_ses l)
           in Some (l\<lparr>lp_searchC := False, lp_calls := lp_calls l @ calls,
                lp_searchAt := (if SES_PeriodicSearchReset \<in> set calls then Some (lp_now l + d) else lp_searchAt l)\<rparr>))"

definition run_tickDelay :: "ses_loop \<Rightarrow> ses_loop option" where
  "run_tickDelay l =
     (if lp_stopped l then None
      else case lp_tickDelayReqs l of
             [] \<Rightarrow> None
           | d # ds \<Rightarrow> Some (l\<lparr>lp_ses := (lp_ses l)\<lparr>baseTickDelay := d\<rparr>, lp_tickDelayReqs := ds\<rparr>))"

definition run_shutdown :: "peer order \<Rightarrow> ses_loop \<Rightarrow> ses_loop option" where
  "run_shutdown ord l =
     (if lp_stopped l \<or> \<not> lp_cancelled l then None
      else let (calls, s) = handleShutdown ord (lp_ses l)
           in Some (l\<lparr>lp_ses := s, lp_calls := lp_calls l @ calls, lp_idleAt := None, lp_stopped := True\<rparr>))"

section \<open>The others\<close>

text \<open>A round of the want sender; what it offers goes into the channel as long as there is room.\<close>

definition run_sender :: "sws_env \<Rightarrow> ses_loop \<Rightarrow> ses_loop option" where
  "run_sender env l =
     (if lp_stopped l then None
      else let (calls, s) = ses_senderRound env (lp_ses l);
               offered = drop (length (ses_incoming (lp_ses l))) (ses_incoming s)
           in Some (fold nonBlockingEnqueue offered
                (l\<lparr>lp_ses := s\<lparr>ses_incoming := ses_incoming (lp_ses l)\<rparr>, lp_calls := lp_calls l @ calls\<rparr>)))"

definition remove_nth :: "nat \<Rightarrow> 'a list \<Rightarrow> 'a list" where
  "remove_nth i xs = take i xs @ drop (Suc i) xs"

text \<open>Who waits to send gives up when the session has ended; a request for blocks also when its caller has.\<close>

datatype lp_event =
    LE_Incoming
  | LE_IdleTick
  | LE_Search "cid order" nat int
  | LE_TickDelay
  | LE_Shutdown "peer order"
  | LE_Time int
  | LE_IdleFires
  | LE_SearchFires
  | LE_Offer ses_op
  | LE_Sends nat
  | LE_GivesUp nat
  | LE_Changes "sws_change list"
  | LE_Sender sws_env
  | LE_SetBaseTickDelay int
  | LE_Interests sim
  | LE_Cancel

fun lp_step :: "lp_event \<Rightarrow> ses_loop \<Rightarrow> ses_loop option" where
  "lp_step LE_Incoming l = run_incoming l"
| "lp_step LE_IdleTick l = run_idleTick l"
| "lp_step (LE_Search ord i d) l = run_periodicSearch ord i d l"
| "lp_step LE_TickDelay l = run_tickDelay l"
| "lp_step (LE_Shutdown ord) l = run_shutdown ord l"
| "lp_step (LE_Time d) l = (if d < 0 then None else Some (l\<lparr>lp_now := lp_now l + d\<rparr>))"
| "lp_step LE_IdleFires l =
     (case lp_idleAt l of
        None \<Rightarrow> None
      | Some t \<Rightarrow> if t \<le> lp_now l then Some (l\<lparr>lp_idleAt := None, lp_idleC := True\<rparr>) else None)"
| "lp_step LE_SearchFires l =
     (case lp_searchAt l of
        None \<Rightarrow> None
      | Some t \<Rightarrow> if t \<le> lp_now l then Some (l\<lparr>lp_searchAt := None, lp_searchC := True\<rparr>) else None)"
| "lp_step (LE_Offer oper) l = Some (nonBlockingEnqueue oper l)"
| "lp_step (LE_Sends i) l =
     (if i < length (lp_waiting l) \<and> length (ses_incoming (lp_ses l)) < incomingSize
      then Some (nonBlockingEnqueue (lp_waiting l ! i) (l\<lparr>lp_waiting := remove_nth i (lp_waiting l)\<rparr>))
      else None)"
| "lp_step (LE_GivesUp i) l =
     (if i < length (lp_waiting l) \<and> (lp_cancelled l \<or> (case lp_waiting l ! i of opWant _ \<Rightarrow> True | _ \<Rightarrow> False))
      then Some (l\<lparr>lp_waiting := remove_nth i (lp_waiting l)\<rparr>) else None)"
| "lp_step (LE_Changes chs) l = Some (l\<lparr>lp_ses := (lp_ses l)\<lparr>ses_changes := ses_changes (lp_ses l) @ chs\<rparr>\<rparr>)"
| "lp_step (LE_Sender env) l = run_sender env l"
| "lp_step (LE_SetBaseTickDelay d) l = Some (l\<lparr>lp_tickDelayReqs := lp_tickDelayReqs l @ [d]\<rparr>)"
| "lp_step (LE_Interests m) l = Some (l\<lparr>lp_sim := m\<rparr>)"
| "lp_step LE_Cancel l = Some (l\<lparr>lp_cancelled := True\<rparr>)"

section \<open>What the handlers do to the loop\<close>

definition stays :: "ses \<Rightarrow> ses \<Rightarrow> ses_call list \<Rightarrow> bool" where
  "stays x x' calls \<longleftrightarrow> (\<exists>ops. ses_sw x' = fold sw_step ops (ses_sw x)) \<and> SES_RemoveSession \<notin> set calls"

lemma sw_one: "\<exists>ops. sw_step op sw = fold sw_step ops sw"
  by (rule exI [of _ "[op]"]) simp

lemma broadcast_stays:
  assumes "ses_broadcast now wants x = (calls, x')"
  shows "stays x x' calls" "ses_incoming x' = ses_incoming x" "idleTick x' \<noteq> None"
proof -
  have "ses_sw x' = (case wants of None \<Rightarrow> sw_step (SW_PrepareBroadcast now) (ses_sw x) | Some ks \<Rightarrow> fold sw_step [] (ses_sw x))"
    using assms by (cases wants) (auto simp: ses_broadcast_def Let_def split: prod.splits if_splits)
  then have "\<exists>ops. ses_sw x' = fold sw_step ops (ses_sw x)"
    using sw_one by (metis option.case_eq_if)
  moreover have "SES_RemoveSession \<notin> set calls"
    using assms by (cases wants) (auto simp: ses_broadcast_def Let_def split: prod.splits if_splits)
  ultimately show "stays x x' calls"
    by (simp add: stays_def)
  show "ses_incoming x' = ses_incoming x" "idleTick x' \<noteq> None"
    using assms by (cases wants; auto simp: ses_broadcast_def resetIdleTick_def Let_def split: prod.splits if_splits)+
qed

lemma handleReceive_stays:
  assumes "handleReceive now ks m x = (m', x')"
  shows "stays x x' []" "ses_incoming x' = ses_incoming x"
proof -
  have "ses_sw x' = sw_step (SW_Received now ks) (ses_sw x)"
    using assms by (auto simp: handleReceive_def Let_def split: prod.splits if_splits)
  then show "stays x x' []"
    using sw_one by (metis stays_def empty_iff list.set(1))
  show "ses_incoming x' = ses_incoming x"
    using assms by (auto simp: handleReceive_def Let_def split: prod.splits if_splits)
qed

lemma wantBlocks_stays:
  assumes "ses_wantBlocks now ks m x = (calls, m', x')"
  shows "stays x x' calls" "ses_incoming x' = ses_incoming x"
proof -
  have "ses_sw x' \<in> (\<lambda>ops. fold sw_step ops (ses_sw x)) ` {[], [SW_Requested ks], [SW_GetNextWants now], [SW_Requested ks, SW_GetNextWants now]}"
    using assms by (auto simp: ses_wantBlocks_def Let_def split: prod.splits if_splits)
  moreover have "SES_RemoveSession \<notin> set calls"
    using assms by (auto simp: ses_wantBlocks_def Let_def split: prod.splits if_splits)
  ultimately show "stays x x' calls"
    unfolding stays_def by blast
  show "ses_incoming x' = ses_incoming x"
    using assms by (auto simp: ses_wantBlocks_def Let_def split: prod.splits if_splits)
qed

lemma ses_run_stays:
  assumes "ses_run now oper m x = (calls, m', x')"
  shows "stays x x' calls \<and> ses_incoming x' = ses_incoming x"
proof (cases oper)
  case (opReceive ks)
  then show ?thesis
    using assms handleReceive_stays [of now ks m x] by (auto split: prod.splits)
next
  case (opWant ks)
  then show ?thesis
    using assms wantBlocks_stays [of now ks m x] by simp
next
  case (opBroadcast ks)
  then show ?thesis
    using assms broadcast_stays [of now "Some ks" x] by (auto split: prod.splits)
next
  case (opCancel ks)
  then show ?thesis
    using assms sw_one [of "SW_CancelPending ks" "ses_sw x"] by (auto simp: stays_def)
next
  case (opWantsSent ks)
  then show ?thesis
    using assms sw_one [of "SW_WantsSent now ks" "ses_sw x"] by (auto simp: stays_def)
qed

lemma onCalls_stay:
  "SES_RemoveSession \<notin> set (fst acc) \<Longrightarrow> SES_RemoveSession \<notin> set (fst (fold ses_onCall cs acc)) \<and>
   ses_sw (snd (fold ses_onCall cs acc)) = ses_sw (snd acc)"
proof (induction cs arbitrary: acc)
  case (Cons call cs)
  have "SES_RemoveSession \<notin> set (fst (ses_onCall call acc)) \<and> ses_sw (snd (ses_onCall call acc)) = ses_sw (snd acc)"
    using Cons.prems by (cases acc; cases call) (auto simp: onPeersExhausted_def onWantsSent_def)
  then show ?case
    using Cons.IH [of "ses_onCall call acc"] by simp
qed simp

lemma senderRound_stays:
  assumes "ses_senderRound env x = (calls, x')"
  shows "stays x x' calls"
proof (cases "ses_changes x")
  case Nil
  then show ?thesis
    using assms by (auto simp: ses_senderRound_def stays_def intro: exI [of _ "[]"])
next
  case (Cons ch chan)
  obtain rest cs sws' where r: "sws_round env ch chan (ses_sws x) = (rest, cs, sws')"
    by (rule prod_cases3)
  then have "fold ses_onCall cs ([], x\<lparr>ses_changes := rest, ses_sws := sws'\<rparr>) = (calls, x')"
    using assms Cons by (simp add: ses_senderRound_def)
  with onCalls_stay [of "([], x\<lparr>ses_changes := rest, ses_sws := sws'\<rparr>)" cs] show ?thesis
    by (auto simp: stays_def intro: exI [of _ "[]"])
qed

section \<open>The loop's invariant\<close>

definition session_history :: "ses_loop \<Rightarrow> bool" where
  "session_history l \<longleftrightarrow> (\<exists>ops. ses_sw (lp_ses l) = fold sw_step ops (newSessionWants broadcastLiveWantsLimit))"

definition lp_inv :: "ses_loop \<Rightarrow> bool" where
  "lp_inv l \<longleftrightarrow> session_history l \<and> length (ses_incoming (lp_ses l)) \<le> incomingSize \<and>
     (\<not> lp_stopped l \<longrightarrow> lp_idleAt l \<noteq> None \<or> lp_idleC l) \<and> (lp_stopped l \<longrightarrow> lp_cancelled l \<and> lp_idleAt l = None) \<and>
     count_list (lp_calls l) SES_RemoveSession = (if lp_stopped l then 1 else 0)"

lemma history_stays: "stays (lp_ses l) x calls \<Longrightarrow> session_history l \<Longrightarrow> session_history (l\<lparr>lp_ses := x\<rparr>)"
  by (auto simp: stays_def session_history_def simp flip: fold_append) (metis fold_append comp_apply)

lemma lp_inv_start: "lp_inv (lp_start i sd pd now m)"
  by (auto simp: lp_inv_def lp_start_def session_history_def ses_New_def intro: exI [of _ "[]"])

lemma enqueue_frame [simp]:
  "ses_sw (lp_ses (nonBlockingEnqueue oper l)) = ses_sw (lp_ses l)" "lp_idleAt (nonBlockingEnqueue oper l) = lp_idleAt l"
  "lp_idleC (nonBlockingEnqueue oper l) = lp_idleC l" "lp_stopped (nonBlockingEnqueue oper l) = lp_stopped l"
  "lp_cancelled (nonBlockingEnqueue oper l) = lp_cancelled l" "lp_calls (nonBlockingEnqueue oper l) = lp_calls l"
  "lp_searchAt (nonBlockingEnqueue oper l) = lp_searchAt l" "lp_searchC (nonBlockingEnqueue oper l) = lp_searchC l"
  "lp_now (nonBlockingEnqueue oper l) = lp_now l"
  by (simp_all add: nonBlockingEnqueue_def)

lemma lp_inv_enqueue: "lp_inv l \<Longrightarrow> lp_inv (nonBlockingEnqueue oper l)"
  unfolding lp_inv_def session_history_def by (auto simp: nonBlockingEnqueue_def)

lemma lp_inv_enqueues: "lp_inv l \<Longrightarrow> lp_inv (fold nonBlockingEnqueue opers l)"
  by (induction opers arbitrary: l) (simp_all add: lp_inv_enqueue)

lemma lp_inv_handled:
  assumes inv: "lp_inv l" "\<not> lp_stopped l" and x: "stays (lp_ses l) x calls" "length (ses_incoming x) \<le> incomingSize"
    and l': "lp_ses l' = x" "lp_calls l' = lp_calls l @ calls" "lp_stopped l' = lp_stopped l"
      "lp_idleAt l' \<noteq> None \<or> lp_idleC l'"
  shows "lp_inv l'"
proof -
  have "session_history l'"
    using history_stays [OF x(1)] inv(1) l'(1) by (simp add: lp_inv_def session_history_def)
  then show ?thesis
    using inv x l' by (simp add: lp_inv_def stays_def count_notin)
qed

lemma stays_untouched [simp]: "stays (untouched l) x calls = stays (lp_ses l) x calls"
  by (simp add: stays_def untouched_def)

lemma lp_inv_incoming:
  assumes inv: "lp_inv l" and r: "run_incoming l = Some l'"
  shows "lp_inv l'"
proof -
  obtain oper rest where o: "\<not> lp_stopped l" "ses_incoming (lp_ses l) = oper # rest"
    using r by (auto simp: run_incoming_def neq_Nil_conv split: if_splits)
  obtain calls m x where h: "ses_run (lp_now l) oper (lp_sim l) ((untouched l)\<lparr>ses_incoming := rest\<rparr>) = (calls, m, x)"
    by (rule prod_cases3)
  then have l': "l' = handled calls x (l\<lparr>lp_sim := m\<rparr>)"
    using r o by (simp add: run_incoming_def ses_next_def untouched_def)
  from ses_run_stays [OF h] have "stays (lp_ses l) x calls" "ses_incoming x = rest"
    by (simp_all add: stays_def untouched_def)
  then show ?thesis
    using inv o by (intro lp_inv_handled [OF inv o(1)]) (auto simp: l' handled_def lp_inv_def split: option.split)
qed

lemma lp_inv_idleTick:
  assumes inv: "lp_inv l" and r: "run_idleTick l = Some l'"
  shows "lp_inv l'"
proof -
  obtain calls x where h: "ses_broadcast (lp_now l) None (untouched l) = (calls, x)"
    by fastforce
  have o: "\<not> lp_stopped l" "l' = handled calls x (l\<lparr>lp_idleC := False\<rparr>)"
    using r h by (auto simp: run_idleTick_def split: if_splits)
  show ?thesis
    using inv broadcast_stays [OF h]
    by (intro lp_inv_handled [OF inv o(1)]) (auto simp: o handled_def lp_inv_def stays_def untouched_def split: option.split)
qed

lemma lp_inv_search:
  assumes inv: "lp_inv l" and r: "run_periodicSearch ord i d l = Some l'"
  shows "lp_inv l'"
proof -
  have "SES_RemoveSession \<notin> set (handlePeriodicSearch ord i (lp_ses l))"
    by (simp add: handlePeriodicSearch_def Let_def)
  then show ?thesis
    using inv r by (auto simp: run_periodicSearch_def Let_def lp_inv_def session_history_def count_notin split: if_splits)
qed

lemma lp_inv_shutdown:
  assumes inv: "lp_inv l" and r: "run_shutdown ord l = Some l'"
  shows "lp_inv l'"
proof -
  have "SES_RemoveSession \<notin> set (map SES_Tagger ts)" for ts
    by auto
  then show ?thesis
    using inv r by (auto simp: run_shutdown_def handleShutdown_def Let_def lp_inv_def session_history_def count_notin split: if_splits)
qed

lemma lp_inv_sender:
  assumes inv: "lp_inv l" and r: "run_sender env l = Some l'"
  shows "lp_inv l'"
proof -
  obtain calls x where h: "ses_senderRound env (lp_ses l) = (calls, x)"
    by fastforce
  let ?l = "l\<lparr>lp_ses := x\<lparr>ses_incoming := ses_incoming (lp_ses l)\<rparr>, lp_calls := lp_calls l @ calls\<rparr>"
  have o: "\<not> lp_stopped l" "l' = fold nonBlockingEnqueue (drop (length (ses_incoming (lp_ses l))) (ses_incoming x)) ?l"
    using r h by (auto simp: run_sender_def split: if_splits)
  have "stays (lp_ses l) (x\<lparr>ses_incoming := ses_incoming (lp_ses l)\<rparr>) calls"
    using senderRound_stays [OF h] by (simp add: stays_def)
  then have "lp_inv ?l"
    using inv o(1) by (intro lp_inv_handled [OF inv o(1)]) (auto simp: lp_inv_def)
  then show ?thesis
    unfolding o(2) by (rule lp_inv_enqueues)
qed

lemma lp_inv_frame:
  assumes "lp_inv l" "lp_ses l' = lp_ses l" "lp_idleAt l' = lp_idleAt l" "lp_idleC l' = lp_idleC l"
    "lp_stopped l' = lp_stopped l" "lp_cancelled l \<longrightarrow> lp_cancelled l'" "lp_calls l' = lp_calls l"
  shows "lp_inv l'"
  using assms by (auto simp: lp_inv_def session_history_def)

lemma lp_inv_step:
  assumes inv: "lp_inv l" and r: "lp_step x l = Some l'"
  shows "lp_inv l'"
proof (cases x)
  case LE_TickDelay
  then show ?thesis
    using inv r by (auto simp: run_tickDelay_def lp_inv_def session_history_def split: if_splits list.splits)
next
  case LE_IdleFires
  then show ?thesis
    using inv r by (auto simp: lp_inv_def session_history_def split: if_splits option.splits)
next
  case (LE_Sends i)
  then show ?thesis
    using inv r by (auto intro!: lp_inv_enqueue lp_inv_frame [OF inv] split: if_splits)
next
  case (LE_Changes chs)
  then show ?thesis
    using inv r by (auto simp: lp_inv_def session_history_def)
next
  case (LE_Time d)
  then show ?thesis
    using r by (intro lp_inv_frame [OF inv]) (auto split: if_splits)
next
  case LE_SearchFires
  then show ?thesis
    using r by (intro lp_inv_frame [OF inv]) (auto split: if_splits option.splits)
next
  case (LE_GivesUp i)
  then show ?thesis
    using r by (intro lp_inv_frame [OF inv]) (auto split: if_splits)
next
  case (LE_SetBaseTickDelay d)
  then show ?thesis
    using r by (intro lp_inv_frame [OF inv]) auto
next
  case (LE_Interests m)
  then show ?thesis
    using r by (intro lp_inv_frame [OF inv]) auto
next
  case LE_Cancel
  then show ?thesis
    using r by (intro lp_inv_frame [OF inv]) auto
next
  case (LE_Offer oper)
  then show ?thesis
    using r lp_inv_enqueue [OF inv] by auto
qed (use r in \<open>simp_all add: lp_inv_incoming [OF inv] lp_inv_idleTick [OF inv] lp_inv_search [OF inv] lp_inv_shutdown [OF inv]
    lp_inv_sender [OF inv]\<close>)

interpretation loop: event_system lp_step lp_inv
  by unfold_locales (rule lp_inv_step)

section \<open>A session keeps asking\<close>

text \<open>The next idle tick, when nothing comes in before it.\<close>

definition tick_now :: "ses_loop \<Rightarrow> lp_event list" where
  "tick_now l =
     (if lp_idleC l then [LE_IdleTick]
      else case lp_idleAt l of
             None \<Rightarrow> []
           | Some t \<Rightarrow> [LE_Time (max 0 (t - lp_now l)), LE_IdleFires, LE_IdleTick])"

definition asked :: "sessionWants \<Rightarrow> cid list" where
  "asked sw = take (nat broadcastLiveWantsLimit) (filter (live sw) (liveWantsOrder sw))"

lemma loops_keep_limit:
  "broadcastLimit (snd (broadcastLoop now cs found sw)) = broadcastLimit sw"
  "broadcastLimit (snd (moveWants now n sw)) = broadcastLimit sw"
  "broadcastLimit (fold (wantSent now) ks sw) = broadcastLimit sw"
  "broadcastLimit (snd (snd (fold (blockReceived now) ks acc))) = broadcastLimit (snd (snd acc))"
proof -
  show "broadcastLimit (snd (broadcastLoop now cs found sw)) = broadcastLimit sw"
    by (induction cs arbitrary: found sw) (auto simp: Let_def split: option.splits)
  show "broadcastLimit (snd (moveWants now n sw)) = broadcastLimit sw"
    by (induction n arbitrary: sw) (simp_all add: case_prod_beta Let_def)
  show "broadcastLimit (fold (wantSent now) ks sw) = broadcastLimit sw"
    by (induction ks arbitrary: sw) (simp_all add: wantSent_def)
  show "broadcastLimit (snd (snd (fold (blockReceived now) ks acc))) = broadcastLimit (snd (snd acc))"
    by (induction ks arbitrary: acc) (simp_all add: blockReceived_def case_prod_beta)
qed

lemma history_limit: "broadcastLimit (fold sw_step ops sw) = broadcastLimit sw"
proof (induction ops arbitrary: sw)
  case (Cons op ops)
  have "broadcastLimit (sw_step op sw) = broadcastLimit sw"
    by (cases op) (simp_all add: BlocksRequested_def GetNextWants_def WantsSent_def BlocksReceived_def PrepareBroadcast_def
        sw_CancelPending_def cleanOrder_def loops_keep_limit case_prod_beta Let_def)
  then show ?case
    using Cons.IH by simp
qed simp

lemma history_broadcast:
  assumes "session_history l"
  shows "fst (PrepareBroadcast now (ses_sw (lp_ses l))) = asked (ses_sw (lp_ses l))"
    "HasLiveWants (ses_sw (lp_ses l)) \<Longrightarrow> asked (ses_sw (lp_ses l)) \<noteq> []"
proof -
  let ?sw = "ses_sw (lp_ses l)"
  have lim: "broadcastLimit ?sw = broadcastLiveWantsLimit" and inv: "sw_inv ?sw"
    using assms sw_inv_run by (auto simp: session_history_def history_limit newSessionWants_def)
  then show "fst (PrepareBroadcast now ?sw) = asked ?sw"
    by (simp add: PrepareBroadcast_def asked_def broadcastLoop_spec broadcastLiveWantsLimit_def Let_def)
  assume "HasLiveWants ?sw"
  then obtain c where "c |\<in>| fmdom (liveWants ?sw)"
    by (cases "fmdom (liveWants ?sw)") (auto simp: HasLiveWants_def fcard_fempty)
  then have "c \<in> set (filter (live ?sw) (liveWantsOrder ?sw))"
    using inv by (auto simp: sw_inv_def fmlookup_dom_iff)
  then have "filter (live ?sw) (liveWantsOrder ?sw) \<noteq> []"
    by (metis empty_iff empty_set)
  then show "asked ?sw \<noteq> []"
    by (simp only: asked_def take_eq_Nil broadcastLiveWantsLimit_def) simp
qed

lemma live_kept: "HasLiveWants (snd (PrepareBroadcast now sw)) = HasLiveWants sw"
proof -
  have "fmdom (liveWants (snd (broadcastLoop now cs found sw))) = fmdom (liveWants sw)" for cs found
    by (induction cs arbitrary: found sw) (auto simp: Let_def fmdom_notI split: option.splits dest: fmdomI)
  then show ?thesis
    by (simp add: HasLiveWants_def PrepareBroadcast_def)
qed


text \<open>Once the loop has stopped nothing makes the session call anything.\<close>

lemma ended_step:
  assumes "lp_stopped k \<and> lp_calls k = cs" "lp_step x k = Some k'"
  shows "lp_stopped k' \<and> lp_calls k' = cs"
  using assms by (cases x) (auto simp: run_incoming_def run_idleTick_def run_periodicSearch_def run_tickDelay_def
      run_shutdown_def run_sender_def split: if_splits option.splits)

interpretation ended: event_system lp_step "\<lambda>k. lp_stopped k \<and> lp_calls k = cs" for cs
  by unfold_locales (rule ended_step)

text \<open>
  C27. A session ends once and for good. In any state its loop reaches: when its context is
  cancelled the loop can stop, and stopping unprotects the peers, unregisters the session with
  the peer manager and last removes it from the session manager; after that no goroutine makes
  the session call anything again; and the session is removed once, only when it has stopped.
\<close>

theorem session_ends:
  assumes "run_events lp_step xs (lp_start i searchDelay periodicDelay now m) = Some l"
  shows "(lp_cancelled l \<and> \<not> lp_stopped l \<longrightarrow>
      (\<exists>l' ts. lp_step (LE_Shutdown ord) l = Some l' \<and> lp_stopped l' \<and>
         lp_calls l' = lp_calls l @ map SES_Tagger ts @ [SES_UnregisterSession, SES_RemoveSession])) \<and>
    (lp_stopped l \<longrightarrow> (\<forall>ys l'. run_events lp_step ys l = Some l' \<longrightarrow> lp_stopped l' \<and> lp_calls l' = lp_calls l)) \<and>
    count_list (lp_calls l) SES_RemoveSession = (if lp_stopped l then 1 else 0)"
proof -
  have inv: "lp_inv l"
    using loop.run_inv [OF lp_inv_start assms] .
  have quiet: "lp_stopped l' \<and> lp_calls l' = lp_calls l" if "lp_stopped l" "run_events lp_step ys l = Some l'" for ys l'
    using ended.run_inv [OF _ that(2), of "lp_calls l"] that(1) by simp
  have "\<exists>l' ts. lp_step (LE_Shutdown ord) l = Some l' \<and> lp_stopped l' \<and>
      lp_calls l' = lp_calls l @ map SES_Tagger ts @ [SES_UnregisterSession, SES_RemoveSession]"
    if "lp_cancelled l" "\<not> lp_stopped l"
    using that by (auto simp: run_shutdown_def handleShutdown_def)
  then show ?thesis
    using inv quiet unfolding lp_inv_def by blast
qed

section \<open>The timers\<close>

text \<open>
  The periodic search. A tick that finds no live want does not set the timer again, and
  nothing else does: from then on the session never searches periodically, whatever it is asked for.
\<close>

definition search_dead :: "ses_loop \<Rightarrow> bool" where
  "search_dead l \<longleftrightarrow> lp_searchAt l = None \<and> \<not> lp_searchC l"

lemma enqueues_search [simp]:
  "lp_searchAt (fold nonBlockingEnqueue opers l) = lp_searchAt l" "lp_searchC (fold nonBlockingEnqueue opers l) = lp_searchC l"
  by (induction opers arbitrary: l) simp_all

lemma search_dead_step:
  assumes "search_dead l" "lp_step x l = Some l'"
  shows "search_dead l'"
  using assms by (cases x) (auto simp: search_dead_def run_incoming_def run_idleTick_def run_periodicSearch_def run_tickDelay_def
      run_shutdown_def run_sender_def handled_def Let_def split: if_splits option.splits prod.splits list.splits)

interpretation no_search: event_system lp_step search_dead
  by unfold_locales (rule search_dead_step)

theorem search_never_again:
  assumes "run_periodicSearch ord i d l = Some l1" "\<not> HasLiveWants (ses_sw (lp_ses l))" "lp_searchAt l = None"
    and "run_events lp_step xs l1 = Some l'"
  shows "run_periodicSearch ord' i' d' l' = None"
proof -
  have "search_dead l1"
    using assms(1-3) by (auto simp: run_periodicSearch_def handlePeriodicSearch_def RandomLiveWant_def HasLiveWants_def search_dead_def
        Let_def split: if_splits)
  from no_search.run_inv [OF this assms(4)] show ?thesis
    by (simp add: search_dead_def run_periodicSearch_def)
qed

section \<open>A small session\<close>

definition example_loop :: ses_loop where
  "example_loop = lp_start 1 1000 5000 0 sim_New"

definition asking_run :: "lp_event list" where
  "asking_run = [LE_Offer (opWant [''a'', ''b'']), LE_Incoming]"

lemma asking_run_ends:
  "\<exists>l. run_events lp_step asking_run example_loop = Some l \<and> \<not> lp_stopped l \<and> lp_idleAt l = Some 1000 \<and> \<not> lp_idleC l \<and> lp_now l = 0 \<and>
     asked (ses_sw (lp_ses l)) = [''a'', ''b''] \<and> consecutiveTicks (lp_ses l) = 0 \<and> HasLiveWants (ses_sw (lp_ses l)) \<and>
     lp_calls l = [SES_BroadcastWantHaves [''a'', ''b'']]"
proof -
  have "case run_events lp_step asking_run example_loop of None \<Rightarrow> False | Some l \<Rightarrow>
     \<not> lp_stopped l \<and> lp_idleAt l = Some 1000 \<and> \<not> lp_idleC l \<and> lp_now l = 0 \<and>
     asked (ses_sw (lp_ses l)) = [''a'', ''b''] \<and> consecutiveTicks (lp_ses l) = 0 \<and> HasLiveWants (ses_sw (lp_ses l)) \<and>
     lp_calls l = [SES_BroadcastWantHaves [''a'', ''b'']]"
    by code_simp
  then show ?thesis
    by (rule some_result)
qed


theorem session_ends_witness:
  "\<exists>l. run_events lp_step (asking_run @ [LE_Cancel, LE_Shutdown key_order]) example_loop = Some l \<and> lp_stopped l \<and>
     count_list (lp_calls l) SES_RemoveSession = 1 \<and> (\<forall>ys l'. run_events lp_step ys l = Some l' \<longrightarrow> lp_calls l' = lp_calls l)"
proof -
  from asking_run_ends obtain l where l: "run_events lp_step asking_run example_loop = Some l" "\<not> lp_stopped l"
    by blast
  then obtain l' where l': "run_events lp_step (asking_run @ [LE_Cancel, LE_Shutdown key_order]) example_loop = Some l'" "lp_stopped l'"
    by (auto simp: run_events_append run_shutdown_def handleShutdown_def)
  from session_ends [OF l'(1) [unfolded example_loop_def]] show ?thesis
    using l' by auto
qed

text \<open>
  A tick that was in the channel when a block came in is not taken back: the session broadcasts
  and searches for providers at the very time it has received a block.
\<close>

theorem stale_tick:
  "\<exists>l. run_events lp_step (asking_run @ [LE_Time 1000, LE_IdleFires, LE_Offer (opReceive [''a'']), LE_Incoming, LE_IdleTick]) example_loop = Some l \<and>
     lp_now l = 1000 \<and> lt_count (latencyTrkr (lp_ses l)) = 1 \<and>
     lp_calls l = [SES_BroadcastWantHaves [''a'', ''b''], SES_BroadcastWantHaves [''b''], SES_FindMorePeers ''b'']"
proof -
  have "case run_events lp_step (asking_run @ [LE_Time 1000, LE_IdleFires, LE_Offer (opReceive [''a'']), LE_Incoming, LE_IdleTick]) example_loop of
      None \<Rightarrow> False | Some l \<Rightarrow> lp_now l = 1000 \<and> lt_count (latencyTrkr (lp_ses l)) = 1 \<and>
     lp_calls l = [SES_BroadcastWantHaves [''a'', ''b''], SES_BroadcastWantHaves [''b''], SES_FindMorePeers ''b'']"
    by code_simp
  then show ?thesis
    by (rule some_result)
qed

text \<open>A session that is asked for something only after its first search tick never searches periodically.\<close>

theorem search_dies:
  "\<exists>l. run_events lp_step ([LE_Time 5000, LE_SearchFires, LE_Search key_order 0 5000] @ asking_run) example_loop = Some l \<and>
     HasLiveWants (ses_sw (lp_ses l)) \<and> search_dead l"
proof -
  have "case run_events lp_step ([LE_Time 5000, LE_SearchFires, LE_Search key_order 0 5000] @ asking_run) example_loop of
      None \<Rightarrow> False | Some l \<Rightarrow> HasLiveWants (ses_sw (lp_ses l)) \<and> search_dead l"
    by code_simp
  then show ?thesis
    by (rule some_result)
qed

end
